(* ===== verification/Prelude.thy ===== *)
theory Prelude
  imports Main "HOL-Library.Signed_Division" "HOL-Library.Word"
begin

text \<open>
  Shared vocabulary of the development: C integer arithmetic on \<open>int\<close>
  (division truncates towards zero: \<open>sdiv\<close> and \<open>smod\<close> of
  \<open>HOL-Library.Signed_Division\<close>), conversion to \<open>short\<close>, counting loops and the
  rules by which the component theories reason about them.

  \<^item> \<open>to_short\<close> is the conversion of an \<open>int\<close> to a 16-bit two's complement \<open>short\<close>,
    \<open>to_ushort\<close> the one to \<open>unsigned short\<close>, \<open>to_uchar\<close> the one to
    \<open>unsigned char\<close>; \<open>to_int32\<close> is what a product too large for an \<open>int\<close> leaves of itself (C does
    not define it; the compilers in use wrap around).
  \<^item> \<open>for_range a b f s\<close> is \<open>for (i = a; i < b; i++) s = f(i, s)\<close>.
  \<^item> \<open>array_set a i v\<close> is \<open>a[i] = v\<close> on a C array: a store outside it destroys the array.
  \<^item> The collections \<open>c_arith\<close> and \<open>loop_rules\<close> hold the facts about both that the
    component proofs use.
\<close>

unbundle bit_operations_syntax

named_theorems c_arith \<open>C division and conversions on the values the programs use\<close>
named_theorems loop_rules \<open>unfolding and invariant rules of counting loops\<close>

subsection \<open>C integers\<close>

definition to_short :: "int \<Rightarrow> int" where
  "to_short v = signed_take_bit 15 v"

definition to_ushort :: "int \<Rightarrow> int" where
  "to_ushort v = take_bit 16 v"

definition to_uchar :: "int \<Rightarrow> int" where
  "to_uchar v = take_bit 8 v"

definition to_int32 :: "int \<Rightarrow> int" where
  "to_int32 v = signed_take_bit 31 v"

lemma to_int32_eq_self: "- (2 ^ 31) \<le> v \<Longrightarrow> v < 2 ^ 31 \<Longrightarrow> to_int32 v = v"
  unfolding to_int32_def by (rule signed_take_bit_int_eq_self)

lemma to_short_idem [simp]: "to_short (to_short v) = to_short v"
  by (simp add: to_short_def)

lemma to_short_eq_self: "- 32768 \<le> v \<Longrightarrow> v < 32768 \<Longrightarrow> to_short v = v"
  by (simp add: to_short_def signed_take_bit_int_eq_self)

lemma to_short_bounds: "- 32768 \<le> to_short v \<and> to_short v < 32768"
  using signed_take_bit_int_greater_eq_minus_exp [of 15 v]
    signed_take_bit_int_less_exp [of 15 v]
  by (simp add: to_short_def)

lemma sdiv_nonneg [c_arith]: "0 \<le> a \<Longrightarrow> 0 \<le> b \<Longrightarrow> a sdiv b = a div b" for a b :: int
  by (cases "b = 0"; cases "a = 0") (simp_all add: signed_divide_int_def)

lemma smod_nonneg [c_arith]: "0 \<le> a \<Longrightarrow> 0 \<le> b \<Longrightarrow> a smod b = a mod b" for a b :: int
  by (cases "b = 0"; cases "a = 0") (simp_all add: signed_modulo_int_def)

lemma drop_bit_int [c_arith]: "drop_bit n (a :: int) = a div 2 ^ n"
  by (simp add: drop_bit_eq_div)

lemma and_mask_int [c_arith]:
  "(a :: int) AND 31 = a mod 32" "(a :: int) AND 63 = a mod 64" "(a :: int) AND 255 = a mod 256"
  using take_bit_eq_mask [of 5 a] take_bit_eq_mask [of 6 a] take_bit_eq_mask [of 8 a]
  by (simp_all add: take_bit_eq_mod mask_eq_exp_minus_1)

text \<open>Packing bit fields: an OR of disjoint fields is a sum.\<close>

lemma push_bit_or:
  fixes a b :: int
  assumes "0 \<le> b" and "b < 2 ^ n"
  shows "push_bit n a OR b = a * 2 ^ n + b"
proof -
  have "take_bit n b = b" using assms by (simp add: take_bit_int_eq_self)
  then have "push_bit n a OR b = concat_bit n b a"
    by (simp add: concat_bit_def or.commute)
  then show ?thesis using \<open>take_bit n b = b\<close>
    by (simp add: concat_bit_eq push_bit_eq_mult)
qed

lemma field_div: "0 \<le> b \<Longrightarrow> b < n \<Longrightarrow> (a * n + b) div n = a" for a b n :: int
  by simp

lemma field_mod: "0 \<le> b \<Longrightarrow> b < n \<Longrightarrow> (a * n + b) mod n = b" for a b n :: int
  by simp

lemma to_short_mod: "to_short v = (v + 32768) mod 65536 - 32768"
  by (simp add: to_short_def signed_take_bit_eq_take_bit_shift take_bit_eq_mod)

lemma div_shift: "n \<noteq> 0 \<Longrightarrow> (v + k * n) div n = v div n + k" for v k n :: int
  by simp

lemma mod_shift: "(v + k * n) mod n = v mod n" for v k n :: int
  by simp

lemma to_short_cases:
  assumes "0 \<le> v" "v < 65536"
  shows "to_short v = (if v < 32768 then v else v - 65536)"
proof (cases "v < 32768")
  case True
  then show ?thesis using assms by (simp add: to_short_mod mod_pos_pos_trivial)
next
  case False
  have "(v - 32768 + 1 * 65536) mod 65536 = (v - 32768) mod 65536" by (rule mod_shift)
  also have "\<dots> = v - 32768" using False assms by (simp add: mod_pos_pos_trivial)
  finally show ?thesis using False by (simp add: to_short_mod add.commute)
qed

subsection \<open>C strings\<close>

text \<open>The terminator of a C string.\<close>

definition NUL :: char where "NUL = CHR 0x00"

subsection \<open>Counting loops\<close>

definition for_range :: "int \<Rightarrow> int \<Rightarrow> (int \<Rightarrow> 's \<Rightarrow> 's) \<Rightarrow> 's \<Rightarrow> 's" where
  "for_range a b f s = fold f [a..b - 1] s"

lemma for_range_empty [simp, loop_rules]: "b \<le> a \<Longrightarrow> for_range a b f s = s"
  by (simp add: for_range_def)

lemma for_range_first [loop_rules]:
  "a < b \<Longrightarrow> for_range a b f s = for_range (a + 1) b f (f a s)"
  by (simp add: for_range_def upto_rec1)

lemma for_range_last [loop_rules]:
  "a < b \<Longrightarrow> for_range a b f s = f (b - 1) (for_range a (b - 1) f s)"
  by (simp add: for_range_def upto_rec2)

text \<open>Induction over the number of iterations that were run.\<close>

lemma for_range_invariant [consumes 1, case_names init step]:
  assumes "a \<le> b" and "P a s"
    and step: "\<And>i t. a \<le> i \<Longrightarrow> i < b \<Longrightarrow> P i t \<Longrightarrow> P (i + 1) (f i t)"
  shows "P b (for_range a b f s)"
  using assms
proof (induction b rule: int_ge_induct)
  case base
  then show ?case by simp
next
  case (step b)
  have "P b (for_range a b f s)"
    using step.prems step.hyps by (intro step.IH) auto
  then have "P (b + 1) (f b (for_range a b f s))"
    using step.hyps by (intro step.prems(2)) auto
  moreover have "for_range a (b + 1) f s = f b (for_range a b f s)"
    using step.hyps for_range_last [of a "b + 1" f s] by simp
  ultimately show ?case by simp
qed

text \<open>A property every iteration keeps holds at the end, however often the body runs.\<close>

lemma for_range_keeps:
  assumes "I s" and "\<And>i t. a \<le> i \<Longrightarrow> i < b \<Longrightarrow> I t \<Longrightarrow> I (f i t)"
  shows "I (for_range a b f s)"
proof (cases "a \<le> b")
  case True
  then show ?thesis
    by (rule for_range_invariant [where P = "\<lambda>_. I"]) (use assms in auto)
next
  case False
  then show ?thesis using assms(1) by simp
qed

lemma for_range_cong:
  assumes "\<And>i t. a \<le> i \<Longrightarrow> i < b \<Longrightarrow> f i t = g i t"
  shows "for_range a b f s = for_range a b g s"
  unfolding for_range_def by (rule fold_cong) (use assms in auto)

lemma fold_keeps: "I s \<Longrightarrow> (\<And>x t. x \<in> set xs \<Longrightarrow> I t \<Longrightarrow> I (f x t)) \<Longrightarrow> I (fold f xs s)"
  by (induction xs arbitrary: s) auto

text \<open>Induction over the prefix that a fold has consumed.\<close>

lemma fold_prefix:
  assumes "P [] s" and "\<And>xs x ys t. l = xs @ x # ys \<Longrightarrow> P xs t \<Longrightarrow> P (xs @ [x]) (f x t)"
  shows "P l (fold f l s)"
proof -
  have "P zs (fold f zs s)" if "l = zs @ ys" for zs ys
    using that
  proof (induction zs arbitrary: ys rule: rev_induct)
    case Nil
    then show ?case using assms(1) by simp
  next
    case (snoc x xs)
    then have "P xs (fold f xs s)" by simp
    then show ?case using assms(2) [of xs x ys] snoc.prems by simp
  qed
  then show ?thesis by simp
qed

text \<open>A loop whose body folds over a list is one fold over the concatenation.\<close>

lemma for_range_fold:
  "for_range a b (\<lambda>i. fold f (g i)) s = fold f (concat (map g [a..b - 1])) s"
proof -
  have "fold (\<lambda>i. fold f (g i)) is t = fold f (concat (map g is)) t" for "is" :: "int list" and t
    by (induction "is" arbitrary: t) auto
  then show ?thesis by (simp add: for_range_def)
qed

lemma for_range_fold_fun:
  "for_range a b (\<lambda>i. fold f (g i)) = fold f (concat (map g [a..b - 1]))"
  by (rule ext) (rule for_range_fold)

lemma for_range_map: "for_range a b (\<lambda>i. f (g i)) s = fold f (map g [a..b - 1]) s"
  by (simp add: for_range_def fold_map comp_def)

subsection \<open>Arrays\<close>

text \<open>
  Storing into a C array. A store outside the array is undefined in C; here it leaves the empty array,
  and so does every store after it, so a statement that gives the length of an array at the
  end also says that no store on the way was outside.
\<close>

definition array_set :: "'a list \<Rightarrow> nat \<Rightarrow> 'a \<Rightarrow> 'a list" where
  "array_set a i v = (if i < length a then a[i := v] else [])"

lemma array_set_in [simp]: "i < length a \<Longrightarrow> array_set a i v = a[i := v]"
  by (simp add: array_set_def)

lemma array_set_out: "length a \<le> i \<Longrightarrow> array_set a i v = []"
  by (simp add: array_set_def)

lemma length_array_set: "length (array_set a i v) = n \<Longrightarrow> n \<noteq> 0 \<Longrightarrow> length a = n \<and> i < n"
  by (auto simp: array_set_def split: if_splits)

subsection \<open>Lists\<close>

lemma takeWhile_ge:
  "n \<le> length xs \<Longrightarrow> n \<le> length (takeWhile P xs) \<longleftrightarrow> (\<forall>i<n. P (xs ! i))"
proof (induction xs arbitrary: n)
  case Nil
  then show ?case by simp
next
  case (Cons a xs)
  show ?case
  proof (cases n)
    case 0
    then show ?thesis by simp
  next
    case (Suc m)
    then show ?thesis using Cons by (auto simp: less_Suc_eq_0_disj)
  qed
qed

lemma upto_6: "[1..6] = [1, 2, 3, 4, 5, 6 :: int]"
  by (simp add: upto_rec1)

lemma upto_5: "[1..5] = [1, 2, 3, 4, 5 :: int]"
  by (simp add: upto_rec1)

lemma upto_4: "[0..3] = [0, 1, 2, 3 :: int]"
  by (simp add: upto_rec1)

lemma ex_below_4: "(\<exists>l. 0 \<le> l \<and> l < 4 \<and> P l) \<longleftrightarrow> P 0 \<or> P 1 \<or> P 2 \<or> P (3 :: int)"
proof
  assume "\<exists>l. 0 \<le> l \<and> l < 4 \<and> P l"
  then obtain l where l: "0 \<le> l" "l < 4" "P l" by blast
  then have "l = 0 \<or> l = 1 \<or> l = 2 \<or> l = 3" by linarith
  then show "P 0 \<or> P 1 \<or> P 2 \<or> P 3" using l(3) by auto
next
  have "0 \<le> (0 :: int) \<and> (0 :: int) < 4" "0 \<le> (1 :: int) \<and> (1 :: int) < 4"
    "0 \<le> (2 :: int) \<and> (2 :: int) < 4" "0 \<le> (3 :: int) \<and> (3 :: int) < 4" by simp_all
  then show "P 0 \<or> P 1 \<or> P 2 \<or> P 3 \<Longrightarrow> \<exists>l. 0 \<le> l \<and> l < 4 \<and> P l" by blast
qed

end
