(* ===== verification/Framebuffer.thy ===== *)
theory Framebuffer
  imports Prelude
begin

text \<open>
  The frame buffer of the gomoku program: \<open>fb.c\<close> (the mapping and its geometry) and the
  point routines of \<open>draw.c\<close> (\<open>draw_point\<close>, \<open>change_32to16\<close>, \<open>draw_alpha_point\<close>).

  The mapped memory is a function from element indices to pixel values: an element is an
  \<open>int\<close> at 32 bits per pixel and a \<open>short\<close> at 16, as the casts of the code have it, and
  the mapping of \<open>screen_wide * screen_height * bpp / 8\<close> bytes holds
  \<open>screen_wide * screen_height\<close> of them. A write outside the mapping is undefined in C;
  the model leaves memory alone and raises the sticky flag \<open>fb_fault\<close>, so \<open>\<not> fb_fault\<close> at the
  end of a routine says that every access it made was inside.

  The interface \<open>surface\<close> is what the drawing routines rely on: plotting a visible point
  changes that pixel and no other. It is interpreted on \<open>draw_point\<close> at both depths.
\<close>

subsection \<open>State and memory\<close>

record fb =
  screen_wide :: int
  screen_height :: int
  bpp :: int
  fbmem :: "int \<Rightarrow> int"
  mouse_cx :: int
  mouse_cy :: int
  fb_fault :: bool

definition fb_cells :: "fb \<Rightarrow> int" where
  "fb_cells s = screen_wide s * screen_height s"

definition fb_store :: "int \<Rightarrow> int \<Rightarrow> fb \<Rightarrow> fb" where
  "fb_store k v s =
     (if 0 \<le> k \<and> k < fb_cells s then s\<lparr>fbmem := (fbmem s)(k := v)\<rparr> else s\<lparr>fb_fault := True\<rparr>)"

text \<open>Reading an element outside the mapping is as undefined as writing it.\<close>

definition fb_touch :: "int \<Rightarrow> fb \<Rightarrow> fb" where
  "fb_touch k s = (if 0 \<le> k \<and> k < fb_cells s then s else s\<lparr>fb_fault := True\<rparr>)"

text \<open>
  \<open>init_fb\<close>: \<open>fd\<close> is what \<open>open\<close> returned, \<open>xres\<close>, \<open>yres\<close>, \<open>bits\<close> what the
  \<open>FBIOGET_VSCREENINFO\<close> request filled in, \<open>mem\<close> what the screen showed when it was mapped.
\<close>

definition init_fb :: "int \<Rightarrow> int \<Rightarrow> int \<Rightarrow> int \<Rightarrow> (int \<Rightarrow> int) \<Rightarrow> fb \<Rightarrow> int \<times> fb" where
  "init_fb fd xres yres bits mem s =
     (if fd < 0 then (- 1, s)
      else (0, s\<lparr>screen_wide := xres, screen_height := yres, bpp := bits, fbmem := mem,
                 mouse_cx := xres sdiv 2, mouse_cy := yres sdiv 2\<rparr>))"

subsection \<open>Points\<close>

definition change_32to16 :: "int \<Rightarrow> int" where
  "change_32to16 color_32 =
     (let dr = to_short (drop_bit 16 color_32 * 0x1f sdiv 0xff);
          dg = to_short (drop_bit 8 (color_32 AND 0x0000ff00) * 0x3f sdiv 0xff);
          db = to_short ((color_32 AND 0x000000ff) * 0x1f sdiv 0xff)
      in to_short (push_bit 11 dr OR push_bit 5 dg OR db))"

definition draw_point :: "int \<Rightarrow> int \<Rightarrow> int \<Rightarrow> fb \<Rightarrow> fb" where
  "draw_point point_x point_y point_color_32 s =
     (if point_x > screen_wide s \<or> point_y > screen_height s then s
      else if bpp s = 32 then fb_store (point_x + point_y * screen_wide s) point_color_32 s
      else if bpp s = 16 then
        fb_store (point_x + point_y * screen_wide s) (change_32to16 point_color_32) s
      else s)"

text \<open>One channel of the blend: \<open>MIN(255, (d * (255 - thick) + s * thick) / 255)\<close>.\<close>

definition blend :: "int \<Rightarrow> int \<Rightarrow> int \<Rightarrow> int" where
  "blend thick d s = min 255 ((d * (255 - thick) + s * thick) sdiv 255)"

definition alpha_16 :: "int \<Rightarrow> int \<Rightarrow> int \<Rightarrow> int" where
  "alpha_16 thick src_color alpha_color =
     (let sr = drop_bit 11 src_color AND 0x1f;
          sg = drop_bit 5 src_color AND 0x3f;
          sb = src_color AND 0x1f;
          dr = drop_bit 11 alpha_color AND 0x1f;
          dg = drop_bit 5 alpha_color AND 0x3f;
          db = alpha_color AND 0x1f
      in to_short (push_bit 11 (blend thick dr sr) OR push_bit 5 (blend thick dg sg)
                   OR blend thick db sb))"

definition alpha_32 :: "int \<Rightarrow> int \<Rightarrow> int \<Rightarrow> int" where
  "alpha_32 thick srccolor point_color_32 =
     (let sr = drop_bit 16 srccolor AND 0xff;
          sg = drop_bit 8 srccolor AND 0xff;
          sb = srccolor AND 0xff;
          dr = drop_bit 16 point_color_32 AND 0xff;
          dg = drop_bit 8 point_color_32 AND 0xff;
          db = point_color_32 AND 0xff
      in push_bit 16 (blend thick dr sr) OR push_bit 8 (blend thick dg sg)
         OR blend thick db sb)"

text \<open>
  The 16-bit branch writes the element itself; the 32-bit branch goes through
  \<open>draw_point\<close> and its guard. Both read the element first.
\<close>

definition draw_alpha_point :: "int \<Rightarrow> int \<Rightarrow> int \<Rightarrow> int \<Rightarrow> fb \<Rightarrow> fb" where
  "draw_alpha_point point_x point_y point_color_32 thick s =
     (let k = point_x + point_y * screen_wide s in
      if bpp s = 16 then
        fb_store k (alpha_16 thick (fbmem s k) (change_32to16 point_color_32)) s
      else if bpp s = 32 then
        draw_point point_x point_y (alpha_32 thick (fbmem s k) point_color_32) (fb_touch k s)
      else s)"

subsection \<open>Frame and addressing\<close>

definition visible :: "fb \<Rightarrow> int \<Rightarrow> int \<Rightarrow> bool" where
  "visible s x y \<longleftrightarrow> 0 \<le> x \<and> x < screen_wide s \<and> 0 \<le> y \<and> y < screen_height s"

definition pixel :: "fb \<Rightarrow> int \<Rightarrow> int \<Rightarrow> int" where
  "pixel s x y = fbmem s (x + y * screen_wide s)"

text \<open>Two states of the same screen: everything but memory agrees.\<close>

definition same_screen :: "fb \<Rightarrow> fb \<Rightarrow> bool" where
  "same_screen s t \<longleftrightarrow> screen_wide t = screen_wide s \<and> screen_height t = screen_height s
     \<and> bpp t = bpp s \<and> mouse_cx t = mouse_cx s \<and> mouse_cy t = mouse_cy s"

lemma same_screen_refl [simp, intro]: "same_screen s s"
  by (simp add: same_screen_def)

lemma same_screen_trans [trans]: "same_screen s t \<Longrightarrow> same_screen t u \<Longrightarrow> same_screen s u"
  by (simp add: same_screen_def)

lemma same_screen_store [simp, intro]: "same_screen s (fb_store k v s)"
  by (simp add: same_screen_def fb_store_def)

lemma same_screen_point [simp, intro]: "same_screen s (draw_point x y c s)"
  by (simp add: draw_point_def)

lemma same_screen_alpha [simp, intro]: "same_screen s (draw_alpha_point x y c a s)"
  by (simp add: draw_alpha_point_def draw_point_def fb_touch_def fb_store_def same_screen_def Let_def)

lemma same_screen_visible: "same_screen s t \<Longrightarrow> visible t x y = visible s x y"
  by (simp add: same_screen_def visible_def)

lemma visible_cell: "visible s x y \<Longrightarrow> 0 \<le> x + y * screen_wide s \<and> x + y * screen_wide s < fb_cells s"
proof -
  assume v: "visible s x y"
  then have "y * screen_wide s \<le> (screen_height s - 1) * screen_wide s"
    by (intro mult_right_mono) (auto simp: visible_def)
  then show ?thesis using v by (simp add: visible_def fb_cells_def algebra_simps)
qed

lemma flat_inject:
  assumes "0 \<le> x" "x < w" "0 \<le> x'" "x' < (w :: int)"
  shows "x + y * w = x' + y' * w \<longleftrightarrow> x = x' \<and> y = y'"
proof
  assume e: "x + y * w = x' + y' * w"
  then have "(x + y * w) mod w = (x' + y' * w) mod w" by simp
  then have "x = x'" using assms by simp
  then show "x = x' \<and> y = y'" using e assms by auto
qed simp

lemma visible_inject:
  "visible s x y \<Longrightarrow> visible s x' y' \<Longrightarrow>
    x + y * screen_wide s = x' + y' * screen_wide s \<longleftrightarrow> x = x' \<and> y = y'"
  by (auto simp: visible_def flat_inject)

subsection \<open>The plotting interface\<close>

text \<open>
  What a drawing routine needs of the screen: a plotted visible point takes the stored form
  of the colour, no other visible pixel changes, and the screen stays good.
\<close>

locale surface =
  fixes plot :: "int \<Rightarrow> int \<Rightarrow> int \<Rightarrow> 's \<Rightarrow> 's"
    and look :: "'s \<Rightarrow> int \<Rightarrow> int \<Rightarrow> int"
    and shown :: "'s \<Rightarrow> int \<Rightarrow> int \<Rightarrow> bool"
    and stored :: "int \<Rightarrow> int"
    and good :: "'s \<Rightarrow> bool"
  assumes good_plot: "good s \<Longrightarrow> shown s x y \<Longrightarrow> good (plot x y c s)"
    and shown_plot: "good s \<Longrightarrow> shown s x y \<Longrightarrow> shown (plot x y c s) x' y' = shown s x' y'"
    and look_plot: "good s \<Longrightarrow> shown s x y \<Longrightarrow> shown s x' y' \<Longrightarrow>
       look (plot x y c s) x' y' = (if x' = x \<and> y' = y then stored c else look s x' y')"
begin

lemma fold_plot:
  assumes "good s" and "\<And>p. p \<in> set ps \<Longrightarrow> shown s (fst p) (snd p)"
  shows "good (fold (\<lambda>p. plot (fst p) (snd p) c) ps s)
       \<and> (\<forall>x y. shown (fold (\<lambda>p. plot (fst p) (snd p) c) ps s) x y = shown s x y)
       \<and> (\<forall>x y. shown s x y \<longrightarrow>
            look (fold (\<lambda>p. plot (fst p) (snd p) c) ps s) x y =
              (if (x, y) \<in> set ps then stored c else look s x y))"
  using assms
proof (induction ps arbitrary: s)
  case Nil
  then show ?case by simp
next
  case (Cons p ps)
  let ?t = "plot (fst p) (snd p) c s"
  have p: "shown s (fst p) (snd p)" using Cons.prems by simp
  have t: "good ?t" "\<And>x y. shown ?t x y = shown s x y"
    using good_plot shown_plot Cons.prems(1) p by blast+
  have ps: "\<And>q. q \<in> set ps \<Longrightarrow> shown ?t (fst q) (snd q)"
    using Cons.prems t by simp
  note ih = Cons.IH [OF t(1) ps]
  have "(x, y) = p \<longleftrightarrow> x = fst p \<and> y = snd p" for x y by auto
  then show ?case using ih t look_plot [OF Cons.prems(1) p] by simp
qed

lemma good_fold: "good s \<Longrightarrow> (\<And>p. p \<in> set ps \<Longrightarrow> shown s (fst p) (snd p)) \<Longrightarrow>
    good (fold (\<lambda>p. plot (fst p) (snd p) c) ps s)"
  using fold_plot by blast

lemma shown_fold: "good s \<Longrightarrow> (\<And>p. p \<in> set ps \<Longrightarrow> shown s (fst p) (snd p)) \<Longrightarrow>
    shown (fold (\<lambda>p. plot (fst p) (snd p) c) ps s) x y = shown s x y"
  using fold_plot by blast

lemma look_fold: "good s \<Longrightarrow> (\<And>p. p \<in> set ps \<Longrightarrow> shown s (fst p) (snd p)) \<Longrightarrow> shown s x y \<Longrightarrow>
    look (fold (\<lambda>p. plot (fst p) (snd p) c) ps s) x y =
      (if (x, y) \<in> set ps then stored c else look s x y)"
  using fold_plot by blast

end

definition good32 :: "fb \<Rightarrow> bool" where
  "good32 s \<longleftrightarrow> bpp s = 32 \<and> \<not> fb_fault s"

definition good16 :: "fb \<Rightarrow> bool" where
  "good16 s \<longleftrightarrow> bpp s = 16 \<and> \<not> fb_fault s"

lemma draw_point_visible:
  assumes "visible s x y" and "bpp s = 32 \<or> bpp s = 16"
  shows "draw_point x y c s = s\<lparr>fbmem := (fbmem s)(x + y * screen_wide s :=
           (if bpp s = 32 then c else change_32to16 c))\<rparr>"
  using assms visible_cell [OF assms(1)]
  by (auto simp: draw_point_def fb_store_def visible_def)

interpretation s32: surface draw_point pixel visible "\<lambda>c. c" good32
  by unfold_locales
    (auto simp: draw_point_visible good32_def visible_def pixel_def flat_inject)

interpretation s16: surface draw_point pixel visible change_32to16 good16
  by unfold_locales
    (auto simp: draw_point_visible good16_def visible_def pixel_def flat_inject)

subsection \<open>Colours\<close>

definition channel :: "nat \<Rightarrow> int \<Rightarrow> int" where
  "channel sh v = drop_bit sh v AND 0xff"

lemma channel_bounds: "0 \<le> channel sh v \<and> channel sh v \<le> 255"
  by (simp add: channel_def c_arith)

lemma channel_eqs:
  "channel 16 v = v div 65536 mod 256" "channel 8 v = v div 256 mod 256" "channel 0 v = v mod 256"
  by (simp_all add: channel_def c_arith)

lemma field_reads:
  "drop_bit 11 v AND 0x1f = v div 2048 mod 32" "drop_bit 5 v AND 0x3f = v div 32 mod 64"
  "v AND 0x1f = v mod 32" for v :: int
  by (simp_all add: c_arith)

lemma pack_565:
  assumes "0 \<le> r" "r < 32" "0 \<le> g" "g < 64" "0 \<le> b" "b < 32"
  shows "push_bit 11 r OR push_bit 5 g OR b = r * 2048 + g * 32 + (b :: int)"
proof -
  have "push_bit 5 g OR b = g * 32 + b"
    using push_bit_or [of b 5 g] assms by simp
  moreover have "push_bit 11 r OR (g * 32 + b) = r * 2048 + (g * 32 + b)"
    using push_bit_or [of "g * 32 + b" 11 r] assms by simp
  ultimately show ?thesis by (simp add: or.assoc)
qed

lemma pack_888:
  assumes "0 \<le> r" "r < 256" "0 \<le> g" "g < 256" "0 \<le> b" "b < 256"
  shows "push_bit 16 r OR push_bit 8 g OR b = r * 65536 + g * 256 + (b :: int)"
proof -
  have "push_bit 8 g OR b = g * 256 + b"
    using push_bit_or [of b 8 g] assms by simp
  moreover have "push_bit 16 r OR (g * 256 + b) = r * 65536 + (g * 256 + b)"
    using push_bit_or [of "g * 256 + b" 16 r] assms by simp
  ultimately show ?thesis by (simp add: or.assoc)
qed

lemma unpack_565:
  assumes "0 \<le> r" "r < 32" "0 \<le> g" "g < 64" "0 \<le> b" "b < (32 :: int)"
  shows "drop_bit 11 (to_short (r * 2048 + g * 32 + b)) AND 0x1f = r"
    and "drop_bit 5 (to_short (r * 2048 + g * 32 + b)) AND 0x3f = g"
    and "to_short (r * 2048 + g * 32 + b) AND 0x1f = b"
proof -
  let ?v = "r * 2048 + g * 32 + b"
  have v: "0 \<le> ?v" "?v < 65536" using assms by auto
  have low: "?v mod 32 = b" "?v div 32 = r * 64 + g"
    using field_mod [of b 32 "r * 64 + g"] field_div [of b 32 "r * 64 + g"] assms
    by (simp_all add: algebra_simps)
  have mid: "(r * 64 + g) mod 64 = g" using assms by (intro field_mod) auto
  have high: "?v div 2048 = r" using field_div [of "g * 32 + b" 2048 r] assms
    by (simp add: algebra_simps)
  have e: "?v - 65536 = ?v + (- 32) * 2048" "?v - 65536 = ?v + (- 2048) * 32" by simp_all
  have neg_r: "(?v - 65536) div 2048 mod 32 = r"
  proof -
    have "(?v - 65536) div 2048 = r + (- 1) * 32"
      unfolding e(1) by (subst div_shift) (use high in auto)
    also have "\<dots> mod 32 = r mod 32" by (rule mod_shift)
    finally show ?thesis using assms by simp
  qed
  have neg_g: "(?v - 65536) div 32 mod 64 = g"
  proof -
    have "(?v - 65536) div 32 = r * 64 + g + (- 32) * 64"
      unfolding e(2) by (subst div_shift) (use low in auto)
    also have "\<dots> mod 64 = (r * 64 + g) mod 64" by (rule mod_shift)
    finally show ?thesis using mid by simp
  qed
  have neg_b: "(?v - 65536) mod 32 = b"
    unfolding e(2) by (subst mod_shift) (rule low)
  have pos: "?v div 2048 mod 32 = r" "?v div 32 mod 64 = g"
    using high low mid assms by simp_all
  show "drop_bit 11 (to_short ?v) AND 0x1f = r"
    unfolding to_short_cases [OF v] field_reads(1) using pos neg_r by (simp only: simp_thms split: if_split)
  show "drop_bit 5 (to_short ?v) AND 0x3f = g"
    unfolding to_short_cases [OF v] field_reads(2) using pos neg_g by (simp only: simp_thms split: if_split)
  show "to_short ?v AND 0x1f = b"
    unfolding to_short_cases [OF v] field_reads(3) using low neg_b by (simp only: simp_thms split: if_split)
qed

lemma blend_between:
  assumes "0 \<le> thick" "thick \<le> 255" "0 \<le> d" "d \<le> 255" "0 \<le> s" "s \<le> 255"
  shows "min d s \<le> blend thick d s \<and> blend thick d s \<le> max d s"
proof -
  let ?n = "d * (255 - thick) + s * thick"
  have "min d s * (255 - thick) + min d s * thick \<le> ?n"
    using assms by (intro add_mono mult_right_mono) auto
  then have lo: "min d s * 255 \<le> ?n" by (simp add: algebra_simps)
  have "?n \<le> max d s * (255 - thick) + max d s * thick"
    using assms by (intro add_mono mult_right_mono) auto
  then have hi: "?n \<le> max d s * 255" by (simp add: algebra_simps)
  have "0 \<le> ?n" using assms by simp
  then have "blend thick d s = min 255 (?n div 255)"
    by (simp add: blend_def c_arith)
  moreover have "min d s \<le> ?n div 255" "?n div 255 \<le> max d s"
    using lo hi by auto
  moreover have "max d s \<le> 255" "min d s \<le> 255" using assms by auto
  ultimately show ?thesis by auto
qed

lemma unpack_888:
  assumes "0 \<le> r" "r < 256" "0 \<le> g" "g < 256" "0 \<le> b" "b < (256 :: int)"
  shows "channel 16 (r * 65536 + g * 256 + b) = r"
    and "channel 8 (r * 65536 + g * 256 + b) = g"
    and "channel 0 (r * 65536 + g * 256 + b) = b"
proof -
  let ?v = "r * 65536 + g * 256 + b"
  have "?v mod 256 = b" "?v div 256 = r * 256 + g"
    using field_mod [of b 256 "r * 256 + g"] field_div [of b 256 "r * 256 + g"] assms
    by (simp_all add: algebra_simps)
  moreover have "?v div 65536 = r" using field_div [of "g * 256 + b" 65536 r] assms
    by (simp add: algebra_simps)
  moreover have "r mod 256 = r" "(r * 256 + g) mod 256 = g"
    using assms field_mod [of g 256 r] by (simp_all only: mod_pos_pos_trivial)
  ultimately show "channel 16 ?v = r" "channel 8 ?v = g" "channel 0 ?v = b"
    unfolding channel_eqs by (simp_all only:)
qed

lemma channel_alpha_32:
  assumes "0 \<le> thick" "thick \<le> 255" and sh: "sh = 0 \<or> sh = 8 \<or> sh = 16"
  shows "channel sh (alpha_32 thick p c) = blend thick (channel sh c) (channel sh p)"
proof -
  let ?b = "\<lambda>sh. blend thick (channel sh c) (channel sh p)"
  have b: "0 \<le> ?b sh \<and> ?b sh < 256" for sh
    using blend_between [OF assms(1,2), of "channel sh c" "channel sh p"]
      channel_bounds [of sh c] channel_bounds [of sh p] by auto
  have "push_bit 16 (?b 16) OR push_bit 8 (?b 8) OR ?b 0 = ?b 16 * 65536 + ?b 8 * 256 + ?b 0"
    using b by (intro pack_888) auto
  then have "alpha_32 thick p c = ?b 16 * 65536 + ?b 8 * 256 + ?b 0"
    by (simp add: alpha_32_def Let_def channel_def)
  then show ?thesis using sh unpack_888 [of "?b 16" "?b 8" "?b 0"] b by auto
qed

lemma scaled_bounds:
  "0 \<le> channel 16 c * 31 div 255" "channel 16 c * 31 div 255 < 32"
  "0 \<le> channel 8 c * 63 div 255" "channel 8 c * 63 div 255 < 64"
  "0 \<le> channel 0 c * 31 div 255" "channel 0 c * 31 div 255 < 32"
  using channel_bounds [of 16 c] channel_bounds [of 8 c] channel_bounds [of 0 c] by linarith+

lemma green_channel: "drop_bit 8 (c AND 0xff00) = channel 8 c"
proof -
  have "drop_bit 8 (0xff00 :: int) = 0xff" by (simp add: drop_bit_eq_div)
  then show ?thesis by (simp only: channel_def drop_bit_and)
qed

lemma change_32to16_pack:
  assumes "0 \<le> c" and "c < 16777216"
  shows "change_32to16 c = to_short (channel 16 c * 31 div 255 * 2048
           + channel 8 c * 63 div 255 * 32 + channel 0 c * 31 div 255)"
proof -
  let ?r = "channel 16 c * 31 div 255" and ?g = "channel 8 c * 63 div 255"
    and ?b = "channel 0 c * 31 div 255"
  have "c div 65536 < 256" using assms by linarith
  then have r: "drop_bit 16 c = channel 16 c"
    using assms by (simp add: channel_def drop_bit_int and_mask_int)
  have c0: "c AND 0xff = channel 0 c" by (simp add: channel_def)
  have nn: "0 \<le> channel 16 c * 31" "0 \<le> channel 8 c * 63" "0 \<le> channel 0 c * 31"
    using channel_bounds [of 16 c] channel_bounds [of 8 c] channel_bounds [of 0 c] by auto
  have "to_short ?r = ?r" "to_short ?g = ?g" "to_short ?b = ?b"
    by (rule to_short_eq_self; use scaled_bounds [of c] in linarith)+
  then show ?thesis
    unfolding change_32to16_def Let_def green_channel r c0
    by (simp only: sdiv_nonneg nn zero_le_numeral pack_565 scaled_bounds)
qed

text \<open>
  conversion to 16 bits per pixel keeps each channel: the stored \<open>short\<close>, read back as
  \<open>draw_alpha_point\<close> reads it, has red \<open>R * 31 / 255\<close>, green \<open>G * 63 / 255\<close> and blue
  \<open>B * 31 / 255\<close> of a 24-bit colour, although the packed value may be a negative \<open>short\<close>.
\<close>

theorem change_32to16_channels:
  assumes "0 \<le> c" and "c < 16777216"
  shows "drop_bit 11 (change_32to16 c) AND 0x1f = channel 16 c * 31 div 255
    \<and> drop_bit 5 (change_32to16 c) AND 0x3f = channel 8 c * 63 div 255
    \<and> change_32to16 c AND 0x1f = channel 0 c * 31 div 255
    \<and> - 32768 \<le> change_32to16 c \<and> change_32to16 c < 32768"
  unfolding change_32to16_pack [OF assms]
  using unpack_565 [OF scaled_bounds] to_short_bounds by auto

theorem change_32to16_channels_witness:
  "drop_bit 11 (change_32to16 0xff0000) AND 0x1f = channel 16 0xff0000 * 31 div 255"
  using change_32to16_channels [of "0xff0000"] by simp

end
