(* ===== verification/Draw.thy ===== *)
theory Draw
  imports Framebuffer
begin

text \<open>
  The line and digit routines of \<open>draw.c\<close> over the points of \<open>Framebuffer\<close>, and the
  digit glyphs of \<open>include/font_8x16.h\<close>.

  Every routine that draws opaque points is shown to \<open>paint\<close> an explicit list of points; what
  it does to the screen is then the painting lemma \<open>paint_pixel\<close>, which comes from the
  interpretations of the \<open>surface\<close> interface.
\<close>

subsection \<open>Lines\<close>

definition draw_wide_line :: "int \<Rightarrow> int \<Rightarrow> int \<Rightarrow> int \<Rightarrow> fb \<Rightarrow> fb" where
  "draw_wide_line line_x line_y line_length line_color s =
     for_range 0 line_length (\<lambda>i. draw_point (line_x + i) line_y line_color) s"

definition draw_alpha_wide_line :: "int \<Rightarrow> int \<Rightarrow> int \<Rightarrow> int \<Rightarrow> fb \<Rightarrow> fb" where
  "draw_alpha_wide_line line_x line_y line_length line_color s =
     for_range 0 line_length (\<lambda>i. draw_alpha_point (line_x + i) line_y line_color 200) s"

definition draw_height_line :: "int \<Rightarrow> int \<Rightarrow> int \<Rightarrow> int \<Rightarrow> fb \<Rightarrow> fb" where
  "draw_height_line line_x line_y line_length line_color s =
     for_range 0 line_length (\<lambda>i. draw_point line_x (line_y + i) line_color) s"

subsection \<open>Digits\<close>

text \<open>
  The glyphs of the characters 48 to 57 in \<open>fontdata_8x16\<close>, sixteen rows each. The other
  glyphs are not transcribed: \<open>draw_num\<close> is only ever called with a decimal digit
  (\<open>draw_chess_num\<close> splits the number, and the first stone is number 1).
\<close>

definition font_digits :: "int list" where
  "font_digits =
    [0x00, 0x00, 0x38, 0x6c, 0xc6, 0xc6, 0xd6, 0xd6, 0xc6, 0xc6, 0x6c, 0x38, 0x00, 0x00, 0x00, 0x00,
     0x00, 0x00, 0x18, 0x38, 0x78, 0x18, 0x18, 0x18, 0x18, 0x18, 0x18, 0x7e, 0x00, 0x00, 0x00, 0x00,
     0x00, 0x00, 0x7c, 0xc6, 0x06, 0x0c, 0x18, 0x30, 0x60, 0xc0, 0xc6, 0xfe, 0x00, 0x00, 0x00, 0x00,
     0x00, 0x00, 0x7c, 0xc6, 0x06, 0x06, 0x3c, 0x06, 0x06, 0x06, 0xc6, 0x7c, 0x00, 0x00, 0x00, 0x00,
     0x00, 0x00, 0x0c, 0x1c, 0x3c, 0x6c, 0xcc, 0xfe, 0x0c, 0x0c, 0x0c, 0x1e, 0x00, 0x00, 0x00, 0x00,
     0x00, 0x00, 0xfe, 0xc0, 0xc0, 0xc0, 0xfc, 0x06, 0x06, 0x06, 0xc6, 0x7c, 0x00, 0x00, 0x00, 0x00,
     0x00, 0x00, 0x38, 0x60, 0xc0, 0xc0, 0xfc, 0xc6, 0xc6, 0xc6, 0xc6, 0x7c, 0x00, 0x00, 0x00, 0x00,
     0x00, 0x00, 0xfe, 0xc6, 0x06, 0x06, 0x0c, 0x18, 0x30, 0x30, 0x30, 0x30, 0x00, 0x00, 0x00, 0x00,
     0x00, 0x00, 0x7c, 0xc6, 0xc6, 0xc6, 0x7c, 0xc6, 0xc6, 0xc6, 0xc6, 0x7c, 0x00, 0x00, 0x00, 0x00,
     0x00, 0x00, 0x7c, 0xc6, 0xc6, 0xc6, 0x7e, 0x06, 0x06, 0x06, 0x0c, 0x78, 0x00, 0x00, 0x00, 0x00]"

definition fontdata_8x16 :: "int \<Rightarrow> int" where
  "fontdata_8x16 j = font_digits ! nat (j - 48 * 16)"

text \<open>\<open>k\<close> counts the rows, \<open>j\<close> runs over the glyph's bytes: \<open>k = j - (48 + num) * 16\<close>.\<close>

definition draw_num :: "int \<Rightarrow> int \<Rightarrow> int \<Rightarrow> int \<Rightarrow> fb \<Rightarrow> fb" where
  "draw_num chess_x chess_y color num s =
     for_range ((48 + num) * 16) ((49 + num) * 16)
       (\<lambda>j. let k = j - (48 + num) * 16; c = fontdata_8x16 j in
          for_range 0 8 (\<lambda>i.
            if drop_bit (nat i) c AND 1 \<noteq> 0
            then draw_point (chess_x + 8 - i) (chess_y + k) color else id)) s"

definition chessboard_init_x :: int where "chessboard_init_x = 115 + 240"
definition chessboard_init_y :: int where "chessboard_init_y = 115"
definition chess_gap :: int where "chess_gap = 30"
definition chess_line_num :: int where "chess_line_num = 20"
definition circle_r :: int where "circle_r = 14"

definition draw_chess_num :: "int \<Rightarrow> int \<Rightarrow> int \<Rightarrow> int \<Rightarrow> fb \<Rightarrow> fb" where
  "draw_chess_num chess_num chess_array_x chess_array_y chess_color s =
     (let x = chess_array_x * chess_gap + chessboard_init_x;
          y = chess_array_y * chess_gap + chessboard_init_y - 6 in
      if chess_num < 10 then draw_num (x - 6) y chess_color chess_num s
      else if chess_num \<ge> 10 \<and> chess_num < 100 then
        draw_num (x - 8) y chess_color (chess_num sdiv 10)
          (draw_num x y chess_color (chess_num smod 10) s)
      else
        draw_num (x - 12) y chess_color (chess_num sdiv 100)
          (draw_num (x - 4) y chess_color (chess_num smod 100 sdiv 10)
            (draw_num (x + 4) y chess_color (chess_num smod 10) s)))"

subsection \<open>Painting a list of points\<close>

definition paint :: "int \<Rightarrow> (int \<times> int) list \<Rightarrow> fb \<Rightarrow> fb" where
  "paint c ps s = fold (\<lambda>p. draw_point (fst p) (snd p) c) ps s"

definition ready :: "fb \<Rightarrow> bool" where
  "ready s \<longleftrightarrow> good32 s \<or> good16 s"

definition shade :: "fb \<Rightarrow> int \<Rightarrow> int" where
  "shade s c = (if bpp s = 32 then c else change_32to16 c)"

lemma paint_simps [simp]:
  "paint c [] s = s" "paint c (p # ps) s = paint c ps (draw_point (fst p) (snd p) c s)"
  "paint c (ps @ qs) s = paint c qs (paint c ps s)"
  by (simp_all add: paint_def)

lemma same_screen_paint [simp, intro]: "same_screen s (paint c ps s)"
  by (induction ps arbitrary: s) (auto intro: same_screen_trans)

lemma ready_paint:
  "ready s \<Longrightarrow> (\<And>x y. (x, y) \<in> set ps \<Longrightarrow> visible s x y) \<Longrightarrow> ready (paint c ps s)"
  unfolding ready_def paint_def
  by (metis s32.good_fold s16.good_fold prod.collapse)

lemma paint_pixel:
  "ready s \<Longrightarrow> (\<And>x y. (x, y) \<in> set ps \<Longrightarrow> visible s x y) \<Longrightarrow> visible s x y \<Longrightarrow>
    pixel (paint c ps s) x y = (if (x, y) \<in> set ps then shade s c else pixel s x y)"
  unfolding ready_def paint_def shade_def
  using s32.look_fold [of s ps x y c] s16.look_fold [of s ps x y c]
  by (auto simp: good32_def good16_def)

lemma visible_paint [simp]: "visible (paint c ps s) x y = visible s x y"
  by (rule same_screen_visible) simp

lemma shade_same: "same_screen s t \<Longrightarrow> shade t c = shade s c"
  by (simp add: same_screen_def shade_def)

lemma shade_paint [simp]: "shade (paint c' ps s) c = shade s c"
  by (rule shade_same) simp

definition hline :: "int \<Rightarrow> int \<Rightarrow> int \<Rightarrow> (int \<times> int) list" where
  "hline x y n = map (\<lambda>i. (x + i, y)) [0..n - 1]"

definition vline :: "int \<Rightarrow> int \<Rightarrow> int \<Rightarrow> (int \<times> int) list" where
  "vline x y n = map (\<lambda>i. (x, y + i)) [0..n - 1]"

lemma set_hline: "(px, py) \<in> set (hline x y n) \<longleftrightarrow> py = y \<and> x \<le> px \<and> px < x + n"
proof
  assume "py = y \<and> x \<le> px \<and> px < x + n"
  then show "(px, py) \<in> set (hline x y n)"
    unfolding hline_def set_map by (intro image_eqI [of _ _ "px - x"]) auto
qed (auto simp: hline_def)

lemma set_vline: "(px, py) \<in> set (vline x y n) \<longleftrightarrow> px = x \<and> y \<le> py \<and> py < y + n"
proof
  assume "px = x \<and> y \<le> py \<and> py < y + n"
  then show "(px, py) \<in> set (vline x y n)"
    unfolding vline_def set_map by (intro image_eqI [of _ _ "py - y"]) auto
qed (auto simp: vline_def)

lemma draw_wide_line_paint: "draw_wide_line x y n c s = paint c (hline x y n) s"
  by (simp add: draw_wide_line_def paint_def hline_def for_range_def fold_map comp_def)

lemma draw_height_line_paint: "draw_height_line x y n c s = paint c (vline x y n) s"
  by (simp add: draw_height_line_def paint_def vline_def for_range_def fold_map comp_def)

subsection \<open>Glyphs\<close>

definition glyph_bit :: "int \<Rightarrow> int \<Rightarrow> int \<Rightarrow> bool" where
  "glyph_bit num k i \<longleftrightarrow> drop_bit (nat i) (fontdata_8x16 ((48 + num) * 16 + k)) AND 1 \<noteq> 0"

definition num_points :: "int \<Rightarrow> int \<Rightarrow> int \<Rightarrow> (int \<times> int) list" where
  "num_points x y num =
     concat (map (\<lambda>k. concat (map (\<lambda>i. if glyph_bit num k i then [(x + 8 - i, y + k)] else [])
                                   [0..7])) [0..15])"

lemma for_range_shift: "for_range (a + d) (b + d) f s = for_range a b (\<lambda>i. f (i + d)) s"
proof -
  have "[a + d..b + d - 1] = map (\<lambda>i. i + d) [a..b - 1]"
  proof (induction "nat (b - a)" arbitrary: a)
    case 0
    then show ?case by simp
  next
    case (Suc n)
    then have "[a + 1 + d..b + d - 1] = map (\<lambda>i. i + d) [a + 1..b - 1]"
      by (intro Suc.hyps(1)) linarith
    moreover have "a < b" using Suc.hyps(2) by linarith
    ultimately show ?case by (simp add: upto_rec1 add.commute add.left_commute)
  qed
  then show ?thesis by (simp add: for_range_def fold_map comp_def)
qed

lemma draw_num_paint: "draw_num x y c num s = paint c (num_points x y num) s"
proof -
  let ?pt = "\<lambda>p. draw_point (fst p) (snd p) c"
  let ?row = "\<lambda>k. concat (map (\<lambda>i. if glyph_bit num k i then [(x + 8 - i, y + k)] else []) [0..7])"
  have "draw_num x y c num s =
      for_range (0 + (48 + num) * 16) (16 + (48 + num) * 16)
       (\<lambda>j. let k = j - (48 + num) * 16; c' = fontdata_8x16 j in
          for_range 0 8 (\<lambda>i. if drop_bit (nat i) c' AND 1 \<noteq> 0
            then draw_point (x + 8 - i) (y + k) c else id)) s"
    by (simp add: draw_num_def algebra_simps)
  also have "\<dots> = for_range 0 16
       (\<lambda>k. for_range 0 8 (\<lambda>i. fold ?pt (if glyph_bit num k i then [(x + 8 - i, y + k)] else []))) s"
    unfolding for_range_shift
    by (intro for_range_cong) (simp add: Let_def glyph_bit_def add.commute, intro for_range_cong, simp)
  also have "\<dots> = for_range 0 16 (\<lambda>k. fold ?pt (?row k)) s"
    by (simp add: for_range_fold_fun)
  also have "\<dots> = paint c (num_points x y num) s"
    by (simp add: for_range_fold_fun paint_def num_points_def)
  finally show ?thesis .
qed

lemma set_num_points:
  "(px, py) \<in> set (num_points x y num) \<longleftrightarrow>
     x + 1 \<le> px \<and> px \<le> x + 8 \<and> y \<le> py \<and> py < y + 16 \<and> glyph_bit num (py - y) (x + 8 - px)"
proof
  assume "x + 1 \<le> px \<and> px \<le> x + 8 \<and> y \<le> py \<and> py < y + 16 \<and> glyph_bit num (py - y) (x + 8 - px)"
  then show "(px, py) \<in> set (num_points x y num)"
    unfolding num_points_def set_concat set_map set_upto image_image
    by (intro UN_I [of "py - y"] UN_I [of "x + 8 - px"]) auto
qed (auto simp: num_points_def split: if_splits)

subsection \<open>The number on a stone\<close>

text \<open>The decimal numeral of the move number, with the pixel offset of each digit's cell.\<close>

definition numeral_layout :: "int \<Rightarrow> (int \<times> int) list" where
  "numeral_layout n =
     (if n < 10 then [(- 6, n)]
      else if n < 100 then [(- 8, n div 10), (0, n mod 10)]
      else [(- 12, n div 100), (- 4, n div 10 mod 10), (4, n mod 10)])"

definition stone_x :: "int \<Rightarrow> int" where "stone_x ax = ax * chess_gap + chessboard_init_x"
definition stone_y :: "int \<Rightarrow> int" where "stone_y ay = ay * chess_gap + chessboard_init_y"

definition numeral_points :: "int \<Rightarrow> int \<Rightarrow> int \<Rightarrow> (int \<times> int) list" where
  "numeral_points n ax ay =
     concat (map (\<lambda>od. num_points (stone_x ax + fst od) (stone_y ay - 6) (snd od))
                 (rev (numeral_layout n)))"

lemma digits_of_100: "n mod 100 div 10 = n div 10 mod 10" for n :: int
proof -
  have "n mod (10 * 10) = (n div 10 mod 10) * 10 + n mod 10"
    using zmod_zmult2_eq [of 10 n 10] by simp
  then show ?thesis using field_div [of "n mod 10" 10 "n div 10 mod 10"] by simp
qed

lemma numeral_layout_digits:
  assumes "0 \<le> n" "n < 1000"
  shows "foldl (\<lambda>a od. 10 * a + snd od) 0 (numeral_layout n) = n"
    and "list_all (\<lambda>od. 0 \<le> snd od \<and> snd od \<le> 9) (numeral_layout n)"
    and "sorted_wrt (\<lambda>a b. fst a + 8 \<le> fst b) (numeral_layout n)"
proof -
  have h: "n div 100 = n div 10 div 10" using zdiv_zmult2_eq [of 10 n 10] by simp
  have e: "10 * (n div 10) + n mod 10 = n" "10 * (n div 10 div 10) + n div 10 mod 10 = n div 10"
    by (simp_all only: mult_div_mod_eq)
  have b: "0 \<le> n mod 10" "n mod 10 \<le> 9" "0 \<le> n div 10 mod 10" "n div 10 mod 10 \<le> 9"
    using pos_mod_bound [of 10 n] pos_mod_bound [of 10 "n div 10"] by simp_all
  show "foldl (\<lambda>a od. 10 * a + snd od) 0 (numeral_layout n) = n"
    unfolding numeral_layout_def h using e by simp
  show "list_all (\<lambda>od. 0 \<le> snd od \<and> snd od \<le> 9) (numeral_layout n)"
    using assms b by (auto simp: numeral_layout_def)
  show "sorted_wrt (\<lambda>a b. fst a + 8 \<le> fst b) (numeral_layout n)"
    by (simp add: numeral_layout_def)
qed

lemma draw_chess_num_paint:
  "0 \<le> n \<Longrightarrow> draw_chess_num n ax ay c s = paint c (numeral_points n ax ay) s"
  by (simp add: draw_chess_num_def numeral_points_def numeral_layout_def draw_num_paint Let_def
      sdiv_nonneg smod_nonneg digits_of_100 stone_x_def stone_y_def)

lemma set_numeral_points:
  "(px, py) \<in> set (numeral_points n ax ay) \<longleftrightarrow>
     (\<exists>od \<in> set (numeral_layout n).
        (px, py) \<in> set (num_points (stone_x ax + fst od) (stone_y ay - 6) (snd od)))"
  by (auto simp: numeral_points_def)

lemma numeral_layout_offsets:
  "od \<in> set (numeral_layout n) \<Longrightarrow> - 12 \<le> fst od \<and> fst od \<le> 4"
  by (auto simp: numeral_layout_def split: if_splits)

lemma numeral_points_box:
  assumes "(px, py) \<in> set (numeral_points n ax ay)"
  shows "stone_x ax - 11 \<le> px \<and> px \<le> stone_x ax + 12 \<and> stone_y ay - 6 \<le> py \<and> py \<le> stone_y ay + 9"
  using assms numeral_layout_offsets [of _ n] by (force simp: set_numeral_points set_num_points)

text \<open>
  C35: \<open>draw_chess_num\<close> renders the move number. For a number below 1000 whose box lies on the
  screen, at either depth, the digits it draws read as the decimal numeral of the number, they
  stand in disjoint 8-pixel columns from left to right, exactly the set bits of their glyphs
  take the colour, every other visible pixel keeps its value, and no access leaves the mapping.
\<close>

theorem draw_chess_num_renders:
  assumes "ready s" and "0 \<le> n" and "n < 1000"
    and "visible s (stone_x ax - 11) (stone_y ay - 6)" and "visible s (stone_x ax + 12) (stone_y ay + 9)"
  shows "ready (draw_chess_num n ax ay c s)
    \<and> foldl (\<lambda>a od. 10 * a + snd od) 0 (numeral_layout n) = n
    \<and> list_all (\<lambda>od. 0 \<le> snd od \<and> snd od \<le> 9) (numeral_layout n)
    \<and> sorted_wrt (\<lambda>a b. fst a + 8 \<le> fst b) (numeral_layout n)
    \<and> (\<forall>px py. visible s px py \<longrightarrow>
         pixel (draw_chess_num n ax ay c s) px py =
           (if \<exists>od \<in> set (numeral_layout n).
                 stone_x ax + fst od + 1 \<le> px \<and> px \<le> stone_x ax + fst od + 8
                 \<and> stone_y ay - 6 \<le> py \<and> py < stone_y ay + 10
                 \<and> glyph_bit (snd od) (py - (stone_y ay - 6)) (stone_x ax + fst od + 8 - px)
            then shade s c else pixel s px py))"
proof -
  have vis: "visible s x y" if "(x, y) \<in> set (numeral_points n ax ay)" for x y
    using numeral_points_box [OF that] assms(4,5) by (auto simp: visible_def)
  have digits: "foldl (\<lambda>a od. 10 * a + snd od) 0 (numeral_layout n) = n
    \<and> list_all (\<lambda>od. 0 \<le> snd od \<and> snd od \<le> 9) (numeral_layout n)
    \<and> sorted_wrt (\<lambda>a b. fst a + 8 \<le> fst b) (numeral_layout n)"
    using numeral_layout_digits [OF assms(2,3)] by blast
  have points: "pixel (paint c (numeral_points n ax ay) s) px py =
      (if (px, py) \<in> set (numeral_points n ax ay) then shade s c else pixel s px py)"
    if "visible s px py" for px py
    using paint_pixel [OF assms(1) vis that] by simp
  have mem: "(px, py) \<in> set (numeral_points n ax ay) \<longleftrightarrow> (\<exists>od \<in> set (numeral_layout n).
      stone_x ax + fst od + 1 \<le> px \<and> px \<le> stone_x ax + fst od + 8
      \<and> stone_y ay - 6 \<le> py \<and> py < stone_y ay + 10
      \<and> glyph_bit (snd od) (py - (stone_y ay - 6)) (stone_x ax + fst od + 8 - px))" for px py
  proof -
    have "py < stone_y ay - 6 + 16 \<longleftrightarrow> py < stone_y ay + 10" by linarith
    then show ?thesis by (simp only: set_numeral_points set_num_points)
  qed
  show ?thesis
    unfolding draw_chess_num_paint [OF assms(2)] mem [symmetric]
    using digits ready_paint [OF assms(1) vis] points by blast
qed

definition screen_1024 :: fb where
  "screen_1024 = \<lparr>screen_wide = 1024, screen_height = 768, bpp = 32, fbmem = (\<lambda>_. 0),
     mouse_cx = 512, mouse_cy = 384, fb_fault = False\<rparr>"

lemma screen_1024_ready: "ready screen_1024"
  by (simp add: ready_def good32_def screen_1024_def)

lemma screen_1024_visible:
  "visible screen_1024 x y \<longleftrightarrow> 0 \<le> x \<and> x < 1024 \<and> 0 \<le> y \<and> y < 768"
  by (simp add: visible_def screen_1024_def)

theorem draw_chess_num_renders_witness:
  "ready (draw_chess_num 123 7 4 0xffffff screen_1024)
   \<and> foldl (\<lambda>a od. 10 * a + snd od) 0 (numeral_layout 123) = 123"
  using draw_chess_num_renders [of screen_1024 123 7 4 "0xffffff"]
  by (simp add: screen_1024_ready screen_1024_visible stone_x_def stone_y_def chess_gap_def
      chessboard_init_x_def chessboard_init_y_def)

end
