(* ===== verification/Circle.thy ===== *)
theory Circle
  imports Draw
begin

text \<open>
  The midpoint circle of \<open>draw.c\<close>: \<open>circlepoint\<close> draws the four horizontal spans of one
  octant point, \<open>midpointcircle\<close> runs the incremental loop. The loop's second differences
  \<open>d1\<close>, \<open>d2\<close> and decision variable \<open>d\<close> are tied to the circle by \<open>mid_inv\<close>; the octant points
  it visits are the list \<open>rim\<close>, and a stone is the painting of their spans.
\<close>

subsection \<open>The code\<close>

definition circlepoint :: "int \<Rightarrow> int \<Rightarrow> int \<Rightarrow> int \<Rightarrow> int \<Rightarrow> fb \<Rightarrow> fb" where
  "circlepoint x m n y circle_color s =
     draw_wide_line (m - x) (n - y) (2 * x) circle_color
      (draw_wide_line (m - y) (n - x) (2 * y) circle_color
        (draw_wide_line (m - y) (x + n) (2 * y) circle_color
          (draw_wide_line (m - x) (y + n) (2 * x) circle_color s)))"

function circle_loop ::
  "int \<Rightarrow> int \<Rightarrow> int \<Rightarrow> int \<Rightarrow> int \<Rightarrow> int \<Rightarrow> int \<Rightarrow> int \<Rightarrow> fb \<Rightarrow> fb" where
  "circle_loop m n circle_color x y d d1 d2 s =
     (if x < y then
        if d < 0 then
          circle_loop m n circle_color (x + 1) y (d + d1) (d1 + 2) d2
            (circlepoint (x + 1) m n y circle_color s)
        else
          circle_loop m n circle_color (x + 1) (y - 1) (d + (d1 + d2)) (d1 + 2) (d2 + 2)
            (circlepoint (x + 1) m n (y - 1) circle_color s)
      else s)"
  by pat_completeness auto
termination
  by (relation "measure (\<lambda>(m, n, c, x, y, d, d1, d2, s). nat (y - x))") auto

definition midpointcircle :: "int \<Rightarrow> int \<Rightarrow> int \<Rightarrow> int \<Rightarrow> fb \<Rightarrow> fb" where
  "midpointcircle m n r circle_color s =
     circle_loop m n circle_color 0 r (1 - r) 3 (2 - r - r) (circlepoint 0 m n r circle_color s)"

subsection \<open>The octant points the loop visits\<close>

function rim_loop :: "int \<Rightarrow> int \<Rightarrow> int \<Rightarrow> int \<Rightarrow> int \<Rightarrow> (int \<times> int) list" where
  "rim_loop x y d d1 d2 =
     (if x < y then
        if d < 0 then (x + 1, y) # rim_loop (x + 1) y (d + d1) (d1 + 2) d2
        else (x + 1, y - 1) # rim_loop (x + 1) (y - 1) (d + (d1 + d2)) (d1 + 2) (d2 + 2)
      else [])"
  by pat_completeness auto
termination
  by (relation "measure (\<lambda>(x, y, d, d1, d2). nat (y - x))") auto

declare circle_loop.simps [simp del] rim_loop.simps [simp del]

definition rim :: "int \<Rightarrow> (int \<times> int) list" where
  "rim r = (0, r) # rim_loop 0 r (1 - r) 3 (2 - r - r)"

lemma circle_loop_rim:
  "circle_loop m n c x y d d1 d2 s =
     fold (\<lambda>p. circlepoint (fst p) m n (snd p) c) (rim_loop x y d d1 d2) s"
proof (induction m n c x y d d1 d2 s rule: circle_loop.induct)
  case (1 m n c x y d d1 d2 s)
  show ?case
    using "1.IH"
    by (simp add: circle_loop.simps [of m n c x y d d1 d2 s] rim_loop.simps [of x y d d1 d2])
qed

lemma midpointcircle_rim:
  "midpointcircle m n r c s = fold (\<lambda>p. circlepoint (fst p) m n (snd p) c) (rim r) s"
  by (simp add: midpointcircle_def rim_def circle_loop_rim)

text \<open>
  The integer point of column \<open>x\<close> nearest to the circle of radius \<open>r\<close>:
  \<open>y - 1/2 < sqrt (r^2 - x^2) \<le> y + 1/2\<close>, cleared of halves and roots.
\<close>

definition nearest :: "int \<Rightarrow> int \<Rightarrow> int \<Rightarrow> bool" where
  "nearest r x y \<longleftrightarrow> y * y - y < r * r - x * x \<and> r * r - x * x \<le> y * y + y"

text \<open>
  The loop invariant: the decision variable is the circle function at the midpoint below the
  next column, the increments are its differences. The last step may overshoot the diagonal
  by one column; up to there the point is the nearest one.
\<close>

definition mid_inv :: "int \<Rightarrow> int \<Rightarrow> int \<Rightarrow> int \<Rightarrow> int \<Rightarrow> int \<Rightarrow> bool" where
  "mid_inv r x y d d1 d2 \<longleftrightarrow> 0 \<le> x \<and> x \<le> r \<and> x \<le> y + 1 \<and> 0 \<le> y \<and> y \<le> r
     \<and> (x \<le> y \<longrightarrow> nearest r x y)
     \<and> d = (x + 1) * (x + 1) + y * y - y - r * r \<and> d1 = 2 * x + 3 \<and> d2 = 2 - 2 * y"

lemma mid_inv_start: "0 < r \<Longrightarrow> mid_inv r 0 r (1 - r) 3 (2 - r - r)"
  by (simp add: mid_inv_def nearest_def)

lemma mid_inv_east:
  "mid_inv r x y d d1 d2 \<Longrightarrow> x < y \<Longrightarrow> d < 0 \<Longrightarrow> mid_inv r (x + 1) y (d + d1) (d1 + 2) d2"
  by (simp add: mid_inv_def nearest_def algebra_simps)

lemma mid_inv_south_east:
  "mid_inv r x y d d1 d2 \<Longrightarrow> x < y \<Longrightarrow> \<not> d < 0 \<Longrightarrow>
    mid_inv r (x + 1) (y - 1) (d + (d1 + d2)) (d1 + 2) (d2 + 2)"
  by (simp add: mid_inv_def nearest_def algebra_simps)

lemma rim_loop_nearest:
  "mid_inv r x y d d1 d2 \<Longrightarrow> (px, py) \<in> set (rim_loop x y d d1 d2) \<Longrightarrow>
    0 \<le> px \<and> px \<le> r \<and> px \<le> py + 1 \<and> 0 \<le> py \<and> py \<le> r \<and> (px \<le> py \<longrightarrow> nearest r px py)"
proof (induction x y d d1 d2 rule: rim_loop.induct)
  case (1 x y d d1 d2)
  from "1.prems"(2) have xy: "x < y" by (auto simp: rim_loop.simps [of x y] split: if_splits)
  show ?case
  proof (cases "d < 0")
    case True
    note inv = mid_inv_east [OF "1.prems"(1) xy True]
    from "1.prems"(2) xy True
    have "(px, py) = (x + 1, y) \<or> (px, py) \<in> set (rim_loop (x + 1) y (d + d1) (d1 + 2) d2)"
      by (auto simp: rim_loop.simps [of x y d])
    then show ?thesis using "1.IH"(1) [OF xy True inv] inv by (auto simp: mid_inv_def)
  next
    case False
    note inv = mid_inv_south_east [OF "1.prems"(1) xy False]
    from "1.prems"(2) xy False
    have "(px, py) = (x + 1, y - 1)
        \<or> (px, py) \<in> set (rim_loop (x + 1) (y - 1) (d + (d1 + d2)) (d1 + 2) (d2 + 2))"
      by (auto simp: rim_loop.simps [of x y d])
    then show ?thesis using "1.IH"(2) [OF xy False inv] inv by (auto simp: mid_inv_def)
  qed
qed

text \<open>Below the diagonal no column is skipped.\<close>

lemma below_diagonal:
  assumes "nearest r x y" and "0 \<le> x" and "0 \<le> y" and "2 * (t * t) \<le> r * r" and "x < t"
  shows "x < y"
proof (rule ccontr)
  assume "\<not> x < y"
  then have "y * y + y \<le> x * x + x" using assms by (intro add_mono mult_mono) auto
  moreover have "(x + 1) * (x + 1) \<le> t * t" using assms by (intro mult_mono) auto
  ultimately have "2 * ((x + 1) * (x + 1)) \<le> 2 * (x * x) + x"
    using assms(1,4) by (simp add: nearest_def)
  then show False using assms(2) by (simp add: algebra_simps)
qed

text \<open>Only the last step can overshoot: below the target column the point stays on its side.\<close>

lemma overshoot_is_last:
  assumes "mid_inv r x y d d1 d2" "x < y" "\<not> d < 0" "x < t" "2 * (t * t) \<le> r * r"
  shows "x + 1 \<le> y - 1"
proof (rule ccontr)
  assume "\<not> x + 1 \<le> y - 1"
  then have y: "y = x + 1" using assms(2) by simp
  have "(x + 1) * (x + 1) \<le> t * t" using assms by (intro mult_mono) (auto simp: mid_inv_def)
  moreover have "r * r \<le> (x + 1) * (x + 1) + y * y - y"
    using assms by (simp add: mid_inv_def)
  ultimately show False using assms(1,5) y by (simp add: mid_inv_def)
qed

lemma rim_loop_columns:
  "mid_inv r x y d d1 d2 \<Longrightarrow> x < t \<Longrightarrow> x \<le> y \<Longrightarrow> 2 * (t * t) \<le> r * r \<Longrightarrow>
    \<exists>u. t \<le> u \<and> (t, u) \<in> set (rim_loop x y d d1 d2)"
proof (induction x y d d1 d2 rule: rim_loop.induct)
  case (1 x y d d1 d2)
  have xy: "x < y"
    using below_diagonal [of r x y t] "1.prems" by (simp add: mid_inv_def)
  show ?case
  proof (cases "d < 0")
    case True
    note inv = mid_inv_east [OF "1.prems"(1) xy True]
    show ?thesis
    proof (cases "t = x + 1")
      case eq: True
      then show ?thesis using xy True
        by (intro exI [of _ y]) (simp add: rim_loop.simps [of x y d])
    next
      case neq: False
      then have "\<exists>u. t \<le> u \<and> (t, u) \<in> set (rim_loop (x + 1) y (d + d1) (d1 + 2) d2)"
        using "1.prems" xy by (intro "1.IH"(1) [OF xy True inv]) auto
      then show ?thesis using xy True by (auto simp: rim_loop.simps [of x y d])
    qed
  next
    case False
    note inv = mid_inv_south_east [OF "1.prems"(1) xy False]
    have le: "x + 1 \<le> y - 1" by (rule overshoot_is_last [OF "1.prems"(1) xy False]) (use "1.prems" in auto)
    show ?thesis
    proof (cases "t = x + 1")
      case eq: True
      then show ?thesis using xy False le
        by (intro exI [of _ "y - 1"]) (simp add: rim_loop.simps [of x y d])
    next
      case neq: False
      have "\<exists>u. t \<le> u \<and> (t, u) \<in> set (rim_loop (x + 1) (y - 1) (d + (d1 + d2)) (d1 + 2) (d2 + 2))"
        using "1.prems" neq le by (intro "1.IH"(2) [OF xy False inv]) auto
      then show ?thesis using xy False by (auto simp: rim_loop.simps [of x y d])
    qed
  qed
qed

lemma rim_points:
  assumes "0 < r" and "(x, y) \<in> set (rim r)"
  shows "0 \<le> x \<and> x \<le> r \<and> x \<le> y + 1 \<and> 0 \<le> y \<and> y \<le> r \<and> (x \<le> y \<longrightarrow> nearest r x y)"
  using assms rim_loop_nearest [OF mid_inv_start [OF assms(1)], of x y]
  by (auto simp: rim_def nearest_def)

subsection \<open>What a circle paints\<close>

definition span_points :: "int \<Rightarrow> int \<Rightarrow> int \<Rightarrow> int \<Rightarrow> (int \<times> int) list" where
  "span_points m n x y = hline (m - x) (y + n) (2 * x) @ hline (m - y) (x + n) (2 * y)
     @ hline (m - y) (n - x) (2 * y) @ hline (m - x) (n - y) (2 * x)"

definition circle_points :: "int \<Rightarrow> int \<Rightarrow> int \<Rightarrow> (int \<times> int) list" where
  "circle_points m n r = concat (map (\<lambda>p. span_points m n (fst p) (snd p)) (rim r))"

lemma circlepoint_paint: "circlepoint x m n y c s = paint c (span_points m n x y) s"
  by (simp add: circlepoint_def span_points_def draw_wide_line_paint)

lemma midpointcircle_paint: "midpointcircle m n r c s = paint c (circle_points m n r) s"
proof -
  have "fold (\<lambda>p. circlepoint (fst p) m n (snd p) c) ps t
      = paint c (concat (map (\<lambda>p. span_points m n (fst p) (snd p)) ps)) t" for ps t
    by (induction ps arbitrary: t) (simp_all add: circlepoint_paint)
  then show ?thesis by (simp add: midpointcircle_rim circle_points_def)
qed

text \<open>The disc: some octant point has a span of its row or its column over the pixel.\<close>

definition in_disc :: "int \<Rightarrow> int \<Rightarrow> int \<Rightarrow> bool" where
  "in_disc r dx dy \<longleftrightarrow> (\<exists>(x, y) \<in> set (rim r).
      \<bar>dy\<bar> = y \<and> - x \<le> dx \<and> dx < x \<or> \<bar>dy\<bar> = x \<and> - y \<le> dx \<and> dx < y)"

lemma set_span_points:
  assumes "0 < r" and "p \<in> set (rim r)"
  shows "(px, py) \<in> set (span_points m n (fst p) (snd p)) \<longleftrightarrow>
      \<bar>py - n\<bar> = snd p \<and> - fst p \<le> px - m \<and> px - m < fst p
      \<or> \<bar>py - n\<bar> = fst p \<and> - snd p \<le> px - m \<and> px - m < snd p"
proof -
  have "0 \<le> fst p" "0 \<le> snd p"
    using rim_points [OF assms(1), of "fst p" "snd p"] assms(2) by simp_all
  then show ?thesis unfolding span_points_def set_append Un_iff set_hline by linarith
qed

lemma set_circle_points:
  assumes "0 < r"
  shows "(px, py) \<in> set (circle_points m n r) \<longleftrightarrow> in_disc r (px - m) (py - n)"
proof -
  have "(px, py) \<in> set (circle_points m n r) \<longleftrightarrow>
      (\<exists>p \<in> set (rim r). (px, py) \<in> set (span_points m n (fst p) (snd p)))"
    by (simp add: circle_points_def)
  also have "\<dots> \<longleftrightarrow> in_disc r (px - m) (py - n)"
    unfolding in_disc_def case_prod_beta by (intro bex_cong refl set_span_points [OF assms])
  finally show ?thesis .
qed

lemma in_disc_box:
  assumes "0 < r" and "in_disc r dx dy"
  shows "- r \<le> dx \<and> dx < r \<and> - r \<le> dy \<and> dy \<le> r"
proof -
  from assms(2) obtain x y where "(x, y) \<in> set (rim r)"
    "\<bar>dy\<bar> = y \<and> - x \<le> dx \<and> dx < x \<or> \<bar>dy\<bar> = x \<and> - y \<le> dx \<and> dx < y"
    by (auto simp: in_disc_def)
  then show ?thesis using rim_points [OF assms(1)] by force
qed

text \<open>
  C32: the octant points at which \<open>midpointcircle\<close> draws are the right ones. For every positive
  radius, up to the diagonal each visited column carries the integer ordinate nearest to the true
  circle, no column of the octant (\<open>2 * t^2 \<le> r^2\<close>) is skipped, and all points stay in the
  square of the radius. (The loop itself terminates for all arguments.)
\<close>

theorem midpointcircle_rim_nearest:
  assumes "0 < r"
  shows "midpointcircle m n r c s = fold (\<lambda>p. circlepoint (fst p) m n (snd p) c) (rim r) s
    \<and> (\<forall>(x, y) \<in> set (rim r). 0 \<le> x \<and> x \<le> r \<and> 0 \<le> y \<and> y \<le> r \<and> x \<le> y + 1
          \<and> (x \<le> y \<longrightarrow> y * y - y < r * r - x * x \<and> r * r - x * x \<le> y * y + y))
    \<and> (\<forall>t. 0 \<le> t \<and> 2 * (t * t) \<le> r * r \<longrightarrow> (\<exists>u. t \<le> u \<and> (t, u) \<in> set (rim r)))"
proof (intro conjI ballI allI impI)
  show "midpointcircle m n r c s = fold (\<lambda>p. circlepoint (fst p) m n (snd p) c) (rim r) s"
    by (rule midpointcircle_rim)
next
  fix p assume "p \<in> set (rim r)"
  then show "case p of (x, y) \<Rightarrow> 0 \<le> x \<and> x \<le> r \<and> 0 \<le> y \<and> y \<le> r \<and> x \<le> y + 1
          \<and> (x \<le> y \<longrightarrow> y * y - y < r * r - x * x \<and> r * r - x * x \<le> y * y + y)"
    using rim_points [OF assms, of "fst p" "snd p"] by (simp add: case_prod_beta nearest_def)
next
  fix t assume t: "0 \<le> t \<and> 2 * (t * t) \<le> r * r"
  show "\<exists>u. t \<le> u \<and> (t, u) \<in> set (rim r)"
  proof (cases "t = 0")
    case True
    then show ?thesis using assms by (intro exI [of _ r]) (simp add: rim_def)
  next
    case False
    then show ?thesis
      using rim_loop_columns [OF mid_inv_start [OF assms], of t] t assms by (auto simp: rim_def)
  qed
qed

theorem midpointcircle_rim_nearest_witness:
  "midpointcircle 355 115 circle_r 0xff screen_1024 =
     fold (\<lambda>p. circlepoint (fst p) 355 115 (snd p) 0xff) (rim circle_r) screen_1024
   \<and> (\<exists>u. 9 \<le> u \<and> (9, u) \<in> set (rim circle_r))"
  using midpointcircle_rim_nearest [of circle_r 355 115 "0xff" screen_1024] by (simp add: circle_r_def)

text \<open>
  a stone stays in its box and nothing else changes. On a good screen of either depth that
  shows the box \<open>[m - r, m + r) x [n - r, n + r]\<close>, \<open>midpointcircle\<close> leaves the mapping
  unviolated, gives exactly the pixels of the disc the stored colour and keeps every other
  visible pixel; the disc is symmetric in the rows and lies in the box.
\<close>

theorem midpointcircle_pixels:
  assumes "ready s" and "0 < r" and "visible s (m - r) (n - r)" and "visible s (m + r - 1) (n + r)"
  shows "ready (midpointcircle m n r c s)
    \<and> (\<forall>px py. visible s px py \<longrightarrow> pixel (midpointcircle m n r c s) px py =
         (if in_disc r (px - m) (py - n) then shade s c else pixel s px py))
    \<and> (\<forall>dx dy. in_disc r dx dy \<longrightarrow> in_disc r dx (- dy) \<and> - r \<le> dx \<and> dx < r \<and> \<bar>dy\<bar> \<le> r)"
proof -
  have vis: "visible s x y" if "(x, y) \<in> set (circle_points m n r)" for x y
  proof -
    have "in_disc r (x - m) (y - n)" using that assms(2) by (simp add: set_circle_points)
    from in_disc_box [OF assms(2) this] show ?thesis using assms(3,4) by (auto simp: visible_def)
  qed
  have sym: "in_disc r dx (- dy)" if "in_disc r dx dy" for dx dy
    using that by (simp add: in_disc_def)
  have box: "- r \<le> dx \<and> dx < r \<and> \<bar>dy\<bar> \<le> r" if "in_disc r dx dy" for dx dy
    using in_disc_box [OF assms(2) that] by auto
  show ?thesis
    unfolding midpointcircle_paint set_circle_points [OF assms(2), symmetric]
    using ready_paint [OF assms(1) vis] paint_pixel [OF assms(1) vis] sym box by blast
qed

theorem midpointcircle_pixels_witness:
  "ready (midpointcircle 355 115 circle_r 0xff screen_1024)"
  using midpointcircle_pixels [OF screen_1024_ready, of circle_r 355 115 "0xff"]
  by (simp add: screen_1024_visible circle_r_def)

end
