(* ===== verification/Mouse.thy ===== *)
theory Mouse
  imports Circle
begin

text \<open>
  \<open>mouse.c\<close>: reading a PS/2 packet into the pointer position, turning a position into a
  square of the board, and the cursor: saving the pixels under it, drawing it, restoring them.
  The pointer position itself (\<open>mouse_cx\<close>, \<open>mouse_cy\<close>) is declared in \<open>fb.c\<close> and sits in the
  record \<open>fb\<close>; the static variables and globals of \<open>mouse.c\<close> are the record \<open>mouse\<close>.
\<close>

record mouse =
  array_x :: int
  array_y :: int
  mouse_buf :: "int \<Rightarrow> int"
  save_mouse_cx :: int
  save_mouse_cy :: int
  button :: int

definition C_WIDTH :: int where "C_WIDTH = 10"
definition C_HEIGHT :: int where "C_HEIGHT = 17"

text \<open>The cursor bitmap: \<open>T___\<close> is transparent, \<open>BORD\<close> and \<open>X___\<close> are drawn.\<close>

definition cursor_pixel :: "int list" where
  "cursor_pixel =
    (let T = 0xFFFFFFFF; B = 0x0; X = 0xFFFF in
     [B, T, T, T, T, T, T, T, T, T,
      B, B, T, T, T, T, T, T, T, T,
      B, X, B, T, T, T, T, T, T, T,
      B, X, X, B, T, T, T, T, T, T,
      B, X, X, X, B, T, T, T, T, T,
      B, X, X, X, X, B, T, T, T, T,
      B, X, X, X, X, X, B, T, T, T,
      B, X, X, X, X, X, X, B, T, T,
      B, X, X, X, X, X, X, X, B, T,
      B, X, X, X, X, X, X, X, X, B,
      B, X, X, X, X, X, B, B, B, B,
      B, X, X, B, X, X, B, T, T, T,
      B, X, B, T, B, X, X, B, T, T,
      B, B, T, T, B, X, X, B, T, T,
      T, T, T, T, T, B, X, X, B, T,
      T, T, T, T, T, B, X, X, B, T,
      T, T, T, T, T, T, B, B, T, T])"

text \<open>
  \<open>buf0\<close>, \<open>buf1\<close>, \<open>buf2\<close> are the bytes of the packet \<open>read\<close> delivered. The result is 0 when
  the left button was released, -1 otherwise.
\<close>

text \<open>The two border tests on a coordinate, in the order of the code.\<close>

definition mouse_clamp :: "int \<Rightarrow> int \<Rightarrow> int" where
  "mouse_clamp dim v =
     (let v' = (if v < 0 then 0 else v) in if v' > dim - 20 then dim - 20 else v')"

definition read_mouse :: "int \<Rightarrow> int \<Rightarrow> int \<Rightarrow> fb \<times> mouse \<Rightarrow> int \<times> fb \<times> mouse" where
  "read_mouse buf0 buf1 buf2 st =
     (let (s, m) = st;
          mouse_dx = buf1 - (if buf0 AND 0x10 \<noteq> 0 then 256 else 0);
          mouse_dy = - buf2 + (if buf0 AND 0x20 \<noteq> 0 then 256 else 0);
          s' = s\<lparr>mouse_cx := mouse_clamp (screen_wide s) (mouse_cx s + mouse_dx),
                 mouse_cy := mouse_clamp (screen_height s) (mouse_cy s + mouse_dy)\<rparr>
      in if buf0 AND 0x1 \<noteq> 0 then (- 1, s', m\<lparr>button := 1\<rparr>)
         else if button m = 1 then (0, s', m\<lparr>button := 0\<rparr>)
         else (- 1, s', m))"

definition cursor_cell :: "int \<Rightarrow> int \<Rightarrow> int \<Rightarrow> int \<Rightarrow> int" where
  "cursor_cell w cx cy i = cx + i mod C_WIDTH + (cy + i div C_WIDTH) * w"

definition draw_mouse :: "fb \<Rightarrow> fb" where
  "draw_mouse s =
     for_range 0 (C_WIDTH * C_HEIGHT) (\<lambda>i t.
       if cursor_pixel ! nat i = 0x0 then
         draw_point (mouse_cx t + i mod C_WIDTH) (mouse_cy t + i div C_WIDTH) 0x00ffffff t
       else if cursor_pixel ! nat i = 0xFFFF then
         draw_point (mouse_cx t + i mod C_WIDTH) (mouse_cy t + i div C_WIDTH) 0x00000000 t
       else t) s"

definition check_mouse_pix :: "fb \<Rightarrow> mouse \<Rightarrow> int \<times> mouse" where
  "check_mouse_pix s m =
     (let chess_max_border_x = chessboard_init_x + chess_gap sdiv 2 + (chess_line_num - 1) * chess_gap;
          chess_max_border_y = chessboard_init_y + chess_gap sdiv 2 + (chess_line_num - 1) * chess_gap;
          chess_min_border_x = chessboard_init_x - chess_gap sdiv 2;
          chess_min_border_y = chessboard_init_y - chess_gap sdiv 2
      in if mouse_cx s < chess_max_border_x \<and> mouse_cy s < chess_max_border_y
            \<and> mouse_cx s > chess_min_border_x \<and> mouse_cy s > chess_min_border_y
         then (0, m\<lparr>array_x := (mouse_cx s - chess_min_border_x) sdiv chess_gap,
                     array_y := (mouse_cy s - chess_min_border_y) sdiv chess_gap\<rparr>)
         else (1, m))"

definition save_mouse_buf :: "fb \<times> mouse \<Rightarrow> fb \<times> mouse" where
  "save_mouse_buf st =
     (let (s, m) = st in
      for_range 0 (C_WIDTH * C_HEIGHT) (\<lambda>i (s, m).
        let k = cursor_cell (screen_wide s) (save_mouse_cx m) (save_mouse_cy m) i in
        if bpp s = 16 then (fb_touch k s, m\<lparr>mouse_buf := (mouse_buf m)(i := fbmem s k)\<rparr>)
        else if bpp s = 32 then (fb_touch k s, m\<lparr>mouse_buf := (mouse_buf m)(i := fbmem s k)\<rparr>)
        else (s, m))
      (s, m\<lparr>save_mouse_cx := mouse_cx s, save_mouse_cy := mouse_cy s\<rparr>))"

definition recover_mouse_buf :: "mouse \<Rightarrow> fb \<Rightarrow> fb" where
  "recover_mouse_buf m s =
     for_range 0 (C_WIDTH * C_HEIGHT) (\<lambda>i t.
       let k = cursor_cell (screen_wide t) (save_mouse_cx m) (save_mouse_cy m) i in
       if cursor_pixel ! nat i \<noteq> 0xFFFFFFFF then
         if bpp t = 16 then fb_store k (to_short (mouse_buf m i)) t
         else if bpp t = 32 then fb_store k (mouse_buf m i) t
         else t
       else t) s"

text \<open>The statics before the first packet: zero, as C initialises them.\<close>

definition mouse_init :: mouse where
  "mouse_init = \<lparr>array_x = 0, array_y = 0, mouse_buf = (\<lambda>_. 0), save_mouse_cx = 0,
     save_mouse_cy = 0, button = 0\<rparr>"

subsection \<open>The pointer\<close>

lemma mouse_clamp_range: "20 \<le> dim \<Longrightarrow> 0 \<le> mouse_clamp dim v \<and> mouse_clamp dim v \<le> dim - 20"
  by (simp add: mouse_clamp_def Let_def)

lemma read_mouse_result:
  assumes "read_mouse buf0 buf1 buf2 (s, m) = (ret, s', m')"
  shows "\<exists>x y. s' = s\<lparr>mouse_cx := mouse_clamp (screen_wide s) x,
                       mouse_cy := mouse_clamp (screen_height s) y\<rparr>"
    and "ret = 0 \<longleftrightarrow> buf0 AND 1 = 0 \<and> button m = 1"
    and "button m' = 1 \<longleftrightarrow> buf0 AND 1 \<noteq> 0"
    and "m' = m\<lparr>button := button m'\<rparr>"
  using assms unfolding read_mouse_def Let_def prod.case
  by (cases "buf0 AND 1 \<noteq> 0"; cases "button m = 1"; force split del: if_split)+

lemma cursor_offsets:
  "0 \<le> i \<Longrightarrow> i < C_WIDTH * C_HEIGHT \<Longrightarrow>
    0 \<le> i mod C_WIDTH \<and> i mod C_WIDTH < 10 \<and> 0 \<le> i div C_WIDTH \<and> i div C_WIDTH \<le> 16"
  by (auto simp: C_WIDTH_def C_HEIGHT_def)

text \<open>
  the pointer never leaves the screen, and a click is reported once per release. From any
  position on a screen of at least 20 by 20, whatever packet arrives, the pointer ends where the
  whole 10 by 17 cursor is visible; the result is 0 exactly when the left bit is clear and the
  button was down before, and the button state follows the left bit.
\<close>

theorem read_mouse_keeps_cursor_visible:
  assumes "20 \<le> screen_wide s" and "20 \<le> screen_height s"
    and "read_mouse buf0 buf1 buf2 (s, m) = (ret, s', m')"
  shows "(\<forall>i. 0 \<le> i \<and> i < C_WIDTH * C_HEIGHT \<longrightarrow>
            visible s' (mouse_cx s' + i mod C_WIDTH) (mouse_cy s' + i div C_WIDTH))
    \<and> (ret = 0 \<longleftrightarrow> buf0 AND 1 = 0 \<and> button m = 1)
    \<and> (button m' = 1 \<longleftrightarrow> buf0 AND 1 \<noteq> 0)
    \<and> fbmem s' = fbmem s \<and> screen_wide s' = screen_wide s \<and> screen_height s' = screen_height s"
proof -
  from read_mouse_result(1) [OF assms(3)] obtain x y where
    s': "s' = s\<lparr>mouse_cx := mouse_clamp (screen_wide s) x, mouse_cy := mouse_clamp (screen_height s) y\<rparr>"
    by blast
  show ?thesis
    using read_mouse_result(2,3) [OF assms(3)] cursor_offsets
      mouse_clamp_range [OF assms(1), of x] mouse_clamp_range [OF assms(2), of y]
    by (force simp: s' visible_def)
qed

theorem read_mouse_keeps_cursor_visible_witness:
  "read_mouse 0x08 200 0 (screen_1024, mouse_init)
     = (- 1, screen_1024\<lparr>mouse_cx := 712\<rparr>, mouse_init)
   \<and> visible (screen_1024\<lparr>mouse_cx := 712\<rparr>) 713 386"
proof -
  have r: "read_mouse 0x08 200 0 (screen_1024, mouse_init)
     = (- 1, screen_1024\<lparr>mouse_cx := 712\<rparr>, mouse_init)"
    by (simp add: read_mouse_def mouse_clamp_def screen_1024_def mouse_init_def)
  show ?thesis
    using r read_mouse_keeps_cursor_visible [OF _ _ r]
    by (auto simp: screen_1024_def C_WIDTH_def C_HEIGHT_def dest: spec [of _ 21])
qed

subsection \<open>Squares of the board\<close>

lemma board_geometry:
  "chessboard_init_x = 355" "chessboard_init_y = 115" "chess_gap = 30" "chess_line_num = 20"
  by (simp_all add: chessboard_init_x_def chessboard_init_y_def chess_gap_def chess_line_num_def)

text \<open>
  a click selects the crossing it is on. \<open>check_mouse_pix\<close> accepts exactly the positions
  strictly inside the board's border; then the selected square is on the 20 by 20 board and the
  pointer lies within half a gap of the point at which a stone on that square is drawn, and
  no other square has this property. Otherwise it changes nothing.
\<close>

theorem check_mouse_pix_selects_crossing:
  "(fst (check_mouse_pix s m) = 0 \<longleftrightarrow>
      stone_x 0 - 15 < mouse_cx s \<and> mouse_cx s < stone_x 19 + 15
      \<and> stone_y 0 - 15 < mouse_cy s \<and> mouse_cy s < stone_y 19 + 15)
   \<and> (if fst (check_mouse_pix s m) = 0 then
        let m' = snd (check_mouse_pix s m) in
        0 \<le> array_x m' \<and> array_x m' < 20 \<and> 0 \<le> array_y m' \<and> array_y m' < 20
        \<and> (\<forall>ax ay. array_x m' = ax \<and> array_y m' = ay \<longleftrightarrow>
              stone_x ax - 15 \<le> mouse_cx s \<and> mouse_cx s < stone_x ax + 15
              \<and> stone_y ay - 15 \<le> mouse_cy s \<and> mouse_cy s < stone_y ay + 15)
      else snd (check_mouse_pix s m) = m)"
proof -
  have div30: "(v div 30 = a) = (30 * a \<le> v \<and> v < 30 * a + 30)" for v a :: int
    by linarith
  show ?thesis
    by (auto simp: check_mouse_pix_def Let_def board_geometry stone_x_def stone_y_def sdiv_nonneg
        div30)
qed

subsection \<open>The cursor\<close>

text \<open>The cells the cursor draws on: the bitmap's opaque entries.\<close>

definition opaque :: "int \<Rightarrow> bool" where
  "opaque i \<longleftrightarrow> 0 \<le> i \<and> i < 170 \<and> cursor_pixel ! nat i \<noteq> 0xFFFFFFFF"

text \<open>A position at which the whole cursor is on the screen.\<close>

definition cursor_fits :: "fb \<Rightarrow> int \<Rightarrow> int \<Rightarrow> bool" where
  "cursor_fits s cx cy \<longleftrightarrow> 0 \<le> cx \<and> cx + 10 \<le> screen_wide s \<and> 0 \<le> cy \<and> cy + 17 \<le> screen_height s"

lemma cursor_size: "C_WIDTH = 10" "C_HEIGHT = 17" "10 * 17 = (170 :: int)"
  by (simp_all add: C_WIDTH_def C_HEIGHT_def)

lemma cursor_visible:
  "cursor_fits s cx cy \<Longrightarrow> 0 \<le> i \<Longrightarrow> i < 170 \<Longrightarrow> visible s (cx + i mod 10) (cy + i div 10)"
  using cursor_offsets [of i] by (auto simp: cursor_fits_def visible_def cursor_size)

lemma cursor_cell_range:
  "cursor_fits s cx cy \<Longrightarrow> 0 \<le> i \<Longrightarrow> i < 170 \<Longrightarrow>
    0 \<le> cursor_cell (screen_wide s) cx cy i \<and> cursor_cell (screen_wide s) cx cy i < fb_cells s"
  using visible_cell [OF cursor_visible] by (simp add: cursor_cell_def cursor_size)

lemma cursor_cell_inject:
  assumes "cursor_fits s cx cy" "0 \<le> i" "i < 170" "0 \<le> j" "j < 170"
  shows "cursor_cell (screen_wide s) cx cy i = cursor_cell (screen_wide s) cx cy j \<longleftrightarrow> i = j"
proof -
  have "cursor_cell (screen_wide s) cx cy i = cursor_cell (screen_wide s) cx cy j \<longleftrightarrow>
      i mod 10 = j mod 10 \<and> i div 10 = j div 10"
    using visible_inject [OF cursor_visible cursor_visible, of s cx cy i cx cy j] assms
    by (simp add: cursor_cell_def cursor_size)
  then show ?thesis by (metis mult_div_mod_eq)
qed

definition depth_ok :: "fb \<Rightarrow> bool" where
  "depth_ok s \<longleftrightarrow> bpp s = 32 \<or> bpp s = 16"

lemma ready_depth: "ready s \<longleftrightarrow> depth_ok s \<and> \<not> fb_fault s"
  by (auto simp: ready_def good32_def good16_def depth_ok_def)

text \<open>Saving fills the buffer and leaves the screen alone.\<close>

lemma save_mouse_buf_result:
  assumes "ready s" and "cursor_fits s (mouse_cx s) (mouse_cy s)"
    and "save_mouse_buf (s, m) = (s', m')"
  shows "s' = s" and "save_mouse_cx m' = mouse_cx s" and "save_mouse_cy m' = mouse_cy s"
    and "0 \<le> j \<Longrightarrow> j < 170 \<Longrightarrow>
      mouse_buf m' j = fbmem s (cursor_cell (screen_wide s) (mouse_cx s) (mouse_cy s) j)"
proof -
  let ?cell = "cursor_cell (screen_wide s) (mouse_cx s) (mouse_cy s)"
  let ?step = "\<lambda>i (s, m). let k = cursor_cell (screen_wide s) (save_mouse_cx m) (save_mouse_cy m) i in
        if bpp s = 16 then (fb_touch k s, m\<lparr>mouse_buf := (mouse_buf m)(i := fbmem s k)\<rparr>)
        else if bpp s = 32 then (fb_touch k s, m\<lparr>mouse_buf := (mouse_buf m)(i := fbmem s k)\<rparr>)
        else (s, m)"
  let ?P = "\<lambda>i t. fst t = s \<and> save_mouse_cx (snd t) = mouse_cx s \<and> save_mouse_cy (snd t) = mouse_cy s
      \<and> (\<forall>j. 0 \<le> j \<and> j < i \<longrightarrow> mouse_buf (snd t) j = fbmem s (?cell j))"
  have "?P 170 (for_range 0 170 ?step (s, m\<lparr>save_mouse_cx := mouse_cx s, save_mouse_cy := mouse_cy s\<rparr>))"
  proof (rule for_range_invariant [where P = ?P])
    fix i t assume i: "0 \<le> i" "i < (170 :: int)" and P: "?P i t"
    obtain u m0 where t: "t = (u, m0)" by (cases t)
    have "fb_touch (?cell i) s = s"
      using cursor_cell_range [OF assms(2) i] by (simp add: fb_touch_def)
    then show "?P (i + 1) (?step i t)"
      using P assms(1) unfolding t by (auto simp: Let_def ready_depth depth_ok_def)
  qed simp_all
  then show "s' = s" "save_mouse_cx m' = mouse_cx s" "save_mouse_cy m' = mouse_cy s"
    "0 \<le> j \<Longrightarrow> j < 170 \<Longrightarrow> mouse_buf m' j = fbmem s (?cell j)"
    using assms(3) by (simp_all add: save_mouse_buf_def cursor_size)
qed

text \<open>Drawing touches opaque cells only.\<close>

lemma cursor_pixel_values: "list_all (\<lambda>v. v = 0 \<or> v = 0xFFFF \<or> v = 0xFFFFFFFF) cursor_pixel"
  by (simp add: cursor_pixel_def Let_def)

lemma draw_mouse_frame:
  assumes "ready s" and "cursor_fits s (mouse_cx s) (mouse_cy s)"
  shows "ready (draw_mouse s) \<and> same_screen s (draw_mouse s)
    \<and> (\<forall>k. (\<forall>j. opaque j \<longrightarrow> k \<noteq> cursor_cell (screen_wide s) (mouse_cx s) (mouse_cy s) j) \<longrightarrow>
           fbmem (draw_mouse s) k = fbmem s k)"
  unfolding draw_mouse_def cursor_size
proof (rule for_range_keeps)
  show "ready s \<and> same_screen s s \<and> (\<forall>k. (\<forall>j. opaque j \<longrightarrow>
      k \<noteq> cursor_cell (screen_wide s) (mouse_cx s) (mouse_cy s) j) \<longrightarrow> fbmem s k = fbmem s k)"
    using assms(1) by simp
next
  fix i t
  let ?cell = "cursor_cell (screen_wide s) (mouse_cx s) (mouse_cy s)"
  assume i: "0 \<le> i" "i < (170 :: int)"
    and I: "ready t \<and> same_screen s t \<and> (\<forall>k. (\<forall>j. opaque j \<longrightarrow> k \<noteq> ?cell j) \<longrightarrow> fbmem t k = fbmem s k)"
  have same: "screen_wide t = screen_wide s" "mouse_cx t = mouse_cx s" "mouse_cy t = mouse_cy s"
    using I by (auto simp: same_screen_def)
  have vis: "visible t (mouse_cx s + i mod 10) (mouse_cy s + i div 10)"
    using cursor_visible [OF assms(2) i] same_screen_visible I by blast
  have "ready (draw_point (mouse_cx s + i mod 10) (mouse_cy s + i div 10) c t)
      \<and> same_screen s (draw_point (mouse_cx s + i mod 10) (mouse_cy s + i div 10) c t)
      \<and> (\<forall>k. k \<noteq> ?cell i \<longrightarrow>
          fbmem (draw_point (mouse_cx s + i mod 10) (mouse_cy s + i div 10) c t) k = fbmem t k)" for c
  proof -
    have "bpp t = 32 \<or> bpp t = 16" using I by (auto simp: ready_depth depth_ok_def)
    from draw_point_visible [OF vis this] show ?thesis
      using I by (auto simp: ready_depth depth_ok_def same_screen_def cursor_cell_def cursor_size)
  qed
  then show "ready (if cursor_pixel ! nat i = 0x0 then
         draw_point (mouse_cx t + i mod 10) (mouse_cy t + i div 10) 0x00ffffff t
       else if cursor_pixel ! nat i = 0xFFFF then
         draw_point (mouse_cx t + i mod 10) (mouse_cy t + i div 10) 0x00000000 t else t)
     \<and> same_screen s (if cursor_pixel ! nat i = 0x0 then
         draw_point (mouse_cx t + i mod 10) (mouse_cy t + i div 10) 0x00ffffff t
       else if cursor_pixel ! nat i = 0xFFFF then
         draw_point (mouse_cx t + i mod 10) (mouse_cy t + i div 10) 0x00000000 t else t)
     \<and> (\<forall>k. (\<forall>j. opaque j \<longrightarrow> k \<noteq> ?cell j) \<longrightarrow>
         fbmem (if cursor_pixel ! nat i = 0x0 then
         draw_point (mouse_cx t + i mod 10) (mouse_cy t + i div 10) 0x00ffffff t
       else if cursor_pixel ! nat i = 0xFFFF then
         draw_point (mouse_cx t + i mod 10) (mouse_cy t + i div 10) 0x00000000 t else t) k = fbmem s k)"
    using I i same by (auto simp: opaque_def)
qed

text \<open>Restoring writes the saved elements back into the opaque cells.\<close>

definition element :: "fb \<Rightarrow> int \<Rightarrow> int" where
  "element s v = (if bpp s = 32 then v else to_short v)"

definition elements_ok :: "fb \<Rightarrow> bool" where
  "elements_ok s \<longleftrightarrow> (\<forall>k. element s (fbmem s k) = fbmem s k)"

lemma recover_mouse_buf_result:
  assumes "ready s" and "cursor_fits s (save_mouse_cx m) (save_mouse_cy m)"
  shows "ready (recover_mouse_buf m s) \<and> same_screen s (recover_mouse_buf m s)
    \<and> (\<forall>j. opaque j \<longrightarrow>
        fbmem (recover_mouse_buf m s) (cursor_cell (screen_wide s) (save_mouse_cx m) (save_mouse_cy m) j)
          = element s (mouse_buf m j))
    \<and> (\<forall>k. (\<forall>j. opaque j \<longrightarrow> k \<noteq> cursor_cell (screen_wide s) (save_mouse_cx m) (save_mouse_cy m) j) \<longrightarrow>
           fbmem (recover_mouse_buf m s) k = fbmem s k)"
proof -
  let ?cell = "cursor_cell (screen_wide s) (save_mouse_cx m) (save_mouse_cy m)"
  let ?step = "\<lambda>i t. let k = cursor_cell (screen_wide t) (save_mouse_cx m) (save_mouse_cy m) i in
       if cursor_pixel ! nat i \<noteq> 0xFFFFFFFF then
         if bpp t = 16 then fb_store k (to_short (mouse_buf m i)) t
         else if bpp t = 32 then fb_store k (mouse_buf m i) t else t
       else t"
  let ?P = "\<lambda>i t. ready t \<and> same_screen s t
      \<and> (\<forall>j. opaque j \<and> j < i \<longrightarrow> fbmem t (?cell j) = element s (mouse_buf m j))
      \<and> (\<forall>k. (\<forall>j. opaque j \<longrightarrow> k \<noteq> ?cell j) \<longrightarrow> fbmem t k = fbmem s k)"
  have "?P 170 (for_range 0 170 ?step s)"
  proof (rule for_range_invariant [where P = ?P])
    show "?P 0 s" using assms(1) by (simp add: opaque_def)
  next
    fix i t assume i: "0 \<le> i" "i < (170 :: int)" and P: "?P i t"
    show "?P (i + 1) (?step i t)"
    proof (cases "opaque i")
      case False
      then have "?step i t = t" using i by (simp add: opaque_def)
      moreover have "j < i" if "opaque j" "j < i + 1" for j
        using that False by (cases "j = i") auto
      ultimately show ?thesis using P by auto
    next
      case True
      have scr: "screen_wide t = screen_wide s" "bpp t = bpp s" "fb_cells t = fb_cells s"
        using P by (auto simp: same_screen_def fb_cells_def)
      have e: "?step i t = t\<lparr>fbmem := (fbmem t)(?cell i := element s (mouse_buf m i))\<rparr>"
        using True P scr cursor_cell_range [OF assms(2) i]
        by (auto simp: Let_def opaque_def fb_store_def element_def ready_depth depth_ok_def)
      have inj: "?cell j = ?cell i \<longleftrightarrow> j = i" if "opaque j" for j
        using that cursor_cell_inject [OF assms(2), of j i] i by (auto simp: opaque_def)
      have "fbmem (?step i t) (?cell j) = element s (mouse_buf m j)" if "opaque j" "j < i + 1" for j
        unfolding e using that P inj [of j] by (cases "j = i") auto
      moreover have "ready (?step i t) \<and> same_screen s (?step i t)"
        unfolding e using P by (auto simp: ready_depth depth_ok_def same_screen_def)
      moreover have "fbmem (?step i t) k = fbmem s k" if "\<forall>j. opaque j \<longrightarrow> k \<noteq> ?cell j" for k
        unfolding e using that P True by auto
      ultimately show ?thesis by blast
    qed
  qed simp
  moreover have "recover_mouse_buf m s = for_range 0 170 ?step s"
    by (simp add: recover_mouse_buf_def cursor_size)
  moreover have "j < 170" if "opaque j" for j using that by (simp add: opaque_def)
  ultimately show ?thesis by simp
qed

text \<open>
  C23: the cursor leaves no trace. On a good screen of either depth with the cursor on it, saving
  the pixels under the cursor, drawing it and later, with the pointer anywhere, restoring the
  saved pixels gives back the very contents of the screen, without an access outside the mapping.
\<close>

theorem cursor_round_trip:
  assumes "ready s" and "elements_ok s" and "cursor_fits s (mouse_cx s) (mouse_cy s)"
    and "save_mouse_buf (s, m) = (s1, m1)"
  shows "ready (recover_mouse_buf m1 ((draw_mouse s1)\<lparr>mouse_cx := x, mouse_cy := y\<rparr>))
    \<and> fbmem (recover_mouse_buf m1 ((draw_mouse s1)\<lparr>mouse_cx := x, mouse_cy := y\<rparr>)) = fbmem s"
proof -
  note sv = save_mouse_buf_result [OF assms(1,3,4)]
  let ?cell = "cursor_cell (screen_wide s) (mouse_cx s) (mouse_cy s)"
  let ?t = "(draw_mouse s1)\<lparr>mouse_cx := x, mouse_cy := y\<rparr>"
  have dm: "ready (draw_mouse s)" "same_screen s (draw_mouse s)"
    "\<And>k. (\<forall>j. opaque j \<longrightarrow> k \<noteq> ?cell j) \<Longrightarrow> fbmem (draw_mouse s) k = fbmem s k"
    using draw_mouse_frame [OF assms(1,3)] by auto
  have t: "ready ?t" "screen_wide ?t = screen_wide s" "bpp ?t = bpp s"
    using dm(1,2) sv(1) by (auto simp: ready_depth depth_ok_def same_screen_def)
  have fits: "cursor_fits ?t (save_mouse_cx m1) (save_mouse_cy m1)"
    using assms(3) dm(2) sv(1-3) by (simp add: cursor_fits_def same_screen_def)
  note rc = recover_mouse_buf_result [OF t(1) fits, unfolded t(2) sv(2,3)]
  have "fbmem (recover_mouse_buf m1 ?t) k = fbmem s k" for k
  proof (cases "\<exists>j. opaque j \<and> k = ?cell j")
    case True
    then obtain j where j: "opaque j" "k = ?cell j" by blast
    then have "fbmem (recover_mouse_buf m1 ?t) k = element ?t (mouse_buf m1 j)" using rc by blast
    also have "\<dots> = element s (fbmem s k)"
      using sv(4) [of j] j t(3) by (simp add: opaque_def element_def)
    finally show ?thesis using assms(2) by (simp add: elements_ok_def)
  next
    case False
    then have "fbmem (recover_mouse_buf m1 ?t) k = fbmem ?t k" using rc by blast
    also have "\<dots> = fbmem s k" using dm(3) False sv(1) by auto
    finally show ?thesis .
  qed
  then show ?thesis using rc by auto
qed

theorem cursor_round_trip_witness:
  "fbmem (recover_mouse_buf (snd (save_mouse_buf (screen_1024, mouse_init)))
     ((draw_mouse screen_1024)\<lparr>mouse_cx := 3, mouse_cy := 4\<rparr>)) = fbmem screen_1024"
proof -
  have fits: "cursor_fits screen_1024 (mouse_cx screen_1024) (mouse_cy screen_1024)"
    by (simp add: cursor_fits_def screen_1024_def)
  obtain s1 m1 where e: "save_mouse_buf (screen_1024, mouse_init) = (s1, m1)"
    by (cases "save_mouse_buf (screen_1024, mouse_init)")
  have "elements_ok screen_1024" by (simp add: elements_ok_def element_def screen_1024_def)
  from cursor_round_trip [OF screen_1024_ready this fits e, where x = 3 and y = 4]
  show ?thesis using save_mouse_buf_result(1) [OF screen_1024_ready fits e] e by simp
qed

text \<open>
  the first restore blackens the corner. The main loop restores before it has ever saved, so
  the buffer is still zero and the saved position (0, 0): on any good screen large enough for the
  cursor, every opaque cursor cell in the top left corner becomes black whatever the screen showed.
\<close>

theorem first_recover_blackens_corner:
  assumes "ready s" and "10 \<le> screen_wide s" and "17 \<le> screen_height s"
  shows "opaque i \<Longrightarrow> pixel (recover_mouse_buf mouse_init s) (i mod 10) (i div 10) = 0"
proof -
  assume i: "opaque i"
  have fits: "cursor_fits s (save_mouse_cx mouse_init) (save_mouse_cy mouse_init)"
    using assms by (simp add: cursor_fits_def mouse_init_def)
  note rc = recover_mouse_buf_result [OF assms(1) fits]
  have "fbmem (recover_mouse_buf mouse_init s) (cursor_cell (screen_wide s) 0 0 i) = element s 0"
    using rc i by (simp add: mouse_init_def)
  moreover have "screen_wide (recover_mouse_buf mouse_init s) = screen_wide s"
    using rc by (simp add: same_screen_def)
  ultimately show "pixel (recover_mouse_buf mouse_init s) (i mod 10) (i div 10) = 0"
    by (simp add: pixel_def cursor_cell_def cursor_size element_def to_short_def)
qed

theorem first_recover_blackens_corner_witness:
  "pixel (recover_mouse_buf mouse_init (screen_1024\<lparr>fbmem := (\<lambda>_. 0xffffff)\<rparr>)) 1 2 = 0"
  using first_recover_blackens_corner [of "screen_1024\<lparr>fbmem := (\<lambda>_. 0xffffff)\<rparr>" 21]
  by (simp add: screen_1024_def ready_def good32_def opaque_def cursor_pixel_def Let_def)

end
