(* ===== verification/Board.thy ===== *)
theory Board
  imports Draw
begin

text \<open>
  The board and the counting routines of \<open>aka522/aka522_chess.c\<close>.

  \<open>array_chess\<close> is the flat memory that starts at \<open>&array_chess[0][0]\<close>: the access
  \<open>array_chess[x][y]\<close> reads cell \<open>20 * x + y\<close>, as the compiled code does, for any \<open>x\<close> and
  \<open>y\<close>. The counting loops read before they test the range, so they do read cells outside the
  board: of a neighbouring row, or of whatever lies around the array. The cells outside
  \<open>0..399\<close> are therefore arbitrary here, and \<open>counts_depend_on_board\<close> shows that no result
  depends on an out-of-range read.
\<close>

record board =
  array_chess :: "int \<Rightarrow> int"
  chess_num :: int

definition direction_var :: "int \<Rightarrow> int \<Rightarrow> int" where
  "direction_var l k =
     [[1, 0, - 1, 0], [1, 1, - 1, - 1], [0, 1, 0, - 1], [- 1, 1, 1, - 1]] ! nat l ! nat k"

definition chess_cell :: "(int \<Rightarrow> int) \<Rightarrow> int \<Rightarrow> int \<Rightarrow> int" where
  "chess_cell arr x y = arr (x * 20 + y)"

definition put_chess :: "int \<Rightarrow> int \<Rightarrow> int \<Rightarrow> board \<Rightarrow> board" where
  "put_chess x y v b = b\<lparr>array_chess := (array_chess b)(x * 20 + y := v)\<rparr>"

subsection \<open>The counting loops\<close>

text \<open>The loop over \<open>dir_num = 1..6\<close>, with its early return; falling out of it returns 0.\<close>

fun find_loop :: "(int \<Rightarrow> int) \<Rightarrow> int \<Rightarrow> int \<Rightarrow> int \<Rightarrow> int \<Rightarrow> int list \<Rightarrow> int \<Rightarrow> int" where
  "find_loop arr chess_ax chess_ay ux uy [] total_num = 0"
| "find_loop arr chess_ax chess_ay ux uy (dir_num # ds) total_num =
     (let dx = chess_ax + dir_num * ux; dy = chess_ay + dir_num * uy in
      if chess_cell arr dx dy = 1 \<or> dx < 0 \<or> dx > chess_line_num - 1
         \<or> dy < 0 \<or> dy > chess_line_num - 1 \<or> dir_num = 6
      then total_num
      else find_loop arr chess_ax chess_ay ux uy ds (total_num + 1))"

definition find_opposite_direction_num :: "(int \<Rightarrow> int) \<Rightarrow> int \<Rightarrow> int \<Rightarrow> int \<Rightarrow> int" where
  "find_opposite_direction_num arr chess_ax chess_ay locate =
     find_loop arr chess_ax chess_ay (direction_var locate 0) (direction_var locate 1) [1..6] 0"

definition find_positive_direction_num :: "(int \<Rightarrow> int) \<Rightarrow> int \<Rightarrow> int \<Rightarrow> int \<Rightarrow> int" where
  "find_positive_direction_num arr chess_ax chess_ay locate =
     find_loop arr chess_ax chess_ay (direction_var locate 2) (direction_var locate 3) [1..6] 0"

fun search_loop ::
  "(int \<Rightarrow> int) \<Rightarrow> int \<Rightarrow> int \<Rightarrow> int \<Rightarrow> int \<Rightarrow> int \<Rightarrow> int list \<Rightarrow> int \<Rightarrow> int" where
  "search_loop arr chess_ax chess_ay ux uy chess_flag [] total_num = 0"
| "search_loop arr chess_ax chess_ay ux uy chess_flag (dir_num # ds) total_num =
     (let dx = chess_ax + dir_num * ux; dy = chess_ay + dir_num * uy in
      if chess_cell arr dx dy = chess_flag \<and> dx \<ge> 0 \<and> dx < chess_line_num
         \<and> dy \<ge> 0 \<and> dy < chess_line_num
      then search_loop arr chess_ax chess_ay ux uy chess_flag ds (total_num + 1)
      else total_num)"

definition search_opposite_direction_num :: "(int \<Rightarrow> int) \<Rightarrow> int \<Rightarrow> int \<Rightarrow> int \<Rightarrow> int \<Rightarrow> int" where
  "search_opposite_direction_num arr chess_ax chess_ay locate chess_flag =
     search_loop arr chess_ax chess_ay (direction_var locate 0) (direction_var locate 1)
       chess_flag [1..6] 0"

definition search_positive_direction_num :: "(int \<Rightarrow> int) \<Rightarrow> int \<Rightarrow> int \<Rightarrow> int \<Rightarrow> int \<Rightarrow> int" where
  "search_positive_direction_num arr chess_ax chess_ay locate chess_flag =
     search_loop arr chess_ax chess_ay (direction_var locate 2) (direction_var locate 3)
       chess_flag [1..6] 0"

definition search_side_totalnum :: "(int \<Rightarrow> int) \<Rightarrow> int \<Rightarrow> int \<Rightarrow> int \<Rightarrow> int \<Rightarrow> int" where
  "search_side_totalnum arr chess_ax chess_ay locate chess_flag =
     search_opposite_direction_num arr chess_ax chess_ay locate chess_flag
     + search_positive_direction_num arr chess_ax chess_ay locate chess_flag"

definition search_side_maxnum :: "(int \<Rightarrow> int) \<Rightarrow> int \<Rightarrow> int \<Rightarrow> int \<Rightarrow> int" where
  "search_side_maxnum arr chess_ax chess_ay chess_flag =
     for_range 0 4 (\<lambda>locate max_num.
       let side_temp_num = search_side_totalnum arr chess_ax chess_ay locate chess_flag in
       if side_temp_num \<ge> max_num then side_temp_num else max_num) 0"

subsection \<open>What the loops count\<close>

definition on_board :: "int \<Rightarrow> int \<Rightarrow> bool" where
  "on_board x y \<longleftrightarrow> 0 \<le> x \<and> x < 20 \<and> 0 \<le> y \<and> y < 20"

definition stone :: "(int \<Rightarrow> int) \<Rightarrow> int \<Rightarrow> int \<Rightarrow> int \<Rightarrow> bool" where
  "stone arr flag x y \<longleftrightarrow> on_board x y \<and> chess_cell arr x y = flag"

text \<open>The stones of one colour that follow a square in a direction, up to six.\<close>

definition run :: "(int \<Rightarrow> int) \<Rightarrow> int \<Rightarrow> int \<Rightarrow> int \<Rightarrow> int \<Rightarrow> int \<Rightarrow> int" where
  "run arr flag ax ay ux uy =
     int (length (takeWhile (\<lambda>k. stone arr flag (ax + k * ux) (ay + k * uy)) [1..6]))"

lemma line20: "chess_line_num = 20"
  by (simp add: chess_line_num_def)

lemma run_bounds: "0 \<le> run arr flag ax ay ux uy \<and> run arr flag ax ay ux uy \<le> 6"
  using length_takeWhile_le [of _ "[1..6 :: int]"] by (auto simp: run_def upto_6 Let_def)

lemma run_ge:
  assumes "0 \<le> n" "n \<le> 6"
  shows "n \<le> run arr flag ax ay ux uy \<longleftrightarrow>
    (\<forall>k. 1 \<le> k \<and> k \<le> n \<longrightarrow> stone arr flag (ax + k * ux) (ay + k * uy))"
proof -
  let ?S = "\<lambda>k. stone arr flag (ax + k * ux) (ay + k * uy)"
  have "n \<le> run arr flag ax ay ux uy \<longleftrightarrow> nat n \<le> length (takeWhile ?S [1..6])"
    using assms by (simp add: run_def nat_le_iff)
  also have "\<dots> \<longleftrightarrow> (\<forall>i<nat n. ?S ([1..6] ! i))"
    using assms by (intro takeWhile_ge) simp
  also have "\<dots> \<longleftrightarrow> (\<forall>i<nat n. ?S (1 + int i))"
    using assms by (intro all_cong) (simp add: nth_upto)
  also have "\<dots> \<longleftrightarrow> (\<forall>k. 1 \<le> k \<and> k \<le> n \<longrightarrow> ?S k)"
  proof
    assume h: "\<forall>i<nat n. ?S (1 + int i)"
    show "\<forall>k. 1 \<le> k \<and> k \<le> n \<longrightarrow> ?S k"
    proof (intro allI impI)
      fix k assume "1 \<le> k \<and> k \<le> n"
      then have "nat (k - 1) < nat n" "1 + int (nat (k - 1)) = k" by auto
      then show "?S k" using h by metis
    qed
  qed auto
  finally show ?thesis .
qed

lemma search_loop_takeWhile:
  "search_loop arr ax ay ux uy flag ks t =
     (if \<forall>k \<in> set ks. stone arr flag (ax + k * ux) (ay + k * uy) then 0
      else t + int (length (takeWhile (\<lambda>k. stone arr flag (ax + k * ux) (ay + k * uy)) ks)))"
  by (induction ks arbitrary: t) (auto simp: Let_def stone_def on_board_def line20)

text \<open>Six stones in a row are counted as none: the loop ends without a return of its own.\<close>

lemma search_loop_run:
  "search_loop arr ax ay ux uy flag [1..6] 0 =
     (let r = run arr flag ax ay ux uy in if r = 6 then 0 else r)"
proof -
  let ?S = "\<lambda>k. stone arr flag (ax + k * ux) (ay + k * uy)"
  have "(\<forall>k \<in> set [1..6]. ?S k) \<longleftrightarrow> 6 \<le> run arr flag ax ay ux uy"
    by (subst run_ge) auto
  also have "\<dots> \<longleftrightarrow> run arr flag ax ay ux uy = 6"
    using run_bounds [of arr flag ax ay ux uy] by linarith
  finally show ?thesis
    unfolding search_loop_takeWhile Let_def by (simp add: run_def)
qed

definition free :: "(int \<Rightarrow> int) \<Rightarrow> int \<Rightarrow> int \<Rightarrow> bool" where
  "free arr x y \<longleftrightarrow> on_board x y \<and> chess_cell arr x y \<noteq> 1"

lemma find_loop_free:
  "find_loop arr ax ay ux uy [1..6] 0 =
     int (length (takeWhile (\<lambda>k. free arr (ax + k * ux) (ay + k * uy)) [1..5]))"
proof -
  have step: "find_loop arr ax ay ux uy (k # ks) t =
      (if \<not> free arr (ax + k * ux) (ay + k * uy) \<or> k = 6 then t
       else find_loop arr ax ay ux uy ks (t + 1))" for k ks t
    by (auto simp: Let_def free_def on_board_def line20)
  show ?thesis by (simp only: upto_6 upto_5 step) simp
qed

lemma direction_values:
  "direction_var 0 0 = 1" "direction_var 0 1 = 0" "direction_var 0 2 = - 1" "direction_var 0 3 = 0"
  "direction_var 1 0 = 1" "direction_var 1 1 = 1" "direction_var 1 2 = - 1" "direction_var 1 3 = - 1"
  "direction_var 2 0 = 0" "direction_var 2 1 = 1" "direction_var 2 2 = 0" "direction_var 2 3 = - 1"
  "direction_var 3 0 = - 1" "direction_var 3 1 = 1" "direction_var 3 2 = 1" "direction_var 3 3 = - 1"
  by (simp_all add: direction_var_def)

lemma locate_cases:
  assumes "0 \<le> locate" "locate < (4 :: int)"
  obtains "locate = 0" | "locate = 1" | "locate = 2" | "locate = 3"
  using assms by linarith

lemma opposite_direction:
  assumes "0 \<le> locate" "locate < 4"
  shows "direction_var locate 2 = - direction_var locate 0"
    and "direction_var locate 3 = - direction_var locate 1"
  using assms by (cases locate rule: locate_cases; simp add: direction_values)+

subsection \<open>Five in a row\<close>

definition five_row :: "(int \<Rightarrow> int) \<Rightarrow> int \<Rightarrow> int \<Rightarrow> int \<Rightarrow> int \<Rightarrow> bool" where
  "five_row arr flag locate x y \<longleftrightarrow> (\<forall>k. 0 \<le> k \<and> k \<le> 4 \<longrightarrow>
     stone arr flag (x + k * direction_var locate 0) (y + k * direction_var locate 1))"

definition no_five :: "(int \<Rightarrow> int) \<Rightarrow> int \<Rightarrow> bool" where
  "no_five arr flag \<longleftrightarrow>
     \<not> (\<exists>locate x y. 0 \<le> locate \<and> locate < 4 \<and> five_row arr flag locate x y)"

text \<open>Taking the square itself as the player's, it lies in a row of five.\<close>

definition five_at :: "(int \<Rightarrow> int) \<Rightarrow> int \<Rightarrow> int \<Rightarrow> int \<Rightarrow> bool" where
  "five_at arr flag ax ay \<longleftrightarrow> (\<exists>locate s. 0 \<le> locate \<and> locate < 4 \<and> 0 \<le> s \<and> s \<le> 4
     \<and> (\<forall>k. - s \<le> k \<and> k \<le> 4 - s \<and> k \<noteq> 0 \<longrightarrow>
          stone arr flag (ax + k * direction_var locate 0) (ay + k * direction_var locate 1)))"

abbreviation run_opposite :: "(int \<Rightarrow> int) \<Rightarrow> int \<Rightarrow> int \<Rightarrow> int \<Rightarrow> int \<Rightarrow> int" where
  "run_opposite arr flag ax ay locate \<equiv>
     run arr flag ax ay (direction_var locate 0) (direction_var locate 1)"

abbreviation run_positive :: "(int \<Rightarrow> int) \<Rightarrow> int \<Rightarrow> int \<Rightarrow> int \<Rightarrow> int \<Rightarrow> int" where
  "run_positive arr flag ax ay locate \<equiv>
     run arr flag ax ay (direction_var locate 2) (direction_var locate 3)"

lemma run_less_five:
  assumes "no_five arr flag" "0 \<le> locate" "locate < 4"
  shows "run_opposite arr flag ax ay locate \<le> 4" and "run_positive arr flag ax ay locate \<le> 4"
proof -
  let ?u = "direction_var locate 0" and ?v = "direction_var locate 1"
  show "run_opposite arr flag ax ay locate \<le> 4"
  proof (rule ccontr)
    assume "\<not> run_opposite arr flag ax ay locate \<le> 4"
    then have "5 \<le> run_opposite arr flag ax ay locate" by simp
    then have all: "\<And>k. 1 \<le> k \<Longrightarrow> k \<le> 5 \<Longrightarrow> stone arr flag (ax + k * ?u) (ay + k * ?v)"
      by (subst (asm) run_ge) auto
    have "five_row arr flag locate (ax + ?u) (ay + ?v)"
      unfolding five_row_def
    proof (intro allI impI)
      fix k assume "0 \<le> k \<and> k \<le> (4 :: int)"
      then have "stone arr flag (ax + (k + 1) * ?u) (ay + (k + 1) * ?v)" by (intro all) auto
      then show "stone arr flag (ax + ?u + k * ?u) (ay + ?v + k * ?v)"
        by (simp add: algebra_simps)
    qed
    then show False using assms by (auto simp: no_five_def)
  qed
  show "run_positive arr flag ax ay locate \<le> 4"
  proof (rule ccontr)
    assume "\<not> run_positive arr flag ax ay locate \<le> 4"
    then have "5 \<le> run arr flag ax ay (- ?u) (- ?v)"
      using opposite_direction [OF assms(2,3)] by simp
    then have all: "\<And>k. 1 \<le> k \<Longrightarrow> k \<le> 5 \<Longrightarrow> stone arr flag (ax + k * (- ?u)) (ay + k * (- ?v))"
      by (subst (asm) run_ge) auto
    have "five_row arr flag locate (ax - 5 * ?u) (ay - 5 * ?v)"
      unfolding five_row_def
    proof (intro allI impI)
      fix k assume "0 \<le> k \<and> k \<le> (4 :: int)"
      then have "stone arr flag (ax + (5 - k) * (- ?u)) (ay + (5 - k) * (- ?v))" by (intro all) auto
      then show "stone arr flag (ax - 5 * ?u + k * ?u) (ay - 5 * ?v + k * ?v)"
        by (simp add: algebra_simps)
    qed
    then show False using assms by (auto simp: no_five_def)
  qed
qed

lemma search_side_totalnum_runs:
  assumes "no_five arr flag" "0 \<le> locate" "locate < 4"
  shows "search_side_totalnum arr ax ay locate flag =
    run_opposite arr flag ax ay locate + run_positive arr flag ax ay locate"
  using run_less_five [OF assms, of ax ay]
  by (simp add: search_side_totalnum_def search_opposite_direction_num_def
      search_positive_direction_num_def search_loop_run Let_def)

lemma maxnum_ge:
  "0 < n \<Longrightarrow> n \<le> search_side_maxnum arr ax ay flag \<longleftrightarrow>
    (\<exists>locate. 0 \<le> locate \<and> locate < 4 \<and> n \<le> search_side_totalnum arr ax ay locate flag)"
proof -
  assume n: "0 < n"
  let ?t = "\<lambda>l. search_side_totalnum arr ax ay l flag"
  have "search_side_maxnum arr ax ay flag = max (?t 3) (max (?t 2) (max (?t 1) (max (?t 0) 0)))"
    by (simp add: search_side_maxnum_def for_range_def upto_4 Let_def max_def)
  moreover have "(\<exists>l. 0 \<le> l \<and> l < 4 \<and> n \<le> ?t l) \<longleftrightarrow> n \<le> ?t 0 \<or> n \<le> ?t 1 \<or> n \<le> ?t 2 \<or> n \<le> ?t 3"
    by (rule ex_below_4)
  ultimately show ?thesis using n by (auto simp: le_max_iff_disj)
qed

text \<open>The two runs through a square and the windows of five around it.\<close>

lemma window_runs:
  assumes "0 \<le> locate" "locate < 4" "0 \<le> s" "s \<le> 4"
  shows "(\<forall>k. - s \<le> k \<and> k \<le> 4 - s \<and> k \<noteq> 0 \<longrightarrow>
       stone arr flag (ax + k * direction_var locate 0) (ay + k * direction_var locate 1)) \<longleftrightarrow>
     4 - s \<le> run_opposite arr flag ax ay locate \<and> s \<le> run_positive arr flag ax ay locate"
    (is "?L \<longleftrightarrow> ?R")
proof -
  let ?u = "direction_var locate 0" and ?v = "direction_var locate 1"
  let ?S = "\<lambda>k. stone arr flag (ax + k * ?u) (ay + k * ?v)"
  have o: "4 - s \<le> run_opposite arr flag ax ay locate \<longleftrightarrow> (\<forall>k. 1 \<le> k \<and> k \<le> 4 - s \<longrightarrow> ?S k)"
    using assms by (intro run_ge) auto
  have "s \<le> run_positive arr flag ax ay locate \<longleftrightarrow>
      (\<forall>k. 1 \<le> k \<and> k \<le> s \<longrightarrow> stone arr flag (ax + k * (- ?u)) (ay + k * (- ?v)))"
    unfolding opposite_direction [OF assms(1,2)] using assms by (intro run_ge) auto
  also have "\<dots> \<longleftrightarrow> (\<forall>k. - s \<le> k \<and> k \<le> - 1 \<longrightarrow> ?S k)"
  proof safe
    fix k assume h: "\<forall>k. 1 \<le> k \<and> k \<le> s \<longrightarrow> stone arr flag (ax + k * (- ?u)) (ay + k * (- ?v))"
      and "- s \<le> k" "k \<le> - 1"
    then show "?S k" using spec [OF h, of "- k"] by simp
  next
    fix k assume h: "\<forall>k. - s \<le> k \<and> k \<le> - 1 \<longrightarrow> ?S k" and "1 \<le> k" "k \<le> s"
    then show "stone arr flag (ax + k * (- ?u)) (ay + k * (- ?v))" using spec [OF h, of "- k"] by simp
  qed
  finally have p: "s \<le> run_positive arr flag ax ay locate \<longleftrightarrow>
      (\<forall>k. - s \<le> k \<and> k \<le> - 1 \<longrightarrow> ?S k)" .
  have "?L \<longleftrightarrow> (\<forall>k. 1 \<le> k \<and> k \<le> 4 - s \<longrightarrow> ?S k) \<and> (\<forall>k. - s \<le> k \<and> k \<le> - 1 \<longrightarrow> ?S k)"
  proof (intro iffI conjI allI impI)
    fix k assume h: "(\<forall>k. 1 \<le> k \<and> k \<le> 4 - s \<longrightarrow> ?S k) \<and> (\<forall>k. - s \<le> k \<and> k \<le> - 1 \<longrightarrow> ?S k)"
      and k: "- s \<le> k \<and> k \<le> 4 - s \<and> k \<noteq> 0"
    then have "1 \<le> k \<and> k \<le> 4 - s \<or> - s \<le> k \<and> k \<le> - 1" by linarith
    then show "?S k" using h by blast
  qed (use assms in auto)
  then show ?thesis using o p by blast
qed

lemma five_at_runs:
  "five_at arr flag ax ay \<longleftrightarrow> (\<exists>locate. 0 \<le> locate \<and> locate < 4 \<and>
     4 \<le> run_opposite arr flag ax ay locate + run_positive arr flag ax ay locate)"
proof -
  have "(\<exists>s. 0 \<le> s \<and> s \<le> 4 \<and> (\<forall>k. - s \<le> k \<and> k \<le> 4 - s \<and> k \<noteq> 0 \<longrightarrow>
       stone arr flag (ax + k * direction_var l 0) (ay + k * direction_var l 1))) \<longleftrightarrow>
     4 \<le> run_opposite arr flag ax ay l + run_positive arr flag ax ay l" if l: "0 \<le> l" "l < 4" for l
  proof -
    let ?o = "run_opposite arr flag ax ay l" and ?p = "run_positive arr flag ax ay l"
    have "4 \<le> ?o + ?p \<longleftrightarrow> (\<exists>s. 0 \<le> s \<and> s \<le> 4 \<and> 4 - s \<le> ?o \<and> s \<le> ?p)"
    proof
      assume "4 \<le> ?o + ?p"
      then show "\<exists>s. 0 \<le> s \<and> s \<le> 4 \<and> 4 - s \<le> ?o \<and> s \<le> ?p"
        using run_bounds by (intro exI [of _ "min 4 ?p"]) (auto simp: min_def)
    qed auto
    then show ?thesis using window_runs [OF l] by (simp cong: conj_cong)
  qed
  then show ?thesis unfolding five_at_def by blast
qed

lemma five_at_total:
  "no_five arr flag \<Longrightarrow> five_at arr flag ax ay \<longleftrightarrow>
    (\<exists>locate. 0 \<le> locate \<and> locate < 4 \<and> 4 \<le> search_side_totalnum arr ax ay locate flag)"
  by (auto simp: five_at_runs search_side_totalnum_runs)

lemma five_at_maxnum:
  "no_five arr flag \<Longrightarrow> five_at arr flag ax ay \<longleftrightarrow> search_side_maxnum arr ax ay flag + 1 \<ge> 5"
  using maxnum_ge [of 4 arr ax ay flag] by (simp add: five_at_total)

subsection \<open>Placing a stone\<close>

lemma on_board_inject:
  "on_board x y \<Longrightarrow> on_board x' y' \<Longrightarrow> x * 20 + y = x' * 20 + y' \<longleftrightarrow> x = x' \<and> y = y'"
  using flat_inject [of y 20 y' x x'] by (auto simp: on_board_def add.commute)

lemma stone_put:
  "on_board ax ay \<Longrightarrow> stone (arr(ax * 20 + ay := v)) flag x y \<longleftrightarrow>
    (if x = ax \<and> y = ay then v = flag else stone arr flag x y)"
  using on_board_inject [of x y ax ay] by (auto simp: stone_def chess_cell_def)

lemma direction_nonzero:
  "0 \<le> locate \<Longrightarrow> locate < 4 \<Longrightarrow> direction_var locate 0 \<noteq> 0 \<or> direction_var locate 1 \<noteq> 0"
  by (cases locate rule: locate_cases; simp add: direction_values)

lemma step_off:
  assumes "0 \<le> locate" "locate < 4"
  shows "ax + k * direction_var locate 0 = ax \<and> ay + k * direction_var locate 1 = ay \<longleftrightarrow> k = 0"
  using direction_nonzero [OF assms] by auto

lemma five_at_put:
  assumes "on_board ax ay"
  shows "five_at (arr(ax * 20 + ay := v)) flag ax ay = five_at arr flag ax ay"
proof -
  have "stone (arr(ax * 20 + ay := v)) flag (ax + k * direction_var l 0) (ay + k * direction_var l 1)
      = stone arr flag (ax + k * direction_var l 0) (ay + k * direction_var l 1)"
    if "0 \<le> l" "l < 4" "k \<noteq> 0" for l k
    using stone_put [OF assms] step_off [OF that(1,2), of ax k ay] that(3) by auto
  then show ?thesis unfolding five_at_def
    by (intro ex_cong1 conj_cong refl iff_allI imp_cong) auto
qed

lemma totalnum_put:
  assumes "on_board ax ay" "0 \<le> locate" "locate < 4"
  shows "search_side_totalnum (arr(ax * 20 + ay := v)) ax ay locate flag =
    search_side_totalnum arr ax ay locate flag"
proof -
  have "run (arr(ax * 20 + ay := v)) flag ax ay (direction_var locate a) (direction_var locate b)
      = run arr flag ax ay (direction_var locate a) (direction_var locate b)"
    if "(a = 0 \<and> b = 1) \<or> (a = 2 \<and> b = 3)" for a b
  proof -
    have "ax + k * direction_var locate a = ax \<and> ay + k * direction_var locate b = ay \<longleftrightarrow> k = 0" for k
      using that step_off [OF assms(2,3), of ax k ay] opposite_direction [OF assms(2,3)] by auto
    then have "stone (arr(ax * 20 + ay := v)) flag (ax + k * direction_var locate a)
          (ay + k * direction_var locate b)
        = stone arr flag (ax + k * direction_var locate a) (ay + k * direction_var locate b)"
      if "k \<noteq> 0" for k
      using stone_put [OF assms(1)] that by auto
    then show ?thesis
      unfolding run_def
      by (intro arg_cong [where f = int] arg_cong [where f = length] takeWhile_cong refl) auto
  qed
  then show ?thesis
    by (simp add: search_side_totalnum_def search_opposite_direction_num_def
        search_positive_direction_num_def search_loop_run)
qed

lemma maxnum_put:
  assumes "on_board ax ay"
  shows "search_side_maxnum (arr(ax * 20 + ay := v)) ax ay flag = search_side_maxnum arr ax ay flag"
  unfolding search_side_maxnum_def by (intro for_range_cong) (simp add: totalnum_put assms)

text \<open>A row of five that a new stone completes runs through the new stone.\<close>

lemma five_row_through:
  assumes "on_board ax ay" "no_five arr flag"
  shows "no_five (arr(ax * 20 + ay := flag)) flag \<longleftrightarrow> \<not> five_at arr flag ax ay"
proof
  let ?arr = "arr(ax * 20 + ay := flag)"
  assume n: "no_five ?arr flag"
  show "\<not> five_at arr flag ax ay"
  proof
    assume "five_at arr flag ax ay"
    then obtain l s where l: "0 \<le> l" "l < 4" "0 \<le> s" "s \<le> 4"
      and w: "\<And>k. - s \<le> k \<Longrightarrow> k \<le> 4 - s \<Longrightarrow> k \<noteq> 0 \<Longrightarrow>
        stone arr flag (ax + k * direction_var l 0) (ay + k * direction_var l 1)"
      unfolding five_at_def by blast
    have "five_row ?arr flag l (ax - s * direction_var l 0) (ay - s * direction_var l 1)"
      unfolding five_row_def
    proof (intro allI impI)
      fix k assume k: "0 \<le> k \<and> k \<le> (4 :: int)"
      have e: "ax - s * direction_var l 0 + k * direction_var l 0 = ax + (k - s) * direction_var l 0"
        "ay - s * direction_var l 1 + k * direction_var l 1 = ay + (k - s) * direction_var l 1"
        by (simp_all add: algebra_simps)
      show "stone ?arr flag (ax - s * direction_var l 0 + k * direction_var l 0)
          (ay - s * direction_var l 1 + k * direction_var l 1)"
        unfolding e stone_put [OF assms(1)] using w [of "k - s"] k l by (cases "k = s") auto
    qed
    then show False using n l by (auto simp: no_five_def)
  qed
next
  let ?arr = "arr(ax * 20 + ay := flag)"
  assume n: "\<not> five_at arr flag ax ay"
  show "no_five ?arr flag"
  proof (rule ccontr)
    assume "\<not> no_five ?arr flag"
    then obtain l x y where l: "0 \<le> l" "l < 4" and r: "five_row ?arr flag l x y"
      by (auto simp: no_five_def)
    let ?x = "\<lambda>k. x + k * direction_var l 0" and ?y = "\<lambda>k. y + k * direction_var l 1"
    have "\<not> five_row arr flag l x y" using assms(2) l by (auto simp: no_five_def)
    then obtain t where t: "0 \<le> t" "t \<le> 4" "\<not> stone arr flag (?x t) (?y t)"
      by (auto simp: five_row_def)
    then have at: "?x t = ax" "?y t = ay"
      using r stone_put [OF assms(1), of arr flag flag "?x t" "?y t"]
      by (auto simp: five_row_def split: if_splits)
    have "stone arr flag (ax + k * direction_var l 0) (ay + k * direction_var l 1)"
      if k: "- t \<le> k" "k \<le> 4 - t" "k \<noteq> 0" for k
    proof -
      have "stone ?arr flag (?x (t + k)) (?y (t + k))"
        using r k t by (auto simp: five_row_def)
      moreover have "?x (t + k) = ax + k * direction_var l 0" "?y (t + k) = ay + k * direction_var l 1"
        unfolding at [symmetric] by (simp_all add: algebra_simps)
      ultimately show ?thesis
        using stone_put [OF assms(1), of arr flag flag] step_off [OF l, of ax k ay] k(3) by auto
    qed
    then have "five_at arr flag ax ay" using l t by (auto simp: five_at_def)
    then show False using n by blast
  qed
qed

lemma judge_five:
  assumes "no_five arr flag" and "on_board ax ay"
  shows "search_side_maxnum (arr(ax * 20 + ay := flag)) ax ay flag + 1 \<ge> 5
    \<longleftrightarrow> \<not> no_five (arr(ax * 20 + ay := flag)) flag"
  using five_at_maxnum [OF assms(1), of ax ay] five_row_through [OF assms(2,1)]
  by (simp add: maxnum_put [OF assms(2)])

lemma no_five_put_other:
  assumes "no_five arr flag" "on_board ax ay" "v \<noteq> flag"
  shows "no_five (arr(ax * 20 + ay := v)) flag"
  using assms stone_put [OF assms(2), of arr v flag] unfolding no_five_def five_row_def
  by (metis (full_types))

text \<open>
  C15: the win check is right. On a board with no row of five of a colour, putting a stone of
  that colour on any square of the board makes \<open>search_side_maxnum(x, y, flag) + 1 >= 5\<close> true
  exactly when the board then has a row of five of that colour anywhere.
\<close>

theorem search_side_maxnum_judges_five:
  assumes "no_five (array_chess b) flag" and "on_board ax ay"
  shows "search_side_maxnum (array_chess (put_chess ax ay flag b)) ax ay flag + 1 \<ge> 5
    \<longleftrightarrow> \<not> no_five (array_chess (put_chess ax ay flag b)) flag"
  using judge_five [OF assms] by (simp add: put_chess_def)

definition empty_board :: board where
  "empty_board = \<lparr>array_chess = (\<lambda>_. 0), chess_num = 0\<rparr>"

lemma no_five_empty: "flag \<noteq> 0 \<Longrightarrow> no_five (\<lambda>_. 0) flag"
  by (auto simp: no_five_def five_row_def stone_def chess_cell_def intro!: exI [of _ 0])

theorem search_side_maxnum_judges_five_witness:
  "\<not> search_side_maxnum (array_chess (put_chess 10 10 1 empty_board)) 10 10 1 + 1 \<ge> 5
   \<and> no_five (array_chess (put_chess 10 10 1 empty_board)) 1"
proof -
  have n: "no_five (array_chess empty_board) 1" by (simp add: empty_board_def no_five_empty)
  have b: "on_board 10 10" by (simp add: on_board_def)
  have z: "search_side_maxnum (array_chess (put_chess 10 10 1 empty_board)) 10 10 1 = 0"
  proof -
    have "run (\<lambda>_. 0) 1 10 10 u v = 0" for u v
      by (simp add: run_def stone_def chess_cell_def takeWhile_eq_Nil_iff)
    then have "search_side_maxnum (\<lambda>_. 0) 10 10 1 = 0"
      by (simp add: search_side_maxnum_def for_range_def upto_4 search_side_totalnum_def
        search_opposite_direction_num_def search_positive_direction_num_def search_loop_run)
    then show ?thesis
      unfolding put_chess_def empty_board_def board.simps maxnum_put [OF b] .
  qed
  show ?thesis using search_side_maxnum_judges_five [OF n b] z by simp
qed

text \<open>Agreement on the squares of the board.\<close>

definition same_board :: "(int \<Rightarrow> int) \<Rightarrow> (int \<Rightarrow> int) \<Rightarrow> bool" where
  "same_board arr arr' \<longleftrightarrow> (\<forall>x y. on_board x y \<longrightarrow> chess_cell arr x y = chess_cell arr' x y)"

lemma same_board_stone: "same_board arr arr' \<Longrightarrow> stone arr = stone arr'"
  by (auto simp: same_board_def stone_def fun_eq_iff)

lemma same_board_free: "same_board arr arr' \<Longrightarrow> free arr = free arr'"
  by (auto simp: same_board_def free_def fun_eq_iff)

text \<open>
  the out-of-range reads are harmless. The four direction loops read \<open>array_chess\<close> before
  they test the range, so near an edge they read other rows or memory around the array; but two
  memories that agree on the 400 squares of the board give every loop, and the win check, the
  same result, from any square and for any colour.
\<close>

theorem counts_depend_on_board:
  assumes "same_board arr arr'"
  shows "find_opposite_direction_num arr ax ay locate = find_opposite_direction_num arr' ax ay locate
    \<and> find_positive_direction_num arr ax ay locate = find_positive_direction_num arr' ax ay locate
    \<and> search_opposite_direction_num arr ax ay locate flag = search_opposite_direction_num arr' ax ay locate flag
    \<and> search_positive_direction_num arr ax ay locate flag = search_positive_direction_num arr' ax ay locate flag
    \<and> search_side_maxnum arr ax ay flag = search_side_maxnum arr' ax ay flag"
  by (simp add: find_opposite_direction_num_def find_positive_direction_num_def
      search_opposite_direction_num_def search_positive_direction_num_def search_side_maxnum_def
      search_side_totalnum_def find_loop_free search_loop_run run_def
      same_board_stone [OF assms] same_board_free [OF assms])

theorem counts_depend_on_board_witness:
  "search_side_maxnum (\<lambda>_. 0) 0 0 1 = search_side_maxnum ((\<lambda>_. 0)(- 20 := 1, 400 := 1)) 0 0 1"
proof -
  have "same_board (\<lambda>_. 0) ((\<lambda>_. 0)(- 20 := 1, 400 := 1))"
    by (auto simp: same_board_def on_board_def chess_cell_def)
  from counts_depend_on_board [OF this] show ?thesis by blast
qed

text \<open>
  a row of six fools the counter. Six stones in a row next to a square are counted as none,
  because the loop then ends without returning its total; a player with six stones beside the
  square (and none on the other side) gets the count 0 in that direction.
\<close>

theorem six_in_a_row_counts_zero:
  assumes "\<And>k. 1 \<le> k \<Longrightarrow> k \<le> 6 \<Longrightarrow>
      stone arr flag (ax + k * direction_var locate 0) (ay + k * direction_var locate 1)"
  shows "search_opposite_direction_num arr ax ay locate flag = 0"
proof -
  have "6 \<le> run_opposite arr flag ax ay locate" using assms by (subst run_ge) auto
  then have "run_opposite arr flag ax ay locate = 6" using run_bounds by (metis antisym)
  then show ?thesis by (simp add: search_opposite_direction_num_def search_loop_run)
qed

theorem six_in_a_row_counts_zero_witness:
  "search_opposite_direction_num (\<lambda>_. 1) 3 3 0 1 = 0"
  by (rule six_in_a_row_counts_zero) (simp add: stone_def on_board_def chess_cell_def direction_values)

subsection \<open>All squares in order\<close>

definition squares :: "(int \<times> int) list" where
  "squares = concat (map (\<lambda>x. map (Pair x) [0..19]) [0..19])"

lemma set_squares: "(x, y) \<in> set squares \<longleftrightarrow> on_board x y"
  by (fastforce simp: squares_def on_board_def image_iff)

lemma distinct_squares: "distinct squares"
  unfolding squares_def
  by (rule distinct_concat) (auto simp: distinct_map inj_on_def)

lemma length_squares: "length squares = 400"
  by (simp add: squares_def length_concat comp_def sum_list_triv)

lemma squares_loop:
  "for_range 0 20 (\<lambda>x. for_range 0 20 (f x)) s = fold (\<lambda>p. f (fst p) (snd p)) squares s"
proof -
  have "for_range 0 20 (f x) = fold (\<lambda>p. f (fst p) (snd p)) (map (Pair x) [0..19])" for x
    by (rule ext) (simp add: for_range_def fold_map comp_def)
  then show ?thesis by (simp add: squares_def for_range_fold)
qed

end
