(* ===== verification/Patterns.thy ===== *)
theory Patterns
  imports Board
begin

text \<open>
  \<open>aka522/chess_pattern.c\<close>: the rays of a square in one direction, matching the stones on
  them against patterns, and the scores of the shapes of two, three and four.

  The file keeps the rays and counters in globals; they are the record \<open>pat\<close>, threaded through
  every function, because one call can see what an earlier one left: \<open>init_pattern\<close> overwrites
  only the part of a ray that lies on the board, and \<open>search_pattern\<close> compares as many cells as
  the pattern has, whether the ray is that long or not.
\<close>

record pat =
  side_num :: int
  array_one_x :: "int \<Rightarrow> int"
  array_one_y :: "int \<Rightarrow> int"
  array_two_x :: "int \<Rightarrow> int"
  array_two_y :: "int \<Rightarrow> int"
  array_side_one :: "int \<Rightarrow> int"
  array_side_two :: "int \<Rightarrow> int"
  side_one_max :: int
  side_two_max :: int
  side_one_num :: int
  side_two_num :: int

definition pat_init :: pat where
  "pat_init = \<lparr>side_num = 0, array_one_x = (\<lambda>_. 0), array_one_y = (\<lambda>_. 0),
     array_two_x = (\<lambda>_. 0), array_two_y = (\<lambda>_. 0), array_side_one = (\<lambda>_. 0),
     array_side_two = (\<lambda>_. 0), side_one_max = 0, side_two_max = 0,
     side_one_num = 0, side_two_num = 0\<rparr>"

subsection \<open>Rays\<close>

text \<open>
  The loop of \<open>check\<close> over \<open>side_num = 1..20\<close>: the returned length and the value the global
  loop variable is left with. The two local coordinate arrays are written and read at the same
  index only, so the loop keeps the coordinates as plain values.
\<close>

fun check_loop :: "int \<Rightarrow> int \<Rightarrow> int \<Rightarrow> int \<Rightarrow> int list \<Rightarrow> int \<times> int" where
  "check_loop chess_ax chess_ay ux uy [] = (0, 21)"
| "check_loop chess_ax chess_ay ux uy (n # ns) =
     (let cx = chess_ax + n * ux; cy = chess_ay + n * uy in
      if cx < 0 \<or> cx > 19 \<or> cy < 0 \<or> cy > 19 then (n - 1, n)
      else check_loop chess_ax chess_ay ux uy ns)"

definition check :: "int \<Rightarrow> int \<Rightarrow> int \<Rightarrow> int \<Rightarrow> pat \<Rightarrow> int \<times> pat" where
  "check chess_ax chess_ay locate num p =
     (let (r, n) = check_loop chess_ax chess_ay (direction_var locate (0 + 2 * num))
                     (direction_var locate (1 + 2 * num)) [1..20]
      in (r, p\<lparr>side_num := n\<rparr>))"

definition load_one :: "(int \<Rightarrow> int) \<Rightarrow> int \<Rightarrow> int \<Rightarrow> int \<Rightarrow> int \<Rightarrow> pat \<Rightarrow> pat" where
  "load_one arr chess_ax chess_ay locate n p =
     (let x = chess_ax + n * direction_var locate 0;
          y = chess_ay + n * direction_var locate 1
      in p\<lparr>side_num := n + 1,
           array_one_x := (array_one_x p)(n - 1 := x),
           array_one_y := (array_one_y p)(n - 1 := y),
           array_side_one := (array_side_one p)(n - 1 := chess_cell arr x y)\<rparr>)"

definition load_two :: "(int \<Rightarrow> int) \<Rightarrow> int \<Rightarrow> int \<Rightarrow> int \<Rightarrow> int \<Rightarrow> pat \<Rightarrow> pat" where
  "load_two arr chess_ax chess_ay locate n p =
     (let x = chess_ax + n * direction_var locate 2;
          y = chess_ay + n * direction_var locate 3
      in p\<lparr>side_num := n + 1,
           array_two_x := (array_two_x p)(n - 1 := x),
           array_two_y := (array_two_y p)(n - 1 := y),
           array_side_two := (array_side_two p)(n - 1 := chess_cell arr x y)\<rparr>)"

definition init_pattern :: "(int \<Rightarrow> int) \<Rightarrow> int \<Rightarrow> int \<Rightarrow> int \<Rightarrow> pat \<Rightarrow> pat" where
  "init_pattern arr chess_ax chess_ay locate p =
     (let (m1, p) = check chess_ax chess_ay locate 0 p;
          p = p\<lparr>side_one_max := m1\<rparr>;
          (m2, p) = check chess_ax chess_ay locate 1 p;
          p = p\<lparr>side_two_max := m2\<rparr>;
          p = for_range 1 (m1 + 1) (load_one arr chess_ax chess_ay locate) (p\<lparr>side_num := 1\<rparr>);
          p = for_range 1 (m2 + 1) (load_two arr chess_ax chess_ay locate) (p\<lparr>side_num := 1\<rparr>)
      in p)"

subsection \<open>Matching\<close>

text \<open>
  One of the two matching loops, from index \<open>i\<close>: False where the code returns 0. A character
  other than 0 and 1 only prints a message.
\<close>

fun match_side :: "string \<Rightarrow> int \<Rightarrow> (int \<Rightarrow> int) \<Rightarrow> int \<Rightarrow> bool" where
  "match_side [] i side chess_flag = True"
| "match_side (c # cs) i side chess_flag =
     (if of_char c - 48 = (0 :: int) then
        (if side i = 0 then match_side cs (i + 1) side chess_flag else False)
      else if of_char c - 48 = (1 :: int) then
        (if side i = chess_flag then match_side cs (i + 1) side chess_flag else False)
      else match_side cs (i + 1) side chess_flag)"

text \<open>\<open>for (; i < max && side[i] == 0; i++) num++\<close>\<close>

function count_free :: "(int \<Rightarrow> int) \<Rightarrow> int \<Rightarrow> int \<Rightarrow> int \<Rightarrow> int" where
  "count_free side side_max i num =
     (if i < side_max \<and> side i = 0 then count_free side side_max (i + 1) (num + 1) else num)"
  by pat_completeness auto
termination
  by (relation "measure (\<lambda>(side, side_max, i, num). nat (side_max - i))") auto

declare count_free.simps [simp del]

definition search_pattern :: "string \<Rightarrow> string \<Rightarrow> int \<Rightarrow> pat \<Rightarrow> int \<times> pat" where
  "search_pattern string_x string_y chess_flag p =
     (let p = p\<lparr>side_one_num := 0, side_two_num := 0\<rparr>;
          num_x = int (length string_x);
          num_y = int (length string_y)
      in if \<not> match_side string_x 0 (array_side_one p) chess_flag then (0, p)
         else if \<not> match_side string_y 0 (array_side_two p) chess_flag then (0, p)
         else (1, p\<lparr>side_one_num := count_free (array_side_one p) (side_one_max p) num_x 0,
                    side_two_num := count_free (array_side_two p) (side_two_max p) num_y 0\<rparr>))"

definition search_pattern_double :: "string \<Rightarrow> string \<Rightarrow> int \<Rightarrow> pat \<Rightarrow> int \<times> pat" where
  "search_pattern_double string_x string_y chess_flag p =
     (let (r, p) = search_pattern string_x string_y chess_flag p in
      if r \<noteq> 0 then (1, p)
      else let (r, p) = search_pattern string_y string_x chess_flag p in
      if r \<noteq> 0 then (1, p) else (0, p))"

subsection \<open>Shapes\<close>

definition pattern_5 :: "(int \<Rightarrow> int) \<Rightarrow> int \<Rightarrow> int \<Rightarrow> int \<Rightarrow> int \<Rightarrow> pat \<Rightarrow> int \<times> pat" where
  "pattern_5 arr chess_ax chess_ay locate chess_flag p =
     (let p = init_pattern arr chess_ax chess_ay locate p;
          (flag_pa5, p) =
            (let (r, p) = search_pattern_double ''1'' ''101'' chess_flag p in
             if r \<noteq> 0 then (1, p)
             else let (r, p) = search_pattern_double ''1'' ''011'' chess_flag p in
             if r \<noteq> 0 then (1, p)
             else let (r, p) = search_pattern_double ''11'' ''01'' chess_flag p in
             if r \<noteq> 0 then (1 :: int, p) else (0, p))
      in (if flag_pa5 = 1 then
            (if chess_flag = 2 then 95 else if chess_flag = 1 then 25 else 0)
          else 0, p))"

text \<open>The score of a match, from the flag and the free cells counted on both sides.\<close>

definition score_4 :: "int \<Rightarrow> int \<Rightarrow> int \<Rightarrow> int \<Rightarrow> int" where
  "score_4 chess_flag flag_pa4 one two =
     (if flag_pa4 = 1 then
        if one > 0 \<and> two > 0 then
          (if chess_flag = 2 then 85 else if chess_flag = 1 then 80 else 0)
        else if one > 0 \<or> two > 0 then
          if one + two \<ge> 1 then
            (if chess_flag = 2 then 70 else if chess_flag = 1 then 25 else 0)
          else 0
        else 0
      else 0)"

definition pattern_4 :: "(int \<Rightarrow> int) \<Rightarrow> int \<Rightarrow> int \<Rightarrow> int \<Rightarrow> int \<Rightarrow> pat \<Rightarrow> int \<times> pat" where
  "pattern_4 arr chess_ax chess_ay locate chess_flag p =
     (let p = init_pattern arr chess_ax chess_ay locate p;
          (flag_pa4, p) =
            (let (r, p) = search_pattern_double '''' ''111'' chess_flag p in
             if r \<noteq> 0 then (1, p)
             else let (r, p) = search_pattern_double ''1'' ''11'' chess_flag p in
             if r \<noteq> 0 then (1, p) else (0, p))
      in (score_4 chess_flag flag_pa4 (side_one_num p) (side_two_num p), p))"

definition score_3 :: "int \<Rightarrow> int \<Rightarrow> int \<Rightarrow> int \<Rightarrow> int \<Rightarrow> int" where
  "score_3 chess_flag flag_pa31 flag_pa32 one two =
     (if flag_pa31 = 1 then
        if one > 0 \<and> two > 0 then
          if one + two \<ge> 3 then
            (if chess_flag = 2 then 30 else if chess_flag = 1 then 28 else 0)
          else if one + two = 2 then
            (if chess_flag = 2 then 27 else if chess_flag = 1 then 22 else 0)
          else 0
        else if one > 0 \<or> two > 0 then
          if one + two \<ge> 2 then
            (if chess_flag = 2 then 13 else if chess_flag = 1 then 8 else 0)
          else 0
        else 0
      else if flag_pa32 = 1 then
        if one > 0 \<and> two > 0 then
          if one + two \<ge> 2 then
            (if chess_flag = 2 then 27 else if chess_flag = 1 then 25 else 0)
          else 0
        else if one > 0 \<or> two > 0 then
          if one + two \<ge> 1 then
            (if chess_flag = 2 then 13 else if chess_flag = 1 then 8 else 0)
          else 0
        else 0
      else 0)"

definition pattern_3 :: "(int \<Rightarrow> int) \<Rightarrow> int \<Rightarrow> int \<Rightarrow> int \<Rightarrow> int \<Rightarrow> pat \<Rightarrow> int \<times> pat" where
  "pattern_3 arr chess_ax chess_ay locate chess_flag p =
     (let p = init_pattern arr chess_ax chess_ay locate p;
          (flag_pa31, flag_pa32, p) =
            (let (r, p) = search_pattern_double ''1'' ''1'' chess_flag p in
             if r \<noteq> 0 then (1, 0, p)
             else let (r, p) = search_pattern_double '''' ''11'' chess_flag p in
             if r \<noteq> 0 then (1, 0, p)
             else let (r, p) = search_pattern_double ''1'' ''01'' chess_flag p in
             if r \<noteq> 0 then (0, 1, p) else (0, 0, p))
      in (score_3 chess_flag flag_pa31 flag_pa32 (side_one_num p) (side_two_num p), p))"

definition score_2 :: "int \<Rightarrow> int \<Rightarrow> int \<Rightarrow> int \<Rightarrow> int \<Rightarrow> int" where
  "score_2 flag_pa21 flag_pa22 flag_pa23 one two =
     (if flag_pa21 = 1 then
        if one > 0 \<and> two > 0 then
          (if one + two \<ge> 3 then 50 else 40)
        else if one > 0 \<or> two > 0 then
          (if one + two > 3 then 3 else 2)
        else 0
      else if flag_pa22 = 1 then
        if one > 0 \<and> two > 0 then
          (if one + two > 2 then 0 else 0)
        else if one > 0 \<or> two > 0 then
          (if one + two > 3 then 0 else 0)
        else 0
      else if flag_pa23 = 1 then
        if one > 0 \<and> two > 0 then
          (if one + two \<ge> 2 then 0 else 0)
        else if one > 0 \<or> two > 0 then
          (if one + two > 1 then 0 else 0)
        else 0
      else 0)"

definition pattern_2 :: "(int \<Rightarrow> int) \<Rightarrow> int \<Rightarrow> int \<Rightarrow> int \<Rightarrow> int \<Rightarrow> pat \<Rightarrow> int \<times> pat" where
  "pattern_2 arr chess_ax chess_ay locate chess_flag p =
     (let p = init_pattern arr chess_ax chess_ay locate p;
          (flag_pa21, flag_pa22, flag_pa23, p) =
            (let (r, p) = search_pattern_double '''' ''1'' chess_flag p in
             if r \<noteq> 0 then (1, 0, 0, p)
             else let (r, p) = search_pattern_double '''' ''01'' chess_flag p in
             if r \<noteq> 0 then (0, 1, 0, p)
             else let (r, p) = search_pattern_double '''' ''001'' chess_flag p in
             if r \<noteq> 0 then (0, 0, 1, p) else (0, 0, 0, p))
      in (score_2 flag_pa21 flag_pa22 flag_pa23 (side_one_num p) (side_two_num p), p))"

subsection \<open>Scores over the four directions\<close>

text \<open>State: \<open>(pa2_max_score, pa2_num, globals)\<close>.\<close>

definition pattern_2_step ::
  "(int \<Rightarrow> int) \<Rightarrow> int \<Rightarrow> int \<Rightarrow> int \<Rightarrow> int \<Rightarrow> int \<times> int \<times> pat \<Rightarrow> int \<times> int \<times> pat" where
  "pattern_2_step arr chess_ax chess_ay chess_flag locate st =
     (let (pa2_max_score, pa2_num, p) = st;
          (pa2_temp_score, p) = pattern_2 arr chess_ax chess_ay locate chess_flag p
      in if pa2_temp_score \<ge> 40
         then (pa2_max_score + pa2_temp_score sdiv 10, pa2_num + 1, p)
         else (pa2_max_score + pa2_temp_score, pa2_num, p))"

definition calculate_pattern_2_score :: "(int \<Rightarrow> int) \<Rightarrow> int \<Rightarrow> int \<Rightarrow> int \<Rightarrow> pat \<Rightarrow> int \<times> pat" where
  "calculate_pattern_2_score arr chess_ax chess_ay chess_flag p =
     (let (pa2_max_score, pa2_num, p) =
            for_range 0 4 (pattern_2_step arr chess_ax chess_ay chess_flag) (0, 0, p);
          pa2_max_score = (if pa2_num \<ge> 2 then 9 * pa2_num else pa2_max_score)
      in (if chess_flag = 2 \<and> pa2_num \<ge> 2 then pa2_max_score + 1
          else if chess_flag = 1 \<and> pa2_num \<ge> 2 then pa2_max_score
          else pa2_max_score, p))"

text \<open>
  The bodies of the three loops of \<open>calculate_pattern_345_score\<close>. In the last one the only
  statement under \<open>if (pa4_temp_score == 80)\<close> is the next \<open>if\<close>, since the \<open>printf\<close> between
  them is commented out.
\<close>

definition single_four_step ::
  "(int \<Rightarrow> int) \<Rightarrow> int \<Rightarrow> int \<Rightarrow> int \<Rightarrow> int \<Rightarrow> int \<times> int \<times> int \<times> pat \<Rightarrow> int \<times> int \<times> int \<times> pat" where
  "single_four_step arr chess_ax chess_ay chess_flag locate st =
     (let (pa4_temp_score, flag_pa43, flag_pa44, p) = st;
          (pa4_temp_score, p) = pattern_4 arr chess_ax chess_ay locate chess_flag p
      in if pa4_temp_score = 75 then (pa4_temp_score, flag_pa43 + 1, flag_pa44, p)
         else if pa4_temp_score = 25 then (pa4_temp_score, flag_pa43, flag_pa44 + 1, p)
         else (pa4_temp_score, flag_pa43, flag_pa44, p))"

definition live_three_step ::
  "(int \<Rightarrow> int) \<Rightarrow> int \<Rightarrow> int \<Rightarrow> int \<Rightarrow> int \<Rightarrow> int \<times> int \<times> int \<times> pat \<Rightarrow> int \<times> int \<times> int \<times> pat" where
  "live_three_step arr chess_ax chess_ay chess_flag locate st =
     (let (pa3_temp_score, flag_pa33, flag_pa34, p) = st;
          (pa3_temp_score, p) = pattern_4 arr chess_ax chess_ay locate chess_flag p
      in if pa3_temp_score = 30 then (pa3_temp_score, flag_pa33 + 1, flag_pa34, p)
         else if pa3_temp_score = 28 then (pa3_temp_score, flag_pa33, flag_pa34 + 1, p)
         else (pa3_temp_score, flag_pa33, flag_pa34, p))"

definition three_four_step ::
  "(int \<Rightarrow> int) \<Rightarrow> int \<Rightarrow> int \<Rightarrow> int \<Rightarrow> int \<Rightarrow> int \<times> int \<times> int \<times> int \<times> int \<times> pat
     \<Rightarrow> int \<times> int \<times> int \<times> int \<times> int \<times> pat" where
  "three_four_step arr chess_ax chess_ay chess_flag locate st =
     (let (max_score, pa3_max_score, flag_pa41, flag_pa42, pa4_num, p) = st;
          (pa4_temp_score, p) = pattern_4 arr chess_ax chess_ay locate chess_flag p;
          flag_pa41 = (if pa4_temp_score = 80
                       then (if pa4_temp_score \<ge> 80 then 1 else flag_pa41) else flag_pa41);
          flag_pa42 = (if pa4_temp_score = 70 then 1 else flag_pa42);
          pa4_num = (if pa4_temp_score = 70 then pa4_num + 1 else pa4_num);
          max_score = max max_score pa4_temp_score;
          (pa3, p) = pattern_3 arr chess_ax chess_ay locate chess_flag p
      in (max_score, pa3_max_score + pa3, flag_pa41, flag_pa42, pa4_num, p))"

text \<open>
  \<open>flag_pa4\<close> is a local of the code that is never set; it stays 0. The code's updates of the form
  \<open>if (v > max_score) max_score = v\<close>, with \<open>>\<close> or \<open>>=\<close>, are \<open>max\<close>.
\<close>

definition calculate_pattern_345_score :: "(int \<Rightarrow> int) \<Rightarrow> int \<Rightarrow> int \<Rightarrow> int \<Rightarrow> pat \<Rightarrow> int \<times> pat" where
  "calculate_pattern_345_score arr chess_ax chess_ay chess_flag p =
     (let flag_pa4 = 0 :: int;
          (pa4_temp_score, flag_pa43, flag_pa44, p) =
            for_range 0 4 (single_four_step arr chess_ax chess_ay chess_flag) (0, 0, 0, p);
          pa4_temp_score = (if flag_pa43 \<ge> 2 then 81 else pa4_temp_score);
          max_score = max 0 pa4_temp_score;
          pa4_temp_score = (if flag_pa44 \<ge> 2 then 86 else pa4_temp_score);
          max_score = max max_score pa4_temp_score;
          (pa3_temp_score, flag_pa33, flag_pa34, p) =
            for_range 0 4 (live_three_step arr chess_ax chess_ay chess_flag) (0, 0, 0, p);
          pa3_temp_score = (if flag_pa33 \<ge> 1 \<and> flag_pa43 \<ge> 1 then 85 else pa3_temp_score);
          max_score = max max_score pa3_temp_score;
          pa3_temp_score = (if flag_pa34 \<ge> 1 \<and> flag_pa44 \<ge> 1 then 84 else pa3_temp_score);
          (max_score, pa3_max_score, flag_pa41, flag_pa42, pa4_num, p) =
            for_range 0 4 (three_four_step arr chess_ax chess_ay chess_flag)
              (max_score, 0, 0, 0, 0, p);
          pa3_max_score =
            (if pa3_max_score \<ge> 30 \<and> flag_pa4 = 1 then 65
             else if pa3_max_score \<ge> 60 \<and> flag_pa4 = 0 then 60
             else if pa4_num \<ge> 2 then 82
             else if flag_pa41 = 1 \<and> pa3_max_score \<ge> 30 then 86
             else if flag_pa42 = 1 \<and> pa3_max_score \<ge> 30 then 74
             else pa3_max_score);
          max_score = max max_score pa3_max_score;
          (max_tmp_2, p) = calculate_pattern_2_score arr chess_ax chess_ay chess_flag p;
          max_score = (if max_tmp_2 \<ge> 27 then max max_score max_tmp_2 else max_score)
      in (max_score, p))"

subsection \<open>Score ranges\<close>

lemma score_4_values: "score_4 f a one two \<in> {0, 25, 70, 80, 85}"
  by (simp add: score_4_def)

lemma score_3_range: "0 \<le> score_3 f a b one two \<and> score_3 f a b one two \<le> 30"
  by (simp add: score_3_def)

lemma score_2_values: "score_2 a b c one two \<in> {0, 2, 3, 40, 50}"
  by (simp add: score_2_def)

lemma pattern_4_values: "fst (pattern_4 arr ax ay l f p) \<in> {0, 25, 70, 80, 85}"
  by (simp only: pattern_4_def Let_def case_prod_beta fst_conv score_4_values)

lemma pattern_3_range: "0 \<le> fst (pattern_3 arr ax ay l f p) \<and> fst (pattern_3 arr ax ay l f p) \<le> 30"
  by (simp only: pattern_3_def Let_def case_prod_beta fst_conv score_3_range)

lemma pattern_2_values: "fst (pattern_2 arr ax ay l f p) \<in> {0, 2, 3, 40, 50}"
  by (simp only: pattern_2_def Let_def case_prod_beta fst_conv score_2_values)

lemma calculate_pattern_2_range:
  "0 \<le> fst (calculate_pattern_2_score arr ax ay f p) \<and> fst (calculate_pattern_2_score arr ax ay f p) \<le> 37"
proof -
  let ?step = "pattern_2_step arr ax ay f"
  let ?P = "\<lambda>i (m, n, q :: pat). 0 \<le> n \<and> n \<le> i \<and> 0 \<le> m \<and> m \<le> 5 * n + 3 * (i - n)"
  have "?P 4 (for_range 0 4 ?step (0, 0, p))"
  proof (rule for_range_invariant [where P = ?P])
    fix i :: int and t :: "int \<times> int \<times> pat" assume P: "?P i t"
    obtain m n q where t: "t = (m, n, q)" by (cases t)
    obtain v q' where e: "pattern_2 arr ax ay i f q = (v, q')" by fastforce
    have "v \<in> {0, 2, 3, 40, 50}" using pattern_2_values [of arr ax ay i f q] e by simp
    then show "?P (i + 1) (?step i t)"
      using P by (auto simp: t e pattern_2_step_def sdiv_nonneg algebra_simps)
  qed auto
  then obtain m n q where r: "for_range 0 4 ?step (0, 0, p) = (m, n, q)"
    and "0 \<le> n" "n \<le> 4" "0 \<le> m" "m \<le> 5 * n + 3 * (4 - n)"
    by (auto split: prod.splits)
  then show ?thesis by (simp add: calculate_pattern_2_score_def r) (simp add: Let_def)
qed

text \<open>The first two loops of the combined score leave a value \<open>pattern_4\<close> returned.\<close>

lemma single_four_values:
  "fst (for_range 0 4 (single_four_step arr ax ay f) (0, 0, 0, p)) \<in> {0, 25, 70, 80, 85}"
proof (rule for_range_keeps)
  fix i :: int and s :: "int \<times> int \<times> int \<times> pat"
  have "fst (single_four_step arr ax ay f i s) = fst (pattern_4 arr ax ay i f (snd (snd (snd s))))"
    by (simp add: single_four_step_def Let_def case_prod_beta)
  then show "fst (single_four_step arr ax ay f i s) \<in> {0, 25, 70, 80, 85}"
    using pattern_4_values by simp
qed simp

lemma live_three_values:
  "fst (for_range 0 4 (live_three_step arr ax ay f) (0, 0, 0, p)) \<in> {0, 25, 70, 80, 85}"
proof (rule for_range_keeps)
  fix i :: int and s :: "int \<times> int \<times> int \<times> pat"
  have "fst (live_three_step arr ax ay f i s) = fst (pattern_4 arr ax ay i f (snd (snd (snd s))))"
    by (simp add: live_three_step_def Let_def case_prod_beta)
  then show "fst (live_three_step arr ax ay f i s) \<in> {0, 25, 70, 80, 85}"
    using pattern_4_values by simp
qed simp

text \<open>The last loop: the running maximum and the sum of the threes.\<close>

lemma three_four_range:
  assumes "0 \<le> m" "m \<le> 86"
  shows "0 \<le> fst (for_range 0 4 (three_four_step arr ax ay f) (m, 0, a, b, n, p))
    \<and> fst (for_range 0 4 (three_four_step arr ax ay f) (m, 0, a, b, n, p)) \<le> 86
    \<and> 0 \<le> fst (snd (for_range 0 4 (three_four_step arr ax ay f) (m, 0, a, b, n, p)))"
proof (rule for_range_keeps [where I = "\<lambda>r. 0 \<le> fst r \<and> fst r \<le> 86 \<and> 0 \<le> fst (snd r)"])
  fix i :: int and r :: "int \<times> int \<times> int \<times> int \<times> int \<times> pat"
  assume I: "0 \<le> fst r \<and> fst r \<le> 86 \<and> 0 \<le> fst (snd r)"
  let ?q = "snd (snd (snd (snd (snd r))))"
  have "0 \<le> fst (pattern_4 arr ax ay i f ?q)" "fst (pattern_4 arr ax ay i f ?q) \<le> 86"
    using pattern_4_values [of arr ax ay i f ?q] by auto
  then show "0 \<le> fst (three_four_step arr ax ay f i r) \<and> fst (three_four_step arr ax ay f i r) \<le> 86
      \<and> 0 \<le> fst (snd (three_four_step arr ax ay f i r))"
    using I pattern_3_range by (simp add: three_four_step_def Let_def case_prod_beta)
qed (use assms in simp)

text \<open>The result of the combined score in terms of its last loop.\<close>

lemma calculate_pattern_345_parts:
  obtains m0 p2 s z where "0 \<le> m0" "m0 \<le> 86" "0 \<le> s" "s \<le> 86" "0 \<le> z" "z \<le> 37"
    and "fst (calculate_pattern_345_score arr ax ay f p) =
      (let m = fst (for_range 0 4 (three_four_step arr ax ay f) (m0, 0, 0, 0, 0, p2))
       in if z \<ge> 27 then max (max m s) z else max m s)"
proof -
  obtain t1 a b p1 where one: "for_range 0 4 (single_four_step arr ax ay f) (0, 0, 0, p) = (t1, a, b, p1)"
    by (cases "for_range 0 4 (single_four_step arr ax ay f) (0, 0, 0, p)")
  obtain t2 c d p2 where two: "for_range 0 4 (live_three_step arr ax ay f) (0, 0, 0, p1) = (t2, c, d, p2)"
    by (cases "for_range 0 4 (live_three_step arr ax ay f) (0, 0, 0, p1)")
  have v: "0 \<le> t1" "t1 \<le> 86" "0 \<le> t2" "t2 \<le> 86"
    using single_four_values [of arr ax ay f p] live_three_values [of arr ax ay f p1] one two by auto
  define m0 where "m0 = max (max (max 0 (if 2 \<le> a then 81 else t1))
      (if 2 \<le> b then 86 else if 2 \<le> a then 81 else t1)) (if 1 \<le> c \<and> 1 \<le> a then 85 else t2)"
  have m0: "0 \<le> m0" "m0 \<le> 86" using v by (auto simp: m0_def max_def)
  obtain m s x y n p3 where three:
    "for_range 0 4 (three_four_step arr ax ay f) (m0, 0, 0, 0, 0, p2) = (m, s, x, y, n, p3)"
    by (cases "for_range 0 4 (three_four_step arr ax ay f) (m0, 0, 0, 0, 0, p2)")
  obtain z p4 where two_score: "calculate_pattern_2_score arr ax ay f p3 = (z, p4)"
    by (cases "calculate_pattern_2_score arr ax ay f p3")
  have z: "0 \<le> z" "z \<le> 37" using calculate_pattern_2_range [of arr ax ay f p3] two_score by auto
  let ?s = "if s \<ge> 30 \<and> (0 :: int) = 1 then 65 else if s \<ge> 60 \<and> (0 :: int) = 0 then 60
      else if n \<ge> 2 then 82 else if x = 1 \<and> s \<ge> 30 then 86 else if y = 1 \<and> s \<ge> 30 then 74 else s"
  have "0 \<le> s" using three_four_range [OF m0, of arr ax ay f 0 0 0 p2] three by auto
  then have s: "0 \<le> ?s" "?s \<le> 86" by auto
  have "fst (calculate_pattern_345_score arr ax ay f p) =
      (let m = fst (for_range 0 4 (three_four_step arr ax ay f) (m0, 0, 0, 0, 0, p2))
       in if z \<ge> 27 then max (max m ?s) z else max m ?s)"
    unfolding calculate_pattern_345_score_def Let_def one prod.case two
      m0_def [symmetric] three two_score fst_conv ..
  with m0 s z show thesis by (rule that)
qed

lemma calculate_pattern_345_range:
  "0 \<le> fst (calculate_pattern_345_score arr ax ay f p)
    \<and> fst (calculate_pattern_345_score arr ax ay f p) \<le> 86"
proof (rule calculate_pattern_345_parts [of arr ax ay f p])
  fix m0 s z :: int and p2
  assume v: "0 \<le> m0" "m0 \<le> 86" "0 \<le> s" "s \<le> 86" "0 \<le> z" "z \<le> 37"
    and e: "fst (calculate_pattern_345_score arr ax ay f p) =
      (let m = fst (for_range 0 4 (three_four_step arr ax ay f) (m0, 0, 0, 0, 0, p2))
       in if z \<ge> 27 then max (max m s) z else max m s)"
  show ?thesis using three_four_range [OF v(1,2), of arr ax ay f 0 0 0 p2] v
    unfolding e Let_def by auto
qed

subsection \<open>What the rays hold\<close>

text \<open>One side of a square: where its ray leaves the board and what it has loaded.\<close>

definition loaded :: "(int \<Rightarrow> int) \<Rightarrow> int \<Rightarrow> int \<Rightarrow> int \<Rightarrow> int \<Rightarrow> int \<Rightarrow> (int \<Rightarrow> int) \<Rightarrow> (int \<Rightarrow> int) \<Rightarrow> bool" where
  "loaded arr ax ay ux uy m side old \<longleftrightarrow>
     (\<forall>k. 1 \<le> k \<and> k \<le> m \<longrightarrow> stone arr (side (k - 1)) (ax + k * ux) (ay + k * uy))
     \<and> \<not> on_board (ax + (m + 1) * ux) (ay + (m + 1) * uy)
     \<and> 0 \<le> m \<and> m \<le> 19
     \<and> (\<forall>j. j < 0 \<or> m \<le> j \<longrightarrow> side j = old j)"

lemma check_loop_ray:
  assumes "n \<le> 20" "\<not> on_board (ax + 20 * ux) (ay + 20 * uy)"
    and "check_loop ax ay ux uy [n..20] = (r, e)"
  shows "n - 1 \<le> r \<and> r \<le> 19 \<and> (\<forall>k. n \<le> k \<and> k \<le> r \<longrightarrow> on_board (ax + k * ux) (ay + k * uy))
    \<and> \<not> on_board (ax + (r + 1) * ux) (ay + (r + 1) * uy)"
  using assms
proof (induction "nat (20 - n)" arbitrary: n)
  case (0 n)
  then have "n = 20" by simp
  then show ?case using 0 by (auto simp: on_board_def Let_def split: if_splits)
next
  case (Suc j n)
  then have n: "n < 20" and l: "[n..20] = n # [n + 1..20]" by (simp_all add: upto_rec1)
  show ?case
  proof (cases "on_board (ax + n * ux) (ay + n * uy)")
    case True
    then have "check_loop ax ay ux uy [n + 1..20] = (r, e)"
      using Suc.prems(3) unfolding l by (simp add: Let_def on_board_def split: if_splits)
    then have "n \<le> r \<and> r \<le> 19 \<and> (\<forall>k. n + 1 \<le> k \<and> k \<le> r \<longrightarrow> on_board (ax + k * ux) (ay + k * uy))
        \<and> \<not> on_board (ax + (r + 1) * ux) (ay + (r + 1) * uy)"
      using Suc.hyps(1) [of "n + 1"] Suc.hyps(2) Suc.prems(2) n by simp
    moreover have "k = n \<or> n + 1 \<le> k" if "n \<le> k" for k using that by linarith
    ultimately show ?thesis using True by auto
  next
    case False
    then have "r = n - 1"
      using Suc.prems(3) unfolding l by (auto simp: Let_def on_board_def split: if_splits)
    then show ?thesis using False n by auto
  qed
qed

lemma far_off_board:
  assumes "on_board ax ay" "0 \<le> l" "l < 4"
  shows "\<not> on_board (ax + 20 * direction_var l 0) (ay + 20 * direction_var l 1)
    \<and> \<not> on_board (ax + 20 * direction_var l 2) (ay + 20 * direction_var l 3)"
  by (rule locate_cases [OF assms(2,3)])
    (use assms(1) in \<open>simp_all add: direction_values on_board_def\<close>)

lemma check_ray:
  assumes "on_board ax ay" "0 \<le> l" "l < 4" "num = 0 \<or> num = 1" "check ax ay l num p = (m, q)"
  shows "0 \<le> m \<and> m \<le> 19
    \<and> (\<forall>k. 1 \<le> k \<and> k \<le> m \<longrightarrow> on_board (ax + k * direction_var l (2 * num)) (ay + k * direction_var l (2 * num + 1)))
    \<and> \<not> on_board (ax + (m + 1) * direction_var l (2 * num)) (ay + (m + 1) * direction_var l (2 * num + 1))"
    and "\<exists>n. q = p\<lparr>side_num := n\<rparr>"
proof -
  obtain r e where r: "check_loop ax ay (direction_var l (2 * num)) (direction_var l (1 + 2 * num)) [1..20] = (r, e)"
    by fastforce
  then have m: "m = r" "q = p\<lparr>side_num := e\<rparr>" using assms(5) by (simp_all add: check_def Let_def)
  have "\<not> on_board (ax + 20 * direction_var l (2 * num)) (ay + 20 * direction_var l (1 + 2 * num))"
    using far_off_board [OF assms(1-3)] assms(4) by auto
  from check_loop_ray [OF _ this r]
  show "0 \<le> m \<and> m \<le> 19
    \<and> (\<forall>k. 1 \<le> k \<and> k \<le> m \<longrightarrow> on_board (ax + k * direction_var l (2 * num)) (ay + k * direction_var l (2 * num + 1)))
    \<and> \<not> on_board (ax + (m + 1) * direction_var l (2 * num)) (ay + (m + 1) * direction_var l (2 * num + 1))"
    using m by (simp add: add.commute)
  show "\<exists>n. q = p\<lparr>side_num := n\<rparr>" using m by blast
qed

lemma load_one_loop:
  assumes "0 \<le> m"
  shows "side_one_max (for_range 1 (m + 1) (load_one arr ax ay l) p) = side_one_max p
    \<and> side_two_max (for_range 1 (m + 1) (load_one arr ax ay l) p) = side_two_max p
    \<and> array_side_two (for_range 1 (m + 1) (load_one arr ax ay l) p) = array_side_two p
    \<and> array_side_one (for_range 1 (m + 1) (load_one arr ax ay l) p) =
        (\<lambda>j. if 0 \<le> j \<and> j < m then chess_cell arr (ax + (j + 1) * direction_var l 0)
               (ay + (j + 1) * direction_var l 1) else array_side_one p j)"
proof -
  let ?P = "\<lambda>i (q :: pat). side_one_max q = side_one_max p \<and> side_two_max q = side_two_max p
    \<and> array_side_two q = array_side_two p
    \<and> array_side_one q = (\<lambda>j. if 0 \<le> j \<and> j < i - 1 then chess_cell arr
        (ax + (j + 1) * direction_var l 0) (ay + (j + 1) * direction_var l 1) else array_side_one p j)"
  have "?P (m + 1) (for_range 1 (m + 1) (load_one arr ax ay l) p)"
  proof (rule for_range_invariant [where P = ?P])
    fix i :: int and q :: pat assume "1 \<le> i" "?P i q"
    then show "?P (i + 1) (load_one arr ax ay l i q)"
      by (auto simp: load_one_def Let_def fun_eq_iff)
  qed (use assms in auto)
  then show ?thesis by simp
qed

lemma load_two_loop:
  assumes "0 \<le> m"
  shows "side_one_max (for_range 1 (m + 1) (load_two arr ax ay l) p) = side_one_max p
    \<and> side_two_max (for_range 1 (m + 1) (load_two arr ax ay l) p) = side_two_max p
    \<and> array_side_one (for_range 1 (m + 1) (load_two arr ax ay l) p) = array_side_one p
    \<and> array_side_two (for_range 1 (m + 1) (load_two arr ax ay l) p) =
        (\<lambda>j. if 0 \<le> j \<and> j < m then chess_cell arr (ax + (j + 1) * direction_var l 2)
               (ay + (j + 1) * direction_var l 3) else array_side_two p j)"
proof -
  let ?P = "\<lambda>i (q :: pat). side_one_max q = side_one_max p \<and> side_two_max q = side_two_max p
    \<and> array_side_one q = array_side_one p
    \<and> array_side_two q = (\<lambda>j. if 0 \<le> j \<and> j < i - 1 then chess_cell arr
        (ax + (j + 1) * direction_var l 2) (ay + (j + 1) * direction_var l 3) else array_side_two p j)"
  have "?P (m + 1) (for_range 1 (m + 1) (load_two arr ax ay l) p)"
  proof (rule for_range_invariant [where P = ?P])
    fix i :: int and q :: pat assume "1 \<le> i" "?P i q"
    then show "?P (i + 1) (load_two arr ax ay l i q)"
      by (auto simp: load_two_def Let_def fun_eq_iff)
  qed (use assms in auto)
  then show ?thesis by simp
qed

lemma init_pattern_loads_rays_lemma:
  assumes "on_board ax ay" "0 \<le> l" "l < 4"
  shows "loaded arr ax ay (direction_var l 0) (direction_var l 1)
      (side_one_max (init_pattern arr ax ay l p)) (array_side_one (init_pattern arr ax ay l p)) (array_side_one p)
    \<and> loaded arr ax ay (direction_var l 2) (direction_var l 3)
      (side_two_max (init_pattern arr ax ay l p)) (array_side_two (init_pattern arr ax ay l p)) (array_side_two p)"
proof -
  obtain m1 p1 where 1: "check ax ay l 0 p = (m1, p1)" by fastforce
  obtain m2 p2 where 2: "check ax ay l 1 (p1\<lparr>side_one_max := m1\<rparr>) = (m2, p2)" by fastforce
  obtain n1 n2 where p1: "p1 = p\<lparr>side_num := n1\<rparr>" and p2: "p2 = p1\<lparr>side_one_max := m1, side_num := n2\<rparr>"
    using check_ray(2) [OF assms _ 1] check_ray(2) [OF assms _ 2] by auto
  note r1 = check_ray(1) [OF assms _ 1, simplified] and r2 = check_ray(1) [OF assms _ 2, simplified]
  show ?thesis
    using r1 r2 unfolding loaded_def
    by (simp add: init_pattern_def 1 2 [unfolded p1] load_one_loop load_two_loop p2 p1 stone_def)
qed

text \<open>
  the rays are loaded as far as the board goes, and no further. From any square of the board
  and in each of the four directions \<open>init_pattern\<close> sets both lengths to the number of board
  squares on that side, copies exactly those squares into the two arrays in order, and leaves the
  entries beyond as an earlier call left them.
\<close>

theorem init_pattern_loads_rays:
  assumes "on_board ax ay" "0 \<le> l" "l < 4"
  shows "loaded arr ax ay (direction_var l 0) (direction_var l 1)
      (side_one_max (init_pattern arr ax ay l p)) (array_side_one (init_pattern arr ax ay l p)) (array_side_one p)
    \<and> loaded arr ax ay (direction_var l 2) (direction_var l 3)
      (side_two_max (init_pattern arr ax ay l p)) (array_side_two (init_pattern arr ax ay l p)) (array_side_two p)"
  by (rule init_pattern_loads_rays_lemma [OF assms])

theorem init_pattern_loads_rays_witness:
  "loaded (\<lambda>_. 2) 3 4 1 0 (side_one_max (init_pattern (\<lambda>_. 2) 3 4 0 pat_init))
     (array_side_one (init_pattern (\<lambda>_. 2) 3 4 0 pat_init)) (array_side_one pat_init)"
proof -
  have "on_board 3 4" by (simp add: on_board_def)
  from init_pattern_loads_rays [OF this, of 0 "\<lambda>_. 2" pat_init] show ?thesis
    by (simp add: direction_values)
qed

subsection \<open>Fours\<close>

text \<open>\<open>n\<close> stones of a colour next to the square on one side, and a free square after them.\<close>

definition open_side :: "(int \<Rightarrow> int) \<Rightarrow> int \<Rightarrow> int \<Rightarrow> int \<Rightarrow> int \<Rightarrow> int \<Rightarrow> int \<Rightarrow> bool" where
  "open_side arr flag ax ay ux uy n \<longleftrightarrow>
     0 \<le> n \<and> (\<forall>k. 1 \<le> k \<and> k \<le> n \<longrightarrow> stone arr flag (ax + k * ux) (ay + k * uy))
     \<and> stone arr 0 (ax + (n + 1) * ux) (ay + (n + 1) * uy)"

lemma open_side_loaded:
  assumes "loaded arr ax ay ux uy m side old" "open_side arr flag ax ay ux uy n"
  shows "n < m" and "\<And>j. 0 \<le> j \<Longrightarrow> j < n \<Longrightarrow> side j = flag" and "side n = 0"
proof -
  have b: "on_board (ax + k * ux) (ay + k * uy)" if "1 \<le> k" "k \<le> n + 1" for k
    using assms(2) that by (cases "k = n + 1") (auto simp: open_side_def stone_def)
  show m: "n < m"
  proof (rule ccontr)
    assume "\<not> n < m"
    then show False using b [of "m + 1"] assms(1) by (auto simp: loaded_def)
  qed
  have l: "chess_cell arr (ax + k * ux) (ay + k * uy) = side (k - 1)" if "1 \<le> k" "k \<le> m" for k
    using assms(1) that by (auto simp: loaded_def stone_def)
  show "side j = flag" if "0 \<le> j" "j < n" for j
    using l [of "j + 1"] assms(2) that m by (auto simp: open_side_def stone_def)
  show "side n = 0"
    using l [of "n + 1"] assms(2) m by (auto simp: open_side_def stone_def)
qed

lemma count_free_first:
  "i < m \<Longrightarrow> side i = 0 \<Longrightarrow> n < count_free side m i n"
proof -
  have ge: "n' \<le> count_free side m i' n'" for i' n'
    by (induction side m i' n' rule: count_free.induct) (subst count_free.simps, auto)
  assume "i < m" "side i = 0"
  then have "count_free side m i n = count_free side m (i + 1) (n + 1)"
    by (subst count_free.simps) simp
  then show ?thesis using ge [of "n + 1" "i + 1"] by simp
qed

lemma match_ones:
  "match_side '''' i side f"
  "match_side ''1'' i side f \<longleftrightarrow> side i = f"
  "match_side ''11'' i side f \<longleftrightarrow> side i = f \<and> side (i + 1) = f"
  "match_side ''111'' i side f \<longleftrightarrow> side i = f \<and> side (i + 1) = f \<and> side (i + 2) = f"
  by (simp_all add: of_char_def add.commute)

text \<open>Matching the patterns of four with three stones in reach and free ends.\<close>

lemma pattern_4_matched:
  assumes q: "q = init_pattern arr ax ay l p"
    and one: "a < side_one_max q" "\<And>j. 0 \<le> j \<Longrightarrow> j < a \<Longrightarrow> array_side_one q j = f" "array_side_one q a = 0"
    and two: "b < side_two_max q" "\<And>j. 0 \<le> j \<Longrightarrow> j < b \<Longrightarrow> array_side_two q j = f" "array_side_two q b = 0"
    and sum: "0 \<le> a" "0 \<le> b" "a + b = 3" "f \<noteq> 0"
  shows "fst (pattern_4 arr ax ay l f p) = (if f = 2 then 85 else if f = 1 then 80 else 0)"
proof -
  have free: "0 < count_free (array_side_one q) (side_one_max q) a 0"
    "0 < count_free (array_side_two q) (side_two_max q) b 0"
    using count_free_first one two by blast+
  consider "a = 0" "b = 3" | "a = 1" "b = 2" | "a = 2" "b = 1" | "a = 3" "b = 0"
    using sum by linarith
  then show ?thesis
  proof cases
    case 1
    then show ?thesis using one two free sum
      by (simp add: pattern_4_def search_pattern_double_def search_pattern_def match_ones q [symmetric] score_4_def)
  next
    case 2
    then show ?thesis using one two free sum
      by (simp add: pattern_4_def search_pattern_double_def search_pattern_def match_ones q [symmetric] score_4_def)
  next
    case 3
    then show ?thesis using one two free sum
      by (simp add: pattern_4_def search_pattern_double_def search_pattern_def match_ones q [symmetric] score_4_def)
  next
    case 4
    then show ?thesis using one two free sum
      by (simp add: pattern_4_def search_pattern_double_def search_pattern_def match_ones q [symmetric] score_4_def)
  qed
qed

lemma live_four_pattern:
  assumes "on_board ax ay" "0 \<le> l" "l < 4"
    and "open_side arr f ax ay (direction_var l 0) (direction_var l 1) a"
    and "open_side arr f ax ay (direction_var l 2) (direction_var l 3) b"
    and "a + b = 3" "f \<noteq> 0"
  shows "fst (pattern_4 arr ax ay l f p) = (if f = 2 then 85 else if f = 1 then 80 else 0)"
proof -
  note rays = init_pattern_loads_rays_lemma [OF assms(1-3), of arr p]
  have "0 \<le> a" "0 \<le> b" using assms by (auto simp: open_side_def)
  then show ?thesis
    using open_side_loaded [OF conjunct1 [OF rays] assms(4)]
      open_side_loaded [OF conjunct2 [OF rays] assms(5)] assms(6,7)
    by (intro pattern_4_matched [OF refl, of a arr ax ay l p f b])
qed

lemma three_four_step_max:
  "fst st \<le> fst (three_four_step arr ax ay f i st)"
  "fst (pattern_4 arr ax ay i f (snd (snd (snd (snd (snd st)))))) \<le> fst (three_four_step arr ax ay f i st)"
  by (simp_all add: three_four_step_def Let_def case_prod_beta)

lemma three_four_loop_ge:
  assumes "0 \<le> l" "l < 4" "\<And>q. v \<le> fst (pattern_4 arr ax ay l f q)"
  shows "v \<le> fst (for_range 0 4 (three_four_step arr ax ay f) st)"
proof -
  let ?s = "three_four_step arr ax ay f"
  have hit: "v \<le> fst (?s l t)" for t
    using assms(3) three_four_step_max(2) by (rule order_trans)
  have up: "v \<le> fst t \<Longrightarrow> v \<le> fst (?s i t)" for i t
    using three_four_step_max(1) by (rule order_trans [rotated])
  have "v \<le> fst (?s 3 (?s 2 (?s 1 (?s 0 st))))"
  proof (rule locate_cases [OF assms(1,2)])
    assume "l = 0" then show ?thesis using up [OF up [OF up]] hit by blast
  next
    assume "l = 1" then show ?thesis using up [OF up] hit by blast
  next
    assume "l = 2" then show ?thesis using up hit by blast
  next
    assume "l = 3" then show ?thesis using hit by simp
  qed
  then show ?thesis by (simp add: for_range_def upto_4)
qed

lemma calculate_pattern_345_ge:
  assumes ge: "\<And>st. v \<le> fst (for_range 0 4 (three_four_step arr ax ay f) st)"
  shows "v \<le> fst (calculate_pattern_345_score arr ax ay f p)"
proof (rule calculate_pattern_345_parts [of arr ax ay f p])
  fix m0 s z :: int and p2
  assume e: "fst (calculate_pattern_345_score arr ax ay f p) =
      (let m = fst (for_range 0 4 (three_four_step arr ax ay f) (m0, 0, 0, 0, 0, p2))
       in if z \<ge> 27 then max (max m s) z else max m s)"
  show ?thesis using ge [of "(m0, 0, 0, 0, 0, p2)"]
    unfolding e Let_def by (simp add: le_max_iff_disj)
qed

text \<open>
  a live four is seen. When a stone on the square would make four in a row with both ends free
  (three stones in the two directions of a line, with a free board square after them on each side),
  \<open>pattern_4\<close> returns its highest score for the colour, 85 for the program's own stones and 80 for
  the opponent's, whatever the globals hold, and so does \<open>calculate_pattern_345_score\<close> at least.
\<close>

theorem live_four_is_scored:
  assumes "on_board ax ay" "0 \<le> l" "l < 4"
    and "open_side arr f ax ay (direction_var l 0) (direction_var l 1) a"
    and "open_side arr f ax ay (direction_var l 2) (direction_var l 3) b"
    and "a + b = 3" "f = 1 \<or> f = 2"
  shows "fst (pattern_4 arr ax ay l f p) = (if f = 2 then 85 else 80)
    \<and> (if f = 2 then 85 else 80) \<le> fst (calculate_pattern_345_score arr ax ay f p)"
proof -
  have e: "fst (pattern_4 arr ax ay l f q) = (if f = 2 then 85 else 80)" for q
    using live_four_pattern [OF assms(1-6), of q] assms(7) by auto
  then have "(if f = 2 then 85 else 80) \<le> fst (for_range 0 4 (three_four_step arr ax ay f) st)" for st
    using assms(2,3) by (intro three_four_loop_ge [of l]) auto
  then show ?thesis using e calculate_pattern_345_ge by blast
qed

definition three_in_a_row :: "int \<Rightarrow> int" where
  "three_in_a_row = (\<lambda>_. 0)(5 * 20 + 7 := 2, 6 * 20 + 7 := 2, 8 * 20 + 7 := 2)"

theorem live_four_is_scored_witness:
  "fst (pattern_4 three_in_a_row 7 7 0 2 pat_init) = 85
   \<and> 85 \<le> fst (calculate_pattern_345_score three_in_a_row 7 7 2 pat_init)"
proof -
  have "k = 1 \<or> k = 2" if "1 \<le> k" "k \<le> 2" for k :: int using that by linarith
  then have "open_side three_in_a_row 2 7 7 (- 1) 0 2"
    by (fastforce simp: open_side_def three_in_a_row_def stone_def on_board_def chess_cell_def)
  moreover have "open_side three_in_a_row 2 7 7 1 0 1"
    by (auto simp: open_side_def three_in_a_row_def stone_def on_board_def chess_cell_def)
  moreover have "on_board 7 7" by (simp add: on_board_def)
  ultimately show ?thesis
    using live_four_is_scored [of 7 7 0 three_in_a_row 2 1 2 pat_init] by (simp add: direction_values)
qed

text \<open>
  the scores of the shapes stay below those of a five. Whatever the globals hold, the combined
  score of a square is between 0 and 86 and its score for twos between 0 and 37, so neither reaches
  the 95 and 100 with which the caller marks a five.
\<close>

theorem pattern_scores_bounded:
  "0 \<le> fst (calculate_pattern_345_score arr ax ay f p)
    \<and> fst (calculate_pattern_345_score arr ax ay f p) \<le> 86
    \<and> 0 \<le> fst (calculate_pattern_2_score arr ax ay f p)
    \<and> fst (calculate_pattern_2_score arr ax ay f p) \<le> 37"
  using calculate_pattern_345_range [of arr ax ay f p] calculate_pattern_2_range [of arr ax ay f p]
  by blast

text \<open>
  a ray of an earlier square can stand in for a missing one. Square (0, 0) has no squares on its
  second side in direction 0, but \<open>search_pattern\<close> still compares the array, which then holds what
  the last longer ray left. With own stones on (1, 0) and (2, 0) only, \<open>pattern_4\<close> reports a four
  open at one end, score 70, when that left-over entry is an own stone, and 0 otherwise.
\<close>

theorem stale_ray_makes_a_four:
  assumes "chess_cell arr 1 0 = 2" "chess_cell arr 2 0 = 2" "chess_cell arr 3 0 = 0"
    and "array_side_two p 1 \<noteq> 2"
  shows "fst (pattern_4 arr 0 0 0 2 p) = (if array_side_two p 0 = 2 then 70 else 0)"
proof -
  define q where "q = init_pattern arr 0 0 0 p"
  have b: "on_board 0 0" by (simp add: on_board_def)
  have one: "loaded arr 0 0 1 0 (side_one_max q) (array_side_one q) (array_side_one p)"
    and two: "loaded arr 0 0 (- 1) 0 (side_two_max q) (array_side_two q) (array_side_two p)"
    using init_pattern_loads_rays_lemma [OF b, of 0 arr p] by (simp_all add: q_def direction_values)
  have m1: "side_one_max q = 19" using one by (auto simp: loaded_def on_board_def)
  have m2: "side_two_max q = 0"
  proof (rule ccontr)
    assume "side_two_max q \<noteq> 0"
    then have "1 \<le> side_two_max q" using two by (auto simp: loaded_def)
    then have "on_board (0 + 1 * - 1) (0 + 1 * 0)" using two unfolding loaded_def stone_def by blast
    then show False by (simp add: on_board_def)
  qed
  have s1: "array_side_one q (k - 1) = chess_cell arr k 0" if "1 \<le> k" "k \<le> 19" for k
    using one that m1 by (auto simp: loaded_def stone_def)
  have one_cells: "array_side_one q 0 = 2" "array_side_one q 1 = 2" "array_side_one q 2 = 0"
    using s1 [of 1] s1 [of 2] s1 [of 3] assms by simp_all
  have two_cells: "array_side_two q 0 = array_side_two p 0" "array_side_two q 1 \<noteq> 2"
    using two assms(4) by (simp_all add: loaded_def m2)
  have free: "0 < count_free (array_side_one q) 19 2 0" "count_free (array_side_two q) 0 1 0 = 0"
    using one_cells by (auto intro!: count_free_first) (simp add: count_free.simps)
  show ?thesis
    using free one_cells two_cells m1 m2
    by (simp add: pattern_4_def search_pattern_double_def search_pattern_def match_ones
        q_def [symmetric] score_4_def)
qed

definition edge_two :: "int \<Rightarrow> int" where
  "edge_two = (\<lambda>_. 0)(1 * 20 := 2, 2 * 20 := 2, 4 * 20 + 5 := 2)"

theorem stale_ray_makes_a_four_witness:
  "fst (pattern_4 edge_two 0 0 0 2 (init_pattern edge_two 5 5 0 pat_init)) = 70
   \<and> fst (pattern_4 edge_two 0 0 0 2 pat_init) = 0"
proof -
  have b: "on_board 5 5" by (simp add: on_board_def)
  define q where "q = init_pattern edge_two 5 5 0 pat_init"
  have two: "loaded edge_two 5 5 (- 1) 0 (side_two_max q) (array_side_two q) (array_side_two pat_init)"
    using init_pattern_loads_rays_lemma [OF b, of 0 edge_two pat_init] by (simp add: q_def direction_values)
  have "5 \<le> side_two_max q"
  proof (rule ccontr)
    assume "\<not> 5 \<le> side_two_max q"
    then show False using two by (auto simp: loaded_def on_board_def)
  qed
  then have "chess_cell edge_two (5 - k) 5 = array_side_two q (k - 1)" if "1 \<le> k" "k \<le> 2" for k
    using two that by (auto simp: loaded_def stone_def)
  from this [of 1] this [of 2] have "array_side_two q 0 = 2" "array_side_two q 1 \<noteq> 2"
    by (simp_all add: edge_two_def chess_cell_def)
  then show ?thesis
    using stale_ray_makes_a_four [of edge_two q] stale_ray_makes_a_four [of edge_two pat_init]
    by (simp add: q_def edge_two_def chess_cell_def pat_init_def)
qed

subsection \<open>Squares without free neighbours\<close>

text \<open>Every other square of the board is taken; rays without a free square.\<close>

definition walled :: "(int \<Rightarrow> int) \<Rightarrow> int \<Rightarrow> int \<Rightarrow> bool" where
  "walled arr ax ay \<longleftrightarrow> (\<forall>x y. on_board x y \<and> (x \<noteq> ax \<or> y \<noteq> ay) \<longrightarrow> chess_cell arr x y \<noteq> 0)"

definition filled :: "pat \<Rightarrow> bool" where
  "filled p \<longleftrightarrow> (\<forall>j. 0 \<le> j \<and> j < side_one_max p \<longrightarrow> array_side_one p j \<noteq> 0)
     \<and> (\<forall>j. 0 \<le> j \<and> j < side_two_max p \<longrightarrow> array_side_two p j \<noteq> 0)"

lemma search_pattern_filled:
  assumes "filled p" "search_pattern x y f p = (r, q)"
  shows "filled q \<and> side_one_num q = 0 \<and> side_two_num q = 0"
proof -
  have "count_free (array_side_one p) (side_one_max p) (int i) 0 = 0"
    "count_free (array_side_two p) (side_two_max p) (int i) 0 = 0" for i
    using assms(1) by (subst count_free.simps, simp add: filled_def)+
  then show ?thesis using assms by (auto simp: search_pattern_def filled_def Let_def split: if_splits)
qed

lemma search_pattern_double_filled:
  assumes "filled p"
  shows "filled (snd (search_pattern_double x y f p))
    \<and> side_one_num (snd (search_pattern_double x y f p)) = 0
    \<and> side_two_num (snd (search_pattern_double x y f p)) = 0"
proof -
  obtain r q where 1: "search_pattern x y f p = (r, q)" by fastforce
  note q = search_pattern_filled [OF assms 1]
  obtain r' q' where 2: "search_pattern y x f q = (r', q')" by fastforce
  note q' = search_pattern_filled [OF conjunct1 [OF q] 2]
  show ?thesis using q q' by (simp add: search_pattern_double_def 1 2)
qed

lemma init_pattern_filled:
  assumes "on_board ax ay" "0 \<le> l" "l < 4" "walled arr ax ay"
  shows "filled (init_pattern arr ax ay l p)"
proof -
  note rays = init_pattern_loads_rays_lemma [OF assms(1-3), of arr p]
  have off: "ax + k * direction_var l a \<noteq> ax \<or> ay + k * direction_var l b \<noteq> ay"
    if "k \<noteq> 0" "(a = 0 \<and> b = 1) \<or> (a = 2 \<and> b = 3)" for k a b
    using that step_off [OF assms(2,3), of ax k ay] opposite_direction [OF assms(2,3)] by auto
  have "side j \<noteq> 0" if "loaded arr ax ay (direction_var l a) (direction_var l b) m side old"
    "(a = 0 \<and> b = 1) \<or> (a = 2 \<and> b = 3)" "0 \<le> j" "j < m" for side old m a b j
  proof -
    have "stone arr (side j) (ax + (j + 1) * direction_var l a) (ay + (j + 1) * direction_var l b)"
      using that(1,3,4) unfolding loaded_def by (metis add_diff_cancel_right' zle_add1_eq_le
          add_increasing2 le_add_same_cancel2 zless_add1_eq zero_le_one add1_zle_eq)
    then show ?thesis using assms(4) off [OF _ that(2), of "j + 1"] that(3)
      unfolding walled_def stone_def by auto
  qed
  then show ?thesis using rays unfolding filled_def by blast
qed

lemma pattern_walled:
  assumes "on_board ax ay" "0 \<le> l" "l < 4" "walled arr ax ay"
  shows "fst (pattern_4 arr ax ay l f p) = 0" and "fst (pattern_3 arr ax ay l f p) = 0"
    and "fst (pattern_2 arr ax ay l f p) = 0"
proof -
  let ?q = "init_pattern arr ax ay l p"
  have q: "filled ?q" by (rule init_pattern_filled [OF assms])
  have d: "filled (snd (search_pattern_double x y f r)) \<and> side_one_num (snd (search_pattern_double x y f r)) = 0
      \<and> side_two_num (snd (search_pattern_double x y f r)) = 0" if "filled r" for x y r
    using search_pattern_double_filled [OF that] .
  show "fst (pattern_4 arr ax ay l f p) = 0"
    by (simp add: pattern_4_def Let_def case_prod_beta score_4_def d q)
  show "fst (pattern_3 arr ax ay l f p) = 0"
    by (simp add: pattern_3_def Let_def case_prod_beta score_3_def d q)
  show "fst (pattern_2 arr ax ay l f p) = 0"
    by (simp add: pattern_2_def Let_def case_prod_beta score_2_def d q)
qed

lemma walled_scores_zero:
  assumes "on_board ax ay" "walled arr ax ay"
  shows "fst (calculate_pattern_2_score arr ax ay f p) = 0"
    and "fst (calculate_pattern_345_score arr ax ay f p) = 0"
proof -
  note z = pattern_walled [OF assms(1) _ _ assms(2)]
  have two: "fst (for_range 0 4 (pattern_2_step arr ax ay f) (0, 0, q)) = 0 \<and> fst (snd (for_range 0 4 (pattern_2_step arr ax ay f) (0, 0, q))) = 0" for q
    by (rule for_range_keeps [where I = "\<lambda>t. fst t = 0 \<and> fst (snd t) = 0"])
      (simp_all add: pattern_2_step_def case_prod_beta Let_def z)
  have c2: "fst (calculate_pattern_2_score arr ax ay f q) = 0" for q
    using two [of q] by (simp add: calculate_pattern_2_score_def Let_def case_prod_beta)
  then show "fst (calculate_pattern_2_score arr ax ay f p) = 0" .
  have one: "let r = for_range 0 4 (single_four_step arr ax ay f) (0, 0, 0, q)
      in fst r = 0 \<and> fst (snd r) = 0 \<and> fst (snd (snd r)) = 0" for q unfolding Let_def
    by (rule for_range_keeps [where I = "\<lambda>r. fst r = 0 \<and> fst (snd r) = 0 \<and> fst (snd (snd r)) = 0"])
      (simp_all add: single_four_step_def case_prod_beta Let_def z)
  have three: "let r = for_range 0 4 (live_three_step arr ax ay f) (0, 0, 0, q)
      in fst r = 0 \<and> fst (snd r) = 0 \<and> fst (snd (snd r)) = 0" for q unfolding Let_def
    by (rule for_range_keeps [where I = "\<lambda>r. fst r = 0 \<and> fst (snd r) = 0 \<and> fst (snd (snd r)) = 0"])
      (simp_all add: live_three_step_def case_prod_beta Let_def z)
  have last: "let r = for_range 0 4 (three_four_step arr ax ay f) (0, 0, 0, 0, 0, q)
      in fst r = 0 \<and> fst (snd r) = 0 \<and> fst (snd (snd (snd (snd r)))) = 0" for q unfolding Let_def
    by (rule for_range_keeps [where I = "\<lambda>r. fst r = 0 \<and> fst (snd r) = 0 \<and> fst (snd (snd (snd (snd r)))) = 0"])
      (simp_all add: three_four_step_def case_prod_beta Let_def z)
  obtain a b c p1 where 1: "for_range 0 4 (single_four_step arr ax ay f) (0, 0, 0, p) = (a, b, c, p1)"
    by (cases "for_range 0 4 (single_four_step arr ax ay f) (0, 0, 0, p)")
  obtain a' b' c' p2 where 2: "for_range 0 4 (live_three_step arr ax ay f) (0, 0, 0, p1) = (a', b', c', p2)"
    by (cases "for_range 0 4 (live_three_step arr ax ay f) (0, 0, 0, p1)")
  have v: "a = 0" "b = 0" "c = 0" "a' = 0" "b' = 0" "c' = 0"
    using one [of p] three [of p1] by (simp_all add: 1 2)
  obtain m s x y n p3 where 3: "for_range 0 4 (three_four_step arr ax ay f) (0, 0, 0, 0, 0, p2) = (m, s, x, y, n, p3)"
    by (cases "for_range 0 4 (three_four_step arr ax ay f) (0, 0, 0, 0, 0, p2)")
  have w: "m = 0" "s = 0" "n = 0" using last [of p2] by (simp_all add: 3)
  show "fst (calculate_pattern_345_score arr ax ay f p) = 0"
    using c2 [of p3]
    by (simp add: calculate_pattern_345_score_def 1 2 3 v w Let_def case_prod_beta)
qed

end
