(* ===== verification/Aka522.thy ===== *)
theory Aka522
  imports Patterns Circle
begin

text \<open>
  \<open>aka522/aka522_chess.c\<close>: the scores of a square for both colours and the choice of the move.

  The record \<open>ai\<close> holds the file's global arrays (only board squares are ever indexed, so an
  array is a function of two coordinates) and the globals of \<open>chess_pattern.c\<close>. The local arrays
  and counters of \<open>aka522_chess\<close> are the record \<open>scan\<close>; its local \<open>test_chess\<close> is written and
  never read and is left out. The value of \<open>rand ()\<close> is a parameter.
\<close>

record ai =
  globals :: pat
  temp_value :: "int \<Rightarrow> int \<Rightarrow> int"
  score_one :: "int \<Rightarrow> int \<Rightarrow> int"
  score_two :: "int \<Rightarrow> int \<Rightarrow> int"
  score_mix :: "int \<Rightarrow> int \<Rightarrow> int"
  score :: "int \<Rightarrow> int \<Rightarrow> int"
  array1 :: int
  array2 :: int

definition set_at :: "int \<Rightarrow> int \<Rightarrow> int \<Rightarrow> (int \<Rightarrow> int \<Rightarrow> int) \<Rightarrow> int \<Rightarrow> int \<Rightarrow> int" where
  "set_at x y v f = f(x := (f x)(y := v))"

definition ai_init :: ai where
  "ai_init = \<lparr>globals = pat_init, temp_value = (\<lambda>_ _. 0), score_one = (\<lambda>_ _. 0),
     score_two = (\<lambda>_ _. 0), score_mix = (\<lambda>_ _. 0), score = (\<lambda>_ _. 0), array1 = 0, array2 = 0\<rparr>"

subsection \<open>The score of a square\<close>

definition find_side_totalnum :: "(int \<Rightarrow> int) \<Rightarrow> int \<Rightarrow> int \<Rightarrow> int \<Rightarrow> int \<Rightarrow> ai \<Rightarrow> ai" where
  "find_side_totalnum arr chess_ax chess_ay locate chess_flag s =
     (if chess_flag = 2 then
        let find_total_num = find_opposite_direction_num arr chess_ax chess_ay locate
                             + find_positive_direction_num arr chess_ax chess_ay locate;
            s = (if find_total_num < temp_value s chess_ax chess_ay
                 then s\<lparr>temp_value := set_at chess_ax chess_ay find_total_num (temp_value s)\<rparr> else s)
        in if find_total_num < 4
           then s\<lparr>score := set_at chess_ax chess_ay (- 24) (score s)\<rparr> else s
      else s)"

definition one_step :: "(int \<Rightarrow> int) \<Rightarrow> int \<Rightarrow> int \<Rightarrow> int \<Rightarrow> ai \<Rightarrow> ai" where
  "one_step arr chess_ax chess_ay locate s =
     (let side_temp_num = search_side_totalnum arr chess_ax chess_ay locate 1;
          s = (if side_temp_num \<ge> 4
               then s\<lparr>score_one := set_at chess_ax chess_ay 95 (score_one s)\<rparr> else s)
      in if side_temp_num \<ge> score_one s chess_ax chess_ay
         then s\<lparr>score_one := set_at chess_ax chess_ay side_temp_num (score_one s)\<rparr> else s)"

definition calculate_one_score :: "(int \<Rightarrow> int) \<Rightarrow> int \<Rightarrow> int \<Rightarrow> ai \<Rightarrow> ai" where
  "calculate_one_score arr chess_ax chess_ay s =
     (let s = for_range 0 4 (one_step arr chess_ax chess_ay) s;
          (pa341_temp_score, g) = calculate_pattern_345_score arr chess_ax chess_ay 1 (globals s);
          s = s\<lparr>globals := g\<rparr>;
          s = (if pa341_temp_score \<ge> score_one s chess_ax chess_ay
               then s\<lparr>score_one := set_at chess_ax chess_ay pa341_temp_score (score_one s)\<rparr> else s)
      in if score_one s chess_ax chess_ay \<le> 1 then
           let (pa21_temp_score, g) = calculate_pattern_2_score arr chess_ax chess_ay 1 (globals s);
               s = s\<lparr>globals := g\<rparr>;
               s = (if pa21_temp_score \<ge> score_one s chess_ax chess_ay
                    then s\<lparr>score_one := set_at chess_ax chess_ay pa21_temp_score (score_one s)\<rparr> else s)
           in if score_one s chess_ax chess_ay \<ge> 20
              then s\<lparr>score_one := set_at chess_ax chess_ay 20 (score_one s)\<rparr> else s
         else s)"

text \<open>The loop of \<open>calculate_two_score\<close>; True when it returned from inside.\<close>

fun two_loop :: "(int \<Rightarrow> int) \<Rightarrow> int \<Rightarrow> int \<Rightarrow> int list \<Rightarrow> ai \<Rightarrow> bool \<times> ai" where
  "two_loop arr chess_ax chess_ay [] s = (False, s)"
| "two_loop arr chess_ax chess_ay (locate # ls) s =
     (let s = find_side_totalnum arr chess_ax chess_ay locate 2 s;
          side_temp_num = search_side_totalnum arr chess_ax chess_ay locate 2
      in if side_temp_num \<ge> 4 then (True, s\<lparr>score_two := set_at chess_ax chess_ay 100 (score_two s)\<rparr>)
         else if side_temp_num \<ge> score s chess_ax chess_ay then
           two_loop arr chess_ax chess_ay ls
             (s\<lparr>score_two := set_at chess_ax chess_ay side_temp_num (score_two s)\<rparr>)
         else two_loop arr chess_ax chess_ay ls s)"

definition calculate_two_score :: "(int \<Rightarrow> int) \<Rightarrow> int \<Rightarrow> int \<Rightarrow> ai \<Rightarrow> ai" where
  "calculate_two_score arr chess_ax chess_ay s =
     (let (returned, s) = two_loop arr chess_ax chess_ay [0..3] s in
      if returned then s
      else
        let (pa342_temp_score, g) = calculate_pattern_345_score arr chess_ax chess_ay 2 (globals s);
            s = s\<lparr>globals := g\<rparr>;
            s = (if pa342_temp_score \<ge> score_two s chess_ax chess_ay
                 then s\<lparr>score_two := set_at chess_ax chess_ay pa342_temp_score (score_two s)\<rparr> else s)
        in if score_two s chess_ax chess_ay \<le> 1 then
             let (pa22_temp_score, g) = calculate_pattern_2_score arr chess_ax chess_ay 2 (globals s);
                 s = s\<lparr>globals := g\<rparr>;
                 s = (if pa22_temp_score \<ge> score_two s chess_ax chess_ay
                      then s\<lparr>score_two := set_at chess_ax chess_ay pa22_temp_score (score_two s)\<rparr> else s)
             in if score_two s chess_ax chess_ay \<ge> 20
                then s\<lparr>score_two := set_at chess_ax chess_ay 20 (score_two s)\<rparr> else s
           else s)"

definition calculate_finalscore :: "(int \<Rightarrow> int) \<Rightarrow> int \<Rightarrow> int \<Rightarrow> ai \<Rightarrow> int \<times> ai" where
  "calculate_finalscore arr chess_ax chess_ay s =
     (let s = calculate_one_score arr chess_ax chess_ay s;
          s = calculate_two_score arr chess_ax chess_ay s;
          v = score s chess_ax chess_ay;
          v1 = score_one s chess_ax chess_ay;
          v2 = score_two s chess_ax chess_ay;
          s = (if v \<ge> 0 then
                 (if v1 > v2 then s\<lparr>score := set_at chess_ax chess_ay v1 (score s)\<rparr>
                  else s\<lparr>score := set_at chess_ax chess_ay v2 (score s)\<rparr>)
               else if v = - 24 then
                 (let temp_score = (if v1 > v2 then v1 else v2) in
                  if v + temp_score \<ge> 0
                  then s\<lparr>score := set_at chess_ax chess_ay temp_score (score s)\<rparr>
                  else s\<lparr>score := set_at chess_ax chess_ay 0 (score s)\<rparr>)
               else s)
      in (score s chess_ax chess_ay, s))"

subsection \<open>The choice of a move\<close>

record scan =
  store_samemax_x :: "int \<Rightarrow> int"
  store_samemax_y :: "int \<Rightarrow> int"
  store_samemax_num :: int
  chess_max :: int
  scan_ai :: ai

definition scan_square :: "(int \<Rightarrow> int) \<Rightarrow> int \<Rightarrow> int \<Rightarrow> scan \<Rightarrow> scan" where
  "scan_square arr chess_ax chess_ay c =
     (if chess_cell arr chess_ax chess_ay = 0 then
        let (chess_tmp, s) = calculate_finalscore arr chess_ax chess_ay (scan_ai c);
            c = c\<lparr>scan_ai := s\<rparr>
        in if chess_tmp > chess_max c then
             c\<lparr>store_samemax_num := 0,
               store_samemax_x := (store_samemax_x c)(0 := chess_ax),
               store_samemax_y := (store_samemax_y c)(0 := chess_ay),
               chess_max := chess_tmp\<rparr>
           else if chess_tmp = chess_max c then
             (let n = store_samemax_num c + 1 in
              c\<lparr>store_samemax_num := n,
                store_samemax_x := (store_samemax_x c)(n := chess_ax),
                store_samemax_y := (store_samemax_y c)(n := chess_ay)\<rparr>)
           else c
      else c)"

definition clear_scores :: "ai \<Rightarrow> ai" where
  "clear_scores s =
     for_range 0 20 (\<lambda>i. for_range 0 20 (\<lambda>j s.
       s\<lparr>temp_value := set_at i j 20 (temp_value s), score_one := set_at i j 0 (score_one s),
         score_two := set_at i j 0 (score_two s), score_mix := set_at i j 0 (score_mix s),
         score := set_at i j 0 (score s)\<rparr>)) s"

definition scan_board :: "(int \<Rightarrow> int) \<Rightarrow> ai \<Rightarrow> scan" where
  "scan_board arr s =
     for_range 0 chess_line_num (\<lambda>chess_ax. for_range 0 chess_line_num (\<lambda>chess_ay.
       scan_square arr chess_ax chess_ay))
     \<lparr>store_samemax_x = (\<lambda>_. 0), store_samemax_y = (\<lambda>_. 0), store_samemax_num = 0,
      chess_max = 0, scan_ai = s\<rparr>"

text \<open>After the scan: the random choice among the best squares, with the exception for scores 0.\<close>

definition pick_move :: "int \<Rightarrow> (int \<Rightarrow> int) \<Rightarrow> scan \<Rightarrow> int \<times> int" where
  "pick_move rnd arr c =
     (let rand_num = rnd smod (store_samemax_num c + 1);
          rand_num = (rand_num * (store_samemax_num c + 1)) sdiv (store_samemax_num c + 1);
          (c, rand_num) =
            (if chess_max c = 0 \<and> chess_cell arr 9 9 = 0
             then (c\<lparr>store_samemax_x := (store_samemax_x c)(0 := 9),
                     store_samemax_y := (store_samemax_y c)(0 := 9)\<rparr>, 0)
             else (c, rand_num))
      in (store_samemax_x c rand_num, store_samemax_y c rand_num))"

definition aka522_chess :: "int \<Rightarrow> fb \<times> board \<times> ai \<Rightarrow> fb \<times> board \<times> ai" where
  "aka522_chess rnd st =
     (let (f, b, s) = st; s = clear_scores s in
      if chess_num b = 0 then
        let f = midpointcircle (10 * chess_gap + chessboard_init_x)
                  (10 * chess_gap + chessboard_init_y) circle_r 0xff f;
            b = put_chess 10 10 2 b;
            b = b\<lparr>chess_num := chess_num b + 1\<rparr>;
            f = draw_num (10 * chess_gap + chessboard_init_x - 6)
                  (10 * chess_gap + chessboard_init_y - 6) 0xffffff (chess_num b) f
        in (f, b, s)
      else
        let c = scan_board (array_chess b) s;
            (x, y) = pick_move rnd (array_chess b) c
        in (f, b, (scan_ai c)\<lparr>array1 := x, array2 := y\<rparr>))"

subsection \<open>What a square scores\<close>

lemma set_at_apply: "set_at x y v f a b = (if a = x \<and> b = y then v else f a b)"
  by (simp add: set_at_def)

lemma set_at_same [simp]: "set_at x y (f x y) f = f"
  by (simp add: set_at_def)

lemma set_at_same_eq: "f x y = v \<Longrightarrow> set_at x y v f = f"
  by (auto simp: set_at_def)

lemma set_at_twice [simp]: "set_at x y v (set_at x y w f) = set_at x y v f"
  by (simp add: set_at_def)

lemma set_at_hit [simp]: "set_at x y v f x y = v"
  by (simp add: set_at_def)

text \<open>The square completes a five, judged by the counters.\<close>

definition makes_five :: "(int \<Rightarrow> int) \<Rightarrow> int \<Rightarrow> int \<Rightarrow> int \<Rightarrow> bool" where
  "makes_five arr flag ax ay \<longleftrightarrow>
     (\<exists>l. 0 \<le> l \<and> l < 4 \<and> 4 \<le> search_side_totalnum arr ax ay l flag)"

text \<open>No pattern is found on the lines through the square; its lines are dead for the program.\<close>

definition shapeless :: "(int \<Rightarrow> int) \<Rightarrow> int \<Rightarrow> int \<Rightarrow> int \<Rightarrow> bool" where
  "shapeless arr ax ay f \<longleftrightarrow> (\<forall>g. fst (calculate_pattern_345_score arr ax ay f g) = 0
     \<and> fst (calculate_pattern_2_score arr ax ay f g) = 0)"

definition dead_line :: "(int \<Rightarrow> int) \<Rightarrow> int \<Rightarrow> int \<Rightarrow> int \<Rightarrow> bool" where
  "dead_line arr ax ay l \<longleftrightarrow>
     find_opposite_direction_num arr ax ay l + find_positive_direction_num arr ax ay l < 4"

text \<open>A square without prospects: no shape, no five, and one of its lines blocked.\<close>

definition hopeless :: "(int \<Rightarrow> int) \<Rightarrow> int \<Rightarrow> int \<Rightarrow> bool" where
  "hopeless arr ax ay \<longleftrightarrow> shapeless arr ax ay 1 \<and> shapeless arr ax ay 2
     \<and> (\<exists>l \<in> set [0..3]. dead_line arr ax ay l)
     \<and> \<not> makes_five arr 1 ax ay \<and> \<not> makes_five arr 2 ax ay"

text \<open>The rank of a score: own five 100, opponent's five 95, everything else at most 86.\<close>

definition graded :: "(int \<Rightarrow> int) \<Rightarrow> int \<Rightarrow> int \<Rightarrow> int \<Rightarrow> bool" where
  "graded arr ax ay v \<longleftrightarrow>
     (if makes_five arr 2 ax ay then v = 100
      else if makes_five arr 1 ax ay then v = 95 else 0 \<le> v \<and> v \<le> 86)
     \<and> (hopeless arr ax ay \<longrightarrow> v = 0)"

text \<open>Other squares keep their scores.\<close>

definition elsewhere :: "int \<Rightarrow> int \<Rightarrow> ai \<Rightarrow> ai \<Rightarrow> bool" where
  "elsewhere x y s s' \<longleftrightarrow> (\<forall>a b. a \<noteq> x \<or> b \<noteq> y \<longrightarrow> score_one s' a b = score_one s a b
     \<and> score_two s' a b = score_two s a b \<and> score s' a b = score s a b)"

lemma elsewhere_refl: "elsewhere x y s s"
  by (simp add: elsewhere_def)

lemma elsewhere_trans: "elsewhere x y s t \<Longrightarrow> elsewhere x y t u \<Longrightarrow> elsewhere x y s u"
  by (simp add: elsewhere_def)

lemma totalnum_bounds:
  "0 \<le> search_side_totalnum arr ax ay l flag \<and> search_side_totalnum arr ax ay l flag \<le> 10"
proof -
  have "0 \<le> search_loop arr ax ay u v flag [1..6] 0 \<and> search_loop arr ax ay u v flag [1..6] 0 \<le> 5" for u v
    using run_bounds [of arr flag ax ay u v] by (auto simp: search_loop_run Let_def)
  from this [of "direction_var l 0" "direction_var l 1"] this [of "direction_var l 2" "direction_var l 3"]
  show ?thesis
    by (simp add: search_side_totalnum_def search_opposite_direction_num_def
        search_positive_direction_num_def)
qed

lemma one_step_at:
  assumes "t = search_side_totalnum arr ax ay l 1"
  shows "one_step arr ax ay l s =
    s\<lparr>score_one := set_at ax ay (if 4 \<le> t then 95
        else if score_one s ax ay \<le> t then t else score_one s ax ay) (score_one s)\<rparr>"
  using totalnum_bounds [of arr ax ay l 1] assms
  by (auto simp: one_step_def Let_def set_at_def)

lemma one_loop:
  assumes "score_one s ax ay = 0"
  shows "\<exists>v. for_range 0 4 (one_step arr ax ay) s = s\<lparr>score_one := set_at ax ay v (score_one s)\<rparr>
    \<and> (if makes_five arr 1 ax ay then v = 95 else 0 \<le> v \<and> v \<le> 3)"
proof -
  let ?t = "\<lambda>l. search_side_totalnum arr ax ay l 1"
  let ?P = "\<lambda>i r. \<exists>v. r = s\<lparr>score_one := set_at ax ay v (score_one s)\<rparr>
    \<and> (if \<exists>l. 0 \<le> l \<and> l < i \<and> 4 \<le> ?t l then v = 95 else 0 \<le> v \<and> v \<le> 3)"
  have "?P 4 (for_range 0 4 (one_step arr ax ay) s)"
  proof (rule for_range_invariant [where P = ?P])
    show "?P 0 s" using assms by (intro exI [of _ 0]) (simp add: set_at_same_eq)
  next
    fix i :: int and r :: ai
    assume i: "0 \<le> i" "i < 4" and "?P i r"
    then obtain v where r: "r = s\<lparr>score_one := set_at ax ay v (score_one s)\<rparr>"
      and v: "if \<exists>l. 0 \<le> l \<and> l < i \<and> 4 \<le> ?t l then v = 95 else 0 \<le> v \<and> v \<le> 3" by blast
    have ex: "(\<exists>l. 0 \<le> l \<and> l < i + 1 \<and> 4 \<le> ?t l) \<longleftrightarrow> (\<exists>l. 0 \<le> l \<and> l < i \<and> 4 \<le> ?t l) \<or> 4 \<le> ?t i"
      using i by (auto simp: less_le)
    let ?v = "if 4 \<le> ?t i then 95 else if v \<le> ?t i then ?t i else v"
    have "one_step arr ax ay i r = s\<lparr>score_one := set_at ax ay ?v (score_one s)\<rparr>"
      unfolding one_step_at [OF refl] r by (simp add: set_at_def)
    moreover have "if \<exists>l. 0 \<le> l \<and> l < i + 1 \<and> 4 \<le> ?t l then ?v = 95 else 0 \<le> ?v \<and> ?v \<le> 3"
      using v totalnum_bounds [of arr ax ay i 1] unfolding ex by (auto split: if_splits)
    ultimately show "?P (i + 1) (one_step arr ax ay i r)" by blast
  qed simp
  then show ?thesis by (simp add: makes_five_def)
qed

lemma one_score:
  assumes "score_one s ax ay = 0"
  shows "\<exists>v g. calculate_one_score arr ax ay s = s\<lparr>globals := g, score_one := set_at ax ay v (score_one s)\<rparr>
    \<and> (if makes_five arr 1 ax ay then v = 95 else 0 \<le> v \<and> v \<le> 86)
    \<and> (shapeless arr ax ay 1 \<and> \<not> makes_five arr 1 ax ay \<longrightarrow> v \<le> 3)"
proof -
  obtain v where l: "for_range 0 4 (one_step arr ax ay) s = s\<lparr>score_one := set_at ax ay v (score_one s)\<rparr>"
    and v: "if makes_five arr 1 ax ay then v = 95 else 0 \<le> v \<and> v \<le> 3"
    using one_loop [OF assms] by blast
  obtain a g where a: "calculate_pattern_345_score arr ax ay 1 (globals s) = (a, g)" by fastforce
  obtain b h where b: "calculate_pattern_2_score arr ax ay 1 g = (b, h)" by fastforce
  have ab: "0 \<le> a" "a \<le> 86" "0 \<le> b" "b \<le> 37"
    using calculate_pattern_345_range [of arr ax ay 1 "globals s"] a
      calculate_pattern_2_range [of arr ax ay 1 g] b by auto
  define w where "w = (if a \<ge> v then a else v)"
  define u where "u = (if b \<ge> w then b else w)"
  have w: "if makes_five arr 1 ax ay then w = 95 else 0 \<le> w \<and> w \<le> 86"
    using v ab by (auto simp: w_def split: if_splits)
  have small: "w \<le> 3 \<and> u \<le> 3" if "shapeless arr ax ay 1" "\<not> makes_five arr 1 ax ay"
  proof -
    have "a = 0" "b = 0"
      using that(1) a b by (auto simp: shapeless_def dest: spec [of _ "globals s"] spec [of _ g])
    then show ?thesis using v that(2) by (simp add: w_def u_def)
  qed
  show ?thesis
  proof (cases "w \<le> 1")
    case False
    have "calculate_one_score arr ax ay s = s\<lparr>globals := g, score_one := set_at ax ay w (score_one s)\<rparr>"
      using False by (auto simp: calculate_one_score_def l a Let_def w_def)
    then show ?thesis using w small by blast
  next
    case True
    have "calculate_one_score arr ax ay s =
        s\<lparr>globals := h, score_one := set_at ax ay (if u \<ge> 20 then 20 else u) (score_one s)\<rparr>"
      using True by (auto simp: calculate_one_score_def l a b Let_def w_def u_def)
    moreover have "if makes_five arr 1 ax ay then (if u \<ge> 20 then 20 else u) = 95
        else 0 \<le> (if u \<ge> 20 then 20 else u) \<and> (if u \<ge> 20 then 20 else u) \<le> 86"
      using True w ab by (auto simp: u_def split: if_splits)
    moreover have "shapeless arr ax ay 1 \<and> \<not> makes_five arr 1 ax ay \<longrightarrow> (if u \<ge> 20 then 20 else u) \<le> 3"
      by (auto dest: small)
    ultimately show ?thesis by blast
  qed
qed

lemma two_loop_result:
  assumes "score s ax ay = 0 \<or> score s ax ay = - 24"
  shows "\<exists>tv w v. two_loop arr ax ay ls s =
      (\<exists>l \<in> set ls. 4 \<le> search_side_totalnum arr ax ay l 2,
       s\<lparr>temp_value := tv, score := set_at ax ay w (score s), score_two := set_at ax ay v (score_two s)\<rparr>)
    \<and> (w = 0 \<or> w = - 24)
    \<and> (if \<exists>l \<in> set ls. 4 \<le> search_side_totalnum arr ax ay l 2 then v = 100
       else if ls = [] then v = score_two s ax ay else 0 \<le> v \<and> v \<le> 3)
    \<and> ((\<exists>l \<in> set ls. 4 \<le> search_side_totalnum arr ax ay l 2) \<or>
       w = (if \<exists>l \<in> set ls. dead_line arr ax ay l then - 24 else score s ax ay))"
  using assms
proof (induction ls arbitrary: s)
  case Nil
  have "s = s\<lparr>temp_value := temp_value s, score := set_at ax ay (score s ax ay) (score s),
      score_two := set_at ax ay (score_two s ax ay) (score_two s)\<rparr>" by simp
  then show ?case using Nil
    by (intro exI [of _ "temp_value s"] exI [of _ "score s ax ay"] exI [of _ "score_two s ax ay"]) simp
next
  case (Cons l ls)
  let ?t = "search_side_totalnum arr ax ay l 2"
  obtain tv w where f: "find_side_totalnum arr ax ay l 2 s =
      s\<lparr>temp_value := tv, score := set_at ax ay w (score s)\<rparr>" and w: "w = 0 \<or> w = - 24"
    and wd: "w = (if dead_line arr ax ay l then - 24 else score s ax ay)"
  proof -
    let ?n = "find_opposite_direction_num arr ax ay l + find_positive_direction_num arr ax ay l"
    let ?w = "if ?n < 4 then - 24 else score s ax ay"
    have "find_side_totalnum arr ax ay l 2 s = s\<lparr>temp_value := (if ?n < temp_value s ax ay
        then set_at ax ay ?n (temp_value s) else temp_value s), score := set_at ax ay ?w (score s)\<rparr>"
      by (simp add: find_side_totalnum_def Let_def)
    moreover have "?w = 0 \<or> ?w = - 24" using Cons.prems by simp
    moreover have "?w = (if dead_line arr ax ay l then - 24 else score s ax ay)"
      by (simp add: dead_line_def)
    ultimately show thesis by (rule that)
  qed
  show ?case
  proof (cases "4 \<le> ?t")
    case True
    then have "two_loop arr ax ay (l # ls) s = (True, s\<lparr>temp_value := tv,
        score := set_at ax ay w (score s), score_two := set_at ax ay 100 (score_two s)\<rparr>)"
      by (simp add: f)
    then show ?thesis using w True
      by (intro exI [of _ tv] exI [of _ w] exI [of _ 100]) simp
  next
    case False
    let ?s = "s\<lparr>temp_value := tv, score := set_at ax ay w (score s), score_two := set_at ax ay ?t (score_two s)\<rparr>"
    have t: "0 \<le> ?t" "?t \<le> 3" using False totalnum_bounds [of arr ax ay l 2] by auto
    have e: "two_loop arr ax ay (l # ls) s = two_loop arr ax ay ls ?s"
      using False t w by (auto simp: f)
    have "score ?s ax ay = 0 \<or> score ?s ax ay = - 24" using w by simp
    from Cons.IH [OF this] obtain tv' w' v' where r: "two_loop arr ax ay ls ?s =
      (\<exists>l \<in> set ls. 4 \<le> search_side_totalnum arr ax ay l 2,
       ?s\<lparr>temp_value := tv', score := set_at ax ay w' (score ?s), score_two := set_at ax ay v' (score_two ?s)\<rparr>)"
      and w': "w' = 0 \<or> w' = - 24" and v': "if \<exists>l \<in> set ls. 4 \<le> search_side_totalnum arr ax ay l 2 then v' = 100
       else if ls = [] then v' = score_two ?s ax ay else 0 \<le> v' \<and> v' \<le> 3"
      and d': "(\<exists>l \<in> set ls. 4 \<le> search_side_totalnum arr ax ay l 2) \<or>
       w' = (if \<exists>l \<in> set ls. dead_line arr ax ay l then - 24 else score ?s ax ay)" by blast
    have "(\<exists>l \<in> set (l # ls). 4 \<le> search_side_totalnum arr ax ay l 2) \<or>
        w' = (if \<exists>l \<in> set (l # ls). dead_line arr ax ay l then - 24 else score s ax ay)"
    proof -
      have sc: "score ?s ax ay = w" by simp
      from d' [unfolded sc] have "(\<exists>l \<in> set ls. 4 \<le> search_side_totalnum arr ax ay l 2) \<or>
          w' = (if \<exists>l \<in> set ls. dead_line arr ax ay l then - 24 else w)" .
      then show ?thesis using wd by (cases "\<exists>l \<in> set ls. dead_line arr ax ay l") simp_all
    qed
    moreover have "if \<exists>l \<in> set (l # ls). 4 \<le> search_side_totalnum arr ax ay l 2 then v' = 100
        else if l # ls = [] then v' = score_two s ax ay else 0 \<le> v' \<and> v' \<le> 3"
      using v' t False by (auto split: if_splits)
    moreover have "two_loop arr ax ay (l # ls) s =
        (\<exists>l \<in> set (l # ls). 4 \<le> search_side_totalnum arr ax ay l 2,
         s\<lparr>temp_value := tv', score := set_at ax ay w' (score s), score_two := set_at ax ay v' (score_two s)\<rparr>)"
      unfolding e r using False by simp
    ultimately show ?thesis using w' by blast
  qed
qed

lemma two_score:
  assumes "score_two s ax ay = 0" "score s ax ay = 0"
  shows "\<exists>tv w v g. calculate_two_score arr ax ay s =
      s\<lparr>globals := g, temp_value := tv, score := set_at ax ay w (score s), score_two := set_at ax ay v (score_two s)\<rparr>
    \<and> ((w = 0 \<or> w = - 24) \<and> (if makes_five arr 2 ax ay then v = 100 else 0 \<le> v \<and> v \<le> 86))
    \<and> (\<not> makes_five arr 2 ax ay \<longrightarrow> ((\<exists>l \<in> set [0..3]. dead_line arr ax ay l) \<longleftrightarrow> w = - 24)
        \<and> (shapeless arr ax ay 2 \<longrightarrow> v \<le> 3))"
proof -
  have m: "(\<exists>l \<in> set [0..3]. 4 \<le> search_side_totalnum arr ax ay l 2) \<longleftrightarrow> makes_five arr 2 ax ay"
    by (auto simp: makes_five_def intro: exI [of _ _])
  obtain tv w v where l: "two_loop arr ax ay [0..3] s = (makes_five arr 2 ax ay,
       s\<lparr>temp_value := tv, score := set_at ax ay w (score s), score_two := set_at ax ay v (score_two s)\<rparr>)"
    and w: "w = 0 \<or> w = - 24" and v0: "if makes_five arr 2 ax ay then v = 100
      else if [0..3 :: int] = [] then v = score_two s ax ay else 0 \<le> v \<and> v \<le> 3"
    and wd: "makes_five arr 2 ax ay \<or>
      w = (if \<exists>l \<in> set [0..3]. dead_line arr ax ay l then - 24 else score s ax ay)"
    using two_loop_result [OF disjI1 [OF assms(2)], of arr "[0..3]"] unfolding m by blast
  have v: "if makes_five arr 2 ax ay then v = 100 else 0 \<le> v \<and> v \<le> 3" using v0 by simp
  show ?thesis
  proof (cases "makes_five arr 2 ax ay")
    case True
    have "calculate_two_score arr ax ay s = s\<lparr>globals := globals s, temp_value := tv,
        score := set_at ax ay w (score s), score_two := set_at ax ay v (score_two s)\<rparr>"
      using True by (simp add: calculate_two_score_def l)
    moreover have "(w = 0 \<or> w = - 24) \<and> (if makes_five arr 2 ax ay then v = 100 else 0 \<le> v \<and> v \<le> 86)"
      using True v w by simp
    ultimately show ?thesis using True by blast
  next
    case F: False
    have dead: "(\<exists>l \<in> set [0..3]. dead_line arr ax ay l) \<longleftrightarrow> w = - 24"
      using wd F assms(2) by (auto simp del: set_upto)
    obtain a g where a: "calculate_pattern_345_score arr ax ay 2 (globals s) = (a, g)" by fastforce
    obtain b h where b: "calculate_pattern_2_score arr ax ay 2 g = (b, h)" by fastforce
    have ab: "0 \<le> a" "a \<le> 86" "0 \<le> b" "b \<le> 37"
      using calculate_pattern_345_range [of arr ax ay 2 "globals s"] a
        calculate_pattern_2_range [of arr ax ay 2 g] b by auto
    define x where "x = (if a \<ge> v then a else v)"
    define u where "u = (if b \<ge> x then b else x)"
    have x: "0 \<le> x" "x \<le> 86" using F v ab by (auto simp: x_def)
    have small: "shapeless arr ax ay 2 \<longrightarrow> x \<le> 3 \<and> u \<le> 3"
    proof
      assume n: "shapeless arr ax ay 2"
      have "a = 0" "b = 0"
        using n a b by (auto simp: shapeless_def dest: spec [of _ "globals s"] spec [of _ g])
      then show "x \<le> 3 \<and> u \<le> 3" using v F by (simp add: x_def u_def)
    qed
    show ?thesis
    proof (cases "x \<le> 1")
      case False
      have "calculate_two_score arr ax ay s = s\<lparr>globals := g, temp_value := tv,
          score := set_at ax ay w (score s), score_two := set_at ax ay x (score_two s)\<rparr>"
        using False F by (auto simp: calculate_two_score_def l a Let_def x_def)
      moreover have "(w = 0 \<or> w = - 24) \<and> (if makes_five arr 2 ax ay then x = 100 else 0 \<le> x \<and> x \<le> 86)"
        using x w F by simp
      ultimately show ?thesis using dead small by blast
    next
      case True
      have "calculate_two_score arr ax ay s = s\<lparr>globals := h, temp_value := tv,
          score := set_at ax ay w (score s), score_two := set_at ax ay (if u \<ge> 20 then 20 else u) (score_two s)\<rparr>"
        using True F by (auto simp: calculate_two_score_def l a b Let_def x_def u_def)
      moreover have "(w = 0 \<or> w = - 24) \<and> (if makes_five arr 2 ax ay
          then (if u \<ge> 20 then 20 else u) = 100
          else 0 \<le> (if u \<ge> 20 then 20 else u) \<and> (if u \<ge> 20 then 20 else u) \<le> 86)"
        using x ab True w F by (auto simp: u_def)
      moreover have "shapeless arr ax ay 2 \<longrightarrow> (if u \<ge> 20 then 20 else u) \<le> 3" using small by auto
      ultimately show ?thesis using dead by blast
    qed
  qed
qed

lemma finalscore_graded:
  assumes "score_one s ax ay = 0" "score_two s ax ay = 0" "score s ax ay = 0"
    and "calculate_finalscore arr ax ay s = (v, s')"
  shows "graded arr ax ay v" and "elsewhere ax ay s s'" and "score s' ax ay = v"
proof -
  obtain v1 g where 1: "calculate_one_score arr ax ay s = s\<lparr>globals := g, score_one := set_at ax ay v1 (score_one s)\<rparr>"
    and v1: "if makes_five arr 1 ax ay then v1 = 95 else 0 \<le> v1 \<and> v1 \<le> 86"
    and s1: "shapeless arr ax ay 1 \<and> \<not> makes_five arr 1 ax ay \<longrightarrow> v1 \<le> 3"
    using one_score [OF assms(1)] by blast
  let ?s = "s\<lparr>globals := g, score_one := set_at ax ay v1 (score_one s)\<rparr>"
  have "score_two ?s ax ay = 0" "score ?s ax ay = 0" using assms by simp_all
  from two_score [OF this, of arr] obtain tv w v2 h where 2: "calculate_two_score arr ax ay ?s =
      ?s\<lparr>globals := h, temp_value := tv, score := set_at ax ay w (score ?s), score_two := set_at ax ay v2 (score_two ?s)\<rparr>"
    and w: "w = 0 \<or> w = - 24" and v2: "if makes_five arr 2 ax ay then v2 = 100 else 0 \<le> v2 \<and> v2 \<le> 86"
    and s2: "\<not> makes_five arr 2 ax ay \<longrightarrow> ((\<exists>l \<in> set [0..3]. dead_line arr ax ay l) \<longleftrightarrow> w = - 24)
        \<and> (shapeless arr ax ay 2 \<longrightarrow> v2 \<le> 3)"
    by blast
  let ?t = "?s\<lparr>globals := h, temp_value := tv, score := set_at ax ay w (score s), score_two := set_at ax ay v2 (score_two s)\<rparr>"
  define u where "u = (if w = 0 \<or> 24 \<le> max v1 v2 then max v1 v2 else 0)"
  have "calculate_finalscore arr ax ay s = (u, ?t\<lparr>score := set_at ax ay u (score s)\<rparr>)"
    using w by (auto simp: calculate_finalscore_def 1 2 Let_def u_def max_def)
  then have r: "v = u" "s' = ?t\<lparr>score := set_at ax ay u (score s)\<rparr>" using assms(4) by simp_all
  have "u = 0" if "hopeless arr ax ay"
  proof -
    have "w = - 24" "v1 \<le> 3" "v2 \<le> 3" using that s1 s2 unfolding hopeless_def by blast+
    then show ?thesis unfolding u_def by (simp add: max_def)
  qed
  then show "graded arr ax ay v" using v1 v2 unfolding r graded_def u_def by (auto simp: max_def split: if_splits)
  show "elsewhere ax ay s s'" unfolding r elsewhere_def by (simp add: set_at_apply)
  show "score s' ax ay = v" unfolding r by simp
qed

subsection \<open>The scan\<close>

definition cleared_at :: "ai \<Rightarrow> int \<Rightarrow> int \<Rightarrow> bool" where
  "cleared_at s x y \<longleftrightarrow> score_one s x y = 0 \<and> score_two s x y = 0 \<and> score s x y = 0"

lemma clear_scores_cleared: "on_board x y \<Longrightarrow> cleared_at (clear_scores s) x y"
proof -
  have "\<forall>p \<in> set squares. cleared_at (clear_scores s) (fst p) (snd p)"
    unfolding clear_scores_def squares_loop
  proof (rule fold_prefix [where P = "\<lambda>xs t. \<forall>p \<in> set xs. cleared_at t (fst p) (snd p)"], goal_cases)
    case (2 xs p ys t)
    then show ?case by (auto simp: cleared_at_def set_at_apply)
  qed simp
  then show "on_board x y \<Longrightarrow> cleared_at (clear_scores s) x y"
    using set_squares [of x y] by fastforce
qed

lemma clear_scores_globals: "globals (clear_scores s) = globals s"
  unfolding clear_scores_def
  by (rule for_range_keeps [where I = "\<lambda>t. globals t = globals s"], simp)
    (rule for_range_keeps [where I = "\<lambda>t. globals t = globals s"], simp_all)

definition empty_at :: "(int \<Rightarrow> int) \<Rightarrow> int \<times> int \<Rightarrow> bool" where
  "empty_at arr p \<longleftrightarrow> chess_cell arr (fst p) (snd p) = 0"

text \<open>The square stored at an index of the two arrays.\<close>

definition stored :: "scan \<Rightarrow> int \<Rightarrow> int \<times> int" where
  "stored c i = (store_samemax_x c i, store_samemax_y c i)"

definition scored :: "scan \<Rightarrow> int \<times> int \<Rightarrow> int" where
  "scored c p = score (scan_ai c) (fst p) (snd p)"

definition scan_inv :: "(int \<Rightarrow> int) \<Rightarrow> (int \<times> int) list \<Rightarrow> scan \<Rightarrow> bool" where
  "scan_inv arr done c \<longleftrightarrow>
     (\<forall>p. p \<notin> set done \<and> on_board (fst p) (snd p) \<longrightarrow> cleared_at (scan_ai c) (fst p) (snd p))
     \<and> (\<forall>p \<in> set done. empty_at arr p \<longrightarrow>
          graded arr (fst p) (snd p) (scored c p) \<and> scored c p \<le> chess_max c)
     \<and> 0 \<le> chess_max c
     \<and> 0 \<le> store_samemax_num c
     \<and> store_samemax_num c \<le> int (length (filter (empty_at arr) done))
     \<and> (\<forall>i. (if chess_max c = 0 then 1 else 0) \<le> i \<and> i \<le> store_samemax_num c \<longrightarrow>
          stored c i \<in> set done \<and> empty_at arr (stored c i) \<and> scored c (stored c i) = chess_max c)
     \<and> (chess_max c = 0 \<longrightarrow> stored c 0 = (0, 0))"

lemma graded_nonneg: "graded arr x y v \<Longrightarrow> 0 \<le> v"
  by (auto simp: graded_def split: if_splits)

lemma scan_step:
  assumes inv: "scan_inv arr xs c" and new: "p \<notin> set xs" "on_board (fst p) (snd p)"
  shows "scan_inv arr (xs @ [p]) (scan_square arr (fst p) (snd p) c)"
proof (cases "empty_at arr p")
  case False
  then show ?thesis using inv by (auto simp: scan_square_def empty_at_def scan_inv_def)
next
  case True
  obtain v s where f: "calculate_finalscore arr (fst p) (snd p) (scan_ai c) = (v, s)" by fastforce
  have z: "cleared_at (scan_ai c) (fst p) (snd p)" using inv new by (auto simp: scan_inv_def)
  note g = finalscore_graded [OF _ _ _ f] z [unfolded cleared_at_def]
  have gr: "graded arr (fst p) (snd p) v" and el: "elsewhere (fst p) (snd p) (scan_ai c) s"
    and sv: "score s (fst p) (snd p) = v" using g by auto
  have old: "score s (fst q) (snd q) = scored c q" "cleared_at s (fst q) (snd q) = cleared_at (scan_ai c) (fst q) (snd q)"
    if "q \<noteq> p" for q
  proof -
    have "fst q \<noteq> fst p \<or> snd q \<noteq> snd p" using that by (auto simp: prod_eq_iff)
    then show "score s (fst q) (snd q) = scored c q"
      "cleared_at s (fst q) (snd q) = cleared_at (scan_ai c) (fst q) (snd q)"
      using el by (auto simp: elsewhere_def scored_def cleared_at_def)
  qed
  have ne: "q \<noteq> p" if "q \<in> set xs" for q using that new by auto
  have d: "\<forall>q \<in> set xs. empty_at arr q \<longrightarrow> graded arr (fst q) (snd q) (score s (fst q) (snd q))
      \<and> score s (fst q) (snd q) \<le> chess_max c"
    using inv old(1) ne by (auto simp: scan_inv_def)
  have u: "\<forall>q. q \<notin> set (xs @ [p]) \<and> on_board (fst q) (snd q) \<longrightarrow> cleared_at s (fst q) (snd q)"
    using inv old(2) by (auto simp: scan_inv_def)
  have k: "0 \<le> chess_max c" "0 \<le> store_samemax_num c"
      "store_samemax_num c \<le> int (length (filter (empty_at arr) xs))"
    using inv by (auto simp: scan_inv_def)
  have st: "stored c i \<in> set xs \<and> empty_at arr (stored c i)
      \<and> score s (fst (stored c i)) (snd (stored c i)) = chess_max c"
    if "(if chess_max c = 0 then 1 else 0) \<le> i" "i \<le> store_samemax_num c" for i
    using inv that old(1) ne unfolding scan_inv_def by metis
  have st0: "chess_max c = 0 \<Longrightarrow> stored c 0 = (0, 0)" using inv by (auto simp: scan_inv_def)
  have e: "chess_cell arr (fst p) (snd p) = 0" using True by (simp add: empty_at_def)
  consider "v > chess_max c" | "v = chess_max c" | "v < chess_max c" by linarith
  then show ?thesis
  proof cases
    case 1
    let ?c = "c\<lparr>scan_ai := s, store_samemax_num := 0, store_samemax_x := (store_samemax_x c)(0 := fst p),
        store_samemax_y := (store_samemax_y c)(0 := snd p), chess_max := v\<rparr>"
    have "scan_square arr (fst p) (snd p) c = ?c" using 1 e f by (simp add: scan_square_def)
    moreover have "stored ?c 0 = p" by (simp add: stored_def)
    moreover have "scored ?c q = score s (fst q) (snd q)" for q by (simp add: scored_def)
    moreover have "i = 0" if "0 \<le> i" "i \<le> 0" for i :: int using that by simp
    ultimately show ?thesis using 1 u d k gr sv True
      unfolding scan_inv_def by (auto split: if_splits)
  next
    case 2
    let ?n = "store_samemax_num c + 1"
    let ?c = "c\<lparr>scan_ai := s, store_samemax_num := ?n, store_samemax_x := (store_samemax_x c)(?n := fst p),
        store_samemax_y := (store_samemax_y c)(?n := snd p)\<rparr>"
    have c: "scan_square arr (fst p) (snd p) c = ?c" using 2 e f by (simp add: scan_square_def Let_def)
    have si: "stored ?c i = (if i = ?n then p else stored c i)" for i by (simp add: stored_def)
    have sc: "scored ?c q = score s (fst q) (snd q)" for q by (simp add: scored_def)
    have "stored ?c i \<in> set (xs @ [p]) \<and> empty_at arr (stored ?c i) \<and> scored ?c (stored ?c i) = chess_max c"
      if "(if chess_max c = 0 then 1 else 0) \<le> i" "i \<le> ?n" for i
      using st [of i] that 2 True sv unfolding si sc by (cases "i = ?n") auto
    moreover have "0 \<noteq> ?n" using k by simp
    ultimately show ?thesis unfolding c using u d k gr sv True 2 st0
      unfolding scan_inv_def si sc by (auto split: if_splits)
  next
    case 3
    let ?c = "c\<lparr>scan_ai := s\<rparr>"
    have c: "scan_square arr (fst p) (snd p) c = ?c" using 3 e f by (simp add: scan_square_def)
    have si: "stored ?c = stored c" by (simp add: stored_def fun_eq_iff)
    have sc: "scored ?c q = score s (fst q) (snd q)" for q by (simp add: scored_def)
    show ?thesis unfolding c using u d k gr sv True 3 st st0
      unfolding scan_inv_def si sc by (auto split: if_splits)
  qed
qed

lemma scan_board_inv:
  assumes "\<And>x y. on_board x y \<Longrightarrow> cleared_at s x y"
  shows "scan_inv arr squares (scan_board arr s)"
  unfolding scan_board_def line20 squares_loop
proof (rule fold_prefix [where P = "scan_inv arr"], goal_cases)
  case 1
  then show ?case using assms by (auto simp: scan_inv_def stored_def)
next
  case (2 xs p ys t)
  have "p \<notin> set xs" using distinct_squares [unfolded 2(1)] by simp
  moreover have "on_board (fst p) (snd p)" using set_squares [of "fst p" "snd p", unfolded 2(1)] by simp
  ultimately show ?case using scan_step 2(2) by blast
qed

subsection \<open>The move\<close>

lemma scan_clear_inv: "scan_inv arr squares (scan_board arr (clear_scores s))"
  by (rule scan_board_inv) (rule clear_scores_cleared)

lemma scan_num_bound:
  assumes "scan_inv arr squares c" "on_board x y" "chess_cell arr x y \<noteq> 0"
  shows "store_samemax_num c \<le> 399"
proof -
  have "length (filter (empty_at arr) squares) < length squares"
    using assms(2,3) set_squares [of x y]
    by (intro length_filter_less [of "(x, y)"]) (simp_all add: empty_at_def)
  then show ?thesis using assms(1) by (simp add: scan_inv_def length_squares)
qed

text \<open>The index \<open>rand_num\<close>: the second assignment of the code changes nothing.\<close>

lemma rand_index:
  fixes rnd n :: int
  assumes "0 \<le> rnd" "0 \<le> n"
  shows "(rnd smod (n + 1) * (n + 1)) sdiv (n + 1) = rnd mod (n + 1)"
proof -
  have "0 \<le> rnd mod (n + 1) * (n + 1)"
    by (rule mult_nonneg_nonneg) (use assms in simp_all)
  then have "(rnd mod (n + 1) * (n + 1)) sdiv (n + 1) = rnd mod (n + 1)"
    using assms(2) sdiv_nonneg by simp
  then show ?thesis using assms smod_nonneg by simp
qed

lemma pick_move_cases:
  assumes "0 \<le> rnd" "0 \<le> store_samemax_num c"
  shows "pick_move rnd arr c =
    (if chess_max c = 0 \<and> chess_cell arr 9 9 = 0 then (9, 9)
     else stored c (rnd mod (store_samemax_num c + 1)))"
  using assms by (simp add: pick_move_def rand_index stored_def)

lemma pick_move_best:
  assumes "scan_inv arr squares c" "0 \<le> rnd" "0 < chess_max c" "pick_move rnd arr c = p"
  shows "stone arr 0 (fst p) (snd p) \<and> scored c p = chess_max c \<and> graded arr (fst p) (snd p) (scored c p)"
proof -
  let ?i = "rnd mod (store_samemax_num c + 1)"
  have n: "0 \<le> store_samemax_num c" using assms(1) by (simp add: scan_inv_def)
  have p: "p = stored c ?i" using pick_move_cases [OF assms(2) n] assms(3,4) by auto
  have "0 \<le> ?i" "?i \<le> store_samemax_num c"
    using n pos_mod_bound [of "store_samemax_num c + 1" rnd] by simp_all
  then have "p \<in> set squares \<and> empty_at arr p \<and> scored c p = chess_max c"
    using assms(1,3) unfolding scan_inv_def p by auto
  moreover from this have "graded arr (fst p) (snd p) (scored c p)"
    using assms(1) by (auto simp: scan_inv_def)
  ultimately show ?thesis
    using set_squares [of "fst p" "snd p"] by (simp add: stone_def empty_at_def)
qed

lemma aka522_chess_on_board:
  assumes "chess_num b \<noteq> 0" "0 \<le> rnd" "aka522_chess rnd (f, b, s) = (f', b', s')"
  shows "f' = f \<and> b' = b \<and> on_board (array1 s') (array2 s')"
proof -
  let ?arr = "array_chess b"
  define c where "c = scan_board ?arr (clear_scores s)"
  have inv: "scan_inv ?arr squares c" unfolding c_def by (rule scan_clear_inv)
  obtain p1 p2 where p: "pick_move rnd ?arr c = (p1, p2)" by fastforce
  have r: "f' = f" "b' = b" "array1 s' = p1" "array2 s' = p2"
    using assms(1,3) p by (auto simp: aka522_chess_def c_def Let_def)
  let ?i = "rnd mod (store_samemax_num c + 1)"
  have n: "0 \<le> store_samemax_num c" using inv by (simp add: scan_inv_def)
  then have i: "0 \<le> ?i" "?i \<le> store_samemax_num c"
    using pos_mod_bound [of "store_samemax_num c + 1" rnd] by simp_all
  have "stored c ?i = (0, 0) \<or> stored c ?i \<in> set squares"
    using inv i unfolding scan_inv_def by (cases "?i = 0") (auto split: if_splits)
  then have "on_board (fst (stored c ?i)) (snd (stored c ?i))"
    using set_squares [of "fst (stored c ?i)" "snd (stored c ?i)"] by (auto simp: on_board_def)
  then show ?thesis using r p pick_move_cases [OF assms(2) n, of ?arr]
    by (auto simp: on_board_def split: if_splits)
qed

lemma scan_score_le:
  assumes "scan_inv arr squares c" "stone arr 0 x y"
  shows "graded arr x y (scored c (x, y)) \<and> scored c (x, y) \<le> chess_max c"
  using assms set_squares [of x y] by (auto simp: scan_inv_def stone_def empty_at_def)

lemma chosen_makes_five:
  assumes inv: "scan_inv arr squares c" and r: "0 \<le> rnd" and p: "pick_move rnd arr c = p"
    and w: "stone arr 0 x y" "makes_five arr 2 x y \<or> makes_five arr 1 x y"
  shows "stone arr 0 (fst p) (snd p)
    \<and> (makes_five arr 2 (fst p) (snd p) \<or>
       makes_five arr 1 (fst p) (snd p) \<and> \<not> makes_five arr 2 x y)"
proof -
  have xy: "graded arr x y (scored c (x, y))" "scored c (x, y) \<le> chess_max c"
    using scan_score_le [OF inv w(1)] by auto
  then have pos: "0 < chess_max c" using w(2) by (auto simp: graded_def split: if_splits)
  note b = pick_move_best [OF inv r pos p]
  show ?thesis using b xy w(2) by (auto simp: graded_def split: if_splits)
qed

lemma aka522_chess_answers:
  assumes "chess_num b \<noteq> 0" "0 \<le> rnd" "no_five (array_chess b) 1" "no_five (array_chess b) 2"
    and "aka522_chess rnd (f, b, s) = (f', b', s')"
    and "stone (array_chess b) 0 x y" "five_at (array_chess b) 2 x y \<or> five_at (array_chess b) 1 x y"
  shows "f' = f \<and> b' = b \<and> stone (array_chess b) 0 (array1 s') (array2 s')
    \<and> (if \<exists>x y. stone (array_chess b) 0 x y \<and> five_at (array_chess b) 2 x y
       then five_at (array_chess b) 2 (array1 s') (array2 s')
       else five_at (array_chess b) 1 (array1 s') (array2 s'))"
proof -
  let ?arr = "array_chess b"
  define c where "c = scan_board ?arr (clear_scores s)"
  have inv: "scan_inv ?arr squares c" unfolding c_def by (rule scan_clear_inv)
  have five: "makes_five ?arr 1 u v = five_at ?arr 1 u v" "makes_five ?arr 2 u v = five_at ?arr 2 u v" for u v
    using five_at_total assms(3,4) by (auto simp: makes_five_def)
  obtain p1 p2 where p: "pick_move rnd ?arr c = (p1, p2)" by fastforce
  have r: "f' = f" "b' = b" "array1 s' = p1" "array2 s' = p2"
    using assms(1,5) p by (auto simp: aka522_chess_def c_def Let_def)
  note chosen = chosen_makes_five [OF inv assms(2) p, unfolded five fst_conv snd_conv]
  show ?thesis
  proof (cases "\<exists>x y. stone ?arr 0 x y \<and> five_at ?arr 2 x y")
    case True
    then obtain u v where "stone ?arr 0 u v" "five_at ?arr 2 u v" by blast
    then show ?thesis using chosen [of u v] True r by auto
  next
    case False
    then show ?thesis using chosen [OF assms(6,7)] r by auto
  qed
qed

text \<open>
  C6: the program takes a win when it has one, and otherwise blocks. On a board with no five yet,
  when some free square completes a row of five for the program, the chosen square is free and
  completes one; when none does but some free square completes a row of five for the opponent, the
  chosen square is such a square of the opponent. This holds for every random number and whatever
  the globals held, and neither the screen nor the board is touched.
\<close>

theorem aka522_chess_wins_or_blocks:
  assumes "chess_num b \<noteq> 0" "0 \<le> rnd" "no_five (array_chess b) 1" "no_five (array_chess b) 2"
    and "aka522_chess rnd (f, b, s) = (f', b', s')"
    and "stone (array_chess b) 0 x y" "five_at (array_chess b) 2 x y \<or> five_at (array_chess b) 1 x y"
  shows "f' = f \<and> b' = b \<and> stone (array_chess b) 0 (array1 s') (array2 s')
    \<and> (if \<exists>x y. stone (array_chess b) 0 x y \<and> five_at (array_chess b) 2 x y
       then five_at (array_chess b) 2 (array1 s') (array2 s')
       else five_at (array_chess b) 1 (array1 s') (array2 s'))"
  by (rule aka522_chess_answers [OF assms])

text \<open>A board for the witnesses: four stones of the program in a row.\<close>

definition four_board :: board where
  "four_board = \<lparr>array_chess = (\<lambda>i. if i mod 20 = 4 \<and> 3 \<le> i div 20 \<and> i div 20 \<le> 6 then 2 else 0),
     chess_num = 7\<rparr>"

lemma four_board_stone: "stone (array_chess four_board) flag x y \<longleftrightarrow>
    on_board x y \<and> flag = (if y = 4 \<and> 3 \<le> x \<and> x \<le> 6 then 2 else 0)"
proof (cases "on_board x y")
  case True
  then have "(x * 20 + y) div 20 = x" "(x * 20 + y) mod 20 = y"
    by (simp_all only: on_board_def field_div field_mod)
  then show ?thesis by (auto simp: four_board_def stone_def chess_cell_def)
qed (simp add: stone_def)

lemma four_board_no_five:
  assumes "flag = 1 \<or> flag = 2"
  shows "no_five (array_chess four_board) flag"
  unfolding no_five_def
proof (rule notI, elim exE conjE)
  fix l x y assume l: "0 \<le> l" "l < (4 :: int)" and f: "five_row (array_chess four_board) flag l x y"
  have "stone (array_chess four_board) flag (x + 0 * direction_var l 0) (y + 0 * direction_var l 1)"
    "stone (array_chess four_board) flag (x + 4 * direction_var l 0) (y + 4 * direction_var l 1)"
    using f by (auto simp: five_row_def)
  then show False using assms
    by (rule_tac locate_cases [OF l]) (auto simp: four_board_stone direction_values split: if_splits)
qed

lemma four_board_win: "five_at (array_chess four_board) 2 7 4"
proof -
  have "stone (array_chess four_board) 2 (7 + k * direction_var 0 0) (4 + k * direction_var 0 1)"
    if "- 4 \<le> k \<and> k \<le> 4 - 4 \<and> k \<noteq> (0 :: int)" for k
    using that by (simp add: four_board_stone direction_values on_board_def)
  then show ?thesis unfolding five_at_def by (intro exI [of _ 0] exI [of _ 4]) simp
qed

theorem aka522_chess_wins_or_blocks_witness:
  "five_at (array_chess four_board) 2 (array1 (snd (snd (aka522_chess 5 (screen_1024, four_board, ai_init)))))
     (array2 (snd (snd (aka522_chess 5 (screen_1024, four_board, ai_init)))))"
proof -
  obtain f' b' s' where e: "aka522_chess 5 (screen_1024, four_board, ai_init) = (f', b', s')"
    by (cases "aka522_chess 5 (screen_1024, four_board, ai_init)")
  have "chess_num four_board \<noteq> 0" by (simp add: four_board_def)
  moreover have "stone (array_chess four_board) 0 7 4" by (simp add: four_board_stone on_board_def)
  moreover from this have "\<exists>x y. stone (array_chess four_board) 0 x y \<and> five_at (array_chess four_board) 2 x y"
    using four_board_win by blast
  ultimately show ?thesis
    using aka522_chess_wins_or_blocks [OF _ _ four_board_no_five four_board_no_five e, of 7 4]
      four_board_win unfolding e by simp
qed



text \<open>
  at the end of a drawn game the program can take an occupied corner. When one square is left
  whose score is 0 (one of its lines is blocked, no five is possible, nothing else is free), (9, 9) is
  taken and the random number is even, the chosen square is (0, 0), the initial content of the
  arrays, which is taken unless it is the last free square itself.
\<close>

theorem last_square_picks_corner:
  assumes "on_board ex ey" "walled (array_chess b) ex ey" "chess_cell (array_chess b) ex ey = 0"
    and "chess_cell (array_chess b) 9 9 \<noteq> 0" "chess_num b \<noteq> 0" "0 \<le> rnd" "rnd mod 2 = 0"
    and "\<forall>l f. 0 \<le> l \<and> l < 4 \<and> (f = 1 \<or> f = 2) \<longrightarrow> search_side_totalnum (array_chess b) ex ey l f < 4"
    and "find_opposite_direction_num (array_chess b) ex ey 0 + find_positive_direction_num (array_chess b) ex ey 0 < 4"
    and "aka522_chess rnd (f, b, s) = (f', b', s')"
  shows "array1 s' = 0 \<and> array2 s' = 0 \<and> ((ex, ey) \<noteq> (0, 0) \<longrightarrow> chess_cell (array_chess b) 0 0 \<noteq> 0)"
proof -
  let ?arr = "array_chess b"
  define c where "c = scan_board ?arr (clear_scores s)"
  have inv: "scan_inv ?arr squares c" unfolding c_def by (rule scan_clear_inv)
  have h: "hopeless ?arr ex ey"
    using assms(8,9) walled_scores_zero [OF assms(1,2)]
    by (fastforce simp: hopeless_def shapeless_def makes_five_def dead_line_def)
  have only: "p = (ex, ey)" if "p \<in> set squares" "empty_at ?arr p" for p
    using that assms(2) set_squares [of "fst p" "snd p"]
    by (auto simp: walled_def empty_at_def prod_eq_iff)
  have "chess_max c = 0"
  proof (rule ccontr)
    assume "chess_max c \<noteq> 0"
    then have m: "0 < chess_max c" using inv by (simp add: scan_inv_def)
    obtain p where p: "pick_move 0 ?arr c = p" by blast
    have b: "stone ?arr 0 (fst p) (snd p) \<and> scored c p = chess_max c \<and> graded ?arr (fst p) (snd p) (scored c p)"
      by (rule pick_move_best [OF inv _ m p]) simp
    then have "p = (ex, ey)"
      using only [of p] set_squares [of "fst p" "snd p"] by (simp add: stone_def empty_at_def)
    then show False using b h m by (simp add: graded_def)
  qed
  have n: "0 \<le> store_samemax_num c" using inv by (simp add: scan_inv_def)
  have "length (filter (empty_at ?arr) squares) = card (set (filter (empty_at ?arr) squares))"
    using distinct_squares by (intro distinct_card [symmetric] distinct_filter)
  also have "\<dots> \<le> card {(ex, ey)}" using only by (intro card_mono) auto
  finally have "store_samemax_num c \<le> 1" using inv by (simp add: scan_inv_def)
  then have i: "rnd mod (store_samemax_num c + 1) = 0"
  proof -
    have "store_samemax_num c = 0 \<or> store_samemax_num c = 1"
      using n \<open>store_samemax_num c \<le> 1\<close> by linarith
    then show ?thesis using assms(7) by auto
  qed
  have "pick_move rnd ?arr c = (0, 0)"
    using pick_move_cases [OF assms(6) n, of ?arr] inv \<open>chess_max c = 0\<close> assms(4)
    by (simp add: i scan_inv_def)
  then have "array1 s' = 0" "array2 s' = 0"
    using assms(5,10) by (auto simp: aka522_chess_def c_def Let_def)
  moreover have "chess_cell ?arr 0 0 \<noteq> 0" if "(ex, ey) \<noteq> (0, 0)"
    using assms(2) that by (auto simp: walled_def on_board_def)
  ultimately show ?thesis by blast
qed

text \<open>A full board without a row of five, but for the square (10, 10).\<close>

definition full_board :: board where
  "full_board = \<lparr>array_chess = (\<lambda>i. 1 + (i div 20 div 2 + i mod 20) mod 2)(10 * 20 + 10 := 0), chess_num = 399\<rparr>"

theorem last_square_picks_corner_witness:
  "array1 (snd (snd (aka522_chess 6 (screen_1024, full_board, ai_init)))) = 0
   \<and> array2 (snd (snd (aka522_chess 6 (screen_1024, full_board, ai_init)))) = 0
   \<and> chess_cell (array_chess full_board) 0 0 \<noteq> 0"
proof -
  let ?arr = "array_chess full_board"
  obtain f' b' s' where e: "aka522_chess 6 (screen_1024, full_board, ai_init) = (f', b', s')"
    by (cases "aka522_chess 6 (screen_1024, full_board, ai_init)")
  have walled: "walled ?arr 10 10"
  proof -
    have "1 + z mod 2 \<noteq> 0" for z :: int using pos_mod_sign [of 2 z] by linarith
    then show ?thesis
      using on_board_inject [of _ _ 10 10] by (auto simp: walled_def full_board_def chess_cell_def on_board_def)
  qed
  have totals: "\<forall>l f. 0 \<le> l \<and> l < 4 \<and> (f = 1 \<or> f = 2) \<longrightarrow> search_side_totalnum ?arr 10 10 l f < 4"
  proof (intro allI impI)
    fix l f :: int
    assume a: "0 \<le> l \<and> l < 4 \<and> (f = 1 \<or> f = 2)"
    then have "l = 0 \<or> l = 1 \<or> l = 2 \<or> l = 3" by linarith
    then show "search_side_totalnum ?arr 10 10 l f < 4"
      using a by (elim disjE conjE) (simp_all add: search_side_totalnum_def search_opposite_direction_num_def
        search_positive_direction_num_def direction_values upto_6 chess_cell_def full_board_def line20)
  qed
  have dead: "find_opposite_direction_num ?arr 10 10 0 + find_positive_direction_num ?arr 10 10 0 < 4"
    by (simp add: find_opposite_direction_num_def find_positive_direction_num_def direction_values
        upto_6 chess_cell_def full_board_def line20)
  have at: "on_board 10 10" "chess_cell ?arr 10 10 = 0" "chess_cell ?arr 9 9 \<noteq> 0" "chess_num full_board \<noteq> 0"
    by (simp_all add: full_board_def chess_cell_def on_board_def)
  have "array1 s' = 0 \<and> array2 s' = 0 \<and> ((10 :: int, 10 :: int) \<noteq> (0, 0) \<longrightarrow> chess_cell ?arr 0 0 \<noteq> 0)"
    by (rule last_square_picks_corner [OF at(1) walled at(2-4) _ _ totals dead e]) simp_all
  then show ?thesis by (simp add: e)
qed

end
