(* ===== verification/Mxcai.thy ===== *)
theory Mxcai
  imports Board
begin

text \<open>
  \<open>mxcai2010/five.c\<close>: the second engine. \<open>find\<close> scores a square for one player by the four
  lines through it, \<open>think_chess\<close> takes the last free square with the highest sum for both
  players. \<open>record1\<close> and \<open>record2\<close> leave \<open>ret\<close> unset for some arguments; the value is then
  None here, and \<open>find_defined\<close> shows that \<open>find\<close> never passes such arguments. Of the flags
  only those that are read are kept (\<open>flag0\<close> and \<open>flag2\<close> occur in commented code only).
\<close>

subsection \<open>The code\<close>

definition have_chess :: "(int \<Rightarrow> int) \<Rightarrow> int \<Rightarrow> int \<Rightarrow> int" where
  "have_chess arr x y = (if 0 = chess_cell arr x y then 0 else 1)"

definition make_chess :: "(int \<Rightarrow> int) \<Rightarrow> int \<Rightarrow> int \<Rightarrow> int" where
  "make_chess arr x y =
     (if x < 0 \<or> x > 20 then 0
      else if y < 0 \<or> y > 20 then 0
      else if 0 = have_chess arr x y then 1 else 0)"

fun comp_loop :: "(int \<Rightarrow> int) \<Rightarrow> int \<Rightarrow> int \<Rightarrow> int \<Rightarrow> nat \<Rightarrow> int \<Rightarrow> int \<Rightarrow> int \<Rightarrow> int" where
  "comp_loop arr who dx dy 0 nx ny count = count"
| "comp_loop arr who dx dy (Suc n) nx ny count =
     (if nx < 0 \<or> nx > 20 - 1 then count
      else if ny < 0 \<or> ny < 20 - 1 then count
      else if chess_cell arr nx ny \<noteq> who then count
      else comp_loop arr who dx dy n (nx + dx) (ny + dy)
             (if chess_cell arr nx ny = who then count + 1 else count))"

fun comp_dirs :: "(int \<Rightarrow> int) \<Rightarrow> int \<Rightarrow> int \<Rightarrow> int \<Rightarrow> (int \<times> int) list \<Rightarrow> int" where
  "comp_dirs arr x y who [] = 0"
| "comp_dirs arr x y who ((dx, dy) # ds) =
     (if comp_loop arr who dx dy 5 x y 0 = 5 then 1 else comp_dirs arr x y who ds)"

definition comp :: "(int \<Rightarrow> int) \<Rightarrow> int \<Rightarrow> int \<Rightarrow> int \<Rightarrow> int" where
  "comp arr x y who = comp_dirs arr x y who [(1, 0), (0, 1), (1, 1), (1, - 1)]"

text \<open>The nested loops of \<open>adjust\<close> over the squares in order, with the early return.\<close>

fun adjust_loop :: "(int \<Rightarrow> int) \<Rightarrow> int \<Rightarrow> (int \<times> int) list \<Rightarrow> int" where
  "adjust_loop arr who [] = 0"
| "adjust_loop arr who ((i, j) # ps) =
     (if 1 = have_chess arr i j \<and> 1 = comp arr i j who then who else adjust_loop arr who ps)"

definition adjust :: "(int \<Rightarrow> int) \<Rightarrow> int \<Rightarrow> int" where
  "adjust arr who = adjust_loop arr who (concat (map (\<lambda>i. map (Pair i) [0..19]) [0..19]))"

definition record1 :: "int \<Rightarrow> int \<Rightarrow> int \<Rightarrow> int \<Rightarrow> int option" where
  "record1 a1 b1 a2 b2 =
     (let chess = a1 + a2; blank = b1 + b2; ret = None;
          ret = (if chess \<ge> 4 \<and> blank = 2 then Some 90000 else ret);
          ret = (if chess \<ge> 4 \<and> blank = 1 then Some 80000 else ret);
          ret = (if chess \<ge> 4 \<and> blank = 0 then Some 70000 else ret);
          ret = (if chess = 3 \<and> blank = 2 then Some 9000 else ret);
          ret = (if chess = 3 \<and> blank = 1 then Some 3000 else ret);
          ret = (if chess = 2 \<and> blank = 2 then Some 4000 else ret);
          ret = (if chess = 2 \<and> blank = 1 then Some 500 else ret);
          ret = (if chess = 1 \<and> blank = 2 then Some 400 else ret);
          ret = (if chess = 1 \<and> blank = 1 then Some 50 else ret);
          ret = (if chess = 0 \<and> blank = 2 then Some 3 else ret);
          ret = (if chess = 0 \<and> blank = 1 then Some 1 else ret);
          ret = (if chess < 4 \<and> blank = 0 then Some 0 else ret)
      in ret)"

definition record2 :: "int \<Rightarrow> int \<Rightarrow> int \<Rightarrow> int \<Rightarrow> int option" where
  "record2 a1 b1 a2 b2 =
     (let chess = a1 + a2; blank = b1 + b2; ret = None;
          ret = (if chess \<ge> 4 \<and> blank = 2 then Some 500000 else ret);
          ret = (if chess \<ge> 4 \<and> blank = 1 then Some 400000 else ret);
          ret = (if chess \<ge> 4 \<and> blank = 0 then Some 300000 else ret);
          ret = (if chess = 3 \<and> blank = 2 then Some 12000 else ret);
          ret = (if chess = 3 \<and> blank = 1 then Some 4500 else ret);
          ret = (if chess = 2 \<and> blank = 2 then Some 5000 else ret);
          ret = (if chess = 2 \<and> blank = 1 then Some 600 else ret);
          ret = (if chess = 1 \<and> blank = 2 then Some 500 else ret);
          ret = (if chess = 1 \<and> blank = 1 then Some 60 else ret);
          ret = (if chess = 0 \<and> blank = 2 then Some 5 else ret);
          ret = (if chess = 0 \<and> blank = 1 then Some 2 else ret);
          ret = (if chess < 4 \<and> blank = 0 then Some 0 else ret)
      in ret)"

text \<open>
  The two inner loops of \<open>find\<close>, which differ in the edge test that sets the flag: counters
  \<open>(count, blank, flag)\<close>.
\<close>

fun ray_loop :: "(int \<Rightarrow> int) \<Rightarrow> int \<Rightarrow> (int \<Rightarrow> int \<Rightarrow> bool) \<Rightarrow> int \<Rightarrow> int \<Rightarrow> nat \<Rightarrow> int \<Rightarrow> int
    \<Rightarrow> int \<times> int \<times> bool \<Rightarrow> int \<times> int \<times> bool" where
  "ray_loop arr who near dx dy 0 nx ny st = st"
| "ray_loop arr who near dx dy (Suc n) nx ny (count, blank, flag) =
     (let nx = nx + dx; ny = ny + dy in
      if nx < 0 \<or> nx > 20 - 1 then (count, blank, flag)
      else if ny < 0 \<or> ny > 20 - 1 then (count, blank, flag)
      else if chess_cell arr nx ny \<noteq> who \<or> chess_cell arr nx ny = 0 then
        (if chess_cell arr nx ny = 0 then (count, blank + 1, flag)
         else if near nx ny then (count, blank, True) else (count, blank, flag))
      else ray_loop arr who near dx dy n nx ny
             (if chess_cell arr nx ny = who then (count + 1, blank, flag) else (count, blank, flag)))"

definition dirx :: "int \<Rightarrow> int" where
  "dirx k = [1, 0, 1, - 1, - 1, 0, - 1, 1] ! nat k"

definition diry :: "int \<Rightarrow> int" where
  "diry k = [0, 1, 1, 1, 0, - 1, - 1, - 1] ! nat k"

definition line_rec :: "(int \<Rightarrow> int) \<Rightarrow> int \<Rightarrow> int \<Rightarrow> int \<Rightarrow> int \<Rightarrow> int option" where
  "line_rec arr x y who i =
     (let (count1, blank1, flag) =
            ray_loop arr who (\<lambda>nx ny. nx \<le> 4 \<or> ny \<le> 4) (dirx i) (diry i) 4 x y (0, 0, False);
          (count2, blank2, flag1) =
            ray_loop arr who (\<lambda>nx ny. 20 - nx \<le> 4 \<or> 20 - ny \<le> 4) (dirx (i + 4)) (diry (i + 4))
              4 x y (0, 0, False);
          rec = (if who = 1 then record1 count1 blank1 count2 blank2
                 else if who = 2 then record2 count1 blank1 count2 blank2
                 else Some 0);
          rec = (if flag then Some 0 else rec)
      in if flag1 then Some 0 else rec)"

text \<open>The sum of the four scores; None when one of them was never set.\<close>

definition find_score :: "(int \<Rightarrow> int) \<Rightarrow> int \<Rightarrow> int \<Rightarrow> int \<Rightarrow> int option" where
  "find_score arr x y who =
     (let rec = for_range 0 4 (\<lambda>i r. r(i := line_rec arr x y who i)) (\<lambda>_. Some 0) in
      case (rec 0, rec 1, rec 2, rec 3) of
        (Some r0, Some r1, Some r2, Some r3) \<Rightarrow> Some (r0 + r1 + r2 + r3)
      | _ \<Rightarrow> None)"

text \<open>State of \<open>think_chess\<close>: \<open>(max, array_x, array_y)\<close>, None after an unset value was read.\<close>

definition think_square ::
  "(int \<Rightarrow> int) \<Rightarrow> int \<Rightarrow> int \<Rightarrow> (int \<times> int \<times> int) option \<Rightarrow> (int \<times> int \<times> int) option" where
  "think_square arr i j st =
     (case st of None \<Rightarrow> None
      | Some (mx, array_x, array_y) \<Rightarrow>
          if 0 = have_chess arr i j then
            (case (find_score arr i j 1, find_score arr i j 2) of
               (Some rec1, Some rec2) \<Rightarrow>
                 let rec = rec1 + rec2 in
                 if mx \<le> rec then Some (rec, i, j) else Some (mx, array_x, array_y)
             | _ \<Rightarrow> None)
          else Some (mx, array_x, array_y))"

definition think_chess :: "(int \<Rightarrow> int) \<Rightarrow> (int \<times> int) option" where
  "think_chess arr =
     map_option snd (for_range 0 20 (\<lambda>i. for_range 0 20 (think_square arr i)) (Some (0, 0, 0)))"

subsection \<open>What a line scores\<close>

lemma ray_loop_facts:
  assumes "who \<noteq> 0" "ray_loop arr who near dx dy n nx ny (c, b, f) = (c', b', f')"
  shows "\<exists>k. 0 \<le> k \<and> k \<le> int n \<and> c' = c + k
    \<and> (\<forall>j. 1 \<le> j \<and> j \<le> k \<longrightarrow> stone arr who (nx + j * dx) (ny + j * dy))
    \<and> (k < int n \<longrightarrow> \<not> stone arr who (nx + (k + 1) * dx) (ny + (k + 1) * dy))
    \<and> b' = b + (if k < int n \<and> stone arr 0 (nx + (k + 1) * dx) (ny + (k + 1) * dy) then 1 else 0)
    \<and> f' = (f \<or> k < int n \<and> on_board (nx + (k + 1) * dx) (ny + (k + 1) * dy)
         \<and> \<not> stone arr 0 (nx + (k + 1) * dx) (ny + (k + 1) * dy)
         \<and> near (nx + (k + 1) * dx) (ny + (k + 1) * dy))"
    (is "\<exists>k. ?P n nx ny c k")
  using assms(2)
proof (induction n arbitrary: nx ny c)
  case 0
  then show ?case by (intro exI [of _ 0]) auto
next
  case (Suc n)
  show ?case
  proof (cases "stone arr who (nx + dx) (ny + dy)")
    case False
    then have "?P (Suc n) nx ny c 0"
      using Suc.prems assms(1) by (auto simp: stone_def on_board_def Let_def split: if_splits)
    then show ?thesis by blast
  next
    case True
    then have "ray_loop arr who near dx dy n (nx + dx) (ny + dy) (c + 1, b, f) = (c', b', f')"
      using Suc.prems assms(1) by (auto simp: stone_def on_board_def Let_def)
    from Suc.IH [OF this] obtain k where k: "?P n (nx + dx) (ny + dy) (c + 1) k" by blast
    have e: "nx + dx + j * dx = nx + (j + 1) * dx" "ny + dy + j * dy = ny + (j + 1) * dy" for j
      by (simp_all add: algebra_simps)
    note k' = k [unfolded e]
    have all: "stone arr who (nx + j * dx) (ny + j * dy)" if "1 \<le> j" "j \<le> k + 1" for j
    proof (cases "j = 1")
      case True
      then show ?thesis using \<open>stone arr who (nx + dx) (ny + dy)\<close> by simp
    next
      case False
      then have "1 \<le> j - 1 \<and> j - 1 \<le> k" using that by auto
      then have "stone arr who (nx + (j - 1 + 1) * dx) (ny + (j - 1 + 1) * dy)" using k' by blast
      then show ?thesis by simp
    qed
    have "?P (Suc n) nx ny c (k + 1)" using k' all by simp
    then show ?thesis by blast
  qed
qed

lemma ray_loop_run:
  assumes "who \<noteq> 0" "ray_loop arr who near dx dy 4 x y (0, 0, False) = (c, b, f)"
  shows "c = min 4 (run arr who x y dx dy)" and "b = 0 \<or> b = 1"
    and "f \<Longrightarrow> \<exists>k. 1 \<le> k \<and> k \<le> 4 \<and> on_board (x + k * dx) (y + k * dy) \<and> near (x + k * dx) (y + k * dy)
      \<and> chess_cell arr (x + k * dx) (y + k * dy) \<notin> {0, who}"
proof -
  obtain k where k: "0 \<le> k" "k \<le> 4" "c = k"
    and all: "\<forall>j. 1 \<le> j \<and> j \<le> k \<longrightarrow> stone arr who (x + j * dx) (y + j * dy)"
    and stop: "k < 4 \<longrightarrow> \<not> stone arr who (x + (k + 1) * dx) (y + (k + 1) * dy)"
    and b: "b = 0 \<or> b = 1"
    and f: "f = (k < 4 \<and> on_board (x + (k + 1) * dx) (y + (k + 1) * dy)
         \<and> \<not> stone arr 0 (x + (k + 1) * dx) (y + (k + 1) * dy)
         \<and> near (x + (k + 1) * dx) (y + (k + 1) * dy))"
    using ray_loop_facts [OF assms] by auto
  have ge: "k \<le> run arr who x y dx dy" using all k by (subst run_ge) auto
  have lt: "\<not> k + 1 \<le> run arr who x y dx dy" if "k < 4"
    using stop k that by (subst run_ge) (auto intro!: exI [of _ "k + 1"])
  show "c = min 4 (run arr who x y dx dy)" using ge lt k by (cases "k = 4") auto
  show "b = 0 \<or> b = 1" by (rule b)
  assume f
  then show "\<exists>k. 1 \<le> k \<and> k \<le> 4 \<and> on_board (x + k * dx) (y + k * dy) \<and> near (x + k * dx) (y + k * dy)
      \<and> chess_cell arr (x + k * dx) (y + k * dy) \<notin> {0, who}"
    using f stop k(1) by (intro exI [of _ "k + 1"]) (auto simp: stone_def)
qed

lemma record_values:
  assumes "0 \<le> a1 + a2" "b1 = 0 \<or> b1 = 1" "b2 = 0 \<or> b2 = (1 :: int)"
  shows "\<exists>v. record1 a1 b1 a2 b2 = Some v \<and> 0 \<le> v \<and> (if 4 \<le> a1 + a2 then 70000 \<le> v else v \<le> 9000)"
    and "\<exists>v. record2 a1 b1 a2 b2 = Some v \<and> 0 \<le> v \<and> (if 4 \<le> a1 + a2 then 300000 \<le> v else v \<le> 12000)"
proof -
  have b: "b1 + b2 = 0 \<or> b1 + b2 = 1 \<or> b1 + b2 = 2" using assms by auto
  have c: "4 \<le> a1 + a2 \<or> a1 + a2 = 3 \<or> a1 + a2 = 2 \<or> a1 + a2 = 1 \<or> a1 + a2 = 0"
    using assms by linarith
  show "\<exists>v. record1 a1 b1 a2 b2 = Some v \<and> 0 \<le> v \<and> (if 4 \<le> a1 + a2 then 70000 \<le> v else v \<le> 9000)"
    using c by (elim disjE; use b in \<open>elim disjE\<close>) (simp_all add: record1_def Let_def)
  show "\<exists>v. record2 a1 b1 a2 b2 = Some v \<and> 0 \<le> v \<and> (if 4 \<le> a1 + a2 then 300000 \<le> v else v \<le> 12000)"
    using c by (elim disjE; use b in \<open>elim disjE\<close>) (simp_all add: record2_def Let_def)
qed

text \<open>The line of a square in direction \<open>i\<close>, and its two runs.\<close>

definition line_runs :: "(int \<Rightarrow> int) \<Rightarrow> int \<Rightarrow> int \<Rightarrow> int \<Rightarrow> int \<Rightarrow> int" where
  "line_runs arr who x y i =
     run arr who x y (dirx i) (diry i) + run arr who x y (dirx (i + 4)) (diry (i + 4))"

text \<open>An opponent's stone close to an edge makes \<open>find\<close> drop the line.\<close>

definition edge_block :: "(int \<Rightarrow> int) \<Rightarrow> int \<Rightarrow> int \<Rightarrow> int \<Rightarrow> int \<Rightarrow> bool" where
  "edge_block arr who x y i \<longleftrightarrow>
     (\<exists>k. 1 \<le> k \<and> k \<le> 4 \<and> (let nx = x + k * dirx i; ny = y + k * diry i in
        on_board nx ny \<and> (nx \<le> 4 \<or> ny \<le> 4) \<and> chess_cell arr nx ny \<notin> {0, who}))
     \<or> (\<exists>k. 1 \<le> k \<and> k \<le> 4 \<and> (let nx = x + k * dirx (i + 4); ny = y + k * diry (i + 4) in
        on_board nx ny \<and> (20 - nx \<le> 4 \<or> 20 - ny \<le> 4) \<and> chess_cell arr nx ny \<notin> {0, who}))"

lemma line_rec_values:
  assumes "who = 1 \<or> who = 2"
  shows "\<exists>v. line_rec arr x y who i = Some v \<and> 0 \<le> v
    \<and> (line_runs arr who x y i < 4 \<longrightarrow> v \<le> (if who = 1 then 9000 else 12000))
    \<and> (4 \<le> line_runs arr who x y i \<and> \<not> edge_block arr who x y i
         \<longrightarrow> (if who = 1 then 70000 else 300000) \<le> v)"
proof -
  have w: "who \<noteq> 0" using assms by auto
  obtain c1 b1 f1 where 1: "ray_loop arr who (\<lambda>nx ny. nx \<le> 4 \<or> ny \<le> 4) (dirx i) (diry i) 4 x y (0, 0, False)
      = (c1, b1, f1)" by (metis prod_cases3)
  obtain c2 b2 f2 where 2: "ray_loop arr who (\<lambda>nx ny. 20 - nx \<le> 4 \<or> 20 - ny \<le> 4) (dirx (i + 4)) (diry (i + 4))
      4 x y (0, 0, False) = (c2, b2, f2)" by (metis prod_cases3)
  note r1 = ray_loop_run [OF w 1] and r2 = ray_loop_run [OF w 2]
  have nn: "0 \<le> c1" "0 \<le> c2" using run_bounds r1(1) r2(1) by auto
  have four: "4 \<le> c1 + c2 \<longleftrightarrow> 4 \<le> line_runs arr who x y i"
    using run_bounds [of arr who x y "dirx i" "diry i"] run_bounds [of arr who x y "dirx (i + 4)" "diry (i + 4)"]
    unfolding r1(1) r2(1) line_runs_def by (auto simp: min_def)
  have block: "edge_block arr who x y i" if "f1 \<or> f2"
    using that r1(3) r2(3) unfolding edge_block_def Let_def by blast
  have sum: "0 \<le> c1 + c2" using nn by simp
  obtain v1 where v1: "record1 c1 b1 c2 b2 = Some v1" "0 \<le> v1"
      "if 4 \<le> c1 + c2 then 70000 \<le> v1 else v1 \<le> 9000"
    using record_values(1) [OF sum r1(2) r2(2)] by blast
  obtain v2 where v2: "record2 c1 b1 c2 b2 = Some v2" "0 \<le> v2"
      "if 4 \<le> c1 + c2 then 300000 \<le> v2 else v2 \<le> 12000"
    using record_values(2) [OF sum r1(2) r2(2)] by blast
  have "line_rec arr x y who i = Some (if f1 \<or> f2 then 0 else if who = 1 then v1 else v2)"
    unfolding line_rec_def Let_def 1 2 prod.case v1(1) v2(1) using assms by auto
  then show ?thesis using v1 v2 four block assms by (auto split: if_splits)
qed

lemma direction_dirx:
  assumes "0 \<le> i" "i < 4"
  shows "\<exists>l. 0 \<le> l \<and> l < 4 \<and> line_runs arr who x y i = run_opposite arr who x y l + run_positive arr who x y l"
    and "\<exists>j. 0 \<le> j \<and> j < 4 \<and> line_runs arr who x y j = run_opposite arr who x y i + run_positive arr who x y i"
proof -
  have e: "line_runs arr who x y 0 = run_opposite arr who x y 0 + run_positive arr who x y 0"
    "line_runs arr who x y 1 = run_opposite arr who x y 2 + run_positive arr who x y 2"
    "line_runs arr who x y 2 = run_opposite arr who x y 1 + run_positive arr who x y 1"
    "line_runs arr who x y 3 = run_opposite arr who x y 3 + run_positive arr who x y 3"
    by (simp_all add: line_runs_def dirx_def diry_def direction_values)
  show "\<exists>l. 0 \<le> l \<and> l < 4 \<and> line_runs arr who x y i = run_opposite arr who x y l + run_positive arr who x y l"
    by (rule locate_cases [OF assms]) (use e in \<open>auto simp: ex_below_4 [unfolded conj_assoc]\<close>)
  show "\<exists>j. 0 \<le> j \<and> j < 4 \<and> line_runs arr who x y j = run_opposite arr who x y i + run_positive arr who x y i"
    by (rule locate_cases [OF assms]) (use e in \<open>auto simp: ex_below_4 [unfolded conj_assoc]\<close>)
qed

lemma five_at_lines:
  "five_at arr who x y \<longleftrightarrow> (\<exists>i. 0 \<le> i \<and> i < 4 \<and> 4 \<le> line_runs arr who x y i)"
  unfolding five_at_runs using direction_dirx by (metis (no_types, lifting))

lemma find_score_sum:
  "find_score arr x y who =
    (case (line_rec arr x y who 0, line_rec arr x y who 1, line_rec arr x y who 2, line_rec arr x y who 3) of
       (Some r0, Some r1, Some r2, Some r3) \<Rightarrow> Some (r0 + r1 + r2 + r3) | _ \<Rightarrow> None)"
  by (cases "line_rec arr x y who 0"; cases "line_rec arr x y who 1"; cases "line_rec arr x y who 2";
      cases "line_rec arr x y who 3"; simp add: find_score_def for_range_def upto_4 Let_def)

text \<open>
  The score of a square for a player: it is always set, it is small unless the square completes a
  five, and large when it completes one on a line without an edge block.
\<close>

lemma find_score_values:
  assumes "who = 1 \<or> who = 2"
  shows "\<exists>v. find_score arr x y who = Some v \<and> 0 \<le> v
    \<and> (\<not> five_at arr who x y \<longrightarrow> v \<le> (if who = 1 then 36000 else 48000))
    \<and> ((\<exists>i. 0 \<le> i \<and> i < 4 \<and> 4 \<le> line_runs arr who x y i \<and> \<not> edge_block arr who x y i)
        \<longrightarrow> (if who = 1 then 70000 else 300000) \<le> v)"
proof -
  let ?B = "if who = 1 then 9000 else 12000 :: int" and ?T = "if who = 1 then 70000 else 300000 :: int"
  have "\<exists>v. \<forall>i. line_rec arr x y who i = Some (v i) \<and> 0 \<le> v i
      \<and> (line_runs arr who x y i < 4 \<longrightarrow> v i \<le> ?B)
      \<and> (4 \<le> line_runs arr who x y i \<and> \<not> edge_block arr who x y i \<longrightarrow> ?T \<le> v i)"
    by (rule choice) (use line_rec_values [OF assms] in blast)
  then obtain v where v: "\<And>i. line_rec arr x y who i = Some (v i)" "\<And>i. 0 \<le> v i"
      "\<And>i. line_runs arr who x y i < 4 \<Longrightarrow> v i \<le> ?B"
      "\<And>i. 4 \<le> line_runs arr who x y i \<Longrightarrow> \<not> edge_block arr who x y i \<Longrightarrow> ?T \<le> v i" by blast
  let ?v = "v 0 + v 1 + v 2 + v 3"
  have f: "find_score arr x y who = Some ?v" by (simp add: find_score_sum v(1))
  have small: "?v \<le> (if who = 1 then 36000 else 48000)" if "\<not> five_at arr who x y"
  proof -
    have "v i \<le> ?B" if "0 \<le> i" "i < 4" for i
      using \<open>\<not> five_at arr who x y\<close> that by (intro v(3)) (force simp: five_at_lines)
    from this [of 0] this [of 1] this [of 2] this [of 3] show ?thesis by (auto split: if_splits)
  qed
  have big: "?T \<le> ?v" if "0 \<le> i" "i < 4" "4 \<le> line_runs arr who x y i" "\<not> edge_block arr who x y i" for i
    using v(4) [OF that(3,4)] v(2) [of 0] v(2) [of 1] v(2) [of 2] v(2) [of 3]
    by (rule_tac locate_cases [OF that(1,2)]) simp_all
  show ?thesis using f small big v(2) by (intro exI [of _ ?v]) auto
qed

subsection \<open>The choice\<close>

text \<open>The sum over both players, 0 for a value that was never set.\<close>

definition total_score :: "(int \<Rightarrow> int) \<Rightarrow> int \<Rightarrow> int \<Rightarrow> int" where
  "total_score arr x y =
     (case (find_score arr x y 1, find_score arr x y 2) of (Some a, Some b) \<Rightarrow> a + b | _ \<Rightarrow> 0)"

lemma total_score_find:
  "\<exists>a b. find_score arr x y 1 = Some a \<and> find_score arr x y 2 = Some b
    \<and> 0 \<le> a \<and> 0 \<le> b \<and> total_score arr x y = a + b"
  using find_score_values [of 1 arr x y] find_score_values [of 2 arr x y]
  by (auto simp: total_score_def)

lemma think_square_step:
  "think_square arr i j (Some (mx, x, y)) =
     (if chess_cell arr i j = 0 \<and> mx \<le> total_score arr i j then Some (total_score arr i j, i, j)
      else Some (mx, x, y))"
  using total_score_find [of arr i j] by (auto simp: think_square_def have_chess_def Let_def)

definition think_inv :: "(int \<Rightarrow> int) \<Rightarrow> (int \<times> int) list \<Rightarrow> (int \<times> int \<times> int) option \<Rightarrow> bool" where
  "think_inv arr done st \<longleftrightarrow> (\<exists>mx x y. st = Some (mx, x, y) \<and> 0 \<le> mx
     \<and> (\<forall>p \<in> set done. chess_cell arr (fst p) (snd p) = 0 \<longrightarrow> total_score arr (fst p) (snd p) \<le> mx)
     \<and> (if \<exists>p \<in> set done. chess_cell arr (fst p) (snd p) = 0
        then (x, y) \<in> set done \<and> chess_cell arr x y = 0 \<and> mx = total_score arr x y
        else x = 0 \<and> y = 0 \<and> mx = 0))"

lemma think_inv_step:
  assumes "think_inv arr xs st"
  shows "think_inv arr (xs @ [p]) (think_square arr (fst p) (snd p) st)"
proof -
  obtain mx x y where st: "st = Some (mx, x, y)" and mx: "0 \<le> mx"
    and le: "\<forall>p \<in> set xs. chess_cell arr (fst p) (snd p) = 0 \<longrightarrow> total_score arr (fst p) (snd p) \<le> mx"
    and at: "if \<exists>p \<in> set xs. chess_cell arr (fst p) (snd p) = 0
        then (x, y) \<in> set xs \<and> chess_cell arr x y = 0 \<and> mx = total_score arr x y
        else x = 0 \<and> y = 0 \<and> mx = 0"
    using assms by (auto simp: think_inv_def)
  have nn: "0 \<le> total_score arr (fst p) (snd p)" using total_score_find [of arr "fst p" "snd p"] by auto
  show ?thesis
  proof (cases "chess_cell arr (fst p) (snd p) = 0 \<and> mx \<le> total_score arr (fst p) (snd p)")
    case True
    have "total_score arr (fst q) (snd q) \<le> total_score arr (fst p) (snd p)"
      if "q \<in> set (xs @ [p])" "chess_cell arr (fst q) (snd q) = 0" for q
      using that le True by (auto intro: order_trans)
    then show ?thesis using True nn
      by (cases p rule: prod.exhaust) (simp add: st think_square_step think_inv_def)
  next
    case False
    then have e: "think_square arr (fst p) (snd p) st = Some (mx, x, y)"
      by (auto simp: st think_square_step)
    have ex: "\<exists>q \<in> set xs. chess_cell arr (fst q) (snd q) = 0" if "chess_cell arr (fst p) (snd p) = 0"
      using False that nn at by (auto split: if_splits)
    have "total_score arr (fst p) (snd p) \<le> mx" if "chess_cell arr (fst p) (snd p) = 0"
      using False that by auto
    then show ?thesis unfolding e think_inv_def using mx le at ex by auto
  qed
qed

lemma think_chess_maximal_lemma:
  "\<exists>x y. think_chess arr = Some (x, y)
    \<and> (if \<exists>u v. stone arr 0 u v
       then stone arr 0 x y \<and> (\<forall>u v. stone arr 0 u v \<longrightarrow> total_score arr u v \<le> total_score arr x y)
       else x = 0 \<and> y = 0)"
proof -
  have "think_inv arr squares (for_range 0 20 (\<lambda>i. for_range 0 20 (think_square arr i)) (Some (0, 0, 0)))"
    unfolding squares_loop
    by (rule fold_prefix [where P = "think_inv arr"]) (simp add: think_inv_def, rule think_inv_step)
  then obtain mx x y where r: "think_chess arr = Some (x, y)"
    and le: "\<forall>p \<in> set squares. chess_cell arr (fst p) (snd p) = 0 \<longrightarrow> total_score arr (fst p) (snd p) \<le> mx"
    and at: "if \<exists>p \<in> set squares. chess_cell arr (fst p) (snd p) = 0
        then (x, y) \<in> set squares \<and> chess_cell arr x y = 0 \<and> mx = total_score arr x y
        else x = 0 \<and> y = 0 \<and> mx = 0"
    by (auto simp: think_inv_def think_chess_def)
  have free: "(\<exists>p \<in> set squares. chess_cell arr (fst p) (snd p) = 0) \<longleftrightarrow> (\<exists>u v. stone arr 0 u v)"
    unfolding stone_def set_squares [symmetric] by force
  have "total_score arr u v \<le> mx" if "stone arr 0 u v" for u v
    using le set_squares [of u v] that by (auto simp: stone_def)
  then show ?thesis using r at set_squares [of x y] unfolding free by (auto simp: stone_def split: if_splits)
qed

text \<open>
  C34: the second engine takes a best free square. \<open>think_chess\<close> never reads an unset score, and it
  returns a free square of the board with the greatest sum of both scores, or (0, 0) when the board
  is full.
\<close>

theorem think_chess_maximal:
  "\<exists>x y. think_chess arr = Some (x, y)
    \<and> (if \<exists>u v. stone arr 0 u v
       then stone arr 0 x y \<and> (\<forall>u v. stone arr 0 u v \<longrightarrow> total_score arr u v \<le> total_score arr x y)
       else x = 0 \<and> y = 0)"
  by (rule think_chess_maximal_lemma)

theorem think_chess_maximal_witness:
  "\<exists>x y. think_chess (\<lambda>_. 0) = Some (x, y) \<and> stone (\<lambda>_. 0) 0 x y"
proof -
  have "\<exists>u v. stone (\<lambda>_. 0) 0 u v" by (intro exI [of _ 0]) (simp add: stone_def on_board_def chess_cell_def)
  then show ?thesis using think_chess_maximal [of "\<lambda>_. 0"] by auto
qed

text \<open>
  the second engine answers a four of player 2. When a free square completes a five of player 2
  on a line that is not dropped for an edge block, the square it chooses completes a five for one of
  the players.
\<close>

theorem think_chess_answers_five:
  assumes "stone arr 0 u v" "0 \<le> i" "i < 4" "4 \<le> line_runs arr 2 u v i" "\<not> edge_block arr 2 u v i"
    and "think_chess arr = Some (x, y)"
  shows "stone arr 0 x y \<and> (five_at arr 1 x y \<or> five_at arr 2 x y)"
proof -
  note best = think_chess_maximal_lemma [of arr]
  have xy: "stone arr 0 x y" and le: "total_score arr u v \<le> total_score arr x y"
    using best assms(1,6) by (auto split: if_splits)
  have "300000 \<le> total_score arr u v"
    using total_score_find [of arr u v] find_score_values [of 2 arr u v] assms(2-5) by fastforce
  then have big: "300000 \<le> total_score arr x y" using le by simp
  have "total_score arr x y \<le> 84000" if "\<not> five_at arr 1 x y" "\<not> five_at arr 2 x y"
    using total_score_find [of arr x y] find_score_values [of 1 arr x y] find_score_values [of 2 arr x y] that
    by auto
  then show ?thesis using xy big by fastforce
qed

text \<open>Four stones of player 2 in the middle of the board.\<close>

definition row_of_four :: "int \<Rightarrow> int" where
  "row_of_four i = (if i mod 20 = 10 \<and> 8 \<le> i div 20 \<and> i div 20 \<le> 11 then 2 else 0)"

lemma row_of_four_stone: "stone row_of_four flag x y \<longleftrightarrow>
    on_board x y \<and> flag = (if y = 10 \<and> 8 \<le> x \<and> x \<le> 11 then 2 else 0)"
proof (cases "on_board x y")
  case True
  then have "(x * 20 + y) div 20 = x" "(x * 20 + y) mod 20 = y"
    by (simp_all only: on_board_def field_div field_mod)
  then show ?thesis by (auto simp: row_of_four_def stone_def chess_cell_def)
qed (simp add: stone_def)

theorem think_chess_answers_five_witness:
  "\<exists>x y. think_chess row_of_four = Some (x, y) \<and> stone row_of_four 0 x y
     \<and> (five_at row_of_four 1 x y \<or> five_at row_of_four 2 x y)"
proof -
  obtain x y where r: "think_chess row_of_four = Some (x, y)" using think_chess_maximal_lemma by blast
  have "4 \<le> run row_of_four 2 12 10 (- 1) 0"
    by (subst run_ge) (auto simp: row_of_four_stone on_board_def)
  then have "4 \<le> line_runs row_of_four 2 12 10 0"
    using run_bounds [of row_of_four 2 12 10 1 0] by (simp add: line_runs_def dirx_def diry_def)
  moreover have "chess_cell row_of_four x y \<in> {0, 2}" for x y
    by (simp add: chess_cell_def row_of_four_def)
  then have "\<not> edge_block row_of_four 2 12 10 0" by (auto simp: edge_block_def Let_def)
  ultimately show ?thesis
    using think_chess_answers_five [OF _ _ _ _ _ r, of 12 10 0] r
    by (auto simp: row_of_four_stone on_board_def)
qed

text \<open>
  the second engine drops fives near the upper and left edges. Four stones in a row on the left of
  a square complete a five there; but when the opponent's stone is the right neighbour and the row is
  one of the first five, \<open>find\<close> scores the line as 0, as if no five could be made on it.
\<close>

theorem edge_rule_drops_five:
  assumes "who = 1 \<or> who = 2" "\<And>k. 1 \<le> k \<Longrightarrow> k \<le> 4 \<Longrightarrow> stone arr who (x - k) y"
    and "stone arr (3 - who) (x + 1) y" "y \<le> 4"
  shows "five_at arr who x y \<and> line_rec arr x y who 0 = Some 0"
proof
  have "4 \<le> run arr who x y (- 1) 0" using assms(2) by (subst run_ge) auto
  then have "4 \<le> line_runs arr who x y 0"
    using run_bounds [of arr who x y 1 0] by (simp add: line_runs_def dirx_def diry_def)
  then show "five_at arr who x y" unfolding five_at_lines by force
  have cell: "on_board (x + 1) y" "chess_cell arr (x + 1) y \<noteq> who" "chess_cell arr (x + 1) y \<noteq> 0"
    using assms(1,3) by (auto simp: stone_def)
  have "ray_loop arr who (\<lambda>nx ny. nx \<le> 4 \<or> ny \<le> 4) 1 0 (Suc n) x y (0, 0, False) = (0, 0, True)" for n
    using cell assms(4) by (simp add: Let_def on_board_def)
  from this [of 3] have "ray_loop arr who (\<lambda>nx ny. nx \<le> 4 \<or> ny \<le> 4) 1 0 4 x y (0, 0, False) = (0, 0, True)"
    by (simp add: eval_nat_numeral del: ray_loop.simps)
  then show "line_rec arr x y who 0 = Some 0"
    by (simp add: line_rec_def dirx_def diry_def Let_def case_prod_beta)
qed

definition blocked_row :: "int \<Rightarrow> int" where
  "blocked_row i = (if i mod 20 = 3 \<and> 10 \<le> i div 20 \<and> i div 20 \<le> 13 then 1
     else if i = 15 * 20 + 3 then 2 else 0)"

theorem edge_rule_drops_five_witness:
  "five_at blocked_row 1 14 3 \<and> line_rec blocked_row 14 3 1 0 = Some 0"
proof (rule edge_rule_drops_five)
  fix k :: int assume k: "1 \<le> k" "k \<le> 4"
  have "((14 - k) * 20 + 3) div 20 = 14 - k" "((14 - k) * 20 + 3) mod 20 = 3"
    by (simp_all only: field_div field_mod)
  then show "stone blocked_row 1 (14 - k) 3"
    using k by (simp add: stone_def on_board_def chess_cell_def blocked_row_def)
qed (simp_all add: stone_def on_board_def chess_cell_def blocked_row_def)

text \<open>
  the engine's own win test sees one row only. The test \<open>ny < YSTEP - 1\<close> in \<open>comp\<close> has the wrong
  sense, so every line that does not start in the last row counts 0, and \<open>adjust\<close> reports no winner
  on any board whose last row (y = 19) holds no stone of the player.
\<close>

theorem adjust_misses_fives:
  assumes "\<And>x. on_board x 19 \<Longrightarrow> chess_cell arr x 19 \<noteq> who" "who \<noteq> 0"
  shows "adjust arr who = 0"
proof -
  have first: "comp_loop arr who dx dy (Suc n) i j 0 = 0" if "on_board i j" for dx dy n i j
    using that assms(1) by (cases "j = 19") (auto simp: on_board_def)
  have "comp_loop arr who dx dy 5 i j 0 = 0" if "on_board i j" for dx dy i j
    using first [OF that, of dx dy 4] by (simp add: eval_nat_numeral del: comp_loop.simps)
  then have c: "comp arr i j who = 0" if "on_board i j" for i j using that by (simp add: comp_def)
  have "adjust_loop arr who ps = 0" if "\<forall>(i, j) \<in> set ps. on_board i j" for ps
    using that by (induction ps) (auto simp: c)
  then show ?thesis using set_squares by (force simp: adjust_def squares_def [symmetric])
qed

theorem adjust_misses_fives_witness:
  "adjust (\<lambda>i. if i mod 20 = 10 then 2 else 0) 2 = 0"
proof (rule adjust_misses_fives)
  fix x :: int
  have "(x * 20 + 19) mod 20 = 19" by (simp only: field_mod)
  then show "chess_cell (\<lambda>i. if i mod 20 = 10 then 2 else 0) x 19 \<noteq> 2" by (simp add: chess_cell_def)
qed simp

end
