(* ===== verification/Game.thy ===== *)
theory Game
  imports Mouse Aka522 Mxcai
begin

text \<open>
  The players and the game loop: \<open>init_chess.c\<close>, \<open>hum_chess.c\<close>, \<open>cpu_chess.c\<close> and
  \<open>main.c\<close>. The record \<open>game\<close> collects the globals of all files. One turn of the loop of
  \<open>main\<close> is a function of the bytes of the mouse packet and of the random number; it returns
  whether the loop goes on. \<open>printf\<close> and \<open>sleep\<close> are left out.
\<close>

record game =
  screen :: fb
  pointer :: mouse
  table :: board
  engine :: ai
  start :: int
  player_num :: int

datatype outcome = Running | Red_wins | Aka_wins | Drawn

definition chessboard_back_color :: int where "chessboard_back_color = 0x00ffffff"
definition chessboard_line_color :: int where "chessboard_line_color = 0xffff00"
definition chess_one_color :: int where "chess_one_color = 0xff0000"
definition chess_two_color :: int where "chess_two_color = 0xff"

subsection \<open>The code\<close>

definition draw_chess :: "game \<Rightarrow> game" where
  "draw_chess g =
     (let s = for_range 0 (screen_height (screen g)) (\<lambda>i s.
                draw_alpha_wide_line 0 i (screen_wide s) chessboard_back_color s) (screen g);
          s = for_range 0 chess_line_num (\<lambda>i s.
                draw_height_line (chessboard_init_x + i * chess_gap) chessboard_init_y
                  ((chess_line_num - 1) * chess_gap) chessboard_line_color
                 (draw_wide_line chessboard_init_x (chessboard_init_y + i * chess_gap)
                  ((chess_line_num - 1) * chess_gap) chessboard_line_color s)) s;
          b = for_range 0 chess_line_num (\<lambda>i. for_range 0 chess_line_num (\<lambda>j. put_chess i j 0)) (table g)
      in g\<lparr>screen := s, table := b\<rparr>)"

definition hum_player :: "game \<Rightarrow> int \<times> game" where
  "hum_player g =
     (let c = chess_line_num sdiv 2 in
      if start g = 0 \<and> chess_num (table g) = 0 then
        let s = midpointcircle (c * chess_gap + chessboard_init_x) (c * chess_gap + chessboard_init_y)
                  circle_r chess_one_color (screen g);
            b = put_chess c c 1 (table g);
            b = b\<lparr>chess_num := chess_num b + 1\<rparr>;
            s = draw_num (c * chess_gap + chessboard_init_x - 6) (c * chess_gap + chessboard_init_y - 6)
                  0x0 (chess_num b) s;
            g = g\<lparr>screen := s, table := b\<rparr>
        in if search_side_maxnum (array_chess b) (array_x (pointer g)) (array_y (pointer g)) 1 + 1 \<ge> 5
           then (100, g) else (0, g)
      else
        let x = array_x (pointer g); y = array_y (pointer g) in
        if chess_cell (array_chess (table g)) x y = 0 then
          let b = (table g)\<lparr>chess_num := chess_num (table g) + 1\<rparr>;
              b = put_chess x y 1 b;
              s = midpointcircle (x * chess_gap + chessboard_init_x) (y * chess_gap + chessboard_init_y)
                    circle_r chess_one_color (screen g);
              s = draw_chess_num (chess_num b) x y 0x0 s
          in (0, g\<lparr>screen := s, table := b\<rparr>)
        else (0, g))"

text \<open>\<open>think_chess\<close> stores its choice in \<open>array_x\<close>, \<open>array_y\<close>; it always has one (\<open>think_chess_maximal\<close>).\<close>

definition mxcai2010_player :: "game \<Rightarrow> int \<times> game" where
  "mxcai2010_player g =
     (let c = chess_line_num sdiv 2 in
      if chess_num (table g) = 0 then
        let s = midpointcircle (c * chess_gap + chessboard_init_x) (c * chess_gap + chessboard_init_y)
                  circle_r chess_one_color (screen g);
            b = put_chess c c 1 (table g);
            b = b\<lparr>chess_num := chess_num b + 1\<rparr>;
            s = draw_num (c * chess_gap + chessboard_init_x - 6) (c * chess_gap + chessboard_init_y - 6)
                  0x0 (chess_num b) s;
            g = g\<lparr>screen := s, table := b\<rparr>
        in if search_side_maxnum (array_chess b) (array_x (pointer g)) (array_y (pointer g)) 1 + 1 \<ge> 5
           then (100, g) else (0, g)
      else case think_chess (array_chess (table g)) of
        None \<Rightarrow> (0, g)
      | Some (x, y) \<Rightarrow>
          let b = (table g)\<lparr>chess_num := chess_num (table g) + 1\<rparr>;
              b = put_chess x y 1 b;
              s = midpointcircle (x * chess_gap + chessboard_init_x) (y * chess_gap + chessboard_init_y)
                    circle_r chess_one_color (screen g);
              s = draw_chess_num (chess_num b) x y 0x0 s
          in (0, g\<lparr>screen := s, table := b, pointer := (pointer g)\<lparr>array_x := x, array_y := y\<rparr>\<rparr>))"

definition hum_chess :: "game \<Rightarrow> int \<times> game" where
  "hum_chess g =
     (if chess_num (table g) \<ge> 400 then (10000, g)
      else
        let (tmp, g) = (if player_num g = 1 then hum_player g
                        else if player_num g = 2 then mxcai2010_player g
                        else (0, g))
        in if tmp = 100 then (100, g)
           else if search_side_maxnum (array_chess (table g)) (array_x (pointer g)) (array_y (pointer g)) 1 + 1 \<ge> 5
           then (100, g) else (0, g))"

definition cpu_chess :: "int \<Rightarrow> game \<Rightarrow> int \<times> game" where
  "cpu_chess rnd g =
     (let c = chess_line_num sdiv 2 in
      if chess_num (table g) = 0 then
        let s = midpointcircle (c * chess_gap + chessboard_init_x) (c * chess_gap + chessboard_init_y)
                  circle_r chess_one_color (screen g);
            b = put_chess c c 2 (table g);
            b = b\<lparr>chess_num := chess_num b + 1\<rparr>;
            s = midpointcircle (c * chess_gap + chessboard_init_x) (c * chess_gap + chessboard_init_y)
                  circle_r chess_two_color s;
            s = draw_num (c * chess_gap + chessboard_init_x - 6) (c * chess_gap + chessboard_init_y - 6)
                  0xffffff (chess_num b) s;
            g = g\<lparr>screen := s, table := b\<rparr>
        in if search_side_maxnum (array_chess b) (array_x (pointer g)) (array_y (pointer g)) 1 + 1 \<ge> 5
           then (100, g) else (1, g)
      else if chess_num (table g) \<ge> 400 then (10000, g)
      else
        let (s, b, e) = aka522_chess rnd (screen g, table g, engine g);
            b = b\<lparr>chess_num := chess_num b + 1\<rparr>;
            x = array1 e; y = array2 e;
            b = put_chess x y 2 b;
            s = midpointcircle (x * chess_gap + chessboard_init_x) (y * chess_gap + chessboard_init_y)
                  circle_r chess_two_color s;
            s = draw_chess_num (chess_num b) x y 0xffffff s;
            g = g\<lparr>screen := s, table := b, engine := e\<rparr>
        in if search_side_maxnum (array_chess b) x y 2 + 1 \<ge> 5 then (100, g) else (0, g))"

text \<open>The end of a turn: save the pixels under the cursor and draw it.\<close>

definition show_cursor :: "game \<Rightarrow> game" where
  "show_cursor g =
     (let (s, m) = save_mouse_buf (screen g, pointer g) in g\<lparr>screen := draw_mouse s, pointer := m\<rparr>)"

definition hum_turn :: "game \<Rightarrow> outcome \<times> game" where
  "hum_turn g =
     (if chess_num (table g) smod 2 = \<bar>start g - 1\<bar> then
        let (temp, g) = hum_chess g in
        if temp = 100 then (Red_wins, g) else if temp = 10000 then (Drawn, g) else (Running, g)
      else (Running, g))"

definition cpu_turn :: "int \<Rightarrow> game \<Rightarrow> outcome \<times> game" where
  "cpu_turn rnd g =
     (if chess_num (table g) smod 2 = \<bar>start g - 0\<bar> then
        let (temp, g) = cpu_chess rnd g in
        if temp = 100 then (Aka_wins, g) else if temp = 10000 then (Drawn, g) else (Running, g)
      else (Running, g))"

text \<open>One turn of the loop for \<open>PLAYER_NUM == 1\<close>.\<close>

definition main_turn :: "int \<Rightarrow> int \<Rightarrow> int \<Rightarrow> int \<Rightarrow> game \<Rightarrow> outcome \<times> game" where
  "main_turn buf0 buf1 buf2 rnd g =
     (let (ret, s, m) = read_mouse buf0 buf1 buf2 (screen g, pointer g);
          g = g\<lparr>screen := recover_mouse_buf m s, pointer := m\<rparr>;
          cpu = (\<lambda>g. let (r, g) = cpu_turn rnd g in
                     if r = Running then (Running, show_cursor g) else (r, g))
      in if ret = 0 then
           let (off, m) = check_mouse_pix (screen g) (pointer g); g = g\<lparr>pointer := m\<rparr> in
           if off \<noteq> 0 then (Running, show_cursor g)
           else let (r, g) = hum_turn g in if r = Running then cpu g else (r, g)
         else cpu g)"

text \<open>One turn of the loop for the other values, where two programs play.\<close>

definition machine_turn :: "int \<Rightarrow> game \<Rightarrow> outcome \<times> game" where
  "machine_turn rnd g =
     (let (r, g) = hum_turn g in
      if r \<noteq> Running then (r, g)
      else if chess_num (table g) smod 2 = start g then
        let (temp, g) = cpu_chess rnd g in
        if temp = 100 then (Aka_wins, g) else if temp = 10000 then (Drawn, g) else (Running, g)
      else (Running, g))"

text \<open>What \<open>main\<close> does before the loop, with the globals as they are initialised.\<close>

definition new_game :: "int \<Rightarrow> int \<Rightarrow> int \<Rightarrow> (int \<Rightarrow> int) \<Rightarrow> int \<Rightarrow> int \<Rightarrow> game" where
  "new_game xres yres bits mem first num =
     draw_chess \<lparr>screen = snd (init_fb 3 xres yres bits mem
         \<lparr>screen_wide = 0, screen_height = 0, bpp = 0, fbmem = mem, mouse_cx = 0, mouse_cy = 0, fb_fault = False\<rparr>),
       pointer = mouse_init, table = empty_board, engine = ai_init, start = first, player_num = num\<rparr>"

inductive plays :: "game \<Rightarrow> game \<Rightarrow> bool" where
  plays_start: "plays g g"
| plays_turn: "plays g h \<Longrightarrow> 0 \<le> rnd \<Longrightarrow> main_turn buf0 buf1 buf2 rnd h = (Running, k) \<Longrightarrow> plays g k"

inductive_cases plays_cases: "plays g k"

subsection \<open>Drawing stays on the screen\<close>

text \<open>A screen that shows the whole board.\<close>

definition big :: "fb \<Rightarrow> bool" where
  "big s \<longleftrightarrow> ready s \<and> 940 \<le> screen_wide s \<and> 700 \<le> screen_height s"

text \<open>\<open>t\<close> is the same screen as \<open>s\<close> and as good.\<close>

definition keeps :: "fb \<Rightarrow> fb \<Rightarrow> bool" where
  "keeps s t \<longleftrightarrow> same_screen s t \<and> (big s \<longrightarrow> big t)"

lemma keeps_refl [simp, intro]: "keeps s s"
  by (simp add: keeps_def)

lemma keeps_trans: "keeps s t \<Longrightarrow> keeps t u \<Longrightarrow> keeps s u"
  unfolding keeps_def using same_screen_trans by blast

lemma big_same: "same_screen s t \<Longrightarrow> ready t \<Longrightarrow> big s \<Longrightarrow> big t"
  by (simp add: big_def same_screen_def)

lemma keeps_paint:
  assumes "\<And>x y. (x, y) \<in> set ps \<Longrightarrow> 0 \<le> x \<and> x < 940 \<and> 0 \<le> y \<and> y < 700"
  shows "keeps s (paint c ps s)"
  unfolding keeps_def
proof (intro conjI impI)
  assume b: "big s"
  have "ready (paint c ps s)"
    by (rule ready_paint) (use b assms in \<open>force simp: big_def visible_def\<close>)+
  then show "big (paint c ps s)" by (rule big_same [rotated]) (use b in auto)
qed simp

lemma stone_box:
  "on_board x y \<Longrightarrow> 355 \<le> stone_x x \<and> stone_x x \<le> 925 \<and> 115 \<le> stone_y y \<and> stone_y y \<le> 685"
  by (simp add: on_board_def stone_x_def stone_y_def chess_gap_def chessboard_init_x_def chessboard_init_y_def)

lemma keeps_stone:
  assumes "on_board x y"
  shows "keeps s (midpointcircle (x * chess_gap + chessboard_init_x) (y * chess_gap + chessboard_init_y) circle_r c s)"
  unfolding midpointcircle_paint stone_x_def [symmetric] stone_y_def [symmetric]
proof (rule keeps_paint)
  fix px py assume "(px, py) \<in> set (circle_points (stone_x x) (stone_y y) circle_r)"
  then have "in_disc circle_r (px - stone_x x) (py - stone_y y)"
    by (simp add: set_circle_points circle_r_def)
  then show "0 \<le> px \<and> px < 940 \<and> 0 \<le> py \<and> py < 700"
    using in_disc_box [of circle_r "px - stone_x x" "py - stone_y y"] stone_box [OF assms]
    by (auto simp: circle_r_def)
qed

lemma keeps_number:
  assumes "on_board x y" "0 \<le> n"
  shows "keeps s (draw_chess_num n x y c s)"
  unfolding draw_chess_num_paint [OF assms(2)]
  by (rule keeps_paint) (use numeral_points_box stone_box [OF assms(1)] in force)

lemma keeps_first_number:
  "keeps s (draw_num (10 * chess_gap + chessboard_init_x - 6) (10 * chess_gap + chessboard_init_y - 6) c n s)"
  unfolding draw_num_paint
  by (rule keeps_paint)
    (auto simp: set_num_points chess_gap_def chessboard_init_x_def chessboard_init_y_def)

lemma keeps_alpha_point:
  assumes "visible s x y"
  shows "keeps s (draw_alpha_point x y c a s)"
  unfolding keeps_def
proof (intro conjI impI)
  assume b: "big s"
  have k: "0 \<le> x + y * screen_wide s" "x + y * screen_wide s < fb_cells s"
    using visible_cell [OF assms] by auto
  have "ready (draw_alpha_point x y c a s)"
    using b k assms
    by (auto simp: draw_alpha_point_def Let_def fb_store_def fb_touch_def draw_point_def visible_def
        ready_depth depth_ok_def big_def)
  then show "big (draw_alpha_point x y c a s)" by (rule big_same [rotated]) (use b in auto)
qed simp

lemma keeps_for_range:
  assumes "\<And>i t. a \<le> i \<Longrightarrow> i < b \<Longrightarrow> same_screen s t \<Longrightarrow> keeps t (f i t)"
  shows "keeps s (for_range a b f s)"
proof (rule for_range_keeps [where I = "keeps s"])
  fix i t assume "a \<le> i" "i < b" "keeps s t"
  then show "keeps s (f i t)" using assms keeps_trans unfolding keeps_def by blast
qed simp

lemma draw_chess_keeps: "keeps (screen g) (screen (draw_chess g))"
proof -
  let ?s0 = "screen g"
  define s1 where "s1 = for_range 0 (screen_height ?s0) (\<lambda>i s.
      draw_alpha_wide_line 0 i (screen_wide s) chessboard_back_color s) ?s0"
  have "keeps ?s0 s1"
    unfolding s1_def
  proof (rule keeps_for_range)
    fix i t assume i: "0 \<le> i" "i < screen_height ?s0" "same_screen ?s0 t"
    show "keeps t (draw_alpha_wide_line 0 i (screen_wide t) chessboard_back_color t)"
      unfolding draw_alpha_wide_line_def
      by (rule keeps_for_range, rule keeps_alpha_point)
        (use i in \<open>auto simp: visible_def same_screen_def\<close>)
  qed
  moreover have "screen (draw_chess g) = for_range 0 chess_line_num (\<lambda>i s.
                draw_height_line (chessboard_init_x + i * chess_gap) chessboard_init_y
                  ((chess_line_num - 1) * chess_gap) chessboard_line_color
                 (draw_wide_line chessboard_init_x (chessboard_init_y + i * chess_gap)
                  ((chess_line_num - 1) * chess_gap) chessboard_line_color s)) s1"
    by (simp add: draw_chess_def s1_def)
  moreover have "keeps s1 (for_range 0 chess_line_num (\<lambda>i s.
                draw_height_line (chessboard_init_x + i * chess_gap) chessboard_init_y
                  ((chess_line_num - 1) * chess_gap) chessboard_line_color
                 (draw_wide_line chessboard_init_x (chessboard_init_y + i * chess_gap)
                  ((chess_line_num - 1) * chess_gap) chessboard_line_color s)) s1)"
  proof (rule keeps_for_range)
    fix i t assume "0 \<le> i" "i < chess_line_num"
    then have i: "0 \<le> i" "i < 20" by (simp_all add: line20)
    have w: "keeps t (draw_wide_line chessboard_init_x (chessboard_init_y + i * chess_gap)
                  ((chess_line_num - 1) * chess_gap) chessboard_line_color t)" for t
      unfolding draw_wide_line_paint
      by (rule keeps_paint) (use i in \<open>auto simp: set_hline line20 chess_gap_def chessboard_init_x_def
          chessboard_init_y_def\<close>)
    have h: "keeps t (draw_height_line (chessboard_init_x + i * chess_gap) chessboard_init_y
                  ((chess_line_num - 1) * chess_gap) chessboard_line_color t)" for t
      unfolding draw_height_line_paint
      by (rule keeps_paint) (use i in \<open>auto simp: set_vline line20 chess_gap_def chessboard_init_x_def
          chessboard_init_y_def\<close>)
    show "keeps t (draw_height_line (chessboard_init_x + i * chess_gap) chessboard_init_y
                  ((chess_line_num - 1) * chess_gap) chessboard_line_color
                 (draw_wide_line chessboard_init_x (chessboard_init_y + i * chess_gap)
                  ((chess_line_num - 1) * chess_gap) chessboard_line_color t))"
      by (rule keeps_trans [OF w h])
  qed
  ultimately show ?thesis using keeps_trans by metis
qed

subsection \<open>Moves\<close>

text \<open>A stone of colour \<open>f\<close> was put on \<open>(x, y)\<close>.\<close>

definition placed :: "int \<Rightarrow> int \<Rightarrow> int \<Rightarrow> game \<Rightarrow> game \<Rightarrow> bool" where
  "placed f x y g h \<longleftrightarrow> on_board x y \<and> keeps (screen g) (screen h)
     \<and> array_chess (table h) = (array_chess (table g))(x * 20 + y := f)
     \<and> chess_num (table h) = chess_num (table g) + 1
     \<and> start h = start g \<and> player_num h = player_num g"

text \<open>A row of five of the colour is on the board.\<close>

definition has_five :: "int \<Rightarrow> game \<Rightarrow> bool" where
  "has_five f g \<longleftrightarrow> \<not> no_five (array_chess (table g)) f"

lemma placed_judged:
  assumes "placed f x y g h" "\<not> has_five f g"
  shows "search_side_maxnum (array_chess (table h)) x y f + 1 \<ge> 5 \<longleftrightarrow> has_five f h"
  using assms judge_five [of "array_chess (table g)" f x y] by (simp add: placed_def has_five_def)

lemma placed_other: "placed f x y g h \<Longrightarrow> f \<noteq> f' \<Longrightarrow> has_five f' h \<Longrightarrow> has_five f' g"
  using no_five_put_other [of "array_chess (table g)" f' x y f] by (auto simp: placed_def has_five_def)

text \<open>Free and taken squares as the player sees them.\<close>

definition selected :: "game \<Rightarrow> int" where
  "selected g = chess_cell (array_chess (table g)) (array_x (pointer g)) (array_y (pointer g))"

lemma hum_player_turn:
  assumes "start g \<noteq> 0 \<or> chess_num (table g) \<noteq> 0" "on_board (array_x (pointer g)) (array_y (pointer g))"
    and "0 \<le> chess_num (table g)" "hum_player g = (r, h)"
  shows "r = 0 \<and> pointer h = pointer g \<and> engine h = engine g \<and>
    (if selected g = 0 then placed 1 (array_x (pointer g)) (array_y (pointer g)) g h else h = g)"
proof (cases "selected g = 0")
  case False
  then show ?thesis using assms by (auto simp: hum_player_def selected_def Let_def)
next
  case True
  let ?x = "array_x (pointer g)" and ?y = "array_y (pointer g)"
  let ?s = "draw_chess_num (chess_num (table g) + 1) ?x ?y 0x0
      (midpointcircle (?x * chess_gap + chessboard_init_x) (?y * chess_gap + chessboard_init_y)
         circle_r chess_one_color (screen g))"
  have "keeps (screen g) ?s"
    by (rule keeps_trans [OF keeps_stone [OF assms(2)] keeps_number]) (use assms in auto)
  moreover have "hum_player g = (0, g\<lparr>screen := ?s,
      table := put_chess ?x ?y 1 ((table g)\<lparr>chess_num := chess_num (table g) + 1\<rparr>)\<rparr>)"
    using True assms(1) by (auto simp: hum_player_def selected_def Let_def put_chess_def)
  ultimately show ?thesis using True assms(2,4) by (auto simp: placed_def put_chess_def)
qed

lemma hum_chess_turn:
  assumes "player_num g = 1" "start g \<noteq> 0 \<or> chess_num (table g) \<noteq> 0"
    and "on_board (array_x (pointer g)) (array_y (pointer g))" "0 \<le> chess_num (table g)"
    and "chess_num (table g) < 400" "\<not> has_five 1 g" "hum_chess g = (r, h)"
  shows "pointer h = pointer g \<and>
    (if selected g = 0
     then placed 1 (array_x (pointer g)) (array_y (pointer g)) g h \<and> r = (if has_five 1 h then 100 else 0)
     else h = g \<and> r = (if 4 \<le> search_side_maxnum (array_chess (table g)) (array_x (pointer g)) (array_y (pointer g)) 1
       then 100 else 0))"
proof -
  obtain t k where k: "hum_player g = (t, k)" by fastforce
  note p = hum_player_turn [OF assms(2,3,4) k]
  have r: "h = k" "r = (if search_side_maxnum (array_chess (table k)) (array_x (pointer k)) (array_y (pointer k)) 1 + 1 \<ge> 5
      then 100 else 0)"
    using assms(1,5,7) p by (auto simp: hum_chess_def k split: if_splits)
  show ?thesis
  proof (cases "selected g = 0")
    case True
    then show ?thesis using p r placed_judged [OF _ assms(6)] by auto
  next
    case False
    then show ?thesis using p r by auto
  qed
qed

lemma cpu_chess_turn:
  assumes "0 < chess_num (table g)" "chess_num (table g) < 400" "0 \<le> rnd" "\<not> has_five 2 g"
    and "cpu_chess rnd g = (r, h)"
  shows "pointer h = pointer g \<and> placed 2 (array1 (engine h)) (array2 (engine h)) g h
    \<and> r = (if has_five 2 h then 100 else 0)
    \<and> aka522_chess rnd (screen g, table g, engine g) = (screen g, table g, engine h)"
proof -
  obtain s b e where a: "aka522_chess rnd (screen g, table g, engine g) = (s, b, e)" by (metis prod_cases3)
  have n: "chess_num (table g) \<noteq> 0" using assms(1) by simp
  note o = aka522_chess_on_board [OF n assms(3) a]
  let ?x = "array1 e" and ?y = "array2 e"
  let ?s = "draw_chess_num (chess_num (table g) + 1) ?x ?y 0xffffff
      (midpointcircle (?x * chess_gap + chessboard_init_x) (?y * chess_gap + chessboard_init_y)
         circle_r chess_two_color (screen g))"
  let ?h = "g\<lparr>screen := ?s, table := put_chess ?x ?y 2 ((table g)\<lparr>chess_num := chess_num (table g) + 1\<rparr>),
      engine := e\<rparr>"
  have "keeps (screen g) ?s"
    by (rule keeps_trans [OF keeps_stone keeps_number]) (use o assms in auto)
  then have p: "placed 2 ?x ?y g ?h" using o by (simp add: placed_def put_chess_def)
  have "cpu_chess rnd g = (if search_side_maxnum (array_chess (table ?h)) ?x ?y 2 + 1 \<ge> 5 then (100, ?h) else (0, ?h))"
    using assms(1,2) o by (simp add: cpu_chess_def a Let_def put_chess_def)
  then have "h = ?h" "r = (if has_five 2 ?h then 100 else 0)"
    unfolding placed_judged [OF p assms(4)] using assms(5) by (auto split: if_splits)
  then show ?thesis using p a o by simp
qed

subsection \<open>The loop invariant\<close>

text \<open>What holds throughout a turn: geometry, board, no five so far.\<close>

definition sound :: "game \<Rightarrow> bool" where
  "sound g \<longleftrightarrow> start g = 1 \<and> player_num g = 1 \<and> big (screen g)
     \<and> on_board (array_x (pointer g)) (array_y (pointer g))
     \<and> (\<forall>x y. on_board x y \<longrightarrow> chess_cell (array_chess (table g)) x y \<in> {0, 1, 2})
     \<and> 0 \<le> chess_num (table g) \<and> chess_num (table g) \<le> 400
     \<and> \<not> has_five 1 g \<and> \<not> has_five 2 g"

text \<open>At the head of the loop it is the first player's turn and the saved cursor lies on the screen.\<close>

definition game_inv :: "game \<Rightarrow> bool" where
  "game_inv g \<longleftrightarrow> sound g \<and> even (chess_num (table g))
     \<and> cursor_fits (screen g) (save_mouse_cx (pointer g)) (save_mouse_cy (pointer g))"

definition cursor_on :: "game \<Rightarrow> bool" where
  "cursor_on g \<longleftrightarrow> cursor_fits (screen g) (mouse_cx (screen g)) (mouse_cy (screen g))"

lemma cursor_fits_same: "same_screen s t \<Longrightarrow> cursor_fits t x y = cursor_fits s x y"
  by (simp add: same_screen_def cursor_fits_def)

lemma cursor_on_keeps: "keeps (screen g) (screen h) \<Longrightarrow> cursor_on g \<Longrightarrow> cursor_on h"
  by (simp add: keeps_def cursor_on_def same_screen_def cursor_fits_def)

lemma save_mouse_buf_arrays:
  "array_x (snd (save_mouse_buf st)) = array_x (snd st) \<and> array_y (snd (save_mouse_buf st)) = array_y (snd st)"
  unfolding save_mouse_buf_def Let_def case_prod_beta
  by (rule for_range_keeps [where I = "\<lambda>t. array_x (snd t) = array_x (snd st) \<and> array_y (snd t) = array_y (snd st)"])
    auto

lemma show_cursor_result:
  assumes "big (screen g)" "cursor_on g"
  shows "big (screen (show_cursor g)) \<and> table (show_cursor g) = table g \<and> engine (show_cursor g) = engine g
    \<and> start (show_cursor g) = start g \<and> player_num (show_cursor g) = player_num g
    \<and> array_x (pointer (show_cursor g)) = array_x (pointer g)
    \<and> array_y (pointer (show_cursor g)) = array_y (pointer g)
    \<and> cursor_fits (screen (show_cursor g)) (save_mouse_cx (pointer (show_cursor g)))
        (save_mouse_cy (pointer (show_cursor g)))"
proof -
  obtain s m where e: "save_mouse_buf (screen g, pointer g) = (s, m)" by fastforce
  have rd: "ready (screen g)" and fit: "cursor_fits (screen g) (mouse_cx (screen g)) (mouse_cy (screen g))"
    using assms by (auto simp: big_def cursor_on_def)
  note sv = save_mouse_buf_result [OF rd fit e] and dm = draw_mouse_frame [OF rd fit]
  have c: "show_cursor g = g\<lparr>screen := draw_mouse (screen g), pointer := m\<rparr>"
    using sv(1) by (simp add: show_cursor_def e)
  have "big (draw_mouse (screen g))" using dm assms(1) big_same by blast
  then show ?thesis
    using save_mouse_buf_arrays [of "(screen g, pointer g)"] cursor_fits_same [OF conjunct1 [OF conjunct2 [OF dm]]]
      fit sv(2,3) by (simp add: c e)
qed

lemma show_cursor_inv:
  assumes "sound g" "cursor_on g" "even (chess_num (table g))"
  shows "game_inv (show_cursor g)"
proof -
  have "big (screen g)" using assms(1) by (simp add: sound_def)
  then show ?thesis using show_cursor_result [of g] assms by (simp add: game_inv_def sound_def has_five_def)
qed

lemma placed_sound:
  assumes "placed f x y g h" "f = 1 \<or> f = 2" "sound g" "chess_num (table g) < 400"
    and "pointer h = pointer g" "\<not> has_five f h"
  shows "sound h"
proof -
  have "chess_cell (array_chess (table h)) u v \<in> {0, 1, 2}" if "on_board u v" for u v
    using assms(1-3) that by (auto simp: placed_def sound_def chess_cell_def)
  moreover have "\<not> has_five 1 h \<and> \<not> has_five 2 h"
    using assms(2,3,6) placed_other [OF assms(1)] by (auto simp: sound_def)
  ultimately show ?thesis
    using assms(1,3,4,5) by (auto simp: placed_def sound_def keeps_def)
qed

text \<open>The second half of a turn.\<close>

lemma cpu_part:
  assumes "sound g" "cursor_on g" "0 \<le> rnd" "cpu_turn rnd g = (r, h)"
  shows "r = Running \<and> game_inv (show_cursor h) \<or> r = Aka_wins \<and> big (screen h) \<and> has_five 2 h \<and> \<not> has_five 1 h"
proof (cases "even (chess_num (table g))")
  case True
  then have "r = Running" "h = g"
    using assms(1,4) by (auto simp: cpu_turn_def sound_def smod_nonneg even_iff_mod_2_eq_zero)
  then show ?thesis using show_cursor_inv [OF assms(1,2) True] by simp
next
  case False
  then have n: "0 < chess_num (table g)" "chess_num (table g) < 400" "chess_num (table g) smod 2 = 1"
    using assms(1) by (auto simp: sound_def smod_nonneg odd_iff_mod_2_eq_one less_le)
  obtain t k where c: "cpu_chess rnd g = (t, k)" by fastforce
  have five: "\<not> has_five 2 g" "\<not> has_five 1 g" "start g = 1" using assms(1) by (auto simp: sound_def)
  note m = cpu_chess_turn [OF n(1,2) assms(3) five(1) c]
  have pl: "placed 2 (array1 (engine k)) (array2 (engine k)) g k" using m by blast
  have k: "keeps (screen g) (screen k)" using pl by (simp add: placed_def)
  have h: "h = k" "r = (if has_five 2 k then Aka_wins else Running)"
    using assms(4) n(3) five(3) m by (auto simp: cpu_turn_def c split: if_splits)
  show ?thesis
  proof (cases "has_five 2 k")
    case True
    moreover have "big (screen k)" using k assms(1) by (simp add: keeps_def sound_def)
    moreover have "\<not> has_five 1 k" using placed_other [OF pl, of 1] five(2) by auto
    ultimately show ?thesis using h by simp
  next
    case F: False
    have "sound k" by (rule placed_sound [OF pl _ assms(1) n(2)]) (use m F in auto)
    moreover have "even (chess_num (table k))" using pl False by (simp add: placed_def)
    ultimately show ?thesis using h F show_cursor_inv cursor_on_keeps [OF k assms(2)] by simp
  qed
qed

text \<open>The first half of a turn: the packet, the restored pixels, the selected square.\<close>

lemma after_packet:
  assumes "game_inv g" "read_mouse buf0 buf1 buf2 (screen g, pointer g) = (ret, s, m)"
    and "h = g\<lparr>screen := recover_mouse_buf m s, pointer := m\<rparr>"
  shows "sound h \<and> cursor_on h \<and> even (chess_num (table h)) \<and> table h = table g"
proof -
  have g: "sound g" "even (chess_num (table g))"
    "cursor_fits (screen g) (save_mouse_cx (pointer g)) (save_mouse_cy (pointer g))"
    using assms(1) by (auto simp: game_inv_def)
  then have b: "big (screen g)" by (simp add: sound_def)
  obtain x y where s: "s = (screen g)\<lparr>mouse_cx := mouse_clamp (screen_wide (screen g)) x,
      mouse_cy := mouse_clamp (screen_height (screen g)) y\<rparr>"
    using read_mouse_result(1) [OF assms(2)] by blast
  have m: "m = (pointer g)\<lparr>button := button m\<rparr>" by (rule read_mouse_result(4) [OF assms(2)])
  have ms: "save_mouse_cx m = save_mouse_cx (pointer g)" "save_mouse_cy m = save_mouse_cy (pointer g)"
    "array_x m = array_x (pointer g)" "array_y m = array_y (pointer g)"
    by (subst m, simp)+
  have bs: "big s" "ready s" using b by (auto simp: s big_def ready_depth depth_ok_def)
  have fits: "cursor_fits s (save_mouse_cx m) (save_mouse_cy m)"
    using g(3) ms by (simp add: s cursor_fits_def)
  note rc = recover_mouse_buf_result [OF bs(2) fits]
  have scr: "big (recover_mouse_buf m s)" using rc bs big_same by blast
  have pos: "cursor_fits s (mouse_cx s) (mouse_cy s)"
    using mouse_clamp_range [of "screen_wide (screen g)" x] mouse_clamp_range [of "screen_height (screen g)" y] b
    by (simp add: s cursor_fits_def big_def)
  then have "cursor_on h" using rc by (simp add: assms(3) cursor_on_def same_screen_def cursor_fits_def)
  moreover have "sound h" using g(1) scr ms by (simp add: assms(3) sound_def has_five_def)
  ultimately show ?thesis using g(2) by (simp add: assms(3))
qed

lemma after_check:
  assumes "sound g" "cursor_on g" "check_mouse_pix (screen g) (pointer g) = (off, m)"
    and "h = g\<lparr>pointer := m\<rparr>"
  shows "sound h \<and> cursor_on h \<and> table h = table g"
proof -
  have "on_board (array_x m) (array_y m)"
  proof (cases "off = 0")
    case True
    then have "15 * 0 \<le> mouse_cx (screen g) - 340" "mouse_cx (screen g) - 340 < 600"
      "15 * 0 \<le> mouse_cy (screen g) - 100" "mouse_cy (screen g) - 100 < 600"
      and m: "array_x m = (mouse_cx (screen g) - 340) div 30" "array_y m = (mouse_cy (screen g) - 100) div 30"
      using assms(3) by (auto simp: check_mouse_pix_def Let_def board_geometry sdiv_nonneg split: if_splits)
    then show ?thesis unfolding on_board_def m by linarith
  next
    case False
    then have "m = pointer g" using assms(3) by (auto simp: check_mouse_pix_def Let_def split: if_splits)
    then show ?thesis using assms(1) by (simp add: sound_def)
  qed
  then show ?thesis using assms by (simp add: sound_def cursor_on_def has_five_def)
qed

text \<open>
  What an announced win of the human rests on: the selected square was free, the human's stone is on it
  now and makes a row of five, or it was taken already, the board did not change, and the stones
  counted from that square make five.
\<close>

definition human_claim :: "board \<Rightarrow> game \<Rightarrow> bool" where
  "human_claim b h \<longleftrightarrow>
     (let x = array_x (pointer h); y = array_y (pointer h); c = chess_cell (array_chess b) x y in
      c = 0 \<and> array_chess (table h) = (array_chess b)(x * 20 + y := 1) \<and> has_five 1 h
      \<or> c \<noteq> 0 \<and> table h = b \<and> 4 \<le> search_side_maxnum (array_chess b) x y 1)"

lemma hum_part:
  assumes "sound g" "cursor_on g" "even (chess_num (table g))" "hum_turn g = (r, h)"
  shows "r = Running \<and> sound h \<and> cursor_on h
    \<or> r = Drawn \<and> h = g \<and> chess_num (table g) = 400
    \<or> r = Red_wins \<and> big (screen h) \<and> human_claim (table g) h"
proof -
  have g: "start g = 1" "player_num g = 1" "on_board (array_x (pointer g)) (array_y (pointer g))"
    "0 \<le> chess_num (table g)" "chess_num (table g) \<le> 400" "\<not> has_five 1 g" "big (screen g)"
    using assms(1) by (auto simp: sound_def)
  have turn: "chess_num (table g) smod 2 = \<bar>start g - 1\<bar>"
    using g assms(3) by (simp add: smod_nonneg even_iff_mod_2_eq_zero)
  obtain t k where c: "hum_chess g = (t, k)" by fastforce
  have rh: "(r, h) = (if t = 100 then (Red_wins, k) else if t = 10000 then (Drawn, k) else (Running, k))"
    using assms(4) turn by (simp add: hum_turn_def c)
  show ?thesis
  proof (cases "chess_num (table g) = 400")
    case True
    then have "t = 10000" "k = g" using c by (auto simp: hum_chess_def)
    then show ?thesis using rh True by simp
  next
    case False
    then have n: "chess_num (table g) < 400" using g(5) by simp
    note m = hum_chess_turn [OF g(2) disjI1 g(3,4) n g(6) c]
    show ?thesis
    proof (cases "selected g = 0")
      case True
      then have pl: "placed 1 (array_x (pointer g)) (array_y (pointer g)) g k"
        and t: "t = (if has_five 1 k then 100 else 0)" and pt: "pointer k = pointer g"
        using m g(1) by auto
      have k: "keeps (screen g) (screen k)" using pl by (simp add: placed_def)
      show ?thesis
      proof (cases "has_five 1 k")
        case True
        then show ?thesis using t rh k pl pt g(7) \<open>selected g = 0\<close>
          by (simp add: keeps_def placed_def human_claim_def selected_def Let_def)
      next
        case False
        then show ?thesis
          using t rh placed_sound [OF pl _ assms(1) n pt] cursor_on_keeps [OF k assms(2)] by simp
      qed
    next
      case False
      then show ?thesis using m g(1,7) rh assms(1,2)
        by (auto simp: human_claim_def selected_def Let_def split: if_splits)
    qed
  qed
qed

text \<open>How a turn can end, from a board \<open>b\<close>.\<close>

definition turn_ok :: "board \<Rightarrow> outcome \<Rightarrow> game \<Rightarrow> bool" where
  "turn_ok b r h \<longleftrightarrow> big (screen h) \<and>
     (case r of Running \<Rightarrow> game_inv h
      | Red_wins \<Rightarrow> human_claim b h
      | Aka_wins \<Rightarrow> has_five 2 h \<and> \<not> has_five 1 h
      | Drawn \<Rightarrow> chess_num (table h) = 400)"

lemma main_turn_ok:
  assumes "game_inv g" "0 \<le> rnd" "main_turn buf0 buf1 buf2 rnd g = (r, h)"
  shows "turn_ok (table g) r h"
proof -
  obtain ret s m where rd: "read_mouse buf0 buf1 buf2 (screen g, pointer g) = (ret, s, m)" by (metis prod_cases3)
  let ?g = "g\<lparr>screen := recover_mouse_buf m s, pointer := m\<rparr>"
  note p = after_packet [OF assms(1) rd refl]
  have cpu: "turn_ok (table g) r h" if "sound k" "cursor_on k"
    "(r, h) = (let (r, g) = cpu_turn rnd k in if r = Running then (Running, show_cursor g) else (r, g))" for k
  proof -
    obtain r' k' where c: "cpu_turn rnd k = (r', k')" by fastforce
    show ?thesis using cpu_part [OF that(1,2) assms(2) c] that(3)
      by (auto simp: c turn_ok_def game_inv_def sound_def)
  qed
  show ?thesis
  proof (cases "ret = 0")
    case False
    then show ?thesis using assms(3) p by (intro cpu [of ?g]) (simp_all add: main_turn_def rd)
  next
    case True
    obtain off m' where ck: "check_mouse_pix (screen ?g) (pointer ?g) = (off, m')" by fastforce
    let ?k = "?g\<lparr>pointer := m'\<rparr>"
    have k: "sound ?k \<and> cursor_on ?k \<and> table ?k = table ?g" using after_check [OF _ _ ck refl] p by blast
    obtain r' k' where hm: "hum_turn ?k = (r', k')" by fastforce
    have res: "(r, h) = (if off \<noteq> 0 then (Running, show_cursor ?k)
        else if r' = Running then (let (r, g) = cpu_turn rnd k' in if r = Running then (Running, show_cursor g) else (r, g))
        else (r', k'))"
      using assms(3) True ck hm by (cases "off = 0"; cases "r' = Running") (simp_all add: main_turn_def rd)
    show ?thesis
    proof (cases "off = 0")
      case False
      then show ?thesis using res show_cursor_inv [of ?k] k p by (simp add: turn_ok_def game_inv_def sound_def)
    next
      case off: True
      have ev: "even (chess_num (table ?k))" using k p by simp
      note hp = hum_part [OF conjunct1 [OF k] conjunct1 [OF conjunct2 [OF k]] ev hm]
      show ?thesis
      proof (cases "r' = Running")
        case True
        then show ?thesis using hp res off by (intro cpu [of k']) auto
      next
        case False
        then have "r = r'" "h = k'" using res off by auto
        then show ?thesis using hp False conjunct1 [OF k] by (auto simp: turn_ok_def sound_def)
      qed
    qed
  qed
qed

subsection \<open>Properties of the game\<close>

lemma new_game_inv:
  assumes "bits = 16 \<or> bits = 32" "940 \<le> xres" "700 \<le> yres"
  shows "game_inv (new_game xres yres bits mem 1 1)"
proof -
  define g where "g = \<lparr>screen = snd (init_fb 3 xres yres bits mem
         \<lparr>screen_wide = 0, screen_height = 0, bpp = 0, fbmem = mem, mouse_cx = 0, mouse_cy = 0, fb_fault = False\<rparr>),
       pointer = mouse_init, table = empty_board, engine = ai_init, start = 1, player_num = 1\<rparr>"
  have n: "new_game xres yres bits mem 1 1 = draw_chess g" by (simp add: new_game_def g_def)
  have b: "big (screen g)" using assms by (auto simp: g_def init_fb_def big_def ready_depth depth_ok_def)
  have k: "keeps (screen g) (screen (draw_chess g))" by (rule draw_chess_keeps)
  then have b': "big (screen (draw_chess g))" using b by (simp add: keeps_def)
  let ?I = "\<lambda>b. (\<forall>x y. chess_cell (array_chess b) x y = 0) \<and> chess_num b = 0"
  have rest: "pointer (draw_chess g) = mouse_init" "start (draw_chess g) = 1" "player_num (draw_chess g) = 1"
    "table (draw_chess g) = for_range 0 chess_line_num (\<lambda>i. for_range 0 chess_line_num (\<lambda>j. put_chess i j 0)) empty_board"
    by (simp_all add: draw_chess_def g_def)
  have t: "?I (table (draw_chess g))" unfolding rest
    by (rule for_range_keeps [where I = ?I])
      (simp add: empty_board_def chess_cell_def, rule for_range_keeps [where I = ?I],
       auto simp: put_chess_def chess_cell_def)
  then have "no_five (array_chess (table (draw_chess g))) f" if "f \<noteq> 0" for f
    using that by (auto simp: no_five_def five_row_def stone_def intro!: exI [of _ 0])
  then show ?thesis using b' t rest b
    by (auto simp: n game_inv_def sound_def has_five_def mouse_init_def on_board_def cursor_fits_def big_def)
qed

text \<open>
  C1: every state the game reaches is sound. From a new game on a screen of at least 940 by 700
  pixels of either depth, whatever packets and random numbers follow, at the head of the main loop no
  access has left the mapping, the cursor buffer belongs to a position on the screen, the selected
  square is on the board, every square is free or holds a stone of one of the two players, at most 400
  moves were made, it is the first player's turn, and nobody has five in a row.
\<close>

theorem reachable_games_are_sound:
  assumes "plays (new_game xres yres bits mem 1 1) g" "bits = 16 \<or> bits = 32" "940 \<le> xres" "700 \<le> yres"
  shows "game_inv g \<and> \<not> fb_fault (screen g) \<and> \<not> has_five 1 g \<and> \<not> has_five 2 g"
proof -
  have "game_inv g"
    using assms
  proof (induction "new_game xres yres bits mem 1 1" g rule: plays.induct)
    case plays_start
    then show ?case by (intro new_game_inv)
  next
    case (plays_turn h rnd buf0 buf1 buf2 k)
    then show ?case using main_turn_ok by (fastforce simp: turn_ok_def)
  qed
  then show ?thesis by (simp add: game_inv_def sound_def big_def ready_depth)
qed

theorem reachable_games_are_sound_witness:
  "game_inv (new_game 1024 768 32 (\<lambda>_. 0) 1 1)"
  using reachable_games_are_sound [OF plays_start, of 32 1024 768 "\<lambda>_. 0"] by simp

text \<open>
  C24: the announced results. When a turn from a sound state ends the game, the drawing has stayed
  inside the mapping; the program is announced as winner only with a row of five of its stones and none
  of the opponent's, and a draw only after 400 moves. The human is announced as winner in two cases
  only: the selected square was free before the turn, the turn put the human's stone there and
  nothing else, and a row of five of the human's stones is on the board; or the selected square was
  taken already, the turn did not change the board, and the stones of the human's colour counted from that
  square in one direction are at least four, as \<open>hum_chess\<close> judges whatever the square holds.
\<close>

theorem turn_results_are_justified:
  assumes "game_inv g" "0 \<le> rnd" "main_turn buf0 buf1 buf2 rnd g = (r, h)"
  shows "\<not> fb_fault (screen h)
    \<and> (r = Running \<longrightarrow> game_inv h)
    \<and> (r = Aka_wins \<longrightarrow> has_five 2 h \<and> \<not> has_five 1 h)
    \<and> (r = Red_wins \<longrightarrow>
         (let x = array_x (pointer h); y = array_y (pointer h); c = chess_cell (array_chess (table g)) x y in
          c = 0 \<and> array_chess (table h) = (array_chess (table g))(x * 20 + y := 1) \<and> has_five 1 h
          \<or> c \<noteq> 0 \<and> table h = table g \<and> 4 \<le> search_side_maxnum (array_chess (table g)) x y 1))
    \<and> (r = Drawn \<longrightarrow> chess_num (table h) = 400)"
  using main_turn_ok [OF assms] by (cases r) (simp_all add: turn_ok_def human_claim_def big_def ready_depth)

theorem turn_results_are_justified_witness:
  "\<not> fb_fault (screen (snd (main_turn 0 5 5 7 (new_game 1024 768 32 (\<lambda>_. 0) 1 1))))"
proof -
  obtain r h where e: "main_turn 0 5 5 7 (new_game 1024 768 32 (\<lambda>_. 0) 1 1) = (r, h)" by fastforce
  show ?thesis using turn_results_are_justified [OF new_game_inv _ e] by (simp add: e)
qed

text \<open>
  C31: the program does not miss a win. When it is the program's turn in a sound state and some free
  square completes a row of five for it, \<open>cpu_chess\<close> plays such a square and reports the win, for
  every random number.
\<close>

theorem cpu_chess_completes_five:
  assumes "sound g" "odd (chess_num (table g))" "0 \<le> rnd"
    and "stone (array_chess (table g)) 0 u v" "five_at (array_chess (table g)) 2 u v"
    and "cpu_chess rnd g = (r, h)"
  shows "r = 100 \<and> has_five 2 h"
proof -
  have n: "0 < chess_num (table g)" "chess_num (table g) < 400" and five: "\<not> has_five 2 g" "\<not> has_five 1 g"
    using assms(1,2) by (auto simp: sound_def less_le)
  note m = cpu_chess_turn [OF n assms(3) five(1) assms(6)]
  let ?x = "array1 (engine h)" and ?y = "array2 (engine h)"
  have pl: "placed 2 ?x ?y g h" using m by blast
  have nf: "no_five (array_chess (table g)) 1" "no_five (array_chess (table g)) 2"
    using five by (simp_all add: has_five_def)
  have "five_at (array_chess (table g)) 2 ?x ?y"
  proof -
    have "chess_num (table g) \<noteq> 0" using n by simp
    from aka522_chess_answers [OF this assms(3) nf conjunct2 [OF conjunct2 [OF conjunct2 [OF m]]] assms(4)]
    show ?thesis using assms(4,5) by (auto split: if_splits)
  qed
  then have "has_five 2 h"
    using pl five_row_through [OF _ nf(2), of ?x ?y] by (simp add: placed_def has_five_def)
  then show ?thesis using m by simp
qed

text \<open>The program to move with four stones in a row.\<close>

definition four_game :: game where
  "four_game = \<lparr>screen = screen_1024, pointer = mouse_init, table = four_board, engine = ai_init,
     start = 1, player_num = 1\<rparr>"

lemma four_game_sound: "sound four_game"
  using four_board_no_five screen_1024_ready
  by (auto simp: sound_def four_game_def big_def has_five_def mouse_init_def on_board_def screen_1024_def
      four_board_def chess_cell_def)

theorem cpu_chess_completes_five_witness:
  "fst (cpu_chess 5 four_game) = 100"
proof -
  obtain r h where e: "cpu_chess 5 four_game = (r, h)" by fastforce
  have "odd (chess_num (table four_game))" "stone (array_chess (table four_game)) 0 7 4"
    "five_at (array_chess (table four_game)) 2 7 4"
    using four_board_win four_board_stone by (simp_all add: four_game_def on_board_def) (simp add: four_board_def)
  then show ?thesis using cpu_chess_completes_five [OF four_game_sound _ _ _ _ e] e by simp
qed

text \<open>
  a click on an opponent's stone can win. When the human selects a taken square nothing is played,
  but the win check still runs on it and counts the neighbours only: if the square is flanked by own
  stones so that an own stone there would complete five, \<open>hum_chess\<close> reports a win although the human
  has no five and the board is unchanged.
\<close>

theorem click_on_taken_square_wins:
  assumes "player_num g = 1" "start g = 1" "chess_num (table g) < 400" "\<not> has_five 1 g"
    and "selected g \<noteq> 0" "five_at (array_chess (table g)) 1 (array_x (pointer g)) (array_y (pointer g))"
  shows "hum_chess g = (100, g)"
proof -
  have "hum_player g = (0, g)" using assms(2,5) by (simp add: hum_player_def selected_def Let_def)
  moreover have "search_side_maxnum (array_chess (table g)) (array_x (pointer g)) (array_y (pointer g)) 1 + 1 \<ge> 5"
    using five_at_maxnum assms(4,6) by (simp add: has_five_def)
  ultimately show ?thesis using assms(1,3) by (simp add: hum_chess_def)
qed

text \<open>Stones 1 1 2 1 1 in a row, the pointer on the middle one.\<close>

definition flanked_game :: game where
  "flanked_game = four_game\<lparr>table := \<lparr>array_chess = (\<lambda>_. 0)(160 := 1, 180 := 1, 200 := 2, 220 := 1, 240 := 1),
     chess_num = 10\<rparr>, pointer := mouse_init\<lparr>array_x := 10, array_y := 0\<rparr>\<rparr>"

theorem click_on_taken_square_wins_witness:
  "hum_chess flanked_game = (100, flanked_game)"
proof (rule click_on_taken_square_wins)
  let ?arr = "array_chess (table flanked_game)"
  have st: "stone ?arr 1 x y \<longleftrightarrow> on_board x y \<and> y = 0 \<and> (x = 8 \<or> x = 9 \<or> x = 11 \<or> x = 12)" for x y
    by (auto simp: flanked_game_def stone_def chess_cell_def on_board_def) presburger+
  show "\<not> has_five 1 flanked_game"
    unfolding has_five_def no_five_def not_not
  proof (rule notI, elim exE conjE)
    fix l x y assume l: "0 \<le> l" "l < (4 :: int)" and f: "five_row ?arr 1 l x y"
    have row: "stone ?arr 1 (x + k * direction_var l 0) (y + k * direction_var l 1)" if "0 \<le> k" "k \<le> 4" for k
      using f that by (simp add: five_row_def)
    from row [of 0] row [of 1] row [of 2] show False
      by (rule_tac locate_cases [OF l]) (auto simp: st direction_values)
  qed
  have "stone ?arr 1 (10 + k * direction_var 0 0) (0 + k * direction_var 0 1)"
    if "- 2 \<le> k \<and> k \<le> 4 - 2 \<and> k \<noteq> (0 :: int)" for k
  proof -
    have "k = - 2 \<or> k = - 1 \<or> k = 1 \<or> k = 2" using that by linarith
    then show ?thesis by (auto simp: st direction_values on_board_def)
  qed
  then have "five_at ?arr 1 10 0" unfolding five_at_def by (intro exI [of _ 0] exI [of _ 2]) simp
  then show "five_at ?arr 1 (array_x (pointer flanked_game)) (array_y (pointer flanked_game))"
    by (simp add: flanked_game_def)
qed (simp_all add: flanked_game_def four_game_def selected_def chess_cell_def)

subsection \<open>Two programs against each other\<close>

text \<open>Turns of the second loop until it ends or the fuel runs out.\<close>

fun machine_run :: "(nat \<Rightarrow> int) \<Rightarrow> nat \<Rightarrow> game \<Rightarrow> outcome \<times> game" where
  "machine_run rnd 0 g = (Running, g)"
| "machine_run rnd (Suc n) g =
     (let (r, h) = machine_turn (rnd n) g in
      if r = Running then machine_run rnd n h else (r, h))"

text \<open>A move of either program counts as one more move, and keeps the settings.\<close>

definition counted :: "game \<Rightarrow> game \<Rightarrow> bool" where
  "counted g h \<longleftrightarrow> chess_num (table h) = chess_num (table g) + 1
     \<and> start h = start g \<and> player_num h = player_num g"

lemma mxcai2010_player_counted: "counted g (snd (mxcai2010_player g))"
proof -
  obtain x y where "think_chess (array_chess (table g)) = Some (x, y)"
    using think_chess_maximal_lemma by blast
  then show ?thesis by (simp add: mxcai2010_player_def Let_def counted_def put_chess_def)
qed

lemma hum_chess_counted:
  assumes "player_num g = 2" "hum_chess g = (t, h)"
  shows "if 400 \<le> chess_num (table g) then t = 10000 else counted g h"
proof -
  obtain r k where k: "mxcai2010_player g = (r, k)" by fastforce
  have "counted g k" using mxcai2010_player_counted [of g] by (simp add: k)
  then show ?thesis using assms by (auto simp: hum_chess_def k split: if_splits)
qed

lemma cpu_chess_counted:
  assumes "cpu_chess rnd g = (t, h)" "0 \<le> chess_num (table g)"
  shows "if 400 \<le> chess_num (table g) then t = 10000 else counted g h"
proof (cases "chess_num (table g) = 0")
  case True
  then show ?thesis using assms(1) by (auto simp: cpu_chess_def Let_def counted_def put_chess_def split: if_splits)
next
  case False
  obtain s b e where a: "aka522_chess rnd (screen g, table g, engine g) = (s, b, e)" by (metis prod_cases3)
  then have "b = table g" using False by (auto simp: aka522_chess_def Let_def split: prod.splits)
  then show ?thesis using assms(1) False
    by (auto simp: cpu_chess_def a Let_def counted_def put_chess_def split: if_splits)
qed

lemma machine_turn_progress:
  assumes "player_num g = 2" "start g = 0 \<or> start g = 1" "0 \<le> chess_num (table g)" "chess_num (table g) \<le> 400"
    and "machine_turn rnd g = (Running, h)"
  shows "player_num h = 2 \<and> start h = start g \<and> chess_num (table g) < chess_num (table h)
    \<and> chess_num (table h) \<le> 400"
proof -
  obtain r k where ht: "hum_turn g = (r, k)" by fastforce
  then have r: "r = Running" using assms(5) by (auto simp: machine_turn_def split: if_splits)
  have even_odd: "chess_num (table g) smod 2 = 0 \<or> chess_num (table g) smod 2 = 1"
    using assms(3) by (auto simp: smod_nonneg)
  obtain t k' where hc: "hum_chess g = (t, k')" by fastforce
  have first: "if chess_num (table g) smod 2 = \<bar>start g - 1\<bar> then counted g k \<and> chess_num (table g) < 400 else k = g"
    using ht r hum_chess_counted [OF assms(1) hc] by (auto simp: hum_turn_def hc split: if_splits)
  have second: "chess_num (table k) smod 2 = start g" "0 \<le> chess_num (table k)" "player_num k = 2" "start k = start g"
  proof -
    show "chess_num (table k) smod 2 = start g"
    proof (cases "chess_num (table g) smod 2 = \<bar>start g - 1\<bar>")
      case True
      then have "chess_num (table k) = chess_num (table g) + 1" using first by (simp add: counted_def)
      then show ?thesis using True assms(2,3) by (auto simp: smod_nonneg) presburger+
    next
      case False
      then show ?thesis using first even_odd assms(2) by auto
    qed
    show "0 \<le> chess_num (table k)" "player_num k = 2" "start k = start g"
      using first assms by (auto simp: counted_def split: if_splits)
  qed
  obtain u l where cc: "cpu_chess rnd k = (u, l)" by fastforce
  have "h = l" "u \<noteq> 10000" using assms(5) second(1,4) by (auto simp: machine_turn_def ht r cc split: if_splits)
  then have "counted k h" "chess_num (table k) < 400"
    using cpu_chess_counted [OF cc second(2)] by (auto split: if_splits)
  then show ?thesis using first second by (auto simp: counted_def split: if_splits)
qed

text \<open>
  C20: a game between the two programs ends. Whatever the random numbers and whoever starts, each turn
  that goes on has placed a stone, so after at most 401 turns of the second loop a win or a draw is
  announced.
\<close>

theorem machine_game_ends:
  assumes "player_num g = 2" "start g = 0 \<or> start g = 1" "0 \<le> chess_num (table g)" "chess_num (table g) \<le> 400"
  shows "fst (machine_run rnd 401 g) \<noteq> Running"
proof -
  have "fst (machine_run rnd n g) \<noteq> Running" if "400 - chess_num (table g) < int n" for n
    using assms that
  proof (induction n arbitrary: g)
    case 0
    then show ?case by simp
  next
    case (Suc n)
    obtain r h where m: "machine_turn (rnd n) g = (r, h)" by fastforce
    show ?case
    proof (cases "r = Running")
      case False
      then show ?thesis by (simp add: m)
    next
      case True
      note p = machine_turn_progress [OF Suc.prems(1-4) m [unfolded True]]
      have "fst (machine_run rnd n h) \<noteq> Running"
        using p Suc.prems by (intro Suc.IH) auto
      then show ?thesis by (simp add: m True)
    qed
  qed
  then show ?thesis using assms(3) by simp
qed

theorem machine_game_ends_witness:
  "fst (machine_run (\<lambda>n. int n) 401 (four_game\<lparr>player_num := 2, table := empty_board\<rparr>)) \<noteq> Running"
  by (rule machine_game_ends) (simp_all add: four_game_def empty_board_def)

end
