(* ===== verification/Viewer.thy ===== *)
theory Viewer
  imports Prelude
begin

text \<open>
  The screen of the JPEG viewer (\<open>framebuffer/jpeg/both/jpegs-0.1\<close>): \<open>fb.c\<close>, the globals of
  \<open>main.c\<close> and the two colour transforms of \<open>style.c\<close>, with the copy of one scaled pixel that
  most of the fourteen transitions repeat.

  The state \<open>view\<close> holds the mapped screen, the size of the decoded picture (\<open>wid\<close>, \<open>height\<close>),
  the buffer that the current transition has allocated (\<open>buf_cells\<close> elements, undefined until
  written) and the values the next calls of \<open>rand\<close> return. Elements are \<open>unsigned short\<close>s at
  16 bits per pixel and \<open>int\<close>s at 32; an access outside the screen, outside the buffer or of an
  element that was never written raises the sticky flag \<open>fault\<close>. A picture is a partial map
  from byte offsets to bytes; \<open>NULL\<close> is the empty map.

  \<open>paints c x y lw lh D f\<close> is the specification the transitions are proved against: started
  with the transformed picture in the buffer, \<open>f\<close> shows the scaled picture on the cells \<open>D\<close>
  of the \<open>lw\<close> by \<open>lh\<close> area at \<open>(x, y)\<close>, changes no other pixel and makes no bad access. It
  composes, whatever the order, and the interfaces \<open>transform\<close> (what a colour transform leaves
  in the buffer) and \<open>transition\<close> (a loop nest that covers its area) meet in \<open>exhibit\<close>.
\<close>

subsection \<open>State\<close>

record view =
  vw :: int
  vh :: int
  vbpp :: int
  vmem :: "int \<Rightarrow> int"
  wid :: int
  height :: int
  buf_cells :: int
  buf :: "int \<rightharpoonup> int"
  rands :: "nat \<Rightarrow> nat"
  fault :: bool

type_synonym picture = "int \<rightharpoonup> int"
type_synonym callback = "picture \<Rightarrow> view \<Rightarrow> view"

definition vcells :: "view \<Rightarrow> int" where
  "vcells s = vw s * vh s"

text \<open>\<open>fb.c\<close>: when the device does not open, the globals stay as they were.\<close>

definition view_init_fb :: "int \<Rightarrow> int \<Rightarrow> int \<Rightarrow> int \<Rightarrow> (int \<Rightarrow> int) \<Rightarrow> view \<Rightarrow> int \<times> view" where
  "view_init_fb fd xres yres bits mem s =
     (if fd < 0 then (- 1, s)
      else (0, s\<lparr>vw := xres, vh := yres, vbpp := bits, vmem := mem\<rparr>))"

definition scr_store :: "int \<Rightarrow> int \<Rightarrow> view \<Rightarrow> view" where
  "scr_store k v s =
     (if 0 \<le> k \<and> k < vcells s then s\<lparr>vmem := (vmem s)(k := v)\<rparr> else s\<lparr>fault := True\<rparr>)"

text \<open>
  The buffer: \<open>malloc\<close> of a number of bytes, read as elements of the depth in use. The callers compute
  the number in \<open>int\<close>, \<open>wid * height * bpp / 8\<close>: the product wraps around, so a large picture can be given
  a buffer that is too small or, when the number is not positive, none. A positive number of bytes is
  assumed to be available.
\<close>

definition malloc_buf :: "int \<Rightarrow> view \<Rightarrow> view" where
  "malloc_buf bytes s = s\<lparr>buf_cells := bytes sdiv (vbpp s sdiv 8), buf := Map.empty\<rparr>"

definition free_buf :: "view \<Rightarrow> view" where
  "free_buf s = s\<lparr>buf_cells := 0, buf := Map.empty\<rparr>"

definition buf_store :: "int \<Rightarrow> int \<Rightarrow> view \<Rightarrow> view" where
  "buf_store k v s =
     (if 0 \<le> k \<and> k < buf_cells s then s\<lparr>buf := (buf s)(k \<mapsto> v)\<rparr> else s\<lparr>fault := True\<rparr>)"

definition next_rand :: "view \<Rightarrow> int" where
  "next_rand s = int (rands s 0)"

definition drop_rand :: "view \<Rightarrow> view" where
  "drop_rand s = s\<lparr>rands := \<lambda>n. rands s (Suc n)\<rparr>"

subsection \<open>Colour transforms\<close>

text \<open>\<open>unsigned char\<close> channels; the packed 16-bit value is stored in an \<open>unsigned short\<close>.\<close>

definition pack16 :: "int \<Rightarrow> int \<Rightarrow> int \<Rightarrow> int" where
  "pack16 r g b =
     (let dr = to_uchar (r * 0x1f sdiv 0xff);
          dg = to_uchar (g * 0x3f sdiv 0xff);
          db = to_uchar (b * 0x1f sdiv 0xff)
      in to_ushort (push_bit 11 dr OR push_bit 5 dg OR db))"

definition pack32 :: "int \<Rightarrow> int \<Rightarrow> int \<Rightarrow> int" where
  "pack32 r g b = push_bit 16 r OR push_bit 8 g OR b"

definition trans_pixel :: "(int \<Rightarrow> int \<Rightarrow> int \<Rightarrow> int) \<Rightarrow> picture \<Rightarrow> int \<Rightarrow> int \<Rightarrow> view \<Rightarrow> view" where
  "trans_pixel pack pic_buf i j s =
     (let k = i * wid s + j in
      case (pic_buf (k * 3), pic_buf (k * 3 + 1), pic_buf (k * 3 + 2)) of
        (Some r, Some g, Some b) \<Rightarrow> buf_store k (pack r g b) s
      | _ \<Rightarrow> s\<lparr>fault := True\<rparr>)"

definition transform24_16 :: callback where
  "transform24_16 pic_buf s =
     for_range 0 (height s) (\<lambda>i. for_range 0 (wid s) (\<lambda>j. trans_pixel pack16 pic_buf i j)) s"

definition transform24_32 :: callback where
  "transform24_32 pic_buf s =
     for_range 0 (height s) (\<lambda>i. for_range 0 (wid s) (\<lambda>j. trans_pixel pack32 pic_buf i j)) s"

subsection \<open>Copying pixels\<close>

text \<open>
  \<open>if (bpp == 16) fbmem_16[k] = tran_16[r]; else if (bpp == 32) fbmem[k] = tran_32[r];\<close>
\<close>

definition blit :: "int \<Rightarrow> int \<Rightarrow> view \<Rightarrow> view" where
  "blit k r s =
     (if vbpp s = 16 \<or> vbpp s = 32 then
        (case buf s r of None \<Rightarrow> s\<lparr>fault := True\<rparr> | Some v \<Rightarrow> scr_store k v s)
      else s)"

text \<open>
  Pixel \<open>(j, i)\<close> of an area of \<open>leng_w\<close> by \<open>leng_h\<close> pixels at \<open>(init_x, init_y)\<close>, from the
  pixel of the picture that scaling maps to it.
\<close>

definition put_scaled :: "int \<Rightarrow> int \<Rightarrow> int \<Rightarrow> int \<Rightarrow> int \<Rightarrow> int \<Rightarrow> view \<Rightarrow> view" where
  "put_scaled init_x init_y leng_w leng_h j i s =
     (let w_num = j * wid s sdiv leng_w;
          h_num = i * height s sdiv leng_h
      in blit (init_x + j + (i + init_y) * vw s) (w_num + h_num * wid s) s)"

text \<open>Loops with a stride, and loops that count down.\<close>

definition for_step :: "int \<Rightarrow> int \<Rightarrow> int \<Rightarrow> (int \<Rightarrow> 's \<Rightarrow> 's) \<Rightarrow> 's \<Rightarrow> 's" where
  "for_step a b d f s = fold f [k \<leftarrow> [a..b - 1]. (k - a) mod d = 0] s"

definition for_down :: "int \<Rightarrow> int \<Rightarrow> (int \<Rightarrow> 's \<Rightarrow> 's) \<Rightarrow> 's \<Rightarrow> 's" where
  "for_down a b f s = fold f (rev [b..a]) s"


subsection \<open>Effects on regions\<close>

text \<open>
  The contract of code that works on a region piece by piece: \<open>eff D s t\<close> says that \<open>t\<close> is \<open>s\<close>
  after the pieces \<open>D\<close>. Pieces combine in any order, so a loop does the union of what its
  iterations do.
\<close>

locale region =
  fixes ok :: "'s \<Rightarrow> bool"
    and eff :: "'d set \<Rightarrow> 's \<Rightarrow> 's \<Rightarrow> bool"
  assumes eff_empty: "eff {} s s"
    and eff_comp: "eff D s t \<Longrightarrow> eff E t u \<Longrightarrow> eff (D \<union> E) s u"
    and ok_eff: "ok s \<Longrightarrow> eff D s t \<Longrightarrow> ok t"
begin

lemma eff_fold:
  assumes "\<And>i t. i \<in> set l \<Longrightarrow> ok t \<Longrightarrow> eff (D i) t (f i t)" and "ok s"
  shows "eff (\<Union>i \<in> set l. D i) s (fold f l s)"
  using assms
proof (induction l arbitrary: s)
  case Nil
  then show ?case by (simp add: eff_empty)
next
  case (Cons i l)
  have 1: "eff (D i) s (f i s)" using Cons.prems by simp
  have "ok (f i s)" using Cons.prems(2) 1 by (rule ok_eff)
  then have "eff (\<Union>i \<in> set l. D i) (f i s) (fold f l (f i s))"
    using Cons.prems(1) by (intro Cons.IH) auto
  then show ?case using eff_comp [OF 1] by simp
qed

lemma eff_range:
  assumes "\<And>i t. a \<le> i \<Longrightarrow> i < b \<Longrightarrow> ok t \<Longrightarrow> eff (D i) t (f i t)" and "ok s"
  shows "eff (\<Union>i \<in> {a..<b}. D i) s (for_range a b f s)"
proof -
  have "set [a..b - 1] = {a..<b}" by auto
  then show ?thesis
    using eff_fold [of "[a..b - 1]" D f s] assms by (simp add: for_range_def)
qed

end

subsection \<open>The picture on the screen\<close>

definition ready :: "(int \<Rightarrow> int \<Rightarrow> int) \<Rightarrow> int \<Rightarrow> int \<Rightarrow> int \<Rightarrow> int \<Rightarrow> view \<Rightarrow> bool" where
  "ready c x y lw lh s \<longleftrightarrow> (vbpp s = 16 \<or> vbpp s = 32) \<and> 0 < lw \<and> 0 < lh \<and> 0 \<le> x \<and> 0 \<le> y
     \<and> x + lw \<le> vw s \<and> y + lh \<le> vh s \<and> 0 < wid s \<and> 0 < height s
     \<and> (\<forall>a b. 0 \<le> a \<and> a < wid s \<and> 0 \<le> b \<and> b < height s \<longrightarrow> buf s (a + b * wid s) = Some (c a b))"

definition same_view :: "view \<Rightarrow> view \<Rightarrow> bool" where
  "same_view s t \<longleftrightarrow> vw t = vw s \<and> vh t = vh s \<and> vbpp t = vbpp s \<and> wid t = wid s
     \<and> height t = height s \<and> buf_cells t = buf_cells s \<and> buf t = buf s \<and> fault t = fault s"

definition look :: "view \<Rightarrow> int \<Rightarrow> int \<Rightarrow> int" where
  "look s a b = vmem s (a + b * vw s)"

definition on_screen :: "view \<Rightarrow> int \<Rightarrow> int \<Rightarrow> bool" where
  "on_screen s a b \<longleftrightarrow> 0 \<le> a \<and> a < vw s \<and> 0 \<le> b \<and> b < vh s"

definition shown :: "(int \<Rightarrow> int \<Rightarrow> int) \<Rightarrow> int \<Rightarrow> int \<Rightarrow> int \<Rightarrow> int \<Rightarrow> (int \<times> int) set \<Rightarrow> view \<Rightarrow> view \<Rightarrow> bool" where
  "shown c x y lw lh D s t \<longleftrightarrow> same_view s t
     \<and> (\<forall>a b. on_screen s a b \<longrightarrow> look t a b =
          (if (a - x, b - y) \<in> D
           then c ((a - x) * wid s sdiv lw) ((b - y) * height s sdiv lh) else look s a b))"

definition paints :: "(int \<Rightarrow> int \<Rightarrow> int) \<Rightarrow> int \<Rightarrow> int \<Rightarrow> int \<Rightarrow> int \<Rightarrow> (int \<times> int) set \<Rightarrow> (view \<Rightarrow> view) \<Rightarrow> bool" where
  "paints c x y lw lh D f \<longleftrightarrow> (\<forall>s. ready c x y lw lh s \<longrightarrow> shown c x y lw lh D s (f s))"

named_theorems painting \<open>what loops and single copies paint\<close>

lemma shown_ready: "ready c x y lw lh s \<Longrightarrow> shown c x y lw lh D s t \<Longrightarrow> ready c x y lw lh t"
  by (simp add: ready_def shown_def same_view_def)

lemma shown_empty [painting]: "shown c x y lw lh {} s s"
  by (simp add: shown_def same_view_def)

lemma shown_comp:
  assumes "shown c x y lw lh D s t" and "shown c x y lw lh E t u"
  shows "shown c x y lw lh (D \<union> E) s u"
proof -
  have "same_view s u" "on_screen t = on_screen s" "wid t = wid s" "height t = height s"
    using assms by (auto simp: shown_def same_view_def on_screen_def fun_eq_iff)
  then show ?thesis using assms unfolding shown_def by auto
qed

lemma paints_comp [painting]:
  assumes "paints c x y lw lh D f" and "paints c x y lw lh E g"
  shows "paints c x y lw lh (D \<union> E) (\<lambda>s. g (f s))"
  using assms unfolding paints_def by (meson shown_comp shown_ready)

interpretation area: region "ready c x y lw lh" "shown c x y lw lh" for c x y lw lh
proof unfold_locales
  show "shown c x y lw lh D s t \<Longrightarrow> shown c x y lw lh E t u \<Longrightarrow> shown c x y lw lh (D \<union> E) s u"
    for D E s t u by (rule shown_comp)
qed (auto simp: shown_empty intro: shown_ready)

lemma paints_fold:
  "(\<And>i. i \<in> set l \<Longrightarrow> paints c x y lw lh (D i) (f i)) \<Longrightarrow>
    paints c x y lw lh (\<Union>i \<in> set l. D i) (fold f l)"
  unfolding paints_def by (intro allI impI area.eff_fold) auto

lemma paints_range [painting]:
  "(\<And>i. a \<le> i \<Longrightarrow> i < b \<Longrightarrow> paints c x y lw lh (D i) (f i)) \<Longrightarrow>
    paints c x y lw lh (\<Union>i \<in> {a..<b}. D i) (for_range a b f)"
  unfolding paints_def by (intro allI impI area.eff_range) auto

text \<open>Scaling maps the area into the picture.\<close>

lemma scale_bounds:
  assumes "0 \<le> j" "j < n" "0 < (m :: int)"
  shows "0 \<le> j * m sdiv n \<and> j * m sdiv n < m"
proof -
  have "j * m < n * m" using assms by (intro mult_strict_right_mono) auto
  then have "j * m < m * n" by (simp only: mult.commute [of n m])
  moreover have "j * m div n * n \<le> j * m"
    using div_mult_mod_eq [of "j * m" n] pos_mod_sign [of n "j * m"] assms by linarith
  moreover have "m * n \<le> j * m div n * n" if "m \<le> j * m div n"
    using that assms by (intro mult_right_mono) auto
  ultimately have "j * m div n < m" by linarith
  moreover have "0 \<le> j * m div n" using assms by (simp add: pos_imp_zdiv_nonneg_iff)
  ultimately show ?thesis using assms by (simp add: sdiv_nonneg)
qed

lemma cell_bounds:
  assumes "0 \<le> a" "a < w" "0 \<le> b" "b < (h :: int)"
  shows "0 \<le> a + b * w \<and> a + b * w < w * h"
proof -
  have "b * w \<le> (h - 1) * w" using assms by (intro mult_right_mono) auto
  moreover have "0 \<le> b * w" using assms by simp
  ultimately show ?thesis using assms by (simp add: algebra_simps)
qed

lemma cell_inject:
  assumes "0 \<le> a" "a < w" "0 \<le> a'" "a' < (w :: int)"
  shows "a + b * w = a' + b' * w \<longleftrightarrow> a = a' \<and> b = b'"
proof
  assume e: "a + b * w = a' + b' * w"
  then have "(a + b * w) mod w = (a' + b' * w) mod w" by simp
  then have "a = a'" using assms by simp
  then show "a = a' \<and> b = b'" using e assms by auto
qed simp

lemma put_scaled_shown:
  assumes r: "ready c x y lw lh s" and j: "0 \<le> j" "j < lw" and i: "0 \<le> i" "i < lh"
  shows "shown c x y lw lh {(j, i)} s (put_scaled x y lw lh j i s)"
proof -
  let ?a = "j * wid s sdiv lw" and ?b = "i * height s sdiv lh"
  have ab: "0 \<le> ?a" "?a < wid s" "0 \<le> ?b" "?b < height s"
    using scale_bounds [OF j, of "wid s"] scale_bounds [OF i, of "height s"] r
    by (auto simp: ready_def)
  then have "buf s (?a + ?b * wid s) = Some (c ?a ?b)" using r by (simp add: ready_def)
  moreover have q: "0 \<le> x + j" "x + j < vw s" "0 \<le> i + y" "i + y < vh s"
    using r i j by (auto simp: ready_def)
  moreover have "0 \<le> x + j + (i + y) * vw s \<and> x + j + (i + y) * vw s < vcells s"
    unfolding vcells_def by (rule cell_bounds) (rule q)+
  ultimately have e: "put_scaled x y lw lh j i s
      = s\<lparr>vmem := (vmem s)(x + j + (i + y) * vw s := c ?a ?b)\<rparr>"
    using r by (auto simp: put_scaled_def Let_def blit_def scr_store_def ready_def)
  have "a + b * vw s = x + j + (i + y) * vw s \<longleftrightarrow> a = x + j \<and> b = i + y"
    if "on_screen s a b" for a b
    using that q by (intro cell_inject) (auto simp: on_screen_def)
  then show ?thesis unfolding e
    by (auto simp: shown_def same_view_def look_def)
qed

lemma paints_put [painting]:
  "0 \<le> j \<Longrightarrow> j < lw \<Longrightarrow> 0 \<le> i \<Longrightarrow> i < lh \<Longrightarrow>
    paints c x y lw lh {(j, i)} (put_scaled x y lw lh j i)"
  unfolding paints_def using put_scaled_shown by blast

subsection \<open>What a colour transform leaves in the buffer\<close>

text \<open>The bytes of a picture of \<open>wd\<close> by \<open>ht\<close> pixels, and the packed colour of one pixel.\<close>

definition whole :: "picture \<Rightarrow> int \<Rightarrow> int \<Rightarrow> bool" where
  "whole pic wd ht \<longleftrightarrow>
     (\<forall>a b l. 0 \<le> a \<and> a < wd \<and> 0 \<le> b \<and> b < ht \<and> 0 \<le> l \<and> l < 3 \<longrightarrow>
        pic ((b * wd + a) * 3 + l) \<noteq> None)"

definition colour :: "(int \<Rightarrow> int \<Rightarrow> int \<Rightarrow> int) \<Rightarrow> picture \<Rightarrow> int \<Rightarrow> int \<Rightarrow> int \<Rightarrow> int" where
  "colour pack pic wd a b =
     (let k = (b * wd + a) * 3 in pack (the (pic k)) (the (pic (k + 1))) (the (pic (k + 2))))"

definition fillable :: "picture \<Rightarrow> view \<Rightarrow> bool" where
  "fillable pic s \<longleftrightarrow> whole pic (wid s) (height s) \<and> wid s * height s \<le> buf_cells s"

definition filled :: "(int \<Rightarrow> int \<Rightarrow> int \<Rightarrow> int) \<Rightarrow> picture \<Rightarrow> (int \<times> int) set \<Rightarrow> view \<Rightarrow> view \<Rightarrow> bool" where
  "filled pack pic D s t \<longleftrightarrow> (\<exists>m. t = s\<lparr>buf := m\<rparr>)
     \<and> (\<forall>k. k < 0 \<or> buf_cells s \<le> k \<longrightarrow> buf t k = buf s k)
     \<and> (\<forall>a b. 0 \<le> a \<and> a < wid s \<and> 0 \<le> b \<and> b < height s \<longrightarrow>
          buf t (a + b * wid s) =
            (if (a, b) \<in> D then Some (colour pack pic (wid s) a b) else buf s (a + b * wid s)))"

interpretation pixels: region "\<lambda>s. fillable pic s \<and> wid s = m \<and> height s = n" "filled pack pic"
  for pic pack m n
proof unfold_locales
  show "filled pack pic {} s s" for s
    by (auto simp: filled_def intro: exI [of _ "buf s"])
  show "filled pack pic (D \<union> E) s u" if "filled pack pic D s t" "filled pack pic E t u" for D E s t u
    using that by (auto simp: filled_def)
qed (auto simp: filled_def fillable_def)

lemma trans_pixel_filled:
  assumes f: "fillable pic s" and i: "0 \<le> i" "i < height s" and j: "0 \<le> j" "j < wid s"
  shows "filled pack pic {(j, i)} s (trans_pixel pack pic i j s)"
proof -
  let ?k = "(i * wid s + j) * 3"
  have "pic (?k + l) \<noteq> None" if "0 \<le> l" "l < 3" for l
    using f i j that by (simp add: fillable_def whole_def)
  from this [of 0] this [of 1] this [of 2] obtain r g b where
    px: "pic ?k = Some r" "pic (?k + 1) = Some g" "pic (?k + 2) = Some b" by auto
  have in_buf: "0 \<le> j + i * wid s \<and> j + i * wid s < wid s * height s"
    using i j by (intro cell_bounds) auto
  then have e: "trans_pixel pack pic i j s
      = s\<lparr>buf := (buf s)(j + i * wid s \<mapsto> colour pack pic (wid s) j i)\<rparr>"
    using px f in_buf
    by (simp add: trans_pixel_def buf_store_def colour_def Let_def fillable_def add.commute)
  have "a + b * wid s = j + i * wid s \<longleftrightarrow> a = j \<and> b = i" if "0 \<le> a" "a < wid s" for a b
    using that j by (intro cell_inject) auto
  then show ?thesis unfolding e using in_buf f
    by (auto simp: filled_def fillable_def intro: exI [of _ "(buf s)(j + i * wid s \<mapsto> colour pack pic (wid s) j i)"])
qed

lemma transform_loops_filled:
  assumes f: "fillable pic s"
  shows "filled pack pic ({0..<wid s} \<times> {0..<height s}) s
    (for_range 0 (height s) (\<lambda>i. for_range 0 (wid s) (\<lambda>j. trans_pixel pack pic i j)) s)"
proof -
  let ?ok = "\<lambda>t. fillable pic t \<and> wid t = wid s \<and> height t = height s"
  have "filled pack pic (\<Union>i \<in> {0..<height s}. \<Union>j \<in> {0..<wid s}. {(j, i)}) s
    (for_range 0 (height s) (\<lambda>i. for_range 0 (wid s) (\<lambda>j. trans_pixel pack pic i j)) s)"
  proof (rule pixels.eff_range [where m = "wid s" and n = "height s"])
    fix i t assume i: "0 \<le> i" "i < height s" and t: "?ok t"
    show "filled pack pic (\<Union>j \<in> {0..<wid s}. {(j, i)}) t
      (for_range 0 (wid s) (\<lambda>j. trans_pixel pack pic i j) t)"
      by (rule pixels.eff_range [where m = "wid s" and n = "height s"])
        (use i t in \<open>auto intro: trans_pixel_filled\<close>)
  qed (use f in simp)
  moreover have "(\<Union>i \<in> {0..<height s}. \<Union>j \<in> {0..<wid s}. {(j, i)}) = {0..<wid s} \<times> {0..<height s}"
    by auto
  ultimately show ?thesis by simp
qed

text \<open>The contract of a colour transform, met by both transforms of the program.\<close>

locale transform =
  fixes tran :: callback and pack :: "int \<Rightarrow> int \<Rightarrow> int \<Rightarrow> int"
  assumes fills: "fillable pic s \<Longrightarrow>
    filled pack pic ({0..<wid s} \<times> {0..<height s}) s (tran pic s)"
begin

lemma ready_picture:
  assumes "whole pic (wid s) (height s)" and "vbpp s = 16 \<or> vbpp s = 32"
    and "0 < wid s" "0 < height s" "wid s * height s \<le> buf_cells s"
    and "0 < lw" "0 < lh" "0 \<le> x" "0 \<le> y" "x + lw \<le> vw s" "y + lh \<le> vh s"
  shows "ready (colour pack pic (wid s)) x y lw lh (tran pic s)
       \<and> (\<exists>m. tran pic s = s\<lparr>buf := m\<rparr> \<and> (\<forall>k. k < 0 \<or> buf_cells s \<le> k \<longrightarrow> m k = buf s k))"
proof -
  have f: "filled pack pic ({0..<wid s} \<times> {0..<height s}) s (tran pic s)"
    using assms by (intro fills) (simp add: fillable_def)
  then obtain m where m: "tran pic s = s\<lparr>buf := m\<rparr>" "\<forall>k. k < 0 \<or> buf_cells s \<le> k \<longrightarrow> m k = buf s k"
    by (auto simp: filled_def)
  moreover from this have "ready (colour pack pic (wid s)) x y lw lh (tran pic s)"
    using f assms by (auto simp: ready_def filled_def)
  ultimately show ?thesis by blast
qed

end

interpretation t16: transform transform24_16 pack16
  by unfold_locales (simp add: transform24_16_def transform_loops_filled)

interpretation t32: transform transform24_32 pack32
  by unfold_locales (simp add: transform24_32_def transform_loops_filled)

subsection \<open>Showing a picture\<close>

text \<open>The transform \<open>main\<close> picks for the depth; other depths end the program.\<close>

definition choose_transform :: "int \<Rightarrow> callback option" where
  "choose_transform depth =
     (if depth = 16 then Some transform24_16
      else if depth = 32 then Some transform24_32 else None)"

definition pack_of :: "int \<Rightarrow> int \<Rightarrow> int \<Rightarrow> int \<Rightarrow> int" where
  "pack_of depth = (if depth = 16 then pack16 else pack32)"

lemma chosen_transform: "choose_transform d = Some tran \<Longrightarrow> transform tran (pack_of d)"
  using t16.transform_axioms t32.transform_axioms
  by (auto simp: choose_transform_def pack_of_def split: if_splits)

text \<open>
  The sizes with which no \<open>int\<close> overflows: the bits of the picture and those of the screen can be counted in
  an \<open>int\<close>, and the picture and the area are at most 32767 wide and high (\<open>wid\<close> and \<open>height\<close> are
  \<open>short\<close>s), so that the products of the scaling stay below \<open>2 ^ 30\<close>.
\<close>

definition sizes_fit :: "int \<Rightarrow> int \<Rightarrow> view \<Rightarrow> bool" where
  "sizes_fit lw lh s \<longleftrightarrow> wid s * height s * vbpp s < 2 ^ 31 \<and> vw s * vh s * vbpp s < 2 ^ 31
     \<and> wid s \<le> 32767 \<and> height s \<le> 32767 \<and> lw \<le> 32767 \<and> lh \<le> 32767"

text \<open>
  What every transition starts from: a complete picture, the transform of the depth, an area
  that lies on the screen, sizes that do not overflow.
\<close>

definition showable :: "picture \<Rightarrow> int \<Rightarrow> int \<Rightarrow> int \<Rightarrow> int \<Rightarrow> callback \<Rightarrow> view \<Rightarrow> bool" where
  "showable pic x y lw lh tran s \<longleftrightarrow> choose_transform (vbpp s) = Some tran
     \<and> whole pic (wid s) (height s) \<and> 0 < wid s \<and> 0 < height s \<and> 0 < lw \<and> 0 < lh
     \<and> 0 \<le> x \<and> 0 \<le> y \<and> x + lw \<le> vw s \<and> y + lh \<le> vh s \<and> sizes_fit lw lh s"

text \<open>
  What it is to end with: the cells \<open>D\<close> of the area show the pixels of the picture that
  scaling maps to them, every other pixel is as it was, no access was bad, nothing stays
  allocated.
\<close>

definition displays :: "picture \<Rightarrow> int \<Rightarrow> int \<Rightarrow> int \<Rightarrow> int \<Rightarrow> (int \<times> int) set \<Rightarrow> view \<Rightarrow> view \<Rightarrow> bool" where
  "displays pic x y lw lh D s t \<longleftrightarrow> fault t = fault s \<and> buf t = Map.empty
     \<and> vw t = vw s \<and> vh t = vh s \<and> vbpp t = vbpp s
     \<and> (\<forall>a b. on_screen s a b \<longrightarrow> look t a b =
          (if (a - x, b - y) \<in> D
           then colour (pack_of (vbpp s)) pic (wid s) ((a - x) * wid s div lw) ((b - y) * height s div lh)
           else look s a b))"

abbreviation whole_area :: "int \<Rightarrow> int \<Rightarrow> (int \<times> int) set" where
  "whole_area lw lh \<equiv> {0..<lw} \<times> {0..<lh}"

lemma malloc_cells:
  assumes "vbpp s = 16 \<or> vbpp s = 32" "0 < wid s" "0 < height s" "wid s * height s * vbpp s < 2 ^ 31"
  shows "wid s * height s \<le> buf_cells (malloc_buf (to_int32 (wid s * height s * vbpp s) sdiv 8) s)"
    and "wid s * height s \<le> buf_cells (malloc_buf (to_int32 (wid s * height s * vbpp s) sdiv 2) s)"
proof -
  obtain p where p: "p = wid s * height s" "0 \<le> p" using assms by simp
  have fits: "to_int32 (p * vbpp s) = p * vbpp s"
    using assms(1,4) p(2) unfolding p(1) [symmetric] by (intro to_int32_eq_self) auto
  have "p * 16 sdiv 8 sdiv 2 = p" "p * 32 sdiv 8 sdiv 4 = p"
    "p \<le> p * 16 sdiv 2 sdiv 2" "p \<le> p * 32 sdiv 2 sdiv 4"
    using p(2) by (simp_all add: sdiv_nonneg)
  then show "wid s * height s \<le> buf_cells (malloc_buf (to_int32 (wid s * height s * vbpp s) sdiv 8) s)"
    and "wid s * height s \<le> buf_cells (malloc_buf (to_int32 (wid s * height s * vbpp s) sdiv 2) s)"
    using assms(1) fits unfolding p(1) [symmetric] by (auto simp: malloc_buf_def)
qed

text \<open>The state a transition's loops start from.\<close>

lemma prepared:
  assumes s: "showable pic x y lw lh tran s"
    and bytes: "bytes = to_int32 (wid s * height s * vbpp s) sdiv 8 \<or> bytes = to_int32 (wid s * height s * vbpp s) sdiv 2"
  shows "\<exists>m. tran pic (malloc_buf bytes s) = (malloc_buf bytes s)\<lparr>buf := m\<rparr>
       \<and> (\<forall>k. k < 0 \<or> buf_cells (malloc_buf bytes s) \<le> k \<longrightarrow> m k = None)
       \<and> ready (colour (pack_of (vbpp s)) pic (wid s)) x y lw lh (tran pic (malloc_buf bytes s))"
proof -
  let ?u = "malloc_buf bytes s"
  have d: "vbpp s = 16 \<or> vbpp s = 32"
    using s by (auto simp: showable_def choose_transform_def split: if_splits)
  have u: "wid ?u = wid s" "height ?u = height s" "vbpp ?u = vbpp s" "vw ?u = vw s" "vh ?u = vh s"
    by (simp_all add: malloc_buf_def)
  have t: "transform tran (pack_of (vbpp s))"
    using s by (intro chosen_transform) (simp add: showable_def)
  have "wid s * height s \<le> buf_cells ?u"
    using bytes malloc_cells [OF d] s by (auto simp: showable_def sizes_fit_def)
  then show ?thesis
    using transform.ready_picture [OF t, of pic ?u lw lh x y] s d u
    by (auto simp: showable_def malloc_buf_def)
qed

text \<open>
  The contract of a transition: a loop nest that covers the cells \<open>D\<close>. Between a transform and
  \<open>free\<close> it displays the picture on them.
\<close>

locale transition =
  fixes loops :: "int \<Rightarrow> int \<Rightarrow> int \<Rightarrow> int \<Rightarrow> view \<Rightarrow> view"
    and D :: "int \<Rightarrow> int \<Rightarrow> (int \<times> int) set"
    and fits :: "int \<Rightarrow> int \<Rightarrow> bool"
  assumes covers: "0 < lw \<Longrightarrow> 0 < lh \<Longrightarrow> fits lw lh \<Longrightarrow> paints c x y lw lh (D lw lh) (loops x y lw lh)"
    and inside: "0 < lw \<Longrightarrow> 0 < lh \<Longrightarrow> fits lw lh \<Longrightarrow> D lw lh \<subseteq> whole_area lw lh"
begin

lemma exhibits:
  assumes s: "showable pic x y lw lh tran s" and "fits lw lh"
    and bytes: "bytes = to_int32 (wid s * height s * vbpp s) sdiv 8 \<or> bytes = to_int32 (wid s * height s * vbpp s) sdiv 2"
  shows "displays pic x y lw lh (D lw lh) s (free_buf (loops x y lw lh (tran pic (malloc_buf bytes s))))"
proof -
  let ?u = "malloc_buf bytes s" and ?c = "colour (pack_of (vbpp s)) pic (wid s)"
  obtain m where m: "tran pic ?u = ?u\<lparr>buf := m\<rparr>" and r: "ready ?c x y lw lh (tran pic ?u)"
    using prepared [OF s bytes] by blast
  have "shown ?c x y lw lh (D lw lh) (tran pic ?u) (loops x y lw lh (tran pic ?u))"
    using covers [of lw lh ?c x y] s assms(2) r by (simp add: showable_def paints_def)
  moreover have "(a * m) sdiv n = a * m div n" if "0 \<le> a" "0 < m" "0 < n" for a m n :: int
    using that by (simp add: sdiv_nonneg)
  moreover have "0 \<le> a - x \<and> 0 \<le> b - y" if "(a - x, b - y) \<in> D lw lh" for a b
    using that inside [of lw lh] s assms(2) by (auto simp: showable_def)
  ultimately show ?thesis
    using s m by (auto simp: displays_def shown_def same_view_def free_buf_def look_def
      on_screen_def showable_def malloc_buf_def)
qed

end

end
