(* ===== verification/Styles.thy ===== *)
theory Styles
  imports Viewer
begin

text \<open>
  The transitions of \<open>style.c\<close> that copy the scaled picture piece by piece: \<open>show_pic_1\<close> and
  \<open>show_pic_6\<close> (strips), \<open>show_pic_7\<close> (blinds from both sides), \<open>show_pic_12\<close> (interlaced
  lines), \<open>show_pic_5\<close> and \<open>show_pic_13\<close> (lines and squares in random order), \<open>show_pic_14\<close>
  (a rectangle that grows from the centre).

  Each is \<open>malloc\<close>, transform, a loop nest, \<open>free\<close>. The loop nest is a definition of its own
  (\<open>wipe_loops\<close>, \<open>snake_loops\<close>, ...) that the interface \<open>transition\<close> is interpreted on; the
  theorems about the whole routines are instances of \<open>exhibits\<close>. \<open>usleep\<close> calls have no
  effect on the state and are left out.
\<close>

subsection \<open>Strips: \<open>show_pic_1\<close>\<close>

definition wipe_loops :: "int \<Rightarrow> int \<Rightarrow> int \<Rightarrow> int \<Rightarrow> int \<Rightarrow> view \<Rightarrow> view" where
  "wipe_loops portion init_x init_y leng_w leng_h =
     for_range 1 (portion + 1) (\<lambda>k. for_range 0 leng_w (\<lambda>j.
       for_range ((k - 1) * leng_h sdiv portion) (k * leng_h sdiv portion) (\<lambda>i.
         put_scaled init_x init_y leng_w leng_h j i)))"

definition show_pic_1 :: "picture \<Rightarrow> int \<Rightarrow> int \<Rightarrow> int \<Rightarrow> int \<Rightarrow> int \<Rightarrow> callback \<Rightarrow> view \<Rightarrow> view" where
  "show_pic_1 pic_buf init_x init_y leng_w leng_h portion tran24_32_16 s =
     free_buf (wipe_loops portion init_x init_y leng_w leng_h
       (tran24_32_16 pic_buf (malloc_buf (to_int32 (wid s * height s * vbpp s) sdiv 2) s)))"

subsection \<open>Strips in alternating directions: \<open>show_pic_6\<close>\<close>

definition snake_loops :: "int \<Rightarrow> int \<Rightarrow> int \<Rightarrow> int \<Rightarrow> int \<Rightarrow> view \<Rightarrow> view" where
  "snake_loops portion init_x init_y leng_w leng_h =
     for_range 1 (portion + 1) (\<lambda>locate. for_range 0 leng_w (\<lambda>j.
       for_range ((locate - 1) * leng_h sdiv portion) (locate * leng_h sdiv portion) (\<lambda>i.
         let k = (if locate smod 2 = 0 then leng_w - 1 - j else j)
         in put_scaled init_x init_y leng_w leng_h k i)))"

definition show_pic_6 :: "picture \<Rightarrow> int \<Rightarrow> int \<Rightarrow> int \<Rightarrow> int \<Rightarrow> int \<Rightarrow> callback \<Rightarrow> view \<Rightarrow> view" where
  "show_pic_6 pic_buf init_x init_y leng_w leng_h portion tran_24_32_16 s =
     free_buf (snake_loops portion init_x init_y leng_w leng_h
       (tran_24_32_16 pic_buf (malloc_buf (to_int32 (wid s * height s * vbpp s) sdiv 8) s)))"

subsection \<open>Blinds: \<open>show_pic_7\<close>\<close>

definition blinds_loops :: "int \<Rightarrow> int \<Rightarrow> int \<Rightarrow> int \<Rightarrow> int \<Rightarrow> view \<Rightarrow> view" where
  "blinds_loops portion init_x init_y leng_w leng_h =
     (let share_portion = leng_h sdiv portion in
      for_range 0 leng_w (\<lambda>j. for_range 1 (portion sdiv 2 + 1) (\<lambda>k s.
        for_range (2 * (k - 1) * share_portion) ((2 * k - 1) * share_portion)
          (\<lambda>i. put_scaled init_x init_y leng_w leng_h (leng_w - 1 - j) i)
          (for_range ((2 * k - 1) * share_portion) (2 * k * share_portion)
            (\<lambda>i. put_scaled init_x init_y leng_w leng_h j i) s))))"

definition show_pic_7 :: "picture \<Rightarrow> int \<Rightarrow> int \<Rightarrow> int \<Rightarrow> int \<Rightarrow> int \<Rightarrow> callback \<Rightarrow> view \<Rightarrow> view" where
  "show_pic_7 pic_buf init_x init_y leng_w leng_h portion tran_24_32_16 s =
     free_buf (blinds_loops portion init_x init_y leng_w leng_h
       (tran_24_32_16 pic_buf (malloc_buf (to_int32 (wid s * height s * vbpp s) sdiv 8) s)))"

subsection \<open>Interlaced lines: \<open>show_pic_12\<close>\<close>

definition interlace_loops :: "int \<Rightarrow> int \<Rightarrow> int \<Rightarrow> int \<Rightarrow> int \<Rightarrow> view \<Rightarrow> view" where
  "interlace_loops portion init_x init_y leng_w leng_h =
     for_range 0 (leng_h sdiv portion) (\<lambda>m. for_range 1 (portion + 1) (\<lambda>k.
       for_range ((k - 1) * leng_h sdiv portion + m) ((k - 1) * leng_h sdiv portion + m + 1) (\<lambda>i.
         for_range 0 leng_w (\<lambda>j. put_scaled init_x init_y leng_w leng_h j i))))"

definition show_pic_12 :: "picture \<Rightarrow> int \<Rightarrow> int \<Rightarrow> int \<Rightarrow> int \<Rightarrow> int \<Rightarrow> callback \<Rightarrow> view \<Rightarrow> view" where
  "show_pic_12 pic_buf init_x init_y leng_w leng_h portion tran24_32_16 s =
     free_buf (interlace_loops portion init_x init_y leng_w leng_h
       (tran24_32_16 pic_buf (malloc_buf (to_int32 (wid s * height s * vbpp s) sdiv 2) s)))"

subsection \<open>Random order\<close>

text \<open>
  Choosing an unused entry of an array: entry \<open>k\<close> if it is free, otherwise the first free one
  of \<open>bound\<close> entries from \<open>k\<close> on, cyclically. A used entry holds \<open>mark\<close>. When the search
  finds none, \<open>locate\<close> keeps its value.
\<close>

fun probe :: "nat \<Rightarrow> int \<Rightarrow> int \<Rightarrow> int \<Rightarrow> int \<Rightarrow> (int \<Rightarrow> int) \<Rightarrow> int option" where
  "probe 0 k l n mark a = None"
| "probe (Suc tries) k l n mark a =
     (if a ((k + l) smod n) \<noteq> mark then Some ((k + l) smod n)
      else probe tries k (l + 1) n mark a)"

definition take_slot :: "int \<Rightarrow> int \<Rightarrow> int \<Rightarrow> int \<Rightarrow> (int \<Rightarrow> int) \<Rightarrow> int \<Rightarrow> int \<times> (int \<Rightarrow> int)" where
  "take_slot k n bound mark a locate =
     (if a k \<noteq> mark then (a k, a(k := mark))
      else (case probe (nat bound) k 0 n mark a of
              Some p \<Rightarrow> (a p, a(p := mark))
            | None \<Rightarrow> (locate, a)))"

text \<open>One round: draw a number, take a slot, do the piece that it names.\<close>

definition pick_step ::
  "int \<Rightarrow> int \<Rightarrow> (int \<Rightarrow> view \<Rightarrow> view) \<Rightarrow> int \<Rightarrow> (int \<Rightarrow> int) \<times> int \<times> view \<Rightarrow> (int \<Rightarrow> int) \<times> int \<times> view" where
  "pick_step n mark piece m st = (case st of (a, locate, s) \<Rightarrow>
     (case take_slot (next_rand s smod n) n n mark a locate of
        (locate', a') \<Rightarrow> (a', locate', piece locate' (drop_rand s))))"

text \<open>\<open>locate\<close> is not initialised: \<open>l0\<close> is whatever it holds.\<close>

definition pick_loop :: "int \<Rightarrow> int \<Rightarrow> (int \<Rightarrow> view \<Rightarrow> view) \<Rightarrow> int \<Rightarrow> view \<Rightarrow> view" where
  "pick_loop n mark piece l0 s =
     snd (snd (for_range 0 n (pick_step n mark piece) (\<lambda>i. i, l0, s)))"

definition random_line :: "int \<Rightarrow> int \<Rightarrow> int \<Rightarrow> int \<Rightarrow> int \<Rightarrow> view \<Rightarrow> view" where
  "random_line init_x init_y leng_w leng_h locate =
     for_range 0 leng_w (\<lambda>i. put_scaled init_x init_y leng_w leng_h i locate)"

definition line_loops :: "int \<Rightarrow> int \<Rightarrow> int \<Rightarrow> int \<Rightarrow> int \<Rightarrow> view \<Rightarrow> view" where
  "line_loops l0 init_x init_y leng_w leng_h =
     pick_loop leng_h 9999 (random_line init_x init_y leng_w leng_h) l0"

definition show_pic_5 :: "int \<Rightarrow> picture \<Rightarrow> int \<Rightarrow> int \<Rightarrow> int \<Rightarrow> int \<Rightarrow> callback \<Rightarrow> view \<Rightarrow> view" where
  "show_pic_5 l0 pic_buf init_x init_y leng_w leng_h tran_24_32_16 s =
     free_buf (line_loops l0 init_x init_y leng_w leng_h
       (tran_24_32_16 pic_buf (malloc_buf (to_int32 (wid s * height s * vbpp s) sdiv 8) s)))"

definition num_x :: int where "num_x = 50"
definition num_y :: int where "num_y = 50"

definition random_square :: "int \<Rightarrow> int \<Rightarrow> int \<Rightarrow> int \<Rightarrow> int \<Rightarrow> view \<Rightarrow> view" where
  "random_square init_x init_y leng_w leng_h locate =
     for_range (leng_w * (locate smod num_x) sdiv num_x) (leng_w * (locate smod num_x + 1) sdiv num_x) (\<lambda>i.
       for_range (leng_h * (locate sdiv num_y) sdiv num_y) (leng_h * (locate sdiv num_y + 1) sdiv num_y) (\<lambda>j.
         put_scaled init_x init_y leng_w leng_h i j))"

definition square_loops :: "int \<Rightarrow> int \<Rightarrow> int \<Rightarrow> int \<Rightarrow> int \<Rightarrow> view \<Rightarrow> view" where
  "square_loops l0 init_x init_y leng_w leng_h =
     pick_loop (num_x * num_y) 9999 (random_square init_x init_y leng_w leng_h) l0"

definition show_pic_13 :: "int \<Rightarrow> picture \<Rightarrow> int \<Rightarrow> int \<Rightarrow> int \<Rightarrow> int \<Rightarrow> callback \<Rightarrow> view \<Rightarrow> view" where
  "show_pic_13 l0 pic_buf init_x init_y leng_w leng_h tran_24_32_16 s =
     free_buf (square_loops l0 init_x init_y leng_w leng_h
       (tran_24_32_16 pic_buf (malloc_buf (to_int32 (wid s * height s * vbpp s) sdiv 8) s)))"

subsection \<open>A growing rectangle: \<open>show_pic_14\<close>\<close>

definition zoom_pixel :: "int \<Rightarrow> int \<Rightarrow> int \<Rightarrow> int \<Rightarrow> int \<Rightarrow> int \<Rightarrow> int \<Rightarrow> view \<Rightarrow> view" where
  "zoom_pixel init_x init_y leng_w leng_h k j i s =
     (let w_num = (leng_w sdiv 2 - k + j) * wid s sdiv leng_w;
          h_num = (leng_h sdiv 2 - k * leng_h sdiv leng_w + i) * height s sdiv leng_h
      in blit (init_x + j + (leng_w sdiv 2 - k)
               + (i + init_y + leng_h sdiv 2 - k * leng_h sdiv leng_w) * vw s)
              (w_num + h_num * wid s) s)"

definition zoom_loops :: "int \<Rightarrow> int \<Rightarrow> int \<Rightarrow> int \<Rightarrow> view \<Rightarrow> view" where
  "zoom_loops init_x init_y leng_w leng_h =
     for_step 0 (leng_w sdiv 2) 5 (\<lambda>k. for_range 0 (2 * k) (\<lambda>j.
       for_range 0 (2 * k * leng_h sdiv leng_w) (\<lambda>i. zoom_pixel init_x init_y leng_w leng_h k j i)))"

definition show_pic_14 :: "picture \<Rightarrow> int \<Rightarrow> int \<Rightarrow> int \<Rightarrow> int \<Rightarrow> callback \<Rightarrow> view \<Rightarrow> view" where
  "show_pic_14 pic_buf init_x init_y leng_w leng_h tran_24_32_16 s =
     free_buf (zoom_loops init_x init_y leng_w leng_h
       (tran_24_32_16 pic_buf (malloc_buf (to_int32 (wid s * height s * vbpp s) sdiv 8) s)))"

subsection \<open>What the loops cover\<close>

lemma paints_set: "paints c x y lw lh D f \<Longrightarrow> D = E \<Longrightarrow> paints c x y lw lh E f"
  by simp

lemma mirror_UN: "(\<Union>j \<in> {0..<n}. F (n - 1 - j)) = (\<Union>j \<in> {0..<n}. F j)" for n :: int
proof
  show "(\<Union>j \<in> {0..<n}. F (n - 1 - j)) \<subseteq> (\<Union>j \<in> {0..<n}. F j)"
  proof (intro UN_least)
    fix j assume "j \<in> {0..<n}"
    then show "F (n - 1 - j) \<subseteq> (\<Union>j \<in> {0..<n}. F j)" by (intro UN_upper) auto
  qed
  have "F j \<subseteq> (\<Union>j \<in> {0..<n}. F (n - 1 - j))" if "0 \<le> j" "j < n" for j
    using that UN_upper [of "n - 1 - j" "{0..<n}" "\<lambda>j. F (n - 1 - j)"] by simp
  then show "(\<Union>j \<in> {0..<n}. F j) \<subseteq> (\<Union>j \<in> {0..<n}. F (n - 1 - j))"
    by (intro UN_least) auto
qed

text \<open>Consecutive strips cover everything between the first and the last boundary.\<close>

lemma strips_cover:
  assumes "a \<le> (b :: int)" and "f a \<le> (i :: int)" and "i < f b"
  shows "\<exists>k. a < k \<and> k \<le> b \<and> f (k - 1) \<le> i \<and> i < f k"
  using assms
proof (induction b rule: int_ge_induct)
  case base
  then show ?case by simp
next
  case (step b)
  show ?case
  proof (cases "i < f b")
    case True
    then obtain k where "a < k" "k \<le> b" "f (k - 1) \<le> i" "i < f k" using step by blast
    then show ?thesis by (intro exI [of _ k]) auto
  next
    case False
    then show ?thesis using step by (intro exI [of _ "b + 1"]) auto
  qed
qed

lemma sdiv_portion_le:
  assumes "0 < p" "0 \<le> a" "a \<le> p" "0 \<le> (h :: int)"
  shows "0 \<le> a * h sdiv p \<and> a * h sdiv p \<le> h"
proof -
  have "a * h \<le> p * h" using assms by (intro mult_right_mono) auto
  then have "a * h div p \<le> p * h div p" using assms by (intro zdiv_mono1) auto
  then show ?thesis using assms by (simp add: sdiv_nonneg pos_imp_zdiv_nonneg_iff)
qed

lemma portions_cover:
  assumes "0 < p" "0 \<le> i" "i < (h :: int)"
  shows "\<exists>k. 0 < k \<and> k \<le> p \<and> (k - 1) * h sdiv p \<le> i \<and> i < k * h sdiv p"
proof (rule strips_cover)
  show "i < p * h sdiv p" using assms by (simp add: sdiv_nonneg)
qed (use assms in auto)

lemma strip_rows:
  assumes "1 \<le> k" "k < p + 1" "0 < (lh :: int)" "(k - 1) * lh sdiv p \<le> i" "i < k * lh sdiv p"
  shows "0 \<le> i \<and> i < lh"
  using sdiv_portion_le [of p k lh] sdiv_portion_le [of p "k - 1" lh] assms by auto

lemma strips_area:
  assumes "0 < p" "0 < lw" "0 < (lh :: int)"
  shows "(\<Union>k \<in> {1..<p + 1}. \<Union>j \<in> {0..<lw}. \<Union>i \<in> {(k - 1) * lh sdiv p..<k * lh sdiv p}. {(j, i)})
    = whole_area lw lh" (is "?L = _")
proof
  show "?L \<subseteq> whole_area lw lh"
    using strip_rows [of _ p lh] assms by auto
  show "whole_area lw lh \<subseteq> ?L"
  proof
    fix q assume "q \<in> whole_area lw lh"
    then obtain j i where q: "q = (j, i)" "0 \<le> j" "j < lw" "0 \<le> i" "i < lh" by auto
    then obtain k where "0 < k" "k \<le> p" "(k - 1) * lh sdiv p \<le> i" "i < k * lh sdiv p"
      using portions_cover [of p i lh] assms by blast
    then show "q \<in> ?L" using q by (intro UN_I [of k] UN_I [of j] UN_I [of i]) auto
  qed
qed

lemma wipe_transition:
  assumes "0 < p"
  shows "transition (wipe_loops p) whole_area (\<lambda>_ _. True)"
proof
  fix c x y and lw lh :: int assume a: "0 < lw" "0 < lh"
  show "paints c x y lw lh (whole_area lw lh) (wipe_loops p x y lw lh)"
    unfolding wipe_loops_def strips_area [OF assms a, symmetric]
    by (intro paints_range paints_put) (use strip_rows a in blast)+
qed simp

interpretation wipe: transition "wipe_loops 3" whole_area "\<lambda>_ _. True"
  by (rule wipe_transition) simp

lemma snake_transition:
  assumes "0 < p"
  shows "transition (snake_loops p) whole_area (\<lambda>_ _. True)"
proof
  fix c x y and lw lh :: int assume a: "0 < lw" "0 < lh"
  let ?k = "\<lambda>l j. if l smod 2 = (0 :: int) then lw - 1 - j else j"
  let ?U = "\<lambda>l. \<Union>j \<in> {0..<lw}. \<Union>i \<in> {(l - 1) * lh sdiv p..<l * lh sdiv p}. {(?k l j, i)}"
  let ?V = "\<lambda>l. \<Union>j \<in> {0..<lw}. \<Union>i \<in> {(l - 1) * lh sdiv p..<l * lh sdiv p}. {(j, i)}"
  have "?U l = ?V l" for l
  proof (cases "l smod 2 = 0")
    case True
    then show ?thesis
      using mirror_UN [where n = lw and F = "\<lambda>j. \<Union>i \<in> {(l - 1) * lh sdiv p..<l * lh sdiv p}. {(j, i)}"] by simp
  qed simp
  moreover have "paints c x y lw lh (\<Union>l \<in> {1..<p + 1}. ?U l) (snake_loops p x y lw lh)"
    unfolding snake_loops_def Let_def
    by (intro paints_range paints_put) (use strip_rows a in \<open>(fastforce split: if_splits)+\<close>)
  ultimately show "paints c x y lw lh (whole_area lw lh) (snake_loops p x y lw lh)"
    using strips_area [OF assms a] by simp
qed simp

interpretation snake: transition "snake_loops 5" whole_area "\<lambda>_ _. True"
  by (rule snake_transition) simp

text \<open>
  The blinds have \<open>lh div p\<close> rows each, so they reach row \<open>2 * (p div 2) * (lh div p)\<close>; the rows
  below are never drawn.
\<close>

definition blinds_rows :: "int \<Rightarrow> int \<Rightarrow> int" where
  "blinds_rows p lh = 2 * (p div 2) * (lh div p)"

lemma blinds_rows_le: "0 < p \<Longrightarrow> 0 \<le> lh \<Longrightarrow> blinds_rows p lh \<le> lh"
proof -
  assume a: "0 < p" "0 \<le> lh"
  have "2 * (p div 2) * (lh div p) \<le> p * (lh div p)"
    using a by (intro mult_right_mono) (auto simp: pos_imp_zdiv_nonneg_iff)
  also have "\<dots> \<le> lh"
    using a pos_mod_sign [of p lh] mult_div_mod_eq [of p lh] by linarith
  finally show ?thesis by (simp add: blinds_rows_def)
qed

lemma blinds_union:
  assumes "0 \<le> (q :: int)" "0 \<le> (s :: int)"
  shows "(\<Union>k \<in> {1..<q + 1}. {(2 * k - 1) * s..<2 * k * s} \<union> {2 * (k - 1) * s..<(2 * k - 1) * s})
    = {0..<2 * q * s}"
proof -
  have "{(2 * k - 1) * s..<2 * k * s} \<union> {2 * (k - 1) * s..<(2 * k - 1) * s}
      = {2 * (k - 1) * s..<2 * k * s}" for k
    using assms by (auto simp: algebra_simps)
  moreover have "(\<Union>k \<in> {1..<q + 1}. {2 * (k - 1) * s..<2 * k * s}) = {0..<2 * q * s}" (is "?L = ?R")
  proof
    have "2 * k * s \<le> 2 * q * s" if "k < q + 1" for k
      using that assms by (intro mult_right_mono) auto
    moreover have "0 \<le> 2 * (k - 1) * s" if "1 \<le> k" for k using that assms by simp
    ultimately show "?L \<subseteq> ?R" by fastforce
    show "?R \<subseteq> ?L"
    proof
      fix i assume "i \<in> ?R"
      then obtain k where "0 < k" "k \<le> q" "2 * (k - 1) * s \<le> i" "i < 2 * k * s"
        using strips_cover [of 0 q "\<lambda>k. 2 * k * s" i] assms by auto
      then show "i \<in> ?L" by (intro UN_I [of k]) auto
    qed
  qed
  ultimately show ?thesis by simp
qed

lemma blinds_transition:
  assumes p: "0 < p"
  shows "transition (blinds_loops p) (\<lambda>lw lh. {0..<lw} \<times> {0..<blinds_rows p lh}) (\<lambda>_ _. True)"
proof
  fix c x y and lw lh :: int assume a: "0 < lw" "0 < lh"
  let ?s = "lh div p" and ?q = "p div 2"
  have s: "lh sdiv p = ?s" "p sdiv 2 = ?q" "0 \<le> ?s" "0 \<le> ?q"
    using p a by (simp_all add: sdiv_nonneg pos_imp_zdiv_nonneg_iff)
  let ?A = "\<lambda>k. {(2 * k - 1) * ?s..<2 * k * ?s}" and ?B = "\<lambda>k. {2 * (k - 1) * ?s..<(2 * k - 1) * ?s}"
  have u: "(\<Union>k \<in> {1..<?q + 1}. ?A k \<union> ?B k) = {0..<blinds_rows p lh}"
    using blinds_union [OF s(4,3)] by (simp add: blinds_rows_def)
  then have i: "0 \<le> i \<and> i < lh" if "1 \<le> k" "k < ?q + 1" "i \<in> ?A k \<union> ?B k" for k i
  proof -
    have "i \<in> (\<Union>k \<in> {1..<?q + 1}. ?A k \<union> ?B k)" using that by (intro UN_I [of k]) auto
    then have "i \<in> {0..<blinds_rows p lh}" by (simp only: u)
    then show ?thesis using blinds_rows_le [OF p, of lh] a by simp
  qed
  have pa: "paints c x y lw lh (\<Union>i \<in> I. {(j, i)}) (for_range m n (\<lambda>i. put_scaled x y lw lh j i))"
    if "I = {m..<n}" "0 \<le> j" "j < lw" "\<And>i. i \<in> I \<Longrightarrow> 0 \<le> i \<and> i < lh" for I m n j
    unfolding that(1) by (intro paints_range paints_put) (use that in auto)
  have "paints c x y lw lh
      (\<Union>j \<in> {0..<lw}. \<Union>k \<in> {1..<?q + 1}. (\<Union>i \<in> ?A k. {(j, i)}) \<union> (\<Union>i \<in> ?B k. {(lw - 1 - j, i)}))
      (blinds_loops p x y lw lh)"
    unfolding blinds_loops_def s Let_def
  proof (rule paints_range, rule paints_range)
    fix j k assume jk: "0 \<le> j" "j < lw" "1 \<le> k" "k < ?q + 1"
    have A: "\<And>i. i \<in> ?A k \<Longrightarrow> 0 \<le> i \<and> i < lh" and B: "\<And>i. i \<in> ?B k \<Longrightarrow> 0 \<le> i \<and> i < lh"
      using i [OF jk(3,4)] by blast+
    let ?f = "for_range ((2 * k - 1) * ?s) (2 * k * ?s) (\<lambda>i. put_scaled x y lw lh j i)"
    let ?g = "for_range (2 * (k - 1) * ?s) ((2 * k - 1) * ?s) (\<lambda>i. put_scaled x y lw lh (lw - 1 - j) i)"
    have "paints c x y lw lh (\<Union>i \<in> ?A k. {(j, i)}) ?f"
      by (rule pa [OF refl jk(1,2) A])
    moreover have "0 \<le> lw - 1 - j" "lw - 1 - j < lw" using jk by auto
    then have "paints c x y lw lh (\<Union>i \<in> ?B k. {(lw - 1 - j, i)}) ?g"
      by (rule pa [OF refl _ _ B])
    ultimately show "paints c x y lw lh ((\<Union>i \<in> ?A k. {(j, i)}) \<union> (\<Union>i \<in> ?B k. {(lw - 1 - j, i)}))
        (\<lambda>s. ?g (?f s))" by (rule paints_comp)
  qed
  moreover have "(\<Union>j \<in> {0..<lw}. \<Union>k \<in> {1..<?q + 1}. (\<Union>i \<in> ?A k. {(j, i)}) \<union> (\<Union>i \<in> ?B k. {(lw - 1 - j, i)}))
      = {0..<lw} \<times> (\<Union>k \<in> {1..<?q + 1}. ?A k \<union> ?B k)"
  proof -
    have "(\<Union>j \<in> {0..<lw}. \<Union>k \<in> {1..<?q + 1}. \<Union>i \<in> ?B k. {(lw - 1 - j, i)})
        = (\<Union>j \<in> {0..<lw}. \<Union>k \<in> {1..<?q + 1}. \<Union>i \<in> ?B k. {(j, i)})"
      by (rule mirror_UN [where F = "\<lambda>j. \<Union>k \<in> {1..<?q + 1}. \<Union>i \<in> ?B k. {(j, i)}"])
    then show ?thesis unfolding UN_Un_distrib by auto
  qed
  ultimately show "paints c x y lw lh ({0..<lw} \<times> {0..<blinds_rows p lh}) (blinds_loops p x y lw lh)"
    unfolding u by simp
next
  show "{0..<lw} \<times> {0..<blinds_rows p lh} \<subseteq> whole_area lw lh" if "0 < lh" for lw lh
    using blinds_rows_le [OF p, of lh] that by auto
qed

interpretation blinds: transition "blinds_loops 16" "\<lambda>lw lh. {0..<lw} \<times> {0..<blinds_rows 16 lh}" "\<lambda>_ _. True"
  by (rule blinds_transition) simp

text \<open>The interlaced lines: line \<open>m\<close> of each portion, for \<open>m < lh div p\<close>.\<close>

definition interlaced :: "int \<Rightarrow> int \<Rightarrow> int set" where
  "interlaced p lh = (\<Union>m \<in> {0..<lh div p}. \<Union>k \<in> {1..<p + 1}. {(k - 1) * lh div p + m})"

lemma interlaced_inside:
  assumes "0 < p" "0 < lh"
  shows "interlaced p lh \<subseteq> {0..<lh}"
proof -
  have "0 \<le> (k - 1) * lh div p + m \<and> (k - 1) * lh div p + m < lh"
    if "1 \<le> k" "k < p + 1" "0 \<le> m" "m < lh div p" for k m
  proof -
    have "(k - 1) * lh \<le> (p - 1) * lh" using that assms by (intro mult_right_mono) auto
    then have "(k - 1) * lh \<le> - lh + p * lh" by (simp add: algebra_simps)
    then have "(k - 1) * lh div p \<le> (- lh + p * lh) div p" using assms by (intro zdiv_mono1) auto
    also have "\<dots> = lh + (- lh) div p" using assms by (simp only: div_mult_self2)
    also have "(- lh) div p \<le> - (lh div p)"
      using zdiv_zminus1_eq_if [of p lh] assms by simp
    finally show ?thesis using that assms by (simp add: pos_imp_zdiv_nonneg_iff)
  qed
  then show ?thesis unfolding interlaced_def by fastforce
qed

text \<open>All lines, when the number of portions divides the height.\<close>

lemma interlaced_all:
  assumes "0 < p" "0 < lh" "p dvd lh"
  shows "interlaced p lh = {0..<lh}"
proof
  show "interlaced p lh \<subseteq> {0..<lh}" using interlaced_inside assms by blast
  obtain n where n: "lh = p * n" using assms by blast
  have "0 < n" using n assms by (simp add: zero_less_mult_iff)
  show "{0..<lh} \<subseteq> interlaced p lh"
  proof
    fix i assume i: "i \<in> {0..<lh}"
    have "i div n * n + i mod n = i" by simp
    moreover have "i div n < p"
    proof (rule ccontr)
      assume "\<not> i div n < p"
      then have "p * n \<le> i div n * n" using \<open>0 < n\<close> by (intro mult_right_mono) auto
      moreover have "i div n * n \<le> i"
        using \<open>0 < n\<close> div_mult_mod_eq [of i n] pos_mod_sign [of n i] by linarith
      moreover have "i < p * n" using i n by simp
      ultimately show False by linarith
    qed
    moreover have "(i div n + 1 - 1) * lh div p = i div n * n"
      using assms n by (simp add: mult.left_commute [of _ p])
    moreover have "lh div p = n" using n assms by simp
    ultimately show "i \<in> interlaced p lh"
      using i \<open>0 < n\<close> unfolding interlaced_def
      by (intro UN_I [of "i mod n"] UN_I [of "i div n + 1"]) (auto simp: pos_imp_zdiv_nonneg_iff)
  qed
qed

lemma interlace_transition:
  assumes p: "0 < p"
  shows "transition (interlace_loops p) (\<lambda>lw lh. {0..<lw} \<times> interlaced p lh) (\<lambda>_ _. True)"
proof
  fix c x y and lw lh :: int assume a: "0 < lw" "0 < lh"
  let ?r = "\<lambda>k m. (k - 1) * lh sdiv p + m"
  have r: "?r k m = (k - 1) * lh div p + m" if "1 \<le> k" for k m
    using that p a by (simp add: sdiv_nonneg)
  have q: "lh sdiv p = lh div p" using p a by (simp add: sdiv_nonneg)
  have i: "0 \<le> i \<and> i < lh" if "0 \<le> m" "m < lh sdiv p" "1 \<le> k" "k < p + 1" "i = ?r k m" for k m i
  proof -
    have "i \<in> interlaced p lh" using that r q
      unfolding interlaced_def by (intro UN_I [of m] UN_I [of k]) auto
    then show ?thesis using interlaced_inside [OF p a(2)] by auto
  qed
  have "paints c x y lw lh
      (\<Union>m \<in> {0..<lh sdiv p}. \<Union>k \<in> {1..<p + 1}. \<Union>i \<in> {?r k m..<?r k m + 1}. \<Union>j \<in> {0..<lw}. {(j, i)})
      (interlace_loops p x y lw lh)"
    unfolding interlace_loops_def
  proof (intro paints_range paints_put)
    fix m k i j
    assume "0 \<le> m" "m < lh sdiv p" "1 \<le> k" "k < p + 1" "?r k m \<le> i" "i < ?r k m + 1" "0 \<le> j" "j < lw"
    then show "0 \<le> j" "j < lw" "0 \<le> i" "i < lh" using i [of m k i] by auto
  qed
  moreover have "(\<Union>m \<in> {0..<lh sdiv p}. \<Union>k \<in> {1..<p + 1}. \<Union>i \<in> {?r k m..<?r k m + 1}. \<Union>j \<in> {0..<lw}. {(j, i)})
      = {0..<lw} \<times> interlaced p lh"
  proof -
    have "{?r k m..<?r k m + 1} = {(k - 1) * lh div p + m}" if "k \<in> {1..<p + 1}" for k m
      using r [of k m] that by auto
    then have "(\<Union>k \<in> {1..<p + 1}. \<Union>i \<in> {?r k m..<?r k m + 1}. \<Union>j \<in> {0..<lw}. {(j, i)})
        = (\<Union>k \<in> {1..<p + 1}. \<Union>i \<in> {(k - 1) * lh div p + m}. \<Union>j \<in> {0..<lw}. {(j, i)})" for m
      by (intro SUP_cong) auto
    then show ?thesis unfolding interlaced_def q by auto
  qed
  ultimately show "paints c x y lw lh ({0..<lw} \<times> interlaced p lh) (interlace_loops p x y lw lh)"
    by simp
next
  show "{0..<lw} \<times> interlaced p lh \<subseteq> whole_area lw lh" if "0 < lh" for lw lh
    using interlaced_inside [OF p that] by auto
qed

interpretation interlace: transition "interlace_loops 8" "\<lambda>lw lh. {0..<lw} \<times> interlaced 8 lh" "\<lambda>_ _. True"
  by (rule interlace_transition) simp

subsection \<open>A random order visits every piece once\<close>

lemma probe_Some:
  "probe f k l n mark a = Some p \<Longrightarrow> \<exists>i. l \<le> i \<and> p = (k + i) smod n \<and> a p \<noteq> mark"
proof (induction f arbitrary: l)
  case (Suc f)
  show ?case
  proof (cases "a ((k + l) smod n) = mark")
    case True
    then obtain i where "l + 1 \<le> i" "p = (k + i) smod n" "a p \<noteq> mark" using Suc by auto
    then show ?thesis by (intro exI [of _ i]) auto
  qed (use Suc.prems in auto)
qed simp

lemma probe_None:
  "probe f k l n mark a = None \<Longrightarrow> l \<le> i \<Longrightarrow> i < l + int f \<Longrightarrow> a ((k + i) smod n) = mark"
proof (induction f arbitrary: l)
  case (Suc f)
  then have a: "a ((k + l) smod n) = mark" "probe f k (l + 1) n mark a = None"
    by (auto split: if_splits)
  show ?case using a Suc.IH [OF a(2)] Suc.prems(2,3) by (cases "i = l") auto
qed simp

lemma take_slot_fresh:
  assumes k: "0 \<le> k" "k < n" and free: "0 \<le> i" "i < n" "a i \<noteq> mark"
  shows "\<exists>p. 0 \<le> p \<and> p < n \<and> a p \<noteq> mark \<and> take_slot k n n mark a loc = (a p, a(p := mark))"
proof (cases "a k = mark")
  case False
  then show ?thesis using k by (intro exI [of _ k]) (simp add: take_slot_def)
next
  case True
  show ?thesis
  proof (cases "probe (nat n) k 0 n mark a")
    case None
    have "(k + (i - k) mod n) smod n = (k + (i - k) mod n) mod n"
      using k by (simp add: smod_nonneg)
    also have "\<dots> = i" using free by (simp add: mod_add_right_eq)
    finally have "a i = mark"
      using probe_None [OF None, of "(i - k) mod n"] k by simp
    then show ?thesis using free by simp
  next
    case (Some p)
    then obtain l where "0 \<le> l" "p = (k + l) smod n" "a p \<noteq> mark"
      using probe_Some [OF Some] by auto
    moreover from this have "0 \<le> p \<and> p < n" using k by (simp add: smod_nonneg)
    ultimately show ?thesis using True Some by (intro exI [of _ p]) (simp add: take_slot_def)
  qed
qed

text \<open>After \<open>m\<close> rounds \<open>m\<close> different entries have been used, and their pieces are painted.\<close>

definition picked :: "int \<Rightarrow> int \<Rightarrow> (int \<Rightarrow> int) \<Rightarrow> int set \<Rightarrow> (int \<Rightarrow> int) \<Rightarrow> bool" where
  "picked n mark v T a \<longleftrightarrow> T \<subseteq> {0..<n} \<and> (\<forall>i. 0 \<le> i \<and> i < n \<longrightarrow> a i = (if i \<in> T then mark else v i))"

lemma pick_fresh:
  assumes "picked n mark v T a" and "int (card T) < n" and v: "\<And>i. 0 \<le> i \<Longrightarrow> i < n \<Longrightarrow> v i \<noteq> mark"
    and k: "0 \<le> k" "k < n"
  shows "\<exists>p. p \<in> {0..<n} - T \<and> take_slot k n n mark a loc = (v p, a(p := mark))
           \<and> picked n mark v (insert p T) (a(p := mark)) \<and> card (insert p T) = Suc (card T)"
proof -
  have T: "T \<subseteq> {0..<n}" using assms(1) by (simp add: picked_def)
  have "T \<noteq> {0..<n}"
  proof
    assume "T = {0..<n}"
    then have "int (card T) = n" using k by simp
    then show False using assms(2) by simp
  qed
  then have "T \<subset> {0..<n}" using T by blast
  then have "\<exists>i. i \<in> {0..<n} \<and> i \<notin> T" by (rule psubset_imp_ex_mem [unfolded Diff_iff])
  then obtain i where i: "0 \<le> i" "i < n" "i \<notin> T" by auto
  then have "a i \<noteq> mark" using assms(1) v by (simp add: picked_def)
  then obtain p where p: "0 \<le> p" "p < n" "a p \<noteq> mark" "take_slot k n n mark a loc = (a p, a(p := mark))"
    using take_slot_fresh [OF k i(1,2)] by blast
  then have "p \<notin> T \<and> a p = v p" using assms(1) by (auto simp: picked_def split: if_splits)
  moreover have "finite T" using T by (rule finite_subset) simp
  ultimately show ?thesis using p assms(1) by (intro exI [of _ p]) (auto simp: picked_def)
qed

lemma shown_drop_rand: "shown c x y lw lh D s u \<Longrightarrow> shown c x y lw lh D s (drop_rand u)"
proof -
  have "look (drop_rand u) = look u" "same_view s (drop_rand u) = same_view s u"
    by (auto simp: drop_rand_def look_def same_view_def fun_eq_iff)
  then show "shown c x y lw lh D s u \<Longrightarrow> shown c x y lw lh D s (drop_rand u)"
    by (simp add: shown_def)
qed

lemma pick_loop_paints:
  assumes n: "0 < n" "n \<le> mark"
    and piece: "\<And>l. 0 \<le> l \<Longrightarrow> l < n \<Longrightarrow> paints c x y lw lh (E l) (piece l)"
  shows "paints c x y lw lh (\<Union>l \<in> {0..<n}. E l) (pick_loop n mark piece l0)"
  unfolding paints_def
proof (intro allI impI)
  fix s assume s: "ready c x y lw lh s"
  let ?P = "\<lambda>m (st :: (int \<Rightarrow> int) \<times> int \<times> view). \<exists>T. picked n mark (\<lambda>i. i) T (fst st) \<and> int (card T) = m
     \<and> shown c x y lw lh (\<Union>l \<in> T. E l) s (snd (snd st))"
  have "?P n (for_range 0 n (pick_step n mark piece) (\<lambda>i. i, l0, s))"
  proof (rule for_range_invariant [where P = ?P])
    show "?P 0 (\<lambda>i. i, l0, s)"
      by (intro exI [of _ "{}"]) (simp add: picked_def shown_empty)
  next
    fix m st assume m: "0 \<le> m" "m < n" and P: "?P m st"
    obtain a loc u where st: "st = (a, loc, u)" by (cases st)
    obtain T where T: "picked n mark (\<lambda>i. i) T a" "int (card T) = m"
      "shown c x y lw lh (\<Union>l \<in> T. E l) s u" using P st by auto
    moreover have "0 \<le> next_rand u smod n \<and> next_rand u smod n < n"
      using n by (simp add: smod_nonneg next_rand_def)
    ultimately obtain p where p: "p \<in> {0..<n} - T" "picked n mark (\<lambda>i. i) (insert p T) (a(p := mark))"
      "take_slot (next_rand u smod n) n n mark a loc = (p, a(p := mark))" "card (insert p T) = Suc (card T)"
      using pick_fresh [OF T(1), of "next_rand u smod n" loc] m n(2) by auto
    have u: "shown c x y lw lh (\<Union>l \<in> T. E l) s (drop_rand u)"
      using T(3) by (rule shown_drop_rand)
    then have "shown c x y lw lh (E p) (drop_rand u) (piece p (drop_rand u))"
      using piece [of p] p(1) shown_ready [OF s u] by (simp add: paints_def)
    then have "shown c x y lw lh (\<Union>l \<in> insert p T. E l) s (piece p (drop_rand u))"
      using shown_comp [OF u] by (simp add: Un_commute)
    then show "?P (m + 1) (pick_step n mark piece m st)"
      using p T(2) st by (intro exI [of _ "insert p T"]) (simp add: pick_step_def)
  qed (use n in simp)
  then obtain T where T: "T \<subseteq> {0..<n}" "int (card T) = n"
    "shown c x y lw lh (\<Union>l \<in> T. E l) s (pick_loop n mark piece l0 s)"
    by (auto simp: pick_loop_def picked_def)
  then have "T = {0..<n}" by (intro card_subset_eq) auto
  then show "shown c x y lw lh (\<Union>l \<in> {0..<n}. E l) s (pick_loop n mark piece l0 s)"
    using T(3) by simp
qed

lemma line_transition: "transition (line_loops l0) whole_area (\<lambda>_ lh. lh \<le> 9999)"
proof
  fix c x y and lw lh :: int assume a: "0 < lw" "0 < lh" "lh \<le> 9999"
  have "paints c x y lw lh (\<Union>l \<in> {0..<lh}. \<Union>j \<in> {0..<lw}. {(j, l)}) (line_loops l0 x y lw lh)"
    unfolding line_loops_def
  proof (rule pick_loop_paints)
    show "paints c x y lw lh (\<Union>j \<in> {0..<lw}. {(j, l)}) (random_line x y lw lh l)"
      if "0 \<le> l" "l < lh" for l
      unfolding random_line_def by (intro paints_range paints_put) (use that in auto)
  qed (use a in simp_all)
  then show "paints c x y lw lh (whole_area lw lh) (line_loops l0 x y lw lh)"
    by (rule paints_set) auto
qed simp

interpretation line: transition "line_loops l0" whole_area "\<lambda>_ lh. lh \<le> 9999" for l0
  by (rule line_transition)

text \<open>The 2500 squares cover the area, whatever its size.\<close>

definition square_cells :: "int \<Rightarrow> int \<Rightarrow> int \<Rightarrow> (int \<times> int) set" where
  "square_cells lw lh l =
     {lw * (l mod 50) div 50..<lw * (l mod 50 + 1) div 50} \<times> {lh * (l div 50) div 50..<lh * (l div 50 + 1) div 50}"

lemma square_side:
  assumes "0 \<le> q" "q < 50" "0 < (n :: int)"
  shows "0 \<le> n * q div 50 \<and> n * (q + 1) div 50 \<le> n"
proof -
  have "n * (q + 1) \<le> n * 50" using assms by (intro mult_left_mono) auto
  then have "n * (q + 1) div 50 \<le> n * 50 div 50" by (intro zdiv_mono1) auto
  then show ?thesis using assms by (simp add: pos_imp_zdiv_nonneg_iff)
qed

lemma squares_cover:
  assumes "0 < lw" "0 < lh"
  shows "(\<Union>l \<in> {0..<2500}. square_cells lw lh l) = whole_area lw lh"
proof
  have "square_cells lw lh l \<subseteq> whole_area lw lh" if l: "0 \<le> l" "l < 2500" for l
  proof -
    have "0 \<le> l div 50" "l div 50 < 50" using l by auto
    then have "0 \<le> lw * (l mod 50) div 50 \<and> lw * (l mod 50 + 1) div 50 \<le> lw"
      "0 \<le> lh * (l div 50) div 50 \<and> lh * (l div 50 + 1) div 50 \<le> lh"
      using square_side [of "l mod 50" lw] square_side [of "l div 50" lh] assms by simp_all
    then show ?thesis unfolding square_cells_def by (intro Sigma_mono) auto
  qed
  then show "(\<Union>l \<in> {0..<2500}. square_cells lw lh l) \<subseteq> whole_area lw lh" by (intro UN_least) auto
  have side: "\<exists>k. 0 \<le> k \<and> k < 50 \<and> n * k div 50 \<le> i \<and> i < n * (k + 1) div 50"
    if i: "0 \<le> i" "i < n" for i n :: int
  proof -
    have "\<exists>k. 0 < k \<and> k \<le> 50 \<and> n * (k - 1) div 50 \<le> i \<and> i < n * k div 50"
      by (rule strips_cover) (use i in simp_all)
    then obtain k where "0 < k" "k \<le> 50" "n * (k - 1) div 50 \<le> i" "i < n * k div 50" by blast
    then show ?thesis by (intro exI [of _ "k - 1"]) auto
  qed
  show "whole_area lw lh \<subseteq> (\<Union>l \<in> {0..<2500}. square_cells lw lh l)"
  proof
    fix q assume "q \<in> whole_area lw lh"
    then obtain j i where q: "q = (j, i)" "0 \<le> j" "j < lw" "0 \<le> i" "i < lh" by auto
    obtain a where a: "0 \<le> a" "a < 50" "lw * a div 50 \<le> j" "j < lw * (a + 1) div 50"
      using side [OF q(2,3)] by blast
    obtain b where b: "0 \<le> b" "b < 50" "lh * b div 50 \<le> i" "i < lh * (b + 1) div 50"
      using side [OF q(4,5)] by blast
    have "(b * 50 + a) mod 50 = a" "(b * 50 + a) div 50 = b"
      using a by (simp_all add: field_mod field_div)
    then have "q \<in> square_cells lw lh (b * 50 + a)" using q a b by (simp add: square_cells_def)
    then show "q \<in> (\<Union>l \<in> {0..<2500}. square_cells lw lh l)"
      using a b by (intro UN_I [of "b * 50 + a"]) auto
  qed
qed

lemma square_transition: "transition (square_loops l0) whole_area (\<lambda>_ _. True)"
proof
  fix c x y and lw lh :: int assume a: "0 < lw" "0 < lh"
  have "paints c x y lw lh (\<Union>l \<in> {0..<2500}. square_cells lw lh l) (square_loops l0 x y lw lh)"
    unfolding square_loops_def num_x_def num_y_def
  proof (simp, rule pick_loop_paints)
    fix l :: int assume l: "0 \<le> l" "l < 2500"
    have d: "0 \<le> l div 50" "l div 50 < 50" using l by auto
    have b: "0 \<le> lw * (l mod 50) div 50" "lw * (l mod 50 + 1) div 50 \<le> lw"
      "0 \<le> lh * (l div 50) div 50" "lh * (l div 50 + 1) div 50 \<le> lh"
      using square_side [of "l mod 50" lw] square_side [of "l div 50" lh] a d by simp_all
    have e: "lw * (l smod 50) sdiv 50 = lw * (l mod 50) div 50"
      "lw * (l smod 50 + 1) sdiv 50 = lw * (l mod 50 + 1) div 50"
      "lh * (l sdiv 50) sdiv 50 = lh * (l div 50) div 50"
      "lh * (l sdiv 50 + 1) sdiv 50 = lh * (l div 50 + 1) div 50"
      using a l d by (simp_all add: sdiv_nonneg smod_nonneg)
    have "paints c x y lw lh
      (\<Union>i \<in> {lw * (l mod 50) div 50..<lw * (l mod 50 + 1) div 50}.
        \<Union>j \<in> {lh * (l div 50) div 50..<lh * (l div 50 + 1) div 50}. {(i, j)})
      (random_square x y lw lh l)"
      unfolding random_square_def num_x_def num_y_def e
      by (rule paints_range, rule paints_range, rule paints_put)
        (use b in linarith)+
    then show "paints c x y lw lh (square_cells lw lh l) (random_square x y lw lh l)"
      by (rule paints_set) (auto simp: square_cells_def)
  qed simp_all
  then show "paints c x y lw lh (whole_area lw lh) (square_loops l0 x y lw lh)"
    by (simp only: squares_cover [OF a])
qed simp

interpretation square: transition "square_loops l0" whole_area "\<lambda>_ _. True" for l0
  by (rule square_transition)

subsection \<open>The growing rectangle stops short\<close>

definition zoom_rect :: "int \<Rightarrow> int \<Rightarrow> int \<Rightarrow> (int \<times> int) set" where
  "zoom_rect lw lh k =
     {lw div 2 - k..<lw div 2 + k} \<times>
     {lh div 2 - k * lh div lw..<lh div 2 - k * lh div lw + 2 * k * lh div lw}"

definition zoomed :: "int \<Rightarrow> int \<Rightarrow> (int \<times> int) set" where
  "zoomed lw lh = (\<Union>k \<in> {k. 0 \<le> k \<and> k < lw div 2 \<and> k mod 5 = 0}. zoom_rect lw lh k)"

lemma zoom_pixel_put:
  "zoom_pixel x y lw lh k j i = put_scaled x y lw lh (lw sdiv 2 - k + j) (lh sdiv 2 - k * lh sdiv lw + i)"
  by (rule ext) (simp add: zoom_pixel_def put_scaled_def Let_def algebra_simps)

lemma zoom_rows:
  assumes "0 \<le> k" "k < lw div 2" "0 < lw" "0 < (lh :: int)"
  shows "0 \<le> lh div 2 - k * lh div lw \<and> lh div 2 - k * lh div lw + 2 * k * lh div lw \<le> lh"
proof -
  let ?q = "k * lh div lw" and ?r = "2 * k * lh div lw"
  have q: "?q * lw \<le> k * lh" "k * lh < ?q * lw + lw" and r: "?r * lw \<le> 2 * k * lh"
    using div_mult_mod_eq [of "k * lh" lw] pos_mod_sign [of lw "k * lh"] pos_mod_bound [of lw "k * lh"]
      div_mult_mod_eq [of "2 * k * lh" lw] pos_mod_sign [of lw "2 * k * lh"] assms by linarith+
  have "2 * k + 2 \<le> lw" using assms by linarith
  then have "(2 * k + 2) * lh \<le> lw * lh" using assms by (intro mult_right_mono) auto
  then have k: "2 * (k * lh) + 2 * lh \<le> lh * lw" by (simp add: algebra_simps)
  have "2 * ?q * lw \<le> lh * lw" using q k assms by linarith
  then have "2 * ?q \<le> lh" using assms by simp
  moreover have "2 * (?r - ?q) * lw < (lh + 2) * lw"
    using q r k assms by (simp add: algebra_simps)
  then have "2 * (?r - ?q) < lh + 2" using assms by (simp only: mult_less_cancel_right_pos)
  moreover have "0 \<le> h div 2 - q \<and> h div 2 - q + r \<le> h"
    if "2 * q \<le> h" "2 * (r - q) < h + 2" for h q r :: int
    using that by presburger
  ultimately show ?thesis by blast
qed

lemma zoom_rect_inside:
  assumes "0 \<le> k" "k < lw div 2" "0 < lw" "0 < (lh :: int)"
  shows "zoom_rect lw lh k \<subseteq> {1..<lw} \<times> {0..<lh}"
  unfolding zoom_rect_def using zoom_rows [OF assms] assms by (intro Sigma_mono) auto

lemma shifted_rect:
  "(\<Union>j \<in> {0..<m}. \<Union>i \<in> {0..<n}. {(a + j, b + i)}) = {a..<a + m} \<times> {b..<b + n}"
  for a b m n :: int
proof
  show "(\<Union>j \<in> {0..<m}. \<Union>i \<in> {0..<n}. {(a + j, b + i)}) \<subseteq> {a..<a + m} \<times> {b..<b + n}" by auto
  show "{a..<a + m} \<times> {b..<b + n} \<subseteq> (\<Union>j \<in> {0..<m}. \<Union>i \<in> {0..<n}. {(a + j, b + i)})"
  proof
    fix q assume "q \<in> {a..<a + m} \<times> {b..<b + n}"
    then show "q \<in> (\<Union>j \<in> {0..<m}. \<Union>i \<in> {0..<n}. {(a + j, b + i)})"
      by (intro UN_I [of "fst q - a"] UN_I [of "snd q - b"]) auto
  qed
qed

lemma zoom_transition: "transition zoom_loops zoomed (\<lambda>_ _. True)"
proof
  fix c x y and lw lh :: int assume a: "0 < lw" "0 < lh"
  let ?K = "set [k \<leftarrow> [0..lw sdiv 2 - 1]. (k - 0) mod 5 = 0]"
  have "paints c x y lw lh (\<Union>k \<in> ?K. zoom_rect lw lh k) (zoom_loops x y lw lh)"
    unfolding zoom_loops_def for_step_def
  proof (rule paints_fold)
    fix k assume "k \<in> ?K"
    then have k: "0 \<le> k" "k < lw div 2" using a by (auto simp: sdiv_nonneg)
    have d: "lw sdiv 2 = lw div 2" "lh sdiv 2 = lh div 2" "k * lh sdiv lw = k * lh div lw"
      "2 * k * lh sdiv lw = 2 * k * lh div lw"
      using a k by (simp_all add: sdiv_nonneg)
    note in_rect = zoom_rect_inside [OF k a]
    have "paints c x y lw lh
      (\<Union>j \<in> {0..<2 * k}. \<Union>i \<in> {0..<2 * k * lh div lw}.
        {(lw div 2 - k + j, lh div 2 - k * lh div lw + i)})
      (for_range 0 (2 * k) (\<lambda>j. for_range 0 (2 * k * lh sdiv lw) (\<lambda>i. zoom_pixel x y lw lh k j i)))"
      unfolding zoom_pixel_put d
      by (rule paints_range, rule paints_range, rule paints_put)
        (use zoom_rows [OF k a] k in linarith)+
    then show "paints c x y lw lh (zoom_rect lw lh k)
      (for_range 0 (2 * k) (\<lambda>j. for_range 0 (2 * k * lh sdiv lw) (\<lambda>i. zoom_pixel x y lw lh k j i)))"
    proof (rule paints_set)
      have "lw div 2 - k + 2 * k = lw div 2 + k" by simp
      then show "(\<Union>j \<in> {0..<2 * k}. \<Union>i \<in> {0..<2 * k * lh div lw}.
          {(lw div 2 - k + j, lh div 2 - k * lh div lw + i)}) = zoom_rect lw lh k"
        by (simp only: shifted_rect zoom_rect_def)
    qed
  qed
  moreover have "?K = {k. 0 \<le> k \<and> k < lw div 2 \<and> k mod 5 = 0}" using a by (auto simp: sdiv_nonneg)
  ultimately show "paints c x y lw lh (zoomed lw lh) (zoom_loops x y lw lh)"
    by (simp add: zoomed_def)
next
  fix lw lh :: int assume "0 < lw" "0 < lh"
  then have "zoom_rect lw lh k \<subseteq> whole_area lw lh" if "0 \<le> k" "k < lw div 2" for k
    using zoom_rect_inside [OF that] by fastforce
  then show "zoomed lw lh \<subseteq> whole_area lw lh" unfolding zoomed_def by (intro UN_least) auto
qed

interpretation zoom: transition zoom_loops zoomed "\<lambda>_ _. True"
  by (rule zoom_transition)

subsection \<open>The transitions as a whole\<close>

lemma show_pic_1_displays:
  "showable pic x y lw lh tran s \<Longrightarrow> 0 < p \<Longrightarrow>
    displays pic x y lw lh (whole_area lw lh) s (show_pic_1 pic x y lw lh p tran s)"
  unfolding show_pic_1_def by (rule transition.exhibits [OF wipe_transition]) simp_all

lemma show_pic_6_displays:
  "showable pic x y lw lh tran s \<Longrightarrow> 0 < p \<Longrightarrow>
    displays pic x y lw lh (whole_area lw lh) s (show_pic_6 pic x y lw lh p tran s)"
  unfolding show_pic_6_def by (rule transition.exhibits [OF snake_transition]) simp_all

lemma show_pic_5_displays:
  "showable pic x y lw lh tran s \<Longrightarrow> lh \<le> 9999 \<Longrightarrow>
    displays pic x y lw lh (whole_area lw lh) s (show_pic_5 l0 pic x y lw lh tran s)"
  unfolding show_pic_5_def by (rule line.exhibits) simp_all

lemma show_pic_13_displays:
  "showable pic x y lw lh tran s \<Longrightarrow>
    displays pic x y lw lh (whole_area lw lh) s (show_pic_13 l0 pic x y lw lh tran s)"
  unfolding show_pic_13_def by (rule square.exhibits) simp_all

lemma show_pic_7_displays:
  "showable pic x y lw lh tran s \<Longrightarrow> 0 < p \<Longrightarrow>
    displays pic x y lw lh ({0..<lw} \<times> {0..<blinds_rows p lh}) s (show_pic_7 pic x y lw lh p tran s)"
  unfolding show_pic_7_def by (rule transition.exhibits [OF blinds_transition]) simp_all

lemma show_pic_12_displays:
  "showable pic x y lw lh tran s \<Longrightarrow> 0 < p \<Longrightarrow>
    displays pic x y lw lh ({0..<lw} \<times> interlaced p lh) s (show_pic_12 pic x y lw lh p tran s)"
  unfolding show_pic_12_def by (rule transition.exhibits [OF interlace_transition]) simp_all

lemma show_pic_14_displays:
  "showable pic x y lw lh tran s \<Longrightarrow>
    displays pic x y lw lh (zoomed lw lh) s (show_pic_14 pic x y lw lh tran s)"
  unfolding show_pic_14_def by (rule zoom.exhibits) simp_all

text \<open>A small screen and a picture of one colour, for concrete instances.\<close>

definition demo_view :: view where
  "demo_view = \<lparr>vw = 16, vh = 15, vbpp = 32, vmem = \<lambda>_. 0, wid = 3, height = 2, buf_cells = 0,
     buf = Map.empty, rands = \<lambda>n. n, fault = False\<rparr>"

definition demo_picture :: picture where
  "demo_picture k = Some (k mod 256)"

lemma demo_showable [simp]: "showable demo_picture 0 0 16 15 transform24_32 demo_view"
  by (simp add: showable_def sizes_fit_def choose_transform_def whole_def demo_view_def demo_picture_def)

text \<open>
  C9: Showing a complete picture on an area that lies on the screen, with sizes whose products an \<open>int\<close>
  can hold (\<open>sizes_fit\<close>: the bits of the picture and of the screen are fewer than \<open>2 ^ 31\<close>), the strips of
  \<open>show_pic_1\<close>, the random lines of \<open>show_pic_5\<close> (up to 9999 of them), the alternating strips
  of \<open>show_pic_6\<close> and the random squares of \<open>show_pic_13\<close> all end with exactly the scaled
  picture in the area, the rest of the screen as it was, no bad access and the buffer freed,
  whatever numbers \<open>rand\<close> returns.
\<close>

theorem complete_styles_show_picture:
  assumes "showable pic x y lw lh tran s" and "0 < p" and "lh \<le> 9999" and "p * lh < 2 ^ 31"
  shows "displays pic x y lw lh (whole_area lw lh) s (show_pic_1 pic x y lw lh p tran s)
       \<and> displays pic x y lw lh (whole_area lw lh) s (show_pic_5 l0 pic x y lw lh tran s)
       \<and> displays pic x y lw lh (whole_area lw lh) s (show_pic_6 pic x y lw lh p tran s)
       \<and> displays pic x y lw lh (whole_area lw lh) s (show_pic_13 l0 pic x y lw lh tran s)"
  by (intro conjI show_pic_1_displays show_pic_5_displays show_pic_6_displays show_pic_13_displays)
    (fact assms)+

theorem complete_styles_show_picture_witness:
  "displays demo_picture 0 0 16 15 (whole_area 16 15) demo_view
     (show_pic_5 0 demo_picture 0 0 16 15 transform24_32 demo_view)"
  using complete_styles_show_picture [OF demo_showable, of 3 0] by simp

text \<open>
  \<open>show_pic_7\<close> shows exactly the first \<open>2 * (portion div 2) * (leng_h div portion)\<close> rows and
  \<open>show_pic_12\<close> exactly the interlaced lines; both show everything when the number of
  portions (even, for the blinds) divides the height.
\<close>

theorem blinds_and_interlace_rows:
  assumes "showable pic x y lw lh tran s" and "0 < p"
  shows "displays pic x y lw lh ({0..<lw} \<times> {0..<2 * (p div 2) * (lh div p)}) s
           (show_pic_7 pic x y lw lh p tran s)
       \<and> displays pic x y lw lh
           ({0..<lw} \<times> {(k - 1) * lh div p + m |k m. 1 \<le> k \<and> k \<le> p \<and> 0 \<le> m \<and> m < lh div p}) s
           (show_pic_12 pic x y lw lh p tran s)
       \<and> (p dvd lh \<longrightarrow>
           displays pic x y lw lh (whole_area lw lh) s (show_pic_12 pic x y lw lh p tran s)
         \<and> (even p \<longrightarrow>
             displays pic x y lw lh (whole_area lw lh) s (show_pic_7 pic x y lw lh p tran s)))"
proof (intro conjI impI)
  have i: "interlaced p lh = {(k - 1) * lh div p + m |k m. 1 \<le> k \<and> k \<le> p \<and> 0 \<le> m \<and> m < lh div p}"
    unfolding interlaced_def by fastforce
  have lh: "0 < lh" using assms by (simp add: showable_def)
  note rows = show_pic_7_displays [OF assms] show_pic_12_displays [OF assms]
  show "displays pic x y lw lh ({0..<lw} \<times> {0..<2 * (p div 2) * (lh div p)}) s
      (show_pic_7 pic x y lw lh p tran s)"
    using rows(1) by (simp add: blinds_rows_def)
  show "displays pic x y lw lh
      ({0..<lw} \<times> {(k - 1) * lh div p + m |k m. 1 \<le> k \<and> k \<le> p \<and> 0 \<le> m \<and> m < lh div p}) s
      (show_pic_12 pic x y lw lh p tran s)"
    using rows(2) by (simp only: i)
  assume d: "p dvd lh"
  show "displays pic x y lw lh (whole_area lw lh) s (show_pic_12 pic x y lw lh p tran s)"
    using rows(2) interlaced_all [OF assms(2) lh d] by simp
  assume "even p"
  then have "blinds_rows p lh = lh" using d by (simp add: blinds_rows_def)
  then show "displays pic x y lw lh (whole_area lw lh) s (show_pic_7 pic x y lw lh p tran s)"
    using rows(1) by simp
qed

theorem blinds_and_interlace_rows_witness:
  "displays demo_picture 0 0 16 15 ({0..<16} \<times> {0..<12}) demo_view
     (show_pic_7 demo_picture 0 0 16 15 4 transform24_32 demo_view)"
  using blinds_and_interlace_rows [OF demo_showable, of 4] by simp

text \<open>
  \<open>show_pic_14\<close> shows the picture only on rectangles that stay inside the area: its first
  column keeps what the screen showed before, whatever the picture.
\<close>

theorem show_pic_14_stops_short:
  assumes "showable pic x y lw lh tran s" and "0 \<le> i" "i < lh"
  shows "look (show_pic_14 pic x y lw lh tran s) x (y + i) = look s x (y + i)
       \<and> (\<exists>D. D \<subseteq> {1..<lw} \<times> {0..<lh}
              \<and> displays pic x y lw lh D s (show_pic_14 pic x y lw lh tran s))"
proof -
  have "zoom_rect lw lh k \<subseteq> {1..<lw} \<times> {0..<lh}" if "0 \<le> k" "k < lw div 2" for k
    using zoom_rect_inside [OF that] assms by (simp add: showable_def)
  then have D: "zoomed lw lh \<subseteq> {1..<lw} \<times> {0..<lh}" unfolding zoomed_def by (intro UN_least) auto
  then have "(0, i) \<notin> zoomed lw lh" by auto
  moreover have "on_screen s x (y + i)" using assms by (simp add: showable_def on_screen_def)
  ultimately show ?thesis
    using show_pic_14_displays [OF assms(1)] D by (auto simp: displays_def)
qed

theorem show_pic_14_stops_short_witness:
  "look (show_pic_14 demo_picture 0 0 16 15 transform24_32 demo_view) 0 7 = look demo_view 0 7"
  using show_pic_14_stops_short [OF demo_showable, of 7] by simp

end
