(* ===== verification/Effects.thy ===== *)
theory Effects
  imports Styles
begin

text \<open>
  The remaining transitions of \<open>style.c\<close>: \<open>show_pic_2\<close> (slide in), \<open>show_pic_3\<close> (rays in random
  order), \<open>show_pic_4\<close> and \<open>show_pic_11\<close> (fans), \<open>show_pic_8\<close> and \<open>show_pic_9\<close> (growing
  pictures), \<open>show_pic_10\<close> (a scroll that opens and closes) with \<open>change16\<close> and \<open>draw_back\<close>.

  \<open>confined D s t\<close> says that \<open>t\<close> is \<open>s\<close> after accesses that were all good and changed only
  pixels of \<open>D\<close>; it is the second instance of \<open>region\<close> for loops over the screen.
\<close>

subsection \<open>Slide in: \<open>show_pic_2\<close>\<close>

definition slide_pixel :: "int \<Rightarrow> int \<Rightarrow> int \<Rightarrow> int \<Rightarrow> int \<Rightarrow> int \<Rightarrow> int \<Rightarrow> view \<Rightarrow> view" where
  "slide_pixel init_x init_y leng_w leng_h k j i s =
     (let tmp_k = k * leng_h sdiv leng_w in
      if init_x + k + j \<ge> init_x + leng_w \<and> init_x + k + j \<le> init_x + 2 * leng_w
         \<and> init_y + i + tmp_k > init_y + leng_h \<and> init_y + i + tmp_k < init_y + 2 * leng_h
      then (let w_num = j * wid s sdiv leng_w;
                h_num = i * height s sdiv leng_h
            in blit (init_x + k + j + (i + init_y + tmp_k) * vw s) (w_num + h_num * wid s) s)
      else s)"

definition slide_loops :: "int \<Rightarrow> int \<Rightarrow> int \<Rightarrow> int \<Rightarrow> view \<Rightarrow> view" where
  "slide_loops init_x init_y leng_w leng_h =
     for_step 0 leng_w 5 (\<lambda>k. for_range 0 leng_w (\<lambda>j. for_range 0 leng_h (\<lambda>i.
       slide_pixel init_x init_y leng_w leng_h k j i)))"

definition show_pic_2 :: "picture \<Rightarrow> int \<Rightarrow> int \<Rightarrow> int \<Rightarrow> int \<Rightarrow> callback \<Rightarrow> view \<Rightarrow> view" where
  "show_pic_2 pic_buf init_x init_y leng_w leng_h tran24_32_16 s =
     free_buf (slide_loops init_x init_y leng_w leng_h
       (tran24_32_16 pic_buf (malloc_buf (to_int32 (wid s * height s * vbpp s) sdiv 8) s)))"

subsection \<open>Rays in random order: \<open>show_pic_3\<close>\<close>

text \<open>
  \<open>locate_0\<close> .. \<open>locate_3\<close> are the entries of \<open>locate\<close>. \<open>left_tmp\<close> and \<open>right_tmp\<close> are not
  initialised and, when an entry is found by the search, not set.
\<close>

record burst =
  on_top :: "int \<Rightarrow> int"
  down :: "int \<Rightarrow> int"
  left :: "int \<Rightarrow> int"
  right :: "int \<Rightarrow> int"
  left_flag :: "int \<Rightarrow> int"
  right_flag :: "int \<Rightarrow> int"
  locate_0 :: int
  locate_1 :: int
  locate_2 :: int
  locate_3 :: int
  left_tmp :: int
  right_tmp :: int
  canvas :: view

definition burst_init :: "int \<Rightarrow> int \<Rightarrow> int \<Rightarrow> int \<Rightarrow> view \<Rightarrow> burst" where
  "burst_init leng_w leng_h l_tmp r_tmp s =
     (let center_w = leng_w sdiv 4; center_h = leng_h sdiv 4 in
      \<lparr>on_top = \<lambda>i. i - center_w, down = \<lambda>i. i - center_w,
       left = \<lambda>i. i - center_h, right = \<lambda>i. i - center_h,
       left_flag = \<lambda>_. 0, right_flag = \<lambda>_. 0,
       locate_0 = 0, locate_1 = 0, locate_2 = 0, locate_3 = 0,
       left_tmp = l_tmp, right_tmp = r_tmp, canvas = s\<rparr>)"

definition pick_on :: "int \<Rightarrow> burst \<Rightarrow> burst" where
  "pick_on leng_w b =
     (case take_slot (next_rand (canvas b) smod leng_w) leng_w leng_w 999 (on_top b) (locate_0 b) of
        (l, a) \<Rightarrow> b\<lparr>locate_0 := l, on_top := a, canvas := drop_rand (canvas b)\<rparr>)"

definition pick_down :: "int \<Rightarrow> burst \<Rightarrow> burst" where
  "pick_down leng_w b =
     (case take_slot (next_rand (canvas b) smod leng_w) leng_w leng_w 999 (down b) (locate_1 b) of
        (l, a) \<Rightarrow> b\<lparr>locate_1 := l, down := a, canvas := drop_rand (canvas b)\<rparr>)"

definition pick_right :: "int \<Rightarrow> int \<Rightarrow> int \<Rightarrow> burst \<Rightarrow> burst" where
  "pick_right f_num leng_w leng_h b =
     (let n = f_num * leng_h sdiv leng_w in
      if right_flag b n = 0 then
        (let k = next_rand (canvas b) smod leng_h;
             tmp = (if right b k \<noteq> 999 then right b k else right_tmp b)
         in case take_slot k leng_h leng_h 999 (right b) (locate_2 b) of
              (l, a) \<Rightarrow> b\<lparr>locate_2 := l, right := a, right_tmp := tmp,
                          right_flag := (right_flag b)(n := 1), canvas := drop_rand (canvas b)\<rparr>)
      else b\<lparr>locate_2 := right_tmp b\<rparr>)"

text \<open>The search in \<open>left\<close> runs \<open>leng_w\<close> entries, not \<open>leng_h\<close>.\<close>

definition pick_left :: "int \<Rightarrow> int \<Rightarrow> int \<Rightarrow> burst \<Rightarrow> burst" where
  "pick_left f_num leng_w leng_h b =
     (let n = f_num * leng_h sdiv leng_w in
      if left_flag b n = 0 then
        (let k = next_rand (canvas b) smod leng_h;
             tmp = (if left b k \<noteq> 999 then left b k else left_tmp b)
         in case take_slot k leng_h leng_w 999 (left b) (locate_3 b) of
              (l, a) \<Rightarrow> b\<lparr>locate_3 := l, left := a, left_tmp := tmp,
                          left_flag := (left_flag b)(n := 1), canvas := drop_rand (canvas b)\<rparr>)
      else b\<lparr>locate_3 := left_tmp b\<rparr>)"

text \<open>The pixel at column \<open>center_w + dx\<close> and row \<open>center_h + dy\<close> of the area.\<close>

definition ray_pixel :: "int \<Rightarrow> int \<Rightarrow> int \<Rightarrow> int \<Rightarrow> int \<Rightarrow> int \<Rightarrow> view \<Rightarrow> view" where
  "ray_pixel init_x init_y leng_w leng_h dx dy s =
     (let center_w = leng_w sdiv 4; center_h = leng_h sdiv 4;
          w_num = (center_w + dx) * wid s sdiv leng_w;
          h_num = (center_h + dy) * height s sdiv leng_h
      in blit ((init_x + center_w + dx) + (init_y + (center_h + dy)) * vw s)
              (w_num + h_num * wid s) s)"

definition draw_rays :: "int \<Rightarrow> int \<Rightarrow> int \<Rightarrow> int \<Rightarrow> int \<Rightarrow> int \<Rightarrow> int \<Rightarrow> int \<Rightarrow> view \<Rightarrow> view" where
  "draw_rays init_x init_y leng_w leng_h l0 l1 l2 l3 s =
     (let center_w = leng_w sdiv 4; center_h = leng_h sdiv 4;
          px = ray_pixel init_x init_y leng_w leng_h;
          s1 = for_range (- center_h + 1) 1 (\<lambda>i. px (- (l0 * i sdiv center_h)) i) s;
          s2 = for_range 0 (leng_h - center_h - 1) (\<lambda>i. px (l1 * i sdiv (leng_h - center_h - 1)) i) s1;
          s3 = for_range 0 (leng_w - center_w - 1) (\<lambda>nn. px nn (l2 * nn sdiv (leng_w - center_w - 1))) s2
      in for_range (- center_w + 1) 1 (\<lambda>nn. px nn (- (l3 * nn sdiv center_w))) s3)"

definition burst_round :: "int \<Rightarrow> int \<Rightarrow> int \<Rightarrow> int \<Rightarrow> int \<Rightarrow> burst \<Rightarrow> burst" where
  "burst_round init_x init_y leng_w leng_h f_num b =
     (let b' = pick_left f_num leng_w leng_h (pick_right f_num leng_w leng_h
                 (pick_down leng_w (pick_on leng_w b)))
      in b'\<lparr>canvas := draw_rays init_x init_y leng_w leng_h
              (locate_0 b') (locate_1 b') (locate_2 b') (locate_3 b') (canvas b')\<rparr>)"

definition burst_run :: "int \<Rightarrow> int \<Rightarrow> int \<Rightarrow> int \<Rightarrow> int \<Rightarrow> burst \<Rightarrow> burst" where
  "burst_run rounds init_x init_y leng_w leng_h =
     for_range 0 rounds (burst_round init_x init_y leng_w leng_h)"

definition show_pic_3 :: "int \<Rightarrow> int \<Rightarrow> picture \<Rightarrow> int \<Rightarrow> int \<Rightarrow> int \<Rightarrow> int \<Rightarrow> callback \<Rightarrow> view \<Rightarrow> view" where
  "show_pic_3 l_tmp r_tmp pic_buf init_x init_y leng_w leng_h tran_24_32_16 s =
     free_buf (canvas (burst_run leng_w init_x init_y leng_w leng_h
       (burst_init leng_w leng_h l_tmp r_tmp
         (tran_24_32_16 pic_buf (malloc_buf (to_int32 (wid s * height s * vbpp s) sdiv 8) s)))))"

subsection \<open>Fans: \<open>show_pic_4\<close> and \<open>show_pic_11\<close>\<close>

text \<open>
  A pixel of a steep ray (row \<open>i\<close> from the middle) and of a flat one (\<open>nn\<close> quarter columns from
  the middle): source and target before any clamping.
\<close>

definition fan_col :: "int \<Rightarrow> int \<Rightarrow> int \<Rightarrow> int \<Rightarrow> int" where
  "fan_col leng_w leng_h k i = leng_w sdiv 2 - k * i sdiv leng_h sdiv 2"

definition fan_row :: "int \<Rightarrow> int \<Rightarrow> int \<Rightarrow> int \<Rightarrow> int" where
  "fan_row leng_w leng_h mm nn = leng_h sdiv 2 + mm * nn sdiv (2 * leng_w)"

definition fan_source :: "int \<Rightarrow> int \<Rightarrow> int \<Rightarrow> int \<Rightarrow> view \<Rightarrow> int" where
  "fan_source leng_w leng_h col row s =
     (let w_num = col * wid s sdiv leng_w;
          h_num = row * height s sdiv leng_h
      in w_num + h_num * wid s)"

definition steep_pixel :: "int \<Rightarrow> int \<Rightarrow> int \<Rightarrow> int \<Rightarrow> int \<Rightarrow> int \<Rightarrow> view \<Rightarrow> view" where
  "steep_pixel init_x init_y leng_w leng_h k i s =
     blit (init_x + fan_col leng_w leng_h k i + (init_y + (leng_h sdiv 2 + i)) * vw s)
          (fan_source leng_w leng_h (fan_col leng_w leng_h k i) (leng_h sdiv 2 + i) s) s"

text \<open>\<open>show_pic_4\<close> keeps the row on the screen at 16 bits per pixel only.\<close>

definition flat_pixel_4 :: "int \<Rightarrow> int \<Rightarrow> int \<Rightarrow> int \<Rightarrow> int \<Rightarrow> int \<Rightarrow> view \<Rightarrow> view" where
  "flat_pixel_4 init_x init_y leng_w leng_h mm nn s =
     (let row = fan_row leng_w leng_h mm nn;
          col = leng_w sdiv 2 + nn sdiv 4;
          tmp = init_y + row;
          tmp = (if vbpp s = 16 \<and> tmp \<ge> vh s then vh s - 1 else tmp)
      in blit ((init_x + col) + tmp * vw s) (fan_source leng_w leng_h col row s) s)"

definition fan_sweep_4 :: "int \<Rightarrow> int \<Rightarrow> int \<Rightarrow> int \<Rightarrow> int \<Rightarrow> view \<Rightarrow> view" where
  "fan_sweep_4 init_x init_y leng_w leng_h k s =
     for_range (- 2 * leng_w) (2 * leng_w)
       (\<lambda>nn. flat_pixel_4 init_x init_y leng_w leng_h (k * leng_h sdiv (4 * leng_w)) nn)
       (for_range (- leng_h sdiv 2) (leng_h sdiv 2)
         (\<lambda>i. steep_pixel init_x init_y leng_w leng_h k i) s)"

definition show_pic_4 :: "picture \<Rightarrow> int \<Rightarrow> int \<Rightarrow> int \<Rightarrow> int \<Rightarrow> callback \<Rightarrow> view \<Rightarrow> view" where
  "show_pic_4 pic_buf init_x init_y leng_w leng_h tran_24_32_16 s =
     free_buf (for_range (- 2 * leng_w) (2 * leng_w + 1) (fan_sweep_4 init_x init_y leng_w leng_h)
       (tran_24_32_16 pic_buf (malloc_buf (to_int32 (wid s * height s * vbpp s) sdiv 8) s)))"

text \<open>The clamps of \<open>show_pic_11\<close>: at most one of the four applies.\<close>

definition clamp_11 :: "view \<Rightarrow> int \<Rightarrow> int \<Rightarrow> int \<times> int" where
  "clamp_11 s tmp_w tmp_h =
     (if tmp_w \<ge> vw s then (vw s - 1, tmp_h)
      else if tmp_h \<ge> vh s then (tmp_w, vh s - 1)
      else if tmp_w < 0 then (0, tmp_h)
      else if tmp_h < 0 then (tmp_w, 0)
      else (tmp_w, tmp_h))"

definition clamped_blit :: "int \<Rightarrow> int \<Rightarrow> int \<Rightarrow> view \<Rightarrow> view" where
  "clamped_blit tmp_w tmp_h r s =
     (case clamp_11 s tmp_w tmp_h of (a, b) \<Rightarrow> blit (a + b * vw s) r s)"

definition fan_first :: "int \<Rightarrow> int \<Rightarrow> int \<Rightarrow> int \<Rightarrow> int \<Rightarrow> int \<Rightarrow> view \<Rightarrow> view" where
  "fan_first init_x init_y leng_w leng_h k i s =
     clamped_blit (init_x + fan_col leng_w leng_h k i) (init_y + (leng_h sdiv 2 + i))
       (fan_source leng_w leng_h (fan_col leng_w leng_h k i) (leng_h sdiv 2 + i) s) s"

definition fan_second :: "int \<Rightarrow> int \<Rightarrow> int \<Rightarrow> int \<Rightarrow> int \<Rightarrow> int \<Rightarrow> view \<Rightarrow> view" where
  "fan_second init_x init_y leng_w leng_h mm nn s =
     blit ((init_x + leng_w sdiv 2 + nn sdiv 4) + (init_y + fan_row leng_w leng_h mm nn) * vw s)
          (fan_source leng_w leng_h (leng_w sdiv 2 + nn sdiv 4) (fan_row leng_w leng_h mm nn) s) s"

definition fan_fourth :: "int \<Rightarrow> int \<Rightarrow> int \<Rightarrow> int \<Rightarrow> int \<Rightarrow> int \<Rightarrow> view \<Rightarrow> view" where
  "fan_fourth init_x init_y leng_w leng_h mm nn s =
     clamped_blit (init_x + leng_w sdiv 2 + nn sdiv 4) (init_y + fan_row leng_w leng_h mm nn)
       (fan_source leng_w leng_h (leng_w sdiv 2 + nn sdiv 4) (fan_row leng_w leng_h mm nn) s) s"

definition show_pic_11 :: "picture \<Rightarrow> int \<Rightarrow> int \<Rightarrow> int \<Rightarrow> int \<Rightarrow> callback \<Rightarrow> view \<Rightarrow> view" where
  "show_pic_11 pic_buf init_x init_y leng_w leng_h tran_24_32_16 s =
     (let s0 = tran_24_32_16 pic_buf (malloc_buf (to_int32 (wid s * height s * vbpp s) sdiv 8) s);
          s1 = for_range 0 (leng_w * 2 + 1) (\<lambda>k. for_range (- leng_h sdiv 2) 1
                 (\<lambda>i. fan_first init_x init_y leng_w leng_h k i)) s0;
          s2 = for_range (- leng_h sdiv 2) (leng_h sdiv 2 + 1) (\<lambda>mm. for_range 0 (2 * leng_w)
                 (\<lambda>nn. fan_second init_x init_y leng_w leng_h mm nn)) s1;
          s3 = for_range (- 2 * leng_w) (2 * leng_w + 1) (\<lambda>k. for_range 0 (leng_h sdiv 2)
                 (\<lambda>i. steep_pixel init_x init_y leng_w leng_h k i)) s2;
          s4 = for_range (- leng_h sdiv 2) (leng_h sdiv 2 + 1) (\<lambda>mm. for_range (- 2 * leng_w) 0
                 (\<lambda>nn. fan_fourth init_x init_y leng_w leng_h mm nn)) s3;
          s5 = for_range (- 2 * leng_w) 1 (\<lambda>k. for_range (- leng_h sdiv 2) 1
                 (\<lambda>i. steep_pixel init_x init_y leng_w leng_h k i)) s4
      in free_buf s5)"

subsection \<open>Growing pictures: \<open>show_pic_8\<close> and \<open>show_pic_9\<close>\<close>

definition grow_pixel :: "int \<Rightarrow> int \<Rightarrow> int \<Rightarrow> int \<Rightarrow> int \<Rightarrow> int \<Rightarrow> int \<Rightarrow> view \<Rightarrow> view" where
  "grow_pixel init_x init_y leng_w leng_h k j i s =
     (let w_num = j * wid s sdiv (leng_w * 4 sdiv 5 + k);
          h_num = i * height s sdiv (leng_h * 4 sdiv 5 + k)
      in blit (init_x + j + (i + init_y) * vw s) (w_num + h_num * wid s) s)"

definition grow_loops :: "int \<Rightarrow> int \<Rightarrow> int \<Rightarrow> int \<Rightarrow> view \<Rightarrow> view" where
  "grow_loops init_x init_y leng_w leng_h =
     for_step 0 (leng_w sdiv 5) 5 (\<lambda>k. for_range 0 (leng_w * 4 sdiv 5 + k) (\<lambda>j.
       for_range 0 (leng_h * 4 sdiv 5 + k * leng_h sdiv leng_w) (\<lambda>i.
         grow_pixel init_x init_y leng_w leng_h k j i)))"

definition show_pic_8 :: "picture \<Rightarrow> int \<Rightarrow> int \<Rightarrow> int \<Rightarrow> int \<Rightarrow> callback \<Rightarrow> view \<Rightarrow> view" where
  "show_pic_8 pic_buf init_x init_y leng_w leng_h tran_24_32_16 s =
     free_buf (grow_loops init_x init_y leng_w leng_h
       (tran_24_32_16 pic_buf (malloc_buf (to_int32 (wid s * height s * vbpp s) sdiv 8) s)))"

definition swell_pixel :: "int \<Rightarrow> int \<Rightarrow> int \<Rightarrow> int \<Rightarrow> int \<Rightarrow> int \<Rightarrow> int \<Rightarrow> view \<Rightarrow> view" where
  "swell_pixel init_x init_y leng_w leng_h k j i s =
     (let w_num = j * wid s sdiv (leng_w * 3 sdiv 5 + 2 * k);
          h_num = i * height s sdiv (leng_h * 3 sdiv 5 + 2 * k * leng_h sdiv leng_w)
      in blit (init_x + j + (leng_w sdiv 5 - k)
               + (i + init_y + leng_h sdiv 5 - k * leng_h sdiv leng_w) * vw s)
              (w_num + h_num * wid s) s)"

definition swell_loops :: "int \<Rightarrow> int \<Rightarrow> int \<Rightarrow> int \<Rightarrow> view \<Rightarrow> view" where
  "swell_loops init_x init_y leng_w leng_h =
     for_step 0 (leng_w sdiv 5) 5 (\<lambda>k. for_range 0 (leng_w * 3 sdiv 5 + 2 * k) (\<lambda>j.
       for_range 0 (leng_h * 3 sdiv 5 + 2 * k * leng_h sdiv leng_w) (\<lambda>i.
         swell_pixel init_x init_y leng_w leng_h k j i)))"

definition show_pic_9 :: "picture \<Rightarrow> int \<Rightarrow> int \<Rightarrow> int \<Rightarrow> int \<Rightarrow> callback \<Rightarrow> view \<Rightarrow> view" where
  "show_pic_9 pic_buf init_x init_y leng_w leng_h tran_24_32_16 s =
     free_buf (swell_loops init_x init_y leng_w leng_h
       (tran_24_32_16 pic_buf (malloc_buf (to_int32 (wid s * height s * vbpp s) sdiv 8) s)))"

subsection \<open>A scroll: \<open>change16\<close>, \<open>draw_back\<close> and \<open>show_pic_10\<close>\<close>

text \<open>\<open>unsigned int\<close> arithmetic; the three channels and the result are \<open>unsigned short\<close>s.\<close>

definition change16 :: "int \<Rightarrow> int" where
  "change16 color =
     (let dr = to_ushort (drop_bit 16 color * 0x1f sdiv 0xff);
          dg = to_ushort (drop_bit 8 (color AND 0x0000ff00) * 0x3f sdiv 0xff);
          db = to_ushort ((color AND 0x000000ff) * 0x1f sdiv 0xff)
      in to_ushort (push_bit 11 dr OR push_bit 5 dg OR db))"

text \<open>The clamp keeps one of the two coordinates on the screen, not both.\<close>

definition back_clamp :: "view \<Rightarrow> int \<Rightarrow> int \<Rightarrow> int \<times> int" where
  "back_clamp s p q =
     (if p \<ge> vw s then (vw s - 1, q) else if q \<ge> vh s then (p, vh s - 1) else (p, q))"

definition back_cell :: "int \<Rightarrow> int \<Rightarrow> int \<Rightarrow> int \<Rightarrow> int \<Rightarrow> view \<Rightarrow> view" where
  "back_cell init_x init_y color i j s =
     (case back_clamp s (init_x + j) (init_y + i) of (tmp_w, tmp_h) \<Rightarrow>
        if vbpp s = 16 then scr_store (tmp_w + tmp_h * vw s) (change16 color) s
        else if vbpp s = 32 then scr_store (tmp_w + tmp_h * vw s) color s
        else s)"

definition draw_back :: "int \<Rightarrow> int \<Rightarrow> int \<Rightarrow> int \<Rightarrow> int \<Rightarrow> view \<Rightarrow> view" where
  "draw_back init_x init_y leng_w leng_h color =
     for_range 0 leng_h (\<lambda>i. for_range 0 leng_w (\<lambda>j. back_cell init_x init_y color i j))"

definition scroll_color :: int where "scroll_color = 0xffffff"
definition back_color :: int where "back_color = 0"
definition scroll :: int where "scroll = 60"
definition scroll_head :: int where "scroll_head = 40"

definition scroll_open :: "int \<Rightarrow> int \<Rightarrow> int \<Rightarrow> int \<Rightarrow> int \<Rightarrow> view \<Rightarrow> view" where
  "scroll_open init_x init_y leng_w leng_h locate s =
     (let s1 = for_range 0 leng_h (\<lambda>i. for_range locate (locate + 1) (\<lambda>j.
                 put_scaled init_x init_y leng_w leng_h j i)) s;
          s2 = draw_back (init_x + locate - scroll) (init_y - scroll_head) scroll
                 (leng_h + 2 * scroll_head) scroll_color s1;
          s3 = for_range 0 leng_h (\<lambda>i. for_down (leng_w - 1 - locate) (leng_w - 1 - locate) (\<lambda>j.
                 put_scaled init_x init_y leng_w leng_h j i)) s2
      in draw_back (init_x + leng_w - locate) (init_y - scroll_head) scroll
           (leng_h + 2 * scroll_head) scroll_color s3)"

definition scroll_close :: "int \<Rightarrow> int \<Rightarrow> int \<Rightarrow> int \<Rightarrow> int \<Rightarrow> view \<Rightarrow> view" where
  "scroll_close init_x init_y leng_w leng_h i s =
     (let s1 = draw_back (init_x + i - scroll) (init_y - scroll_head) scroll
                 (leng_h + 2 * scroll_head) scroll_color s;
          s2 = draw_back (init_x + i - scroll) (init_y - scroll_head) 1
                 (leng_h + 2 * scroll_head) back_color s1;
          s3 = draw_back (init_x + leng_w - i) (init_y - scroll_head) scroll
                 (leng_h + 2 * scroll_head) scroll_color s2
      in draw_back (init_x + leng_w + scroll - i) (init_y - scroll_head) 1
           (leng_h + 2 * scroll_head) back_color s3)"

definition show_pic_10 :: "picture \<Rightarrow> int \<Rightarrow> int \<Rightarrow> int \<Rightarrow> int \<Rightarrow> callback \<Rightarrow> view \<Rightarrow> view" where
  "show_pic_10 pic_buf init_x init_y leng_w leng_h tran_24_32_16 s =
     free_buf (for_range 0 (leng_w sdiv 2 + 1) (scroll_close init_x init_y leng_w leng_h)
       (for_down (leng_w sdiv 2) 0 (scroll_open init_x init_y leng_w leng_h)
         (tran_24_32_16 pic_buf (malloc_buf (to_int32 (wid s * height s * vbpp s) sdiv 8) s))))"

subsection \<open>Confined loops\<close>

text \<open>The geometry and the picture a loop was started with, and the cells it may change.\<close>

definition loaded :: "int \<Rightarrow> int \<Rightarrow> int \<Rightarrow> int \<Rightarrow> view \<Rightarrow> bool" where
  "loaded sw sh m n s \<longleftrightarrow> vw s = sw \<and> vh s = sh \<and> wid s = m \<and> height s = n
     \<and> (vbpp s = 16 \<or> vbpp s = 32)
     \<and> (\<forall>a b. 0 \<le> a \<and> a < m \<and> 0 \<le> b \<and> b < n \<longrightarrow> buf s (a + b * m) \<noteq> None)"

definition confined :: "(int \<times> int) set \<Rightarrow> view \<Rightarrow> view \<Rightarrow> bool" where
  "confined D s t \<longleftrightarrow> same_view s t
     \<and> (\<forall>a b. on_screen s a b \<and> (a, b) \<notin> D \<longrightarrow> look t a b = look s a b)"

interpretation calm: region "loaded sw sh m n" confined for sw sh m n
proof unfold_locales
  show "confined (D \<union> E) s u" if "confined D s t" "confined E t u" for D E s t u
  proof -
    have "same_view s u" "on_screen t = on_screen s"
      using that by (auto simp: confined_def same_view_def on_screen_def fun_eq_iff)
    then show ?thesis using that unfolding confined_def by auto
  qed
qed (auto simp: confined_def loaded_def same_view_def)

lemma confined_mono: "confined D s t \<Longrightarrow> D \<subseteq> E \<Longrightarrow> confined E s t"
  by (auto simp: confined_def)

lemma confined_range:
  assumes "\<And>i t. a \<le> i \<Longrightarrow> i < b \<Longrightarrow> loaded sw sh m n t \<Longrightarrow> confined D t (f i t)"
    and "loaded sw sh m n s"
  shows "confined D s (for_range a b f s)"
  by (rule confined_mono [OF calm.eff_range [where D = "\<lambda>_. D", OF assms]]) auto

lemma confined_fold:
  assumes "\<And>i t. i \<in> set l \<Longrightarrow> loaded sw sh m n t \<Longrightarrow> confined D t (f i t)"
    and "loaded sw sh m n s"
  shows "confined D s (fold f l s)"
  by (rule confined_mono [OF calm.eff_fold [where D = "\<lambda>_. D", OF assms]]) auto

lemma blit_confined:
  assumes l: "loaded sw sh m n s" and ab: "0 \<le> a" "a < sw" "0 \<le> b" "b < sh"
    and pq: "0 \<le> p" "p < m" "0 \<le> q" "q < n" and k: "k = a + b * sw" and r: "r = p + q * m"
    and D: "(a, b) \<in> D"
  shows "confined D s (blit k r s)"
proof -
  obtain v where "buf s r = Some v" using l pq r by (auto simp: loaded_def)
  moreover have "0 \<le> k \<and> k < vcells s"
    using cell_bounds [OF ab] l k by (simp add: loaded_def vcells_def)
  ultimately have e: "blit k r s = s\<lparr>vmem := (vmem s)(k := v)\<rparr>"
    using l by (auto simp: blit_def scr_store_def loaded_def)
  have "a' + b' * sw = k \<longleftrightarrow> a' = a \<and> b' = b" if "0 \<le> a'" "a' < sw" for a' b'
    unfolding k using that ab by (intro cell_inject) auto
  then show ?thesis unfolding e using l D
    by (auto simp: confined_def same_view_def on_screen_def look_def loaded_def)
qed

lemma store_confined:
  assumes l: "loaded sw sh m n s" and ab: "0 \<le> a" "a < sw" "0 \<le> b" "b < sh"
    and k: "k = a + b * sw" and D: "(a, b) \<in> D"
  shows "confined D s (scr_store k v s)"
proof -
  have "0 \<le> k \<and> k < vcells s"
    using cell_bounds [OF ab] l k by (simp add: loaded_def vcells_def)
  then have e: "scr_store k v s = s\<lparr>vmem := (vmem s)(k := v)\<rparr>"
    by (auto simp: scr_store_def)
  have "a' + b' * sw = k \<longleftrightarrow> a' = a \<and> b' = b" if "0 \<le> a'" "a' < sw" for a' b'
    unfolding k using that ab by (intro cell_inject) auto
  then show ?thesis unfolding e using l D
    by (auto simp: confined_def same_view_def on_screen_def look_def loaded_def)
qed

lemma ready_loaded: "ready c x y lw lh s \<Longrightarrow> loaded (vw s) (vh s) (wid s) (height s) s"
  by (auto simp: ready_def loaded_def)

definition keeps_outside :: "(int \<times> int) set \<Rightarrow> view \<Rightarrow> view \<Rightarrow> bool" where
  "keeps_outside D s t \<longleftrightarrow> fault t = fault s
     \<and> (\<forall>a b. on_screen s a b \<and> (a, b) \<notin> D \<longrightarrow> look t a b = look s a b)"

text \<open>Between transform and \<open>free\<close>: a confined loop nest gives a confined transition.\<close>

lemma confined_transition:
  assumes s: "showable pic x y lw lh tran s"
    and loops: "\<And>t. loaded (vw s) (vh s) (wid s) (height s) t \<Longrightarrow> confined D t (loops t)"
    and t: "t = free_buf (loops (tran pic (malloc_buf (to_int32 (wid s * height s * vbpp s) sdiv 8) s)))"
  shows "keeps_outside D s t"
proof -
  let ?u = "malloc_buf (to_int32 (wid s * height s * vbpp s) sdiv 8) s"
  obtain m where m: "tran pic ?u = ?u\<lparr>buf := m\<rparr>"
    and r: "ready (colour (pack_of (vbpp s)) pic (wid s)) x y lw lh (tran pic ?u)"
    using prepared [OF s] by blast
  have "loaded (vw s) (vh s) (wid s) (height s) (tran pic ?u)"
    using ready_loaded [OF r] m by (simp add: malloc_buf_def)
  then have "confined D (tran pic ?u) (loops (tran pic ?u))" by (rule loops)
  then show ?thesis
    unfolding t m
    by (auto simp: keeps_outside_def confined_def same_view_def free_buf_def look_def on_screen_def
      malloc_buf_def)
qed

text \<open>Shares of the area that a step \<open>k\<close> of the growing pictures takes.\<close>

lemma share:
  assumes "0 \<le> k" "5 * k + 5 \<le> lw" "0 < (lh :: int)"
  shows "0 \<le> k * lh div lw \<and> 5 * (k * lh div lw) \<le> lh
       \<and> k * lh div lw \<le> 2 * k * lh div lw
       \<and> 5 * (2 * k * lh div lw - k * lh div lw) < lh + 5"
proof -
  let ?q = "k * lh div lw" and ?r = "2 * k * lh div lw"
  have lw: "0 < lw" using assms by linarith
  have q: "?q * lw \<le> k * lh" "k * lh < ?q * lw + lw" and r: "?r * lw \<le> 2 * k * lh"
    using div_mult_mod_eq [of "k * lh" lw] pos_mod_sign [of lw "k * lh"] pos_mod_bound [of lw "k * lh"]
      div_mult_mod_eq [of "2 * k * lh" lw] pos_mod_sign [of lw "2 * k * lh"] lw by linarith+
  have "(5 * k + 5) * lh \<le> lw * lh" using assms by (intro mult_right_mono) auto
  then have k: "5 * (k * lh) + 5 * lh \<le> lh * lw" by (simp add: algebra_simps)
  have "5 * ?q * lw \<le> lh * lw" using q k assms by linarith
  then have "5 * ?q \<le> lh" using lw by simp
  moreover have "5 * (?r - ?q) * lw < (lh + 5) * lw"
    using q r k assms by (simp add: algebra_simps)
  then have "5 * (?r - ?q) < lh + 5" using lw by (simp only: mult_less_cancel_right_pos)
  moreover have "0 \<le> k * lh" using assms by simp
  then have "0 \<le> ?q" using lw by (simp add: pos_imp_zdiv_nonneg_iff)
  moreover have "?q \<le> ?r" using \<open>0 \<le> k * lh\<close> lw by (intro zdiv_mono1) auto
  ultimately show ?thesis by blast
qed

lemma swell_fit:
  assumes "0 \<le> q" "5 * q \<le> lh" "q \<le> r" "5 * (r - q) < lh + 5" "0 < (lh :: int)"
  shows "0 \<le> lh div 5 - q \<and> lh div 5 - q + (lh * 3 div 5 + r) \<le> lh"
proof -
  obtain a b where ab: "lh = a * 5 + b" "0 \<le> b" "b < 5"
  proof
    show "lh = lh div 5 * 5 + lh mod 5" by simp
  qed simp_all
  then have d: "lh div 5 = a" by (simp add: field_div)
  have 1: "r - q \<le> a + 1" using assms(4) ab by presburger
  have 2: "lh * 3 div 5 \<le> 3 * a + 2" using ab by presburger
  have "lh div 5 - q + (lh * 3 div 5 + r) \<le> lh"
  proof -
    consider "b = 0" | "1 \<le> b" "b \<le> 3" | "b = 4" using ab by linarith
    then show ?thesis
    proof cases
      case 1
      then have "r - q \<le> a" "lh * 3 div 5 = 3 * a" using assms ab by auto
      then show ?thesis using ab d by linarith
    next
      case b: 2
      show ?thesis
      proof (cases "b = 1")
        case True
        then have "lh * 3 div 5 \<le> 3 * a" using ab(1) by presburger
        then show ?thesis using ab d 1 True by linarith
      next
        case False
        have "lh * 3 div 5 \<le> 3 * a + 1" using ab(1) b(2) by presburger
        then show ?thesis using ab d 1 b False by linarith
      qed
    next
      case 3
      then show ?thesis using ab d 1 2 by linarith
    qed
  qed
  then show ?thesis using assms by linarith
qed

lemma steps_of_5: "k \<in> set [k \<leftarrow> [0..n - 1]. (k - 0) mod 5 = 0] \<Longrightarrow> 0 \<le> k \<and> k < n" for k n :: int
  by auto

lemma slide_confined:
  assumes l: "loaded sw sh m n t" and g: "0 < lw" "0 < lh" "0 < m" "0 < n" "0 \<le> x" "0 \<le> y" "x + lw \<le> sw" "y + lh \<le> sh"
  shows "confined ({x..<x + lw - 1} \<times> {y + 1..<y + lh}) t (slide_loops (x - lw) (y - lh) lw lh t)"
  unfolding slide_loops_def for_step_def
proof (rule confined_fold [OF _ l])
  fix k t assume k: "k \<in> set [k \<leftarrow> [0..lw - 1]. (k - 0) mod 5 = 0]" and t: "loaded sw sh m n t"
  show "confined ({x..<x + lw - 1} \<times> {y + 1..<y + lh}) t
      (for_range 0 lw (\<lambda>j. for_range 0 lh (slide_pixel (x - lw) (y - lh) lw lh k j)) t)"
  proof (rule confined_range [OF _ t], rule confined_range)
    fix j i u assume j: "0 \<le> j" "j < lw" and i: "0 \<le> i" "i < lh" and u: "loaded sw sh m n u"
    show "confined ({x..<x + lw - 1} \<times> {y + 1..<y + lh}) u (slide_pixel (x - lw) (y - lh) lw lh k j i u)"
    proof (cases "k + j \<ge> lw \<and> i + k * lh sdiv lw > lh \<and> i + k * lh sdiv lw < 2 * lh")
      case True
      have e: "slide_pixel (x - lw) (y - lh) lw lh k j i u
          = blit (x + (k + j - lw) + (i + (y - lh) + k * lh sdiv lw) * vw u)
              (j * wid u sdiv lw + i * height u sdiv lh * wid u) u"
        using True j steps_of_5 [OF k] by (simp add: slide_pixel_def Let_def algebra_simps)
      show ?thesis unfolding e
        by (rule blit_confined [OF u, of "x + (k + j - lw)" "i + (y - lh) + k * lh sdiv lw"
              "j * wid u sdiv lw" "i * height u sdiv lh"])
          (use True j i g steps_of_5 [OF k] u scale_bounds [OF j g(3)] scale_bounds [OF i g(4)]
            in \<open>auto simp: loaded_def\<close>)
    next
      case False
      then have "slide_pixel (x - lw) (y - lh) lw lh k j i u = u"
        by (auto simp: slide_pixel_def Let_def)
      then show ?thesis by (simp add: confined_def same_view_def)
    qed
  qed
qed

lemma grow_confined:
  assumes l: "loaded sw sh m n t"
    and g: "0 < lw" "0 < lh" "lh \<le> lw" "0 < m" "0 < n" "0 \<le> x" "0 \<le> y" "x + lw \<le> sw" "y + lh \<le> sh"
  shows "confined ({x..<x + lw - 1} \<times> {y..<y + lh}) t (grow_loops x y lw lh t)"
  unfolding grow_loops_def for_step_def
proof (rule confined_fold [OF _ l])
  fix k t assume "k \<in> set [k \<leftarrow> [0..lw sdiv 5 - 1]. (k - 0) mod 5 = 0]" and t: "loaded sw sh m n t"
  then have k: "0 \<le> k" "k < lw div 5" using g by (auto simp: sdiv_nonneg)
  then have k5: "5 * k + 5 \<le> lw" by linarith
  have d: "lw * 4 sdiv 5 = lw * 4 div 5" "lh * 4 sdiv 5 = lh * 4 div 5" "k * lh sdiv lw = k * lh div lw"
    using g k by (simp_all add: sdiv_nonneg)
  have q: "0 \<le> k * lh div lw" "5 * (k * lh div lw) \<le> lh" using share [OF k(1) k5 g(2)] by blast+
  have "k * lh \<le> k * lw" using g k by (intro mult_left_mono) auto
  then have "k * lh div lw \<le> k * lw div lw" using g by (intro zdiv_mono1) auto
  then have qk: "k * lh div lw \<le> k" using g by simp
  show "confined ({x..<x + lw - 1} \<times> {y..<y + lh}) t (for_range 0 (lw * 4 sdiv 5 + k)
      (\<lambda>j. for_range 0 (lh * 4 sdiv 5 + k * lh sdiv lw) (grow_pixel x y lw lh k j)) t)"
    unfolding d
  proof (rule confined_range [OF _ t], rule confined_range)
    fix j i u
    assume j: "0 \<le> j" "j < lw * 4 div 5 + k" and i: "0 \<le> i" "i < lh * 4 div 5 + k * lh div lw"
      and u: "loaded sw sh m n u"
    have "j < lw - 1" using j k by linarith
    moreover have "i < lh" using i q by linarith
    moreover have "i < lh * 4 div 5 + k" using i qk by linarith
    ultimately show "confined ({x..<x + lw - 1} \<times> {y..<y + lh}) u (grow_pixel x y lw lh k j i u)"
      unfolding grow_pixel_def Let_def
      by (intro blit_confined [OF u, of "x + j" "i + y"
            "j * wid u sdiv (lw * 4 sdiv 5 + k)" "i * height u sdiv (lh * 4 sdiv 5 + k)"])
        (use j i g u scale_bounds [OF j g(4)] scale_bounds [OF i(1) _ g(5), of "lh * 4 div 5 + k"]
          in \<open>auto simp: loaded_def d\<close>)
  qed
qed

lemma swell_confined:
  assumes l: "loaded sw sh m n t"
    and g: "0 < lw" "0 < lh" "0 < m" "0 < n" "0 \<le> x" "0 \<le> y" "x + lw \<le> sw" "y + lh \<le> sh"
  shows "confined ({x..<x + lw - 1} \<times> {y..<y + lh}) t (swell_loops x y lw lh t)"
  unfolding swell_loops_def for_step_def
proof (rule confined_fold [OF _ l])
  fix k t assume "k \<in> set [k \<leftarrow> [0..lw sdiv 5 - 1]. (k - 0) mod 5 = 0]" and t: "loaded sw sh m n t"
  then have k: "0 \<le> k" "k < lw div 5" using g by (auto simp: sdiv_nonneg)
  then have k5: "5 * k + 5 \<le> lw" by linarith
  let ?q = "k * lh div lw" and ?r = "2 * k * lh div lw"
  have d: "lw * 3 sdiv 5 = lw * 3 div 5" "lh * 3 sdiv 5 = lh * 3 div 5" "k * lh sdiv lw = ?q"
    "2 * k * lh sdiv lw = ?r" "lw sdiv 5 = lw div 5" "lh sdiv 5 = lh div 5"
    using g k by (simp_all add: sdiv_nonneg)
  have q: "0 \<le> lh div 5 - ?q \<and> lh div 5 - ?q + (lh * 3 div 5 + ?r) \<le> lh"
    using share [OF k(1) k5 g(2)] g(2) by (intro swell_fit) auto
  show "confined ({x..<x + lw - 1} \<times> {y..<y + lh}) t (for_range 0 (lw * 3 sdiv 5 + 2 * k)
      (\<lambda>j. for_range 0 (lh * 3 sdiv 5 + 2 * k * lh sdiv lw) (swell_pixel x y lw lh k j)) t)"
    unfolding d
  proof (rule confined_range [OF _ t], rule confined_range)
    fix j i u
    assume j: "0 \<le> j" "j < lw * 3 div 5 + 2 * k" and i: "0 \<le> i" "i < lh * 3 div 5 + ?r"
      and u: "loaded sw sh m n u"
    let ?X = "x + j + (lw div 5 - k)" and ?Y = "i + y + lh div 5 - ?q"
    let ?P = "j * m sdiv (lw * 3 div 5 + 2 * k)" and ?Q = "i * n sdiv (lh * 3 div 5 + ?r)"
    have X: "x \<le> ?X" "?X < x + lw - 1" using j k by linarith+
    have Y: "y \<le> ?Y" "?Y < y + lh" using i q by linarith+
    have P: "0 \<le> ?P" "?P < m" using scale_bounds [OF j g(3)] by blast+
    have Q: "0 \<le> ?Q" "?Q < n" using scale_bounds [OF i g(4)] by blast+
    have e: "swell_pixel x y lw lh k j i u = blit (?X + ?Y * sw) (?P + ?Q * m) u"
      using u by (simp add: swell_pixel_def Let_def d loaded_def)
    have "0 \<le> ?X" "?X < sw" "0 \<le> ?Y" "?Y < sh" using X Y g by linarith+
    then show "confined ({x..<x + lw - 1} \<times> {y..<y + lh}) u (swell_pixel x y lw lh k j i u)"
      unfolding e by (rule blit_confined [OF u _ _ _ _ P Q refl refl]) (use X Y in simp)
  qed
qed

text \<open>
  On an area that lies on the screen, the slide of \<open>show_pic_2\<close> (started one area up and
  left, as \<open>main\<close> does) and the growing pictures of \<open>show_pic_8\<close> (areas that are not taller
  than wide) and \<open>show_pic_9\<close> make no bad access and change nothing outside the area, but they
  never reach its last column; the slide never reaches its first row either.
\<close>

theorem partial_styles_confined:
  assumes s: "showable pic x y lw lh tran s" and "lh \<le> lw"
  shows "keeps_outside ({x..<x + lw - 1} \<times> {y + 1..<y + lh}) s (show_pic_2 pic (x - lw) (y - lh) lw lh tran s)
       \<and> keeps_outside ({x..<x + lw - 1} \<times> {y..<y + lh}) s (show_pic_8 pic x y lw lh tran s)
       \<and> keeps_outside ({x..<x + lw - 1} \<times> {y..<y + lh}) s (show_pic_9 pic x y lw lh tran s)"
proof (intro conjI)
  have g: "0 < lw" "0 < lh" "0 < wid s" "0 < height s" "0 \<le> x" "0 \<le> y" "x + lw \<le> vw s" "y + lh \<le> vh s"
    using s by (auto simp: showable_def)
  note begun = confined_transition [OF s]
  show "keeps_outside ({x..<x + lw - 1} \<times> {y + 1..<y + lh}) s (show_pic_2 pic (x - lw) (y - lh) lw lh tran s)"
    by (rule begun [where loops = "slide_loops (x - lw) (y - lh) lw lh"], erule slide_confined [OF _ g])
      (simp add: show_pic_2_def)
  show "keeps_outside ({x..<x + lw - 1} \<times> {y..<y + lh}) s (show_pic_8 pic x y lw lh tran s)"
    by (rule begun [where loops = "grow_loops x y lw lh"],
        erule grow_confined [OF _ g(1,2) assms(2) g(3-8)]) (simp add: show_pic_8_def)
  show "keeps_outside ({x..<x + lw - 1} \<times> {y..<y + lh}) s (show_pic_9 pic x y lw lh tran s)"
    by (rule begun [where loops = "swell_loops x y lw lh"], erule swell_confined [OF _ g])
      (simp add: show_pic_9_def)
qed

theorem partial_styles_confined_witness:
  "\<not> fault (show_pic_8 demo_picture 0 0 16 15 transform24_32 demo_view)
   \<and> look (show_pic_9 demo_picture 0 0 16 15 transform24_32 demo_view) 15 3 = look demo_view 15 3"
  using partial_styles_confined [OF demo_showable]
  by (simp add: keeps_outside_def demo_view_def on_screen_def)

end
