(* ===== verification/Rays.thy ===== *)
theory Rays
  imports Effects Framebuffer
begin

text \<open>
  What holds of the transitions with the more involved loops: the colours and the frame of the
  scroll (\<open>show_pic_10\<close>), the order in which \<open>show_pic_3\<close> picks its rays, and the corner where
  the fans (\<open>show_pic_4\<close>, \<open>show_pic_11\<close>) leave the picture.
\<close>

subsection \<open>Colours\<close>

lemma to_ushort_self: "0 \<le> v \<Longrightarrow> v < 65536 \<Longrightarrow> to_ushort v = v"
  by (simp add: to_ushort_def take_bit_int_eq_self)

lemma to_uchar_self: "0 \<le> v \<Longrightarrow> v < 256 \<Longrightarrow> to_uchar v = v"
  by (simp add: to_uchar_def take_bit_int_eq_self)

lemma to_ushort_to_short: "to_ushort (to_short v) = to_ushort v"
  by (simp add: to_ushort_def to_short_def take_bit_signed_take_bit)

text \<open>
  For channel bytes, \<open>transform24_32\<close> stores \<open>0xRRGGBB\<close> and \<open>transform24_16\<close> the three
  channels scaled to 5, 6 and 5 bits; \<open>change16\<close> of the 32-bit colour and the gomoku
  program's \<open>change_32to16\<close>, read as \<open>unsigned short\<close>, give the same 16-bit value.
\<close>

theorem colour_conversions_agree:
  assumes "0 \<le> r" "r < 256" "0 \<le> g" "g < 256" "0 \<le> b" "b < 256"
  shows "pack32 r g b = r * 65536 + g * 256 + b
       \<and> pack16 r g b = r * 31 div 255 * 2048 + g * 63 div 255 * 32 + b * 31 div 255
       \<and> change16 (pack32 r g b) = pack16 r g b
       \<and> to_ushort (change_32to16 (pack32 r g b)) = pack16 r g b"
proof -
  let ?r = "r * 31 div 255" and ?g = "g * 63 div 255" and ?b = "b * 31 div 255"
  let ?c = "r * 65536 + g * 256 + b" and ?v = "?r * 2048 + ?g * 32 + ?b"
  have B: "0 \<le> ?r" "?r < 32" "0 \<le> ?g" "?g < 64" "0 \<le> ?b" "?b < 32" using assms by auto
  have v: "0 \<le> ?v" "?v < 65536" using B by auto
  have c: "0 \<le> ?c" "?c < 16777216" using assms by auto
  have ch: "channel 16 ?c = r" "channel 8 ?c = g" "channel 0 ?c = b"
    using unpack_888 [OF assms] by simp_all
  have p32: "pack32 r g b = ?c" unfolding pack32_def by (rule pack_888 [OF assms])
  have sd: "r * 31 sdiv 255 = ?r" "g * 63 sdiv 255 = ?g" "b * 31 sdiv 255 = ?b"
    using assms by (simp_all add: sdiv_nonneg)
  have "pack16 r g b = to_ushort ?v"
    unfolding pack16_def Let_def sd using B by (simp add: to_uchar_self pack_565)
  then have p16: "pack16 r g b = ?v" using v by (simp only: to_ushort_self)
  have "drop_bit 16 ?c = r"
  proof -
    have "?c div 65536 < 256" using c by linarith
    then show ?thesis using c ch(1) by (simp add: channel_def drop_bit_int and_mask_int)
  qed
  moreover have "drop_bit 8 (?c AND 0xff00) = g" "?c AND 0xff = b"
    using ch(2,3) by (simp_all only: green_channel) (simp add: channel_def)
  ultimately have "change16 ?c = to_ushort ?v"
    unfolding change16_def Let_def using sd B by (simp add: to_ushort_self pack_565)
  then have c16: "change16 ?c = ?v" using v by (simp only: to_ushort_self)
  have "change_32to16 ?c = to_short ?v" using change_32to16_pack [OF c] ch by simp
  then have "to_ushort (change_32to16 ?c) = ?v"
    using v by (simp only: to_ushort_to_short to_ushort_self)
  then show ?thesis using p32 p16 c16 by simp
qed

theorem colour_conversions_agree_witness:
  "change16 (pack32 255 128 7) = pack16 255 128 7"
proof -
  have "(0 :: int) \<le> 255" "(255 :: int) < 256" "(0 :: int) \<le> 128" "(128 :: int) < 256"
    "(0 :: int) \<le> 7" "(7 :: int) < 256" by simp_all
  from colour_conversions_agree [OF this] show ?thesis by blast
qed

subsection \<open>The scroll\<close>

definition stored_colour :: "view \<Rightarrow> int \<Rightarrow> int" where
  "stored_colour s color = (if vbpp s = 16 then change16 color else color)"

text \<open>
  Drawing in colours of \<open>C\<close>: the cells \<open>D\<close> that are on the screen have such a colour
  afterwards, and cells that had one keep one.
\<close>

definition tinted :: "int set \<Rightarrow> (int \<times> int) set \<Rightarrow> view \<Rightarrow> view \<Rightarrow> bool" where
  "tinted C D s t \<longleftrightarrow> same_view s t
     \<and> (\<forall>a b. on_screen s a b \<and> ((a, b) \<in> D \<or> look s a b \<in> C) \<longrightarrow> look t a b \<in> C)"

interpretation tint: region "\<lambda>s. loaded sw sh m n s \<and> vbpp s = d" "tinted C" for sw sh m n d C
proof unfold_locales
  show "tinted C (D \<union> E) s u" if "tinted C D s t" "tinted C E t u" for D E s t u
  proof -
    have "same_view s u" "on_screen t = on_screen s"
      using that by (auto simp: tinted_def same_view_def on_screen_def fun_eq_iff)
    then show ?thesis using that unfolding tinted_def by auto
  qed
qed (auto simp: tinted_def loaded_def same_view_def)

lemma back_cell_tinted:
  assumes l: "loaded sw sh m n s" and a: "0 \<le> x + j" "0 \<le> y + i" "y + i < sh" "0 < sw"
    and c: "stored_colour s color \<in> C"
  shows "tinted C {(x + j, y + i)} s (back_cell x y color i j s)"
proof -
  let ?p = "if x + j \<ge> sw then sw - 1 else x + j"
  have p: "0 \<le> ?p" "?p < sw" using a by auto
  have k: "0 \<le> ?p + (y + i) * sw \<and> ?p + (y + i) * sw < sw * sh"
    by (rule cell_bounds) (use p a in auto)
  have "back_cell x y color i j s = scr_store (?p + (y + i) * sw) (stored_colour s color) s"
    using l a by (auto simp: back_cell_def back_clamp_def loaded_def stored_colour_def)
  then have e: "back_cell x y color i j s
      = s\<lparr>vmem := (vmem s)(?p + (y + i) * sw := stored_colour s color)\<rparr>"
    using k l by (simp add: scr_store_def vcells_def loaded_def)
  have "a' + b' * sw = ?p + (y + i) * sw \<longleftrightarrow> a' = ?p \<and> b' = y + i" if "0 \<le> a'" "a' < sw" for a' b'
    using that p by (intro cell_inject) auto
  then have "look (back_cell x y color i j s) a' b'
      = (if a' = ?p \<and> b' = y + i then stored_colour s color else look s a' b')"
    if "on_screen s a' b'" for a' b'
    using that l unfolding e by (simp add: look_def on_screen_def loaded_def)
  moreover have "\<not> on_screen s (x + j) b'" if "sw \<le> x + j" for b'
    using that l by (simp add: on_screen_def loaded_def)
  moreover have "same_view s (back_cell x y color i j s)" unfolding e by (simp add: same_view_def)
  ultimately show ?thesis using c unfolding tinted_def by (auto split: if_splits)
qed

lemma draw_back_tinted:
  assumes l: "loaded sw sh m n s" and a: "0 \<le> x" "0 \<le> y" "y + hh \<le> sh" "0 < sw"
    and c: "stored_colour s color \<in> C"
  shows "tinted C ({x..<x + ww} \<times> {y..<y + hh}) s (draw_back x y ww hh color s)"
proof -
  have "tinted C (\<Union>i \<in> {0..<hh}. \<Union>j \<in> {0..<ww}. {(x + j, y + i)}) s (draw_back x y ww hh color s)"
    unfolding draw_back_def
  proof (rule tint.eff_range [where d = "vbpp s"], rule tint.eff_range [where d = "vbpp s"])
    fix i j t assume "0 \<le> i" "i < hh" "0 \<le> j" "j < ww" and t: "loaded sw sh m n t \<and> vbpp t = vbpp s"
    then show "tinted C {(x + j, y + i)} t (back_cell x y color i j t)"
      using a c by (intro back_cell_tinted [of sw sh m n]) (auto simp: stored_colour_def)
  qed (use l in simp_all)
  moreover have "(\<Union>i \<in> {0..<hh}. \<Union>j \<in> {0..<ww}. {(x + j, y + i)}) = {x..<x + ww} \<times> {y..<y + hh}"
  proof -
    have "(\<Union>i \<in> {0..<hh}. \<Union>j \<in> {0..<ww}. {(x + j, y + i)})
        = (\<Union>j \<in> {0..<ww}. \<Union>i \<in> {0..<hh}. {(x + j, y + i)})" by auto
    then show ?thesis by (simp only: shifted_rect)
  qed
  ultimately show ?thesis by simp
qed

text \<open>Rolling in: after step \<open>i\<close> the columns next to both ends have one of the two colours.\<close>

lemma scroll_close_tinted:
  assumes l: "loaded sw sh m n s" and g: "scroll \<le> x" "scroll_head \<le> y" "y + lh + scroll_head \<le> sh" "0 \<le> i" "2 * i \<le> lw" "0 < sw" "0 \<le> lh"
    and C: "C = {stored_colour s scroll_color, stored_colour s back_color}"
  shows "tinted C (({x + i - scroll..<x + i} \<union> {x + lw - i..<x + lw - i + scroll})
                    \<times> {y - scroll_head..<y + lh + scroll_head}) s (scroll_close x y lw lh i s)"
proof -
  let ?b = "\<lambda>p ww c. draw_back p (y - scroll_head) ww (lh + 2 * scroll_head) c"
  have b: "tinted C ({p..<p + ww} \<times> {y - scroll_head..<y + lh + scroll_head}) t (?b p ww c t)"
    if "loaded sw sh m n t \<and> vbpp t = vbpp s" "0 \<le> p" "c = scroll_color \<or> c = back_color" for p ww c t
  proof -
    have c: "stored_colour t c \<in> C" using that C by (auto simp: stored_colour_def)
    have h: "y - scroll_head + (lh + 2 * scroll_head) = y + lh + scroll_head" by simp
    have "loaded sw sh m n t" "0 \<le> y - scroll_head" "y + lh + scroll_head \<le> sh" using that g by auto
    then show ?thesis
      using draw_back_tinted [of sw sh m n t p "y - scroll_head" "lh + 2 * scroll_head" c C ww, unfolded h]
        that(2) g(6) c by blast
  qed
  define s1 where "s1 = ?b (x + i - scroll) scroll scroll_color s"
  define s2 where "s2 = ?b (x + i - scroll) 1 back_color s1"
  define s3 where "s3 = ?b (x + lw - i) scroll scroll_color s2"
  let ?ok = "\<lambda>t. loaded sw sh m n t \<and> vbpp t = vbpp s"
  have p: "0 \<le> x + i - scroll" "0 \<le> x + lw - i" "0 \<le> x + lw + scroll - i"
    using g by (simp_all add: scroll_def)
  have k0: "?ok s" using l by simp
  note 1 = b [OF k0 p(1), of scroll_color scroll, folded s1_def, simplified]
  have k1: "?ok s1" by (rule tint.ok_eff [OF k0 1])
  note 2 = b [OF k1 p(1), of back_color 1, folded s2_def, simplified]
  have k2: "?ok s2" by (rule tint.ok_eff [OF k1 2])
  note 3 = b [OF k2 p(2), of scroll_color scroll, folded s3_def, simplified]
  have k3: "?ok s3" by (rule tint.ok_eff [OF k2 3])
  note 4 = b [OF k3 p(3), of back_color 1, simplified]
  have e: "scroll_close x y lw lh i s = ?b (x + lw + scroll - i) 1 back_color s3"
    by (simp only: scroll_close_def Let_def s1_def s2_def s3_def)
  note all = tint.eff_comp [OF tint.eff_comp [OF tint.eff_comp [OF 1 2] 3] 4]
  show ?thesis unfolding e using all by (auto simp: tinted_def)
qed

lemma put_scaled_confined:
  assumes l: "loaded sw sh m n s" and j: "0 \<le> j" "j < lw" and i: "0 \<le> i" "i < lh"
    and g: "0 < m" "0 < n" "0 \<le> x" "0 \<le> y" "x + lw \<le> sw" "y + lh \<le> sh"
  shows "confined UNIV s (put_scaled x y lw lh j i s)"
proof -
  let ?P = "j * m sdiv lw" and ?Q = "i * n sdiv lh"
  have P: "0 \<le> ?P" "?P < m" using scale_bounds [OF j g(1)] by blast+
  have Q: "0 \<le> ?Q" "?Q < n" using scale_bounds [OF i g(2)] by blast+
  have e: "put_scaled x y lw lh j i s = blit ((x + j) + (i + y) * sw) (?P + ?Q * m) s"
    using l by (simp add: put_scaled_def Let_def loaded_def)
  show ?thesis unfolding e
    by (rule blit_confined [OF l _ _ _ _ P Q refl refl]) (use i j g in auto)
qed

lemma confined_UNIV: "confined UNIV s t \<longleftrightarrow> same_view s t"
  by (simp add: confined_def)

lemma for_down_single: "for_down a a f = f a"
  by (rule ext) (simp add: for_down_def)

lemma for_range_single: "for_range a (a + 1) f = f a"
  by (rule ext) (simp add: for_range_def)

lemma scroll_open_confined:
  assumes l: "loaded sw sh m n s" and g: "0 < m" "0 < n" "scroll \<le> x" "scroll_head \<le> y"
    "x + lw \<le> sw" "y + lh + scroll_head \<le> sh" "0 \<le> i" "2 * i \<le> lw" "0 < lw" "0 \<le> lh"
  shows "confined UNIV s (scroll_open x y lw lh i s)"
proof -
  let ?ok = "loaded sw sh m n" and ?b = "\<lambda>p. draw_back p (y - scroll_head) scroll (lh + 2 * scroll_head) scroll_color"
  have xy: "0 \<le> x" "0 \<le> y" "y + lh \<le> sh" "0 < sw" using g by (simp_all add: scroll_def scroll_head_def)
  have col: "confined UNIV t (for_range 0 lh (put_scaled x y lw lh j) t)"
    if "?ok t" "0 \<le> j" "j < lw" for j t
    by (rule confined_range [OF _ that(1)], rule put_scaled_confined [of sw sh m n]) (use that g xy in auto)
  have b: "confined UNIV t (?b p t)" if "?ok t" "0 \<le> p" for p t
    using draw_back_tinted [OF that(1,2), of "y - scroll_head" "lh + 2 * scroll_head" scroll_color UNIV scroll] g xy
    by (simp add: confined_UNIV tinted_def)
  define s1 where "s1 = for_range 0 lh (put_scaled x y lw lh i) s"
  define s2 where "s2 = ?b (x + i - scroll) s1"
  define s3 where "s3 = for_range 0 lh (put_scaled x y lw lh (lw - 1 - i)) s2"
  note 1 = col [OF l g(7), folded s1_def]
  have i: "i < lw" "0 \<le> lw - 1 - i" "lw - 1 - i < lw" "0 \<le> x + i - scroll" "0 \<le> x + lw - i"
    using g xy(1) by auto
  have k1: "?ok s1" by (rule calm.ok_eff [OF l 1 [OF i(1)]])
  note 2 = b [OF k1 i(4), folded s2_def]
  have k2: "?ok s2" by (rule calm.ok_eff [OF k1 2])
  note 3 = col [OF k2 i(2,3), folded s3_def]
  have k3: "?ok s3" by (rule calm.ok_eff [OF k2 3])
  have "scroll_open x y lw lh i s = ?b (x + lw - i) s3"
    by (simp only: scroll_open_def Let_def s1_def s2_def s3_def for_down_single for_range_single)
  then show ?thesis
    using calm.eff_comp [OF calm.eff_comp [OF calm.eff_comp [OF 1 [OF i(1)] 2] 3] b [OF k3 i(5)]] by simp
qed

text \<open>
  C28: With the margins that \<open>main\<close> leaves for the scroll, its width to the left of the area and the height of its
  heads above and below, on an area of even width and with sizes whose products an \<open>int\<close> can hold
  (\<open>sizes_fit\<close>), \<open>show_pic_10\<close> makes no bad access and nothing of the picture is left at its end: every pixel
  of the area has the colour of the scroll or of the background.
\<close>

theorem show_pic_10_rolls_up:
  assumes s: "showable pic x y lw lh tran s" and "scroll \<le> x" "scroll_head \<le> y" "y + lh + scroll_head \<le> vh s"
    and "even lw"
  shows "fault (show_pic_10 pic x y lw lh tran s) = fault s
       \<and> (\<forall>a b. x \<le> a \<and> a < x + lw \<and> y \<le> b \<and> b < y + lh \<longrightarrow>
            look (show_pic_10 pic x y lw lh tran s) a b
              \<in> {stored_colour s scroll_color, stored_colour s back_color})"
proof -
  let ?bytes = "to_int32 (wid s * height s * vbpp s) sdiv 8" and ?C = "{stored_colour s scroll_color, stored_colour s back_color}"
  let ?u = "malloc_buf ?bytes s" and ?ok = "loaded (vw s) (vh s) (wid s) (height s)"
  have g: "0 < lw" "0 < lh" "0 < wid s" "0 < height s" "x + lw \<le> vw s" "0 < vw s" "0 \<le> lh"
    using s by (auto simp: showable_def)
  have d: "lw sdiv 2 = lw div 2" using g by (simp add: sdiv_nonneg)
  obtain m where m: "tran pic ?u = ?u\<lparr>buf := m\<rparr>"
    and r: "ready (colour (pack_of (vbpp s)) pic (wid s)) x y lw lh (tran pic ?u)"
    using prepared [OF s] by blast
  have k0: "?ok (tran pic ?u)" using ready_loaded [OF r] m by (simp add: malloc_buf_def)
  define v where "v = for_down (lw sdiv 2) 0 (scroll_open x y lw lh) (tran pic ?u)"
  have 1: "confined UNIV (tran pic ?u) v"
    unfolding v_def for_down_def
    by (rule confined_fold [OF _ k0],
        rule scroll_open_confined [of "vw s" "vh s" "wid s" "height s"]) (use g assms d in auto)
  have k1: "?ok v" by (rule calm.ok_eff [OF k0 1])
  have dv: "vbpp v = vbpp s" using 1 m by (simp add: confined_def same_view_def malloc_buf_def)
  define t where "t = for_range 0 (lw sdiv 2 + 1) (scroll_close x y lw lh) v"
  let ?D = "\<lambda>i. ({x + i - scroll..<x + i} \<union> {x + lw - i..<x + lw - i + scroll})
                    \<times> {y - scroll_head..<y + lh + scroll_head}"
  have 2: "tinted ?C (\<Union>i \<in> {0..<lw sdiv 2 + 1}. ?D i) v t"
    unfolding t_def
  proof (rule tint.eff_range [where d = "vbpp s"])
    fix i q assume "0 \<le> i" "i < lw sdiv 2 + 1" "?ok q \<and> vbpp q = vbpp s"
    then show "tinted ?C (?D i) q (scroll_close x y lw lh i q)"
      using assms g d
      by (intro scroll_close_tinted [of "vw s" "vh s" "wid s" "height s"]) (auto simp: stored_colour_def)
  qed (use k1 dv in simp)
  have t: "look t a b \<in> ?C" if a: "x \<le> a" "a < x + lw" and b: "y \<le> b" "b < y + lh" for a b
  proof -
    obtain i where "0 \<le> i" "i < lw div 2 + 1" "(a, b) \<in> ?D i"
    proof (cases "a < x + lw div 2")
      case True
      then show ?thesis using that [of "a - x + 1"] a b by (auto simp: scroll_def scroll_head_def)
    next
      case False
      then have "x + lw - a \<le> lw div 2" using \<open>even lw\<close> by auto
      then show ?thesis using that [of "x + lw - a"] a b by (auto simp: scroll_def scroll_head_def)
    qed
    then have "(a, b) \<in> (\<Union>i \<in> {0..<lw sdiv 2 + 1}. ?D i)"
      by (intro UN_I [of i]) (simp_all add: d)
    moreover have "on_screen v a b"
      using k1 a b g assms s by (auto simp: on_screen_def loaded_def showable_def scroll_head_def)
    ultimately show ?thesis using 2 unfolding tinted_def by blast
  qed
  have e: "show_pic_10 pic x y lw lh tran s = free_buf t"
    by (simp only: show_pic_10_def t_def v_def)
  have "fault t = fault s"
    using 1 2 m by (simp add: confined_def tinted_def same_view_def malloc_buf_def)
  then show ?thesis unfolding e using t by (auto simp: free_buf_def look_def)
qed

definition wide_view :: view where
  "wide_view = demo_view\<lparr>vw := 200, vh := 100\<rparr>"

theorem show_pic_10_rolls_up_witness:
  "\<not> fault (show_pic_10 demo_picture 60 40 80 20 transform24_32 wide_view)"
  using show_pic_10_rolls_up [of demo_picture 60 40 80 20 transform24_32 wide_view]
  by (simp add: showable_def sizes_fit_def choose_transform_def whole_def demo_view_def demo_picture_def
    wide_view_def scroll_def scroll_head_def)

subsection \<open>The rays of \<open>show_pic_3\<close>\<close>

lemma take_slot_not_mark:
  "loc \<noteq> mark \<Longrightarrow> fst (take_slot k n bound mark a loc) \<noteq> mark"
  by (auto simp: take_slot_def dest: probe_Some split: option.splits)

lemma pick_right_keeps: "on_top (pick_right f lw lh b) = on_top b \<and> locate_0 (pick_right f lw lh b) = locate_0 b
    \<and> down (pick_right f lw lh b) = down b \<and> locate_1 (pick_right f lw lh b) = locate_1 b"
  by (simp add: pick_right_def Let_def split: prod.split)

lemma pick_left_keeps: "on_top (pick_left f lw lh b) = on_top b \<and> locate_0 (pick_left f lw lh b) = locate_0 b
    \<and> down (pick_left f lw lh b) = down b \<and> locate_1 (pick_left f lw lh b) = locate_1 b"
  by (simp add: pick_left_def Let_def split: prod.split)

lemma pick_down_keeps: "on_top (pick_down lw b) = on_top b \<and> locate_0 (pick_down lw b) = locate_0 b"
  by (simp add: pick_down_def split: prod.split)

lemma pick_on_keeps: "down (pick_on lw b) = down b \<and> locate_1 (pick_on lw b) = locate_1 b"
  by (simp add: pick_on_def split: prod.split)

lemma burst_round_picks:
  "on_top (burst_round x y lw lh f b) = on_top (pick_on lw b)"
  "locate_0 (burst_round x y lw lh f b) = locate_0 (pick_on lw b)"
  "locate_1 (burst_round x y lw lh f b) = locate_1 (pick_down lw (pick_on lw b))"
  by (simp_all add: burst_round_def Let_def pick_left_keeps pick_right_keeps pick_down_keeps)

lemma pick_on_eq:
  "on_top (pick_on lw b) = snd (take_slot (next_rand (canvas b) smod lw) lw lw 999 (on_top b) (locate_0 b))"
  "locate_0 (pick_on lw b) = fst (take_slot (next_rand (canvas b) smod lw) lw lw 999 (on_top b) (locate_0 b))"
  by (simp_all add: pick_on_def split: prod.split)

lemma pick_down_eq:
  "locate_1 (pick_down lw b) = fst (take_slot (next_rand (canvas b) smod lw) lw lw 999 (down b) (locate_1 b))"
  by (simp add: pick_down_def split: prod.split)

lemma burst_run_step:
  "0 \<le> m \<Longrightarrow> burst_run (m + 1) x y lw lh b = burst_round x y lw lh m (burst_run m x y lw lh b)"
  unfolding burst_run_def using for_range_last [of 0 "m + 1"] by simp

lemma burst_never_999:
  assumes "locate_0 b \<noteq> 999" "locate_1 b \<noteq> 999"
  shows "locate_0 (burst_run m x y lw lh b) \<noteq> 999 \<and> locate_1 (burst_run m x y lw lh b) \<noteq> 999"
  unfolding burst_run_def
proof (rule for_range_keeps)
  show "locate_0 b \<noteq> 999 \<and> locate_1 b \<noteq> 999" using assms by simp
  show "locate_0 (burst_round x y lw lh i t) \<noteq> 999 \<and> locate_1 (burst_round x y lw lh i t) \<noteq> 999"
    if "locate_0 t \<noteq> 999 \<and> locate_1 t \<noteq> 999" for i t
    using that take_slot_not_mark
    by (simp add: burst_round_picks pick_on_eq pick_down_eq pick_on_keeps)
qed

lemma burst_picks_all:
  assumes n: "0 < lw" and v: "\<And>i. 0 \<le> i \<Longrightarrow> i < lw \<Longrightarrow> v i \<noteq> 999" and b: "on_top b = v"
    and m: "0 \<le> m" "m \<le> lw"
  shows "\<exists>T. picked lw 999 v T (on_top (burst_run m x y lw lh b)) \<and> int (card T) = m
     \<and> (\<forall>p \<in> T. \<exists>r. 0 \<le> r \<and> r < m \<and> locate_0 (burst_run (r + 1) x y lw lh b) = v p)"
  using m
proof (induction m rule: int_ge_induct)
  case base
  have "picked lw 999 v {} (on_top b)" by (simp add: picked_def b)
  then show ?case by (intro exI [of _ "{}"]) (simp add: burst_run_def)
next
  case (step m)
  let ?b = "burst_run m x y lw lh b" and ?b' = "burst_run (m + 1) x y lw lh b"
  obtain T where T: "picked lw 999 v T (on_top ?b)" "int (card T) = m"
    "\<forall>p \<in> T. \<exists>r. 0 \<le> r \<and> r < m \<and> locate_0 (burst_run (r + 1) x y lw lh b) = v p"
    using step by auto
  have k: "0 \<le> next_rand (canvas ?b) smod lw" "next_rand (canvas ?b) smod lw < lw"
    using n by (simp_all add: smod_nonneg next_rand_def)
  have "int (card T) < lw" using T(2) step.prems by simp
  from pick_fresh [OF T(1) this v k] obtain p where p: "p \<in> {0..<lw} - T"
    "take_slot (next_rand (canvas ?b) smod lw) lw lw 999 (on_top ?b) (locate_0 ?b) = (v p, (on_top ?b)(p := 999))"
    "picked lw 999 v (insert p T) ((on_top ?b)(p := 999))" "card (insert p T) = Suc (card T)" by blast
  have e: "on_top ?b' = (on_top ?b)(p := 999)" "locate_0 ?b' = v p"
    using p(2) by (simp_all add: burst_run_step [OF step.hyps] burst_round_picks pick_on_eq)
  have "\<exists>r. 0 \<le> r \<and> r < m + 1 \<and> locate_0 (burst_run (r + 1) x y lw lh b) = v q" if q: "q \<in> insert p T" for q
  proof (cases "q = p")
    case True
    then show ?thesis using e(2) step.hyps by (intro exI [of _ m]) simp
  next
    case False
    then have "q \<in> T" using q by simp
    then obtain r where "0 \<le> r" "r < m" "locate_0 (burst_run (r + 1) x y lw lh b) = v q"
      using T(3) by blast
    then have "0 \<le> r \<and> r < m + 1 \<and> locate_0 (burst_run (r + 1) x y lw lh b) = v q" by simp
    then show ?thesis by blast
  qed
  moreover have "picked lw 999 v (insert p T) (on_top ?b')" using p(3) by (simp only: e(1))
  moreover have "int (card (insert p T)) = m + 1" using p(4) T(2) by simp
  ultimately show ?case by blast
qed

text \<open>
  On areas up to 1332 pixels wide \<open>show_pic_3\<close> draws a ray to every column of the top edge,
  whatever \<open>rand\<close> returns. Wider areas have a column at distance 999 from the centre, and the
  rays to it, up or down, are never picked: 999 is also the mark of a used entry.
\<close>

theorem burst_skips_column_999:
  assumes "0 < lw"
  shows "(lw - lw sdiv 4 \<le> 999 \<longrightarrow> (\<forall>c. 0 \<le> c \<and> c < lw \<longrightarrow> (\<exists>r. 0 \<le> r \<and> r < lw \<and>
            locate_0 (burst_run (r + 1) x y lw lh (burst_init lw lh lt rt s)) = c - lw sdiv 4)))
       \<and> (\<forall>r. locate_0 (burst_run r x y lw lh (burst_init lw lh lt rt s)) \<noteq> 999
            \<and> locate_1 (burst_run r x y lw lh (burst_init lw lh lt rt s)) \<noteq> 999)"
proof (intro conjI impI allI)
  let ?b = "burst_init lw lh lt rt s" and ?v = "\<lambda>i. i - lw sdiv 4"
  show "locate_0 (burst_run r x y lw lh ?b) \<noteq> 999" "locate_1 (burst_run r x y lw lh ?b) \<noteq> 999" for r
    using burst_never_999 [of ?b r x y lw lh] by (simp_all add: burst_init_def Let_def)
  fix c assume w: "lw - lw sdiv 4 \<le> 999" and c: "0 \<le> c \<and> c < lw"
  have "on_top ?b = ?v" by (simp add: burst_init_def Let_def)
  then obtain T where T: "picked lw 999 ?v T (on_top (burst_run lw x y lw lh ?b))" "int (card T) = lw"
    "\<forall>p \<in> T. \<exists>r. 0 \<le> r \<and> r < lw \<and> locate_0 (burst_run (r + 1) x y lw lh ?b) = ?v p"
    using burst_picks_all [OF assms, of ?v ?b lw x y lh] w assms by fastforce
  have "T = {0..<lw}"
    using T(1,2) by (intro card_subset_eq) (auto simp: picked_def)
  then show "\<exists>r. 0 \<le> r \<and> r < lw \<and> locate_0 (burst_run (r + 1) x y lw lh ?b) = c - lw sdiv 4"
    using T(3) c by auto
qed

theorem burst_skips_column_999_witness:
  "locate_0 (burst_run 1920 0 0 1920 1080 (burst_init 1920 1080 0 0 demo_view)) \<noteq> 999"
  using burst_skips_column_999 [of 1920 0 0 1080 0 0 demo_view] by simp

subsection \<open>The corner of the fans\<close>

text \<open>Nothing but the screen contents and the fault flag has changed; \<open>f\<close>: it is up.\<close>

definition stuck :: "bool \<Rightarrow> view \<Rightarrow> view \<Rightarrow> bool" where
  "stuck f s t \<longleftrightarrow> vw t = vw s \<and> vh t = vh s \<and> vbpp t = vbpp s \<and> wid t = wid s
     \<and> height t = height s \<and> buf t = buf s \<and> (f \<longrightarrow> fault t)"

lemma stuck_blit: "stuck f s t \<Longrightarrow> stuck f s (blit k r t)"
  by (auto simp: stuck_def blit_def scr_store_def split: option.split)

lemma stuck_steep: "stuck f s t \<Longrightarrow> stuck f s (steep_pixel x y lw lh k i t)"
  unfolding steep_pixel_def by (rule stuck_blit)

lemma stuck_flat_4: "stuck f s t \<Longrightarrow> stuck f s (flat_pixel_4 x y lw lh mm nn t)"
  unfolding flat_pixel_4_def Let_def by (rule stuck_blit)

lemma stuck_clamped: "stuck f s t \<Longrightarrow> stuck f s (clamped_blit a b r t)"
  by (auto simp: clamped_blit_def stuck_blit split: prod.split)

lemma stuck_fans:
  "stuck f s t \<Longrightarrow> stuck f s (fan_first x y lw lh k i t)"
  "stuck f s t \<Longrightarrow> stuck f s (fan_second x y lw lh k i t)"
  "stuck f s t \<Longrightarrow> stuck f s (fan_fourth x y lw lh k i t)"
  unfolding fan_first_def fan_second_def fan_fourth_def by (simp_all add: stuck_blit stuck_clamped)

lemma stuck_sweep_4: "stuck f s t \<Longrightarrow> stuck f s (fan_sweep_4 x y lw lh k t)"
  unfolding fan_sweep_4_def
  by (rule for_range_keeps [where I = "stuck f s"], rule for_range_keeps [where I = "stuck f s"])
    (simp_all add: stuck_steep stuck_flat_4)

lemmas stuck_rules = stuck_steep stuck_flat_4 stuck_fans stuck_sweep_4

text \<open>An element past the picture is not in the buffer, so copying it is a bad access.\<close>

lemma bad_blit:
  assumes "stuck f s t" "vbpp s = 16 \<or> vbpp s = 32" "buf s r = None"
  shows "stuck True s (blit k r t)"
  using assms by (auto simp: stuck_def blit_def)

lemma sdiv_exact:
  assumes "b \<noteq> 0" shows "(a * b) sdiv b = (a :: int)"
proof -
  have "sgn a * sgn b * (sgn b * \<bar>a\<bar>) = (sgn b * sgn b) * (sgn a * \<bar>a\<bar>)" by (simp only: ac_simps)
  also have "\<dots> = a" using assms by (simp add: sgn_if)
  finally show ?thesis using assms
    by (simp add: signed_divide_int_def sgn_mult abs_mult mult.assoc)
qed

lemma fan_corner:
  assumes "0 < p" "0 < (q :: int)"
  shows "fan_row (2 * p) (2 * q) (- q) (- 2 * (2 * p)) = 2 * q"
    and "(- 2 * (2 * p)) * (2 * q) sdiv (4 * (2 * p)) = - q"
    and "(2 * p) sdiv 2 + (- 2 * (2 * p)) sdiv 4 = 0"
    and "- (2 * q) sdiv 2 = - q"
    and "fan_source (2 * p) (2 * q) 0 (2 * q) s = height s * wid s"
proof -
  have "- q * (- 2 * (2 * p)) sdiv (2 * (2 * p)) = q * (2 * (2 * p)) sdiv (2 * (2 * p))" by simp
  also have "\<dots> = q" using assms by (intro sdiv_exact) simp
  finally have 1: "- q * (- 2 * (2 * p)) sdiv (2 * (2 * p)) = q" .
  have 2: "(2 * q) sdiv 2 = q" "(2 * p) sdiv 2 = p" using assms by (simp_all add: sdiv_nonneg)
  show "fan_row (2 * p) (2 * q) (- q) (- 2 * (2 * p)) = 2 * q"
    unfolding fan_row_def 1 2 by simp
  have e: "(- 2 * (2 * p)) * (2 * q) = - q * (4 * (2 * p))" by simp
  show "(- 2 * (2 * p)) * (2 * q) sdiv (4 * (2 * p)) = - q"
    unfolding e by (rule sdiv_exact) (use assms in simp)
  have "(- 2 * (2 * p)) sdiv 4 = (- p * 4) sdiv 4" by (simp add: mult.commute [of p 4])
  also have "\<dots> = - p" by (intro sdiv_exact) simp
  finally show "(2 * p) sdiv 2 + (- 2 * (2 * p)) sdiv 4 = 0" using 2 by simp
  have "- (2 * q) sdiv 2 = (- q * 2) sdiv 2" by (simp add: mult.commute [of q 2])
  also have "\<dots> = - q" by (intro sdiv_exact) simp
  finally show "- (2 * q) sdiv 2 = - q" .
  have "2 * q * height s sdiv (2 * q) = height s * (2 * q) sdiv (2 * q)"
    by (simp only: mult.commute [of "2 * q" "height s"])
  also have "\<dots> = height s" using assms by (intro sdiv_exact) simp
  finally show "fan_source (2 * p) (2 * q) 0 (2 * q) s = height s * wid s"
    by (simp add: fan_source_def Let_def sdiv_nonneg)
qed

lemma stuck_last:
  assumes "a < b" and f: "\<And>i t g. stuck g s t \<Longrightarrow> stuck g s (f i t)"
    and bad: "\<And>t. stuck False s t \<Longrightarrow> stuck True s (f a t)" and t: "stuck False s t"
  shows "stuck True s (for_range a b f t)"
  unfolding for_range_first [OF assms(1)]
  by (rule for_range_keeps [where I = "stuck True s"]) (use bad [OF t] f in blast)+

lemma stuck_loops:
  assumes "\<And>i j t g. stuck g s t \<Longrightarrow> stuck g s (f i j t)" and "stuck g s t"
  shows "stuck g s (for_range a b (\<lambda>i. for_range c d (f i)) t)"
  by (rule for_range_keeps [where I = "stuck g s"], fact assms(2),
      rule for_range_keeps [where I = "stuck g s"]) (use assms(1) in blast)+

lemma picture_past_end:
  assumes s: "showable pic x y lw lh tran s"
    and u: "u = tran pic (malloc_buf (to_int32 (wid s * height s * vbpp s) sdiv 8) s)"
  shows "(vbpp u = 16 \<or> vbpp u = 32) \<and> buf u (height u * wid u) = None"
proof -
  let ?m = "malloc_buf (to_int32 (wid s * height s * vbpp s) sdiv 8) s"
  obtain m where m: "u = ?m\<lparr>buf := m\<rparr>" "\<forall>k. k < 0 \<or> buf_cells ?m \<le> k \<longrightarrow> m k = None"
    using prepared [OF s] u by blast
  have d: "vbpp s = 16 \<or> vbpp s = 32"
    using s by (auto simp: showable_def choose_transform_def split: if_splits)
  obtain n where n: "n = wid s * height s" "0 \<le> n" using s by (simp add: showable_def)
  have "n * 16 sdiv 8 sdiv 2 = n" "n * 32 sdiv 8 sdiv 4 = n" using n(2) by (simp_all add: sdiv_nonneg)
  moreover have "to_int32 (n * vbpp s) = n * vbpp s"
    using s d n(2) unfolding showable_def sizes_fit_def n(1) [symmetric] by (intro to_int32_eq_self) auto
  ultimately have "buf_cells ?m = n" using d unfolding n(1) [symmetric] by (auto simp: malloc_buf_def n(1))
  then show ?thesis using m d n by (simp add: malloc_buf_def mult.commute)
qed

lemma show_pic_4_faults:
  assumes s: "showable pic x y (2 * p) (2 * q) tran s"
  shows "fault (show_pic_4 pic x y (2 * p) (2 * q) tran s)"
proof -
  define u where "u = tran pic (malloc_buf (to_int32 (wid s * height s * vbpp s) sdiv 8) s)"
  have pq: "0 < p" "0 < q" using s by (auto simp: showable_def)
  note c = fan_corner [OF pq]
  have bad: "stuck True u (flat_pixel_4 x y (2 * p) (2 * q) (- q) (- 2 * (2 * p)) t)" if "stuck False u t" for t
    unfolding flat_pixel_4_def Let_def c
    by (rule bad_blit [OF that]) (use picture_past_end [OF s u_def] that in \<open>auto simp: stuck_def\<close>)
  have sweep: "stuck True u (fan_sweep_4 x y (2 * p) (2 * q) (- 2 * (2 * p)) t)" if "stuck False u t" for t
    unfolding fan_sweep_4_def c
    by (rule stuck_last, use pq in simp, erule stuck_flat_4, erule bad,
        rule for_range_keeps [where I = "stuck False u"], rule that, erule stuck_steep)
  have "stuck True u (for_range (- 2 * (2 * p)) (2 * (2 * p) + 1) (fan_sweep_4 x y (2 * p) (2 * q)) u)"
    by (rule stuck_last, use pq in simp, erule stuck_sweep_4, erule sweep) (simp add: stuck_def)
  then show ?thesis unfolding show_pic_4_def u_def [symmetric] by (simp add: stuck_def free_buf_def)
qed

lemma show_pic_11_faults:
  assumes s: "showable pic x y (2 * p) (2 * q) tran s"
  shows "fault (show_pic_11 pic x y (2 * p) (2 * q) tran s)"
proof -
  define u where "u = tran pic (malloc_buf (to_int32 (wid s * height s * vbpp s) sdiv 8) s)"
  have pq: "0 < p" "0 < q" using s by (auto simp: showable_def)
  note c = fan_corner [OF pq]
  let ?L = "\<lambda>f a b c d. for_range a b (\<lambda>i. for_range c d (f x y (2 * p) (2 * q) i))"
  let ?h = "(2 * q) sdiv 2" and ?w = "2 * (2 * p)"
  have bad: "stuck True u (fan_fourth x y (2 * p) (2 * q) (- q) (- 2 * (2 * p)) t)" if "stuck False u t" for t
    unfolding fan_fourth_def clamped_blit_def c
    by (auto split: prod.split intro!: bad_blit [OF that])
      (use picture_past_end [OF s u_def] that in \<open>auto simp: stuck_def\<close>)
  have bad_row: "stuck True u (for_range (- 2 * (2 * p)) 0 (fan_fourth x y (2 * p) (2 * q) (- q)) t)"
    if "stuck False u t" for t
    by (rule stuck_last, use pq in simp, erule stuck_fans, erule bad, rule that)
  have 0: "stuck False u u" by (simp add: stuck_def)
  note 1 = stuck_loops [where f = "fan_first x y (2 * p) (2 * q)", OF stuck_fans(1) 0]
  note 2 = stuck_loops [where f = "fan_second x y (2 * p) (2 * q)", OF stuck_fans(2) 1]
  note 3 = stuck_loops [where f = "steep_pixel x y (2 * p) (2 * q)", OF stuck_steep 2]
  have 4: "stuck True u (?L fan_fourth (- (2 * q) sdiv 2) (?h + 1) (- 2 * (2 * p)) 0 t)"
    if "stuck False u t" for t
  proof (rule stuck_last [OF _ _ _ that])
    show "- (2 * q) sdiv 2 < ?h + 1" using pq c(4) by (simp add: sdiv_nonneg)
    show "stuck True u (for_range (- 2 * (2 * p)) 0 (fan_fourth x y (2 * p) (2 * q) (- (2 * q) sdiv 2)) t)"
      if "stuck False u t" for t
      unfolding c(4) by (rule bad_row [OF that])
  qed (rule for_range_keeps, assumption, erule stuck_fans)
  note 5 = stuck_loops [where f = "steep_pixel x y (2 * p) (2 * q)", OF stuck_steep 4 [OF 3]]
  show ?thesis
    unfolding show_pic_11_def Let_def u_def [symmetric]
    using 5 by (simp add: stuck_def free_buf_def)
qed

text \<open>
  On an area of even width and height, as every usual screen has, \<open>show_pic_4\<close> and
  \<open>show_pic_11\<close> always make a bad access: the flat ray that reaches the lower left corner
  reads the row below the picture, past the end of its buffer.
\<close>

theorem fans_read_past_picture:
  assumes "showable pic x y lw lh tran s" and "even lw" "even lh"
  shows "fault (show_pic_4 pic x y lw lh tran s) \<and> fault (show_pic_11 pic x y lw lh tran s)"
proof -
  obtain p q where "lw = 2 * p" "lh = 2 * q" using assms(2,3) by (auto elim!: evenE)
  then show ?thesis
    using show_pic_4_faults [of pic x y p q tran s] show_pic_11_faults [of pic x y p q tran s] assms(1)
    by simp
qed

theorem fans_read_past_picture_witness:
  "fault (show_pic_11 demo_picture 0 0 16 14 transform24_32 (demo_view\<lparr>vh := 14\<rparr>))"
  using fans_read_past_picture [of demo_picture 0 0 16 14 transform24_32 "demo_view\<lparr>vh := 14\<rparr>"]
  by (simp add: showable_def sizes_fit_def choose_transform_def whole_def demo_view_def demo_picture_def)

end
