(* ===== verification/Gallery.thy ===== *)
theory Gallery
  imports Effects
begin

text \<open>
  The rest of the JPEG viewer: \<open>jpeg.c\<close> (\<open>decode_jpeg\<close>, \<open>encode_jpeg\<close>), the list of file names
  of \<open>search_img.c\<close> and the loop of \<open>main.c\<close>.

  libjpeg is a parameter: \<open>jpeg_file\<close> says what the library reports of a file (whether it
  opens, the size, the number of components and the sample lines that successive
  \<open>jpeg_read_scanlines\<close> calls deliver). The list lives on a heap of nodes, as in the C code; a
  node is allocated at an unused address. Allocation of list nodes does not fail here.
  (\<open>malloc(sizeof(Link_img))\<close> asks for the size of a pointer, less than a node; the model gives
  whole nodes.)
\<close>

subsection \<open>Decoding and encoding\<close>

record jpeg_file =
  jf_open :: bool
  jf_memory :: bool
  jf_width :: int
  jf_height :: int
  jf_components :: int
  jf_line :: "int \<Rightarrow> int \<Rightarrow> int"

text \<open>A block of bytes: its contents, and whether every access so far was inside.\<close>

type_synonym block = "(int \<rightharpoonup> int) \<times> bool"

definition byte_store :: "int \<Rightarrow> int \<Rightarrow> int \<Rightarrow> block \<Rightarrow> block" where
  "byte_store n k v b = (if 0 \<le> k \<and> k < n then ((fst b)(k \<mapsto> v), snd b) else (fst b, False))"

definition rgb_row :: "jpeg_file \<Rightarrow> int \<Rightarrow> int \<Rightarrow> int \<Rightarrow> block \<Rightarrow> block" where
  "rgb_row f wd n y b =
     (if wd < 0 then (fst b, False)
      else for_range 0 (3 * wd) (\<lambda>x. byte_store n (y * wd * 3 + x) (jf_line f y x)) b)"

definition gray_step :: "jpeg_file \<Rightarrow> int \<Rightarrow> int \<Rightarrow> int \<Rightarrow> int \<Rightarrow> int \<times> block \<Rightarrow> int \<times> block" where
  "gray_step f wd n y x st = (case st of (lineBufIndex, b) \<Rightarrow>
     (let lineOffset = wd * 3; col = jf_line f y lineBufIndex;
          b1 = byte_store n (lineOffset * y + x) col b;
          b2 = byte_store n (lineOffset * y + (x + 1)) col b1;
          b3 = byte_store n (lineOffset * y + (x + 2)) col b2
      in (lineBufIndex + 1, b3)))"

definition gray_row :: "jpeg_file \<Rightarrow> int \<Rightarrow> int \<Rightarrow> int \<Rightarrow> block \<Rightarrow> block" where
  "gray_row f wd n y b = snd (for_step 0 (wd * 3) 3 (gray_step f wd n y) (0, b))"

text \<open>The picture (\<open>None\<close> is \<open>NULL\<close>), \<open>True\<close> if every access was good, width and height.\<close>

definition decode_jpeg :: "jpeg_file \<Rightarrow> int \<Rightarrow> int \<Rightarrow> picture option \<times> bool \<times> int \<times> int" where
  "decode_jpeg f wd0 ht0 =
     (if \<not> jf_open f then (None, True, wd0, ht0)
      else (let wd = to_short (jf_width f); ht = to_short (jf_height f);
                bytesPerPix = jf_components f; n = 3 * (wd * ht)
            in if \<not> jf_memory f then (None, True, wd, ht)
               else if bytesPerPix = 3 then
                 (let b = for_range 0 (jf_height f) (rgb_row f wd n) (Map.empty, True)
                  in (Some (fst b), snd b, wd, ht))
               else if bytesPerPix = 1 then
                 (let b = for_range 0 (jf_height f) (gray_row f wd n) (Map.empty, True)
                  in (Some (fst b), snd b, wd, ht))
               else (None, True, wd, ht)))"

text \<open>
  \<open>encode_jpeg\<close> copies the picture into one block, row after row, and hands libjpeg the rows in
  order: the result is what it returns and the rows written.
\<close>

definition encode_pixel :: "(int \<rightharpoonup> int) \<Rightarrow> int \<Rightarrow> int \<Rightarrow> int \<Rightarrow> block \<Rightarrow> block" where
  "encode_pixel rgbbuf wd n k b =
     (case (rgbbuf k, rgbbuf (k + 1), rgbbuf (k + 2)) of
        (Some r, Some g, Some c) \<Rightarrow>
          byte_store n (k + 2) c (byte_store n (k + 1) g (byte_store n k r b))
      | _ \<Rightarrow> (fst b, False))"

definition encode_jpeg ::
  "bool \<Rightarrow> (int \<rightharpoonup> int) \<Rightarrow> int \<Rightarrow> int \<Rightarrow> int \<times> bool \<times> int option list list" where
  "encode_jpeg opened rgbbuf widthPtr heightPtr =
     (if \<not> opened then (- 1, True, [])
      else (let row_stride = widthPtr * 3; n = heightPtr * row_stride;
                b = for_range 0 heightPtr (\<lambda>j. for_step 0 (widthPtr * 3) 3 (\<lambda>i.
                      encode_pixel rgbbuf widthPtr n (j * row_stride + i))) (Map.empty, True)
            in (0, snd b, map (\<lambda>j. map (\<lambda>i. fst b (row_stride * j + i)) [0..row_stride - 1])
                            [0..heightPtr - 1])))"

subsection \<open>The list of names\<close>

record node =
  img_name :: string
  link :: "nat option"

record gallery =
  nodes :: "nat \<rightharpoonup> node"
  fresh :: nat
  l_img :: nat
  l_img_head :: nat
  img_tmp :: "nat option"
  list_fault :: bool

definition malloc_node :: "node \<Rightarrow> gallery \<Rightarrow> nat \<times> gallery" where
  "malloc_node nd g = (fresh g, g\<lparr>nodes := (nodes g)(fresh g \<mapsto> nd), fresh := Suc (fresh g)\<rparr>)"

definition ins_img :: "string \<Rightarrow> nat \<Rightarrow> gallery \<Rightarrow> nat \<times> gallery" where
  "ins_img name tmp g =
     (case nodes g tmp of
        None \<Rightarrow> (tmp, g\<lparr>list_fault := True\<rparr>)
      | Some t \<Rightarrow>
          (case malloc_node \<lparr>img_name = name, link = link t\<rparr> g of
             (new_img, g1) \<Rightarrow> (new_img, g1\<lparr>nodes := (nodes g1)(tmp \<mapsto> t\<lparr>link := Some new_img\<rparr>)\<rparr>)))"

definition get_img :: "nat \<Rightarrow> gallery \<Rightarrow> nat option \<times> gallery" where
  "get_img tmp g =
     (case nodes g tmp of None \<Rightarrow> (None, g\<lparr>list_fault := True\<rparr>) | Some t \<Rightarrow> (link t, g))"

text \<open>
  One directory entry. \<open>infile\<close> holds 50 characters: a longer path is written past its end.
\<close>

definition jpegs_path :: "string \<Rightarrow> string" where
  "jpegs_path d_name = ''./jpegs/'' @ d_name"

definition search_entry :: "string \<Rightarrow> nat \<times> gallery \<Rightarrow> nat \<times> gallery" where
  "search_entry d_name st = (case st of (tmp, g) \<Rightarrow>
     (if d_name \<noteq> [] \<and> hd d_name = CHR ''.'' then (tmp, g)
      else (let infile = jpegs_path d_name;
                g1 = (if length infile + 1 > 50 then g\<lparr>list_fault := True\<rparr> else g)
            in ins_img infile tmp g1)))"

definition search_img :: "string list \<Rightarrow> gallery \<Rightarrow> gallery" where
  "search_img entries g =
     (case malloc_node \<lparr>img_name = [], link = None\<rparr> g of (a, g1) \<Rightarrow>
        (case fold search_entry entries (a, g1\<lparr>l_img := a, l_img_head := a\<rparr>) of
           (tmp, g2) \<Rightarrow> g2\<lparr>img_tmp := Some tmp\<rparr>))"

text \<open>
  The loop of \<open>free_img_buf\<close>; \<open>None\<close>: no end, or a node that is not allocated. A node's name is
  freed with the node.
\<close>

partial_function (option) free_nodes :: "nat option \<Rightarrow> gallery \<Rightarrow> gallery option" where
  "free_nodes p g =
     (case p of
        None \<Rightarrow> Some g
      | Some a \<Rightarrow> (case nodes g a of
          None \<Rightarrow> None
        | Some t \<Rightarrow> free_nodes (link t) (g\<lparr>nodes := (nodes g)(a := None)\<rparr>)))"

definition free_img_buf :: "gallery \<Rightarrow> gallery option" where
  "free_img_buf g =
     (case nodes g (l_img_head g) of
        None \<Rightarrow> None
      | Some t \<Rightarrow> (case free_nodes (link t) g of
          None \<Rightarrow> None
        | Some g' \<Rightarrow> if nodes g' (l_img g') = None then None
                     else Some (g'\<lparr>nodes := (nodes g')(l_img g' := None)\<rparr>)))"

subsection \<open>The main loop\<close>

text \<open>
  The \<open>switch\<close> of \<open>main\<close> on an area that is the whole screen; \<open>junk\<close> stands for the variables
  that \<open>show_pic_3\<close>, \<open>show_pic_5\<close> and \<open>show_pic_13\<close> do not initialise.
\<close>

definition show_style :: "int \<Rightarrow> int \<Rightarrow> picture \<Rightarrow> callback \<Rightarrow> view \<Rightarrow> view" where
  "show_style junk style_num pic tran s =
     (let pic_w = vw s; pic_h = vh s; init_x = 0; init_y = 0 in
      if style_num = 1 then show_pic_1 pic init_x init_y pic_w pic_h 3 tran s
      else if style_num = 2 then show_pic_2 pic (init_x - pic_w) (init_y - pic_h) pic_w pic_h tran s
      else if style_num = 3 then show_pic_3 junk junk pic init_x init_y pic_w pic_h tran s
      else if style_num = 4 then show_pic_4 pic init_x init_y pic_w pic_h tran s
      else if style_num = 5 then show_pic_5 junk pic init_x init_y pic_w pic_h tran s
      else if style_num = 6 then show_pic_6 pic init_x init_y pic_w pic_h 5 tran s
      else if style_num = 7 then show_pic_7 pic init_x init_y pic_w pic_h 16 tran s
      else if style_num = 8 then show_pic_8 pic init_x init_y pic_w pic_h tran s
      else if style_num = 9 then show_pic_9 pic init_x init_y pic_w pic_h tran s
      else if style_num = 10 then show_pic_10 pic (init_x + scroll) (init_y + scroll_head)
        (pic_w - 2 * scroll) (pic_h - 2 * scroll_head) tran s
      else if style_num = 11 then show_pic_11 pic init_x init_y pic_w pic_h tran s
      else if style_num = 12 then show_pic_12 pic init_x init_y pic_w pic_h 8 tran s
      else if style_num = 13 then show_pic_13 junk pic init_x init_y pic_w pic_h tran s
      else if style_num = 14 then show_pic_14 pic init_x init_y pic_w pic_h tran s
      else s)"

text \<open>The picture as the transitions read it: \<open>NULL\<close> has no bytes.\<close>

definition show_file :: "int \<Rightarrow> int \<Rightarrow> jpeg_file \<Rightarrow> callback \<Rightarrow> view \<Rightarrow> view" where
  "show_file junk style_num f tran s =
     (case decode_jpeg f (wid s) (height s) of (pic, good, wd, ht) \<Rightarrow>
        show_style junk style_num (case pic of None \<Rightarrow> Map.empty | Some p \<Rightarrow> p) tran
          (s\<lparr>wid := wd, height := ht, fault := fault s \<or> \<not> good\<rparr>))"

record viewer =
  gal :: gallery
  scr :: view
  style_num :: int

definition next_style :: "int \<Rightarrow> int" where
  "next_style n = (if n > 13 then 0 else n) + 1"

text \<open>One round of the loop, entered with \<open>img_tmp\<close> not \<open>NULL\<close>.\<close>

definition main_round :: "(string \<Rightarrow> jpeg_file) \<Rightarrow> int \<Rightarrow> callback \<Rightarrow> viewer \<Rightarrow> viewer" where
  "main_round files junk tran m =
     (case img_tmp (gal m) of
        None \<Rightarrow> m
      | Some a \<Rightarrow>
          (case nodes (gal m) a of
             None \<Rightarrow> m\<lparr>gal := (gal m)\<lparr>list_fault := True\<rparr>\<rparr>
           | Some t \<Rightarrow>
               (let s = show_file junk (style_num m) (files (img_name t)) tran (scr m);
                    (tmp, g) = get_img a (gal m);
                    (tmp', g') = (if tmp = None then get_img (l_img_head g) g else (tmp, g))
                in \<lparr>gal = g'\<lparr>img_tmp := tmp'\<rparr>, scr = s, style_num = next_style (style_num m)\<rparr>)))"

definition main_start :: "string list \<Rightarrow> gallery \<Rightarrow> view \<Rightarrow> viewer" where
  "main_start entries g s =
     (let g1 = search_img entries g;
          (tmp, g2) = get_img (l_img_head g1) g1
      in \<lparr>gal = g2\<lparr>img_tmp := tmp\<rparr>, scr = s, style_num = 1\<rparr>)"

fun rounds :: "(string \<Rightarrow> jpeg_file) \<Rightarrow> int \<Rightarrow> callback \<Rightarrow> nat \<Rightarrow> viewer \<Rightarrow> viewer" where
  "rounds files junk tran 0 m = m"
| "rounds files junk tran (Suc n) m = main_round files junk tran (rounds files junk tran n m)"

subsection \<open>Bytes written by the decoder and the encoder\<close>

text \<open>\<open>wrote v D b b'\<close>: the offsets \<open>D\<close> now hold the bytes \<open>v\<close>, and no access was bad.\<close>

definition wrote :: "(int \<Rightarrow> int) \<Rightarrow> int set \<Rightarrow> block \<Rightarrow> block \<Rightarrow> bool" where
  "wrote v D b b' \<longleftrightarrow> snd b' = snd b \<and> (\<forall>k. fst b' k = (if k \<in> D then Some (v k) else fst b k))"

interpretation bytes: region "\<lambda>_ :: block. True" "wrote v" for v
  by unfold_locales (auto simp: wrote_def)

lemma byte_store_wrote: "0 \<le> k \<Longrightarrow> k < n \<Longrightarrow> w = v k \<Longrightarrow> wrote v {k} b (byte_store n k w b)"
  by (simp add: wrote_def byte_store_def)

lemma three_stores:
  assumes "0 \<le> k" "k + 2 < n"
  shows "wrote v {k..<k + 3} b
    (byte_store n (k + 2) (v (k + 2)) (byte_store n (k + 1) (v (k + 1)) (byte_store n k (v k) b)))"
proof -
  have "{k..<k + 3} = {k} \<union> {k + 1} \<union> {k + 2}" by auto
  then show ?thesis
    by (simp only:) (rule bytes.eff_comp [OF bytes.eff_comp
      [OF byte_store_wrote byte_store_wrote] byte_store_wrote]; use assms in simp)
qed

lemma thirds: "0 \<le> w \<Longrightarrow> [x \<leftarrow> [0..w * 3 - 1]. (x - 0) mod 3 = 0] = map (\<lambda>p. 3 * p) [0..w - 1]" for w :: int
proof (induction w rule: int_ge_induct)
  case base
  then show ?case by simp
next
  case (step w)
  have "[0..(w + 1) * 3 - 1] = [0..w * 3 - 1] @ [w * 3, w * 3 + 1, w * 3 + 2]"
    using step.hyps upto_rec2 [of 0 "w * 3 + 2"] upto_rec2 [of 0 "w * 3 + 1"] upto_rec2 [of 0 "w * 3"]
    by (simp add: algebra_simps)
  moreover have "[0..w + 1 - 1] = [0..w - 1] @ [w]"
    using step.hyps upto_rec2 [of 0 w] by simp
  moreover have "(w * 3 + 1) mod 3 = 1" "(w * 3 + 2) mod 3 = 2" by presburger+
  ultimately show ?case using step.IH by simp
qed

lemma for_step_thirds: "0 \<le> w \<Longrightarrow> for_step 0 (w * 3) 3 f s = for_range 0 w (\<lambda>p. f (3 * p)) s"
  unfolding for_step_def by (simp only: thirds for_range_map)

lemma rows_union:
  assumes "0 < (m :: int)"
  shows "(\<Union>y \<in> {0..<h}. {y * m..<y * m + m}) = {0..<h * m}"
proof
  have "{y * m..<y * m + m} \<subseteq> {0..<h * m}" if "0 \<le> y" "y < h" for y
  proof -
    have "y * m + m \<le> h * m"
      using mult_right_mono [of "y + 1" h m] that assms by (simp add: algebra_simps)
    moreover have "0 \<le> y * m" using that assms by simp
    ultimately show ?thesis by auto
  qed
  then show "(\<Union>y \<in> {0..<h}. {y * m..<y * m + m}) \<subseteq> {0..<h * m}" by (intro UN_least) simp
  show "{0..<h * m} \<subseteq> (\<Union>y \<in> {0..<h}. {y * m..<y * m + m})"
  proof
    fix k assume k: "k \<in> {0..<h * m}"
    have "k div m * m \<le> k"
      using div_mult_mod_eq [of k m] pos_mod_sign [of m k] assms by linarith
    moreover have "k < k div m * m + m"
      using div_mult_mod_eq [of k m] pos_mod_bound [of m k] assms by linarith
    moreover have "0 \<le> k div m" using k assms by (simp add: pos_imp_zdiv_nonneg_iff)
    moreover from calculation have "k div m < h"
      using k assms by (meson atLeastLessThan_iff le_less_trans mult_less_cancel_right_pos)
    ultimately show "k \<in> (\<Union>y \<in> {0..<h}. {y * m..<y * m + m})" by (intro UN_I [of "k div m"]) auto
  qed
qed

lemma rows_union_at:
  assumes "0 < (m :: int)"
  shows "(\<Union>y \<in> {0..<h}. {a + y * m..<a + y * m + m}) = {a..<a + h * m}"
proof -
  have "(\<Union>y \<in> {0..<h}. {a + y * m..<a + y * m + m}) = (+) a ` (\<Union>y \<in> {0..<h}. {y * m..<y * m + m})"
    by (simp only: image_UN image_add_atLeastLessThan) (simp add: ac_simps)
  then show ?thesis by (simp only: rows_union [OF assms] image_add_atLeastLessThan) (simp add: add.commute)
qed

text \<open>The byte at an offset of the decoded picture, for three components and for one.\<close>

definition sample :: "jpeg_file \<Rightarrow> int \<Rightarrow> int \<Rightarrow> int" where
  "sample f wd k =
     (let y = k div (wd * 3); x = k mod (wd * 3)
      in if jf_components f = 3 then jf_line f y x else jf_line f y (x div 3))"

lemma sample_at:
  assumes "0 \<le> x" "x < wd * 3"
  shows "sample f wd (wd * 3 * y + x)
    = (if jf_components f = 3 then jf_line f y x else jf_line f y (x div 3))"
proof -
  have e: "wd * 3 * y + x = y * (wd * 3) + x" by (simp only: mult.commute)
  show ?thesis
    unfolding sample_def Let_def e field_div [OF assms] field_mod [OF assms] ..
qed

lemma row_fits:
  assumes "0 \<le> y" "y < h" "0 \<le> x" "x < (m :: int)"
  shows "0 \<le> m * y + x \<and> m * y + x < m * h"
proof -
  have "m * (y + 1) \<le> m * h" using assms by (intro mult_left_mono) auto
  moreover have "0 \<le> m * y" using assms by simp
  ultimately show ?thesis using assms by (simp add: algebra_simps)
qed

lemma rgb_row_wrote:
  assumes "0 < wd" "0 \<le> y" "y < ht" and c: "jf_components f = 3"
  shows "wrote (sample f wd) {y * (wd * 3)..<y * (wd * 3) + wd * 3} b (rgb_row f wd (3 * (wd * ht)) y b)"
proof -
  have "wrote (sample f wd) (\<Union>x \<in> {0..<3 * wd}. {y * wd * 3 + x}) b
      (for_range 0 (3 * wd) (\<lambda>x. byte_store (3 * (wd * ht)) (y * wd * 3 + x) (jf_line f y x)) b)"
  proof (rule bytes.eff_range [OF _ TrueI])
    fix x t assume x: "0 \<le> x" "x < 3 * wd"
    then have "0 \<le> wd * 3 * y + x \<and> wd * 3 * y + x < wd * 3 * ht"
      using assms by (intro row_fits) auto
    moreover have e: "y * wd * 3 + x = wd * 3 * y + x" by (simp only: ac_simps)
    moreover have "wd * 3 * ht = 3 * (wd * ht)" by simp
    ultimately show "wrote (sample f wd) {y * wd * 3 + x} t
        (byte_store (3 * (wd * ht)) (y * wd * 3 + x) (jf_line f y x) t)"
      unfolding e using sample_at [of x wd f y] x c by (intro byte_store_wrote) simp_all
  qed
  moreover have "(\<Union>x \<in> {0..<3 * wd}. {y * wd * 3 + x}) = {y * (wd * 3)..<y * (wd * 3) + wd * 3}"
  proof -
    have "(\<Union>x \<in> {0..<3 * wd}. {y * wd * 3 + x}) = (\<lambda>x. y * wd * 3 + x) ` {0..<3 * wd}" by blast
    then show ?thesis by (simp add: algebra_simps)
  qed
  ultimately show ?thesis using assms by (simp add: rgb_row_def)
qed

lemma gray_row_wrote:
  assumes g: "0 < wd" "0 \<le> y" "y < ht" and c: "jf_components f \<noteq> 3"
  shows "wrote (sample f wd) {y * (wd * 3)..<y * (wd * 3) + wd * 3} b (gray_row f wd (3 * (wd * ht)) y b)"
proof -
  let ?P = "\<lambda>p (st :: int \<times> block). fst st = p
     \<and> wrote (sample f wd) {y * (wd * 3)..<y * (wd * 3) + 3 * p} b (snd st)"
  have "?P wd (for_range 0 wd (\<lambda>p. gray_step f wd (3 * (wd * ht)) y (3 * p)) (0, b))"
  proof (rule for_range_invariant [where P = ?P])
    show "?P 0 (0, b)" by (simp add: wrote_def)
  next
    fix p st assume p: "0 \<le> p" "p < wd" and P: "?P p st"
    let ?k = "wd * 3 * y + 3 * p" and ?n = "3 * (wd * ht)"
    obtain b1 where st: "st = (p, b1)" using P by (cases st) simp
    have "0 \<le> ?k \<and> ?k < wd * 3 * ht" "0 \<le> wd * 3 * y + (3 * p + 2) \<and> wd * 3 * y + (3 * p + 2) < wd * 3 * ht"
      using g p by (intro row_fits; simp)+
    moreover have "wd * 3 * ht = ?n" by simp
    ultimately have k: "0 \<le> ?k" "?k + 2 < ?n" by (simp_all add: algebra_simps)
    have s: "sample f wd (wd * 3 * y + (3 * p + d)) = jf_line f y p" if "0 \<le> d" "d < 3" for d
    proof -
      have "(3 * p + d) div 3 = p" using field_div [OF that, of p] by (simp add: mult.commute)
      then show ?thesis using sample_at [of "3 * p + d" wd f y] that p c by simp
    qed
    have "gray_step f wd ?n y (3 * p) st = (p + 1, byte_store ?n (?k + 2) (sample f wd (?k + 2))
        (byte_store ?n (?k + 1) (sample f wd (?k + 1)) (byte_store ?n ?k (sample f wd ?k) b1)))"
      using s [of 0] s [of 1] s [of 2] by (simp add: gray_step_def st Let_def add.assoc)
    moreover have "wrote (sample f wd) ({y * (wd * 3)..<y * (wd * 3) + 3 * p} \<union> {?k..<?k + 3}) b
      (byte_store ?n (?k + 2) (sample f wd (?k + 2))
        (byte_store ?n (?k + 1) (sample f wd (?k + 1)) (byte_store ?n ?k (sample f wd ?k) b1)))"
      using P st by (intro bytes.eff_comp [OF _ three_stores [OF k]]) simp
    moreover have "{y * (wd * 3)..<y * (wd * 3) + 3 * p} \<union> {?k..<?k + 3}
        = {y * (wd * 3)..<y * (wd * 3) + 3 * (p + 1)}"
      using p by (auto simp: algebra_simps)
    ultimately show "?P (p + 1) (gray_step f wd ?n y (3 * p) st)" by simp
  qed (use g in simp)
  then show ?thesis using g by (simp add: gray_row_def for_step_thirds mult.commute)
qed

lemma decode_jpeg_lemma:
  assumes f: "jf_open f" "jf_memory f" "jf_components f = 3 \<or> jf_components f = 1"
    and g: "0 < jf_width f" "jf_width f < 32768" "0 < jf_height f" "jf_height f < 32768"
  shows "\<exists>pic. decode_jpeg f wd0 ht0 = (Some pic, True, jf_width f, jf_height f)
       \<and> (\<forall>k. pic k = (if 0 \<le> k \<and> k < jf_width f * jf_height f * 3
                      then Some (sample f (jf_width f) k) else None))"
proof -
  let ?w = "jf_width f" and ?h = "jf_height f"
  have sh: "to_short ?w = ?w" "to_short ?h = ?h" using g by (simp_all add: to_short_eq_self)
  let ?row = "if jf_components f = 3 then rgb_row f ?w (3 * (?w * ?h)) else gray_row f ?w (3 * (?w * ?h))"
  define b where "b = for_range 0 ?h ?row (Map.empty, True)"
  have "wrote (sample f ?w) (\<Union>y \<in> {0..<?h}. {y * (?w * 3)..<y * (?w * 3) + ?w * 3}) (Map.empty, True) b"
    unfolding b_def
  proof (rule bytes.eff_range [OF _ TrueI])
    show "wrote (sample f ?w) {y * (?w * 3)..<y * (?w * 3) + ?w * 3} t (?row y t)"
      if "0 \<le> y" "y < ?h" for y t
      using rgb_row_wrote [of ?w y ?h f t] gray_row_wrote [of ?w y ?h f t] that g by simp
  qed
  then have b: "wrote (sample f ?w) {0..<?h * (?w * 3)} (Map.empty, True) b"
    using g by (simp only: rows_union)
  have e: "decode_jpeg f wd0 ht0 = (Some (fst b), snd b, ?w, ?h)"
    using f by (auto simp: decode_jpeg_def Let_def sh b_def)
  have m: "?h * (?w * 3) = ?w * ?h * 3" by simp
  show ?thesis
    unfolding e using b by (intro exI [of _ "fst b"]) (simp add: wrote_def m)
qed

lemma decoded_byte:
  assumes pic: "\<And>k. pic k = (if 0 \<le> k \<and> k < w * h * 3 then Some (sample f w k) else None)"
    and v: "0 \<le> a" "a < w" "0 \<le> b" "b < h" "0 \<le> l" "l < 3"
  shows "pic ((b * w + a) * 3 + l)
    = Some (if jf_components f = 3 then jf_line f b (3 * a + l) else jf_line f b a)"
proof -
  have e: "(b * w + a) * 3 + l = w * 3 * b + (3 * a + l)" by (simp add: algebra_simps)
  have x: "0 \<le> 3 * a + l" "3 * a + l < w * 3" using v by auto
  have "0 \<le> w * 3 * b + (3 * a + l) \<and> w * 3 * b + (3 * a + l) < w * 3 * h"
    using v x by (intro row_fits) auto
  moreover have "w * 3 * h = w * h * 3" by simp
  moreover have "(3 * a + l) div 3 = a" using v by (simp add: div_add1_eq)
  ultimately show ?thesis unfolding e using pic sample_at [OF x, of f b] by simp
qed

text \<open>
  C25: \<open>decode_jpeg\<close> of a file that opens, with one or three components and a size below
  32768, makes no bad access and returns a buffer that holds, at byte \<open>l\<close> of pixel \<open>(a, b)\<close>,
  sample \<open>3 * a + l\<close> of line \<open>b\<close> for three components and sample \<open>a\<close> for one.
\<close>

theorem decode_jpeg_expands:
  assumes "jf_open f" "jf_memory f" "jf_components f = 3 \<or> jf_components f = 1"
    and "0 < jf_width f" "jf_width f < 32768" "0 < jf_height f" "jf_height f < 32768"
  shows "\<exists>pic. decode_jpeg f wd0 ht0 = (Some pic, True, jf_width f, jf_height f)
       \<and> (\<forall>a b l. 0 \<le> a \<and> a < jf_width f \<and> 0 \<le> b \<and> b < jf_height f \<and> 0 \<le> l \<and> l < 3 \<longrightarrow>
            pic ((b * jf_width f + a) * 3 + l) =
              Some (if jf_components f = 3 then jf_line f b (3 * a + l) else jf_line f b a))"
proof -
  let ?w = "jf_width f" and ?h = "jf_height f"
  obtain pic where pic: "decode_jpeg f wd0 ht0 = (Some pic, True, ?w, ?h)"
    "\<And>k. pic k = (if 0 \<le> k \<and> k < ?w * ?h * 3 then Some (sample f ?w k) else None)"
    using decode_jpeg_lemma [OF assms] by blast
  then show ?thesis using decoded_byte [where f = f, OF pic(2)] by (intro exI [of _ pic]) simp
qed

definition demo_jpeg :: jpeg_file where
  "demo_jpeg = \<lparr>jf_open = True, jf_memory = True, jf_width = 3, jf_height = 2, jf_components = 1,
     jf_line = \<lambda>y x. 10 * y + x\<rparr>"

theorem decode_jpeg_expands_witness:
  "\<exists>pic. fst (decode_jpeg demo_jpeg 0 0) = Some pic \<and> pic 17 = Some 12"
proof -
  obtain pic where p: "decode_jpeg demo_jpeg 0 0 = (Some pic, True, 3, 2)"
    "\<And>a b l. 0 \<le> a \<and> a < 3 \<and> 0 \<le> b \<and> b < 2 \<and> 0 \<le> l \<and> l < 3 \<Longrightarrow>
       pic ((b * 3 + a) * 3 + l) = Some (10 * b + a)"
    using decode_jpeg_expands [of demo_jpeg 0 0] by (auto simp: demo_jpeg_def)
  then show ?thesis using p(2) [of 2 1 2] by simp
qed

subsection \<open>What the encoder hands to the library\<close>

lemma encode_block:
  assumes w: "0 < w" and h: "0 \<le> h" and pic: "\<And>k. 0 \<le> k \<Longrightarrow> k < w * h * 3 \<Longrightarrow> pic k = Some (v k)"
  shows "wrote v {0..<h * (w * 3)} b0
    (for_range 0 h (\<lambda>j. for_step 0 (w * 3) 3 (\<lambda>i. encode_pixel pic w (h * (w * 3)) (j * (w * 3) + i))) b0)"
proof -
  have px: "wrote v {j * (w * 3) + 3 * p..<j * (w * 3) + 3 * p + 3} t
      (encode_pixel pic w (h * (w * 3)) (j * (w * 3) + 3 * p) t)"
    if "0 \<le> j" "j < h" "0 \<le> p" "p < w" for j p t
  proof -
    let ?k = "j * (w * 3) + 3 * p"
    have "0 \<le> w * 3 * j + 3 * p \<and> w * 3 * j + 3 * p < w * 3 * h"
      "0 \<le> w * 3 * j + (3 * p + 2) \<and> w * 3 * j + (3 * p + 2) < w * 3 * h"
      using that by (intro row_fits; simp)+
    moreover have "w * 3 * j = j * (w * 3)" "w * 3 * h = h * (w * 3)" "w * h * 3 = h * (w * 3)"
      by simp_all
    ultimately have k: "0 \<le> ?k" "?k + 2 < h * (w * 3)" and n: "w * h * 3 = h * (w * 3)"
      by (simp_all only: add.assoc)
    then have "pic ?k = Some (v ?k)" "pic (?k + 1) = Some (v (?k + 1))" "pic (?k + 2) = Some (v (?k + 2))"
      by (intro pic; simp only: n; linarith)+
    then show ?thesis using three_stores [OF k, of v t] by (simp add: encode_pixel_def)
  qed
  have row: "wrote v {j * (w * 3)..<j * (w * 3) + w * 3} t
      (for_step 0 (w * 3) 3 (\<lambda>i. encode_pixel pic w (h * (w * 3)) (j * (w * 3) + i)) t)"
    if j: "0 \<le> j" "j < h" for j t
  proof -
    have "wrote v (\<Union>p \<in> {0..<w}. {j * (w * 3) + 3 * p..<j * (w * 3) + 3 * p + 3}) t
        (for_range 0 w (\<lambda>p. encode_pixel pic w (h * (w * 3)) (j * (w * 3) + 3 * p)) t)"
      by (rule bytes.eff_range [OF _ TrueI]) (use px j in blast)
    moreover have "(\<Union>p \<in> {0..<w}. {j * (w * 3) + 3 * p..<j * (w * 3) + 3 * p + 3})
        = {j * (w * 3)..<j * (w * 3) + w * 3}"
      using rows_union_at [of 3, where h = w and a = "j * (w * 3)", OF zero_less_numeral] by (simp only: mult.commute [of 3])
    ultimately show ?thesis using w by (simp only: for_step_thirds less_imp_le)
  qed
  have "wrote v (\<Union>j \<in> {0..<h}. {j * (w * 3)..<j * (w * 3) + w * 3}) b0
    (for_range 0 h (\<lambda>j. for_step 0 (w * 3) 3 (\<lambda>i. encode_pixel pic w (h * (w * 3)) (j * (w * 3) + i))) b0)"
    by (rule bytes.eff_range [OF _ TrueI]) (use row in blast)
  then show ?thesis using w by (simp only: rows_union mult_pos_pos zero_less_numeral)
qed

text \<open>
  Encoding a picture that \<open>decode_jpeg\<close> has read from a file hands libjpeg, line by line,
  the samples that libjpeg delivered, each repeated three times for one component.
\<close>

theorem encode_after_decode:
  assumes "jf_open f" "jf_memory f" "jf_components f = 3 \<or> jf_components f = 1"
    and g: "0 < jf_width f" "jf_width f < 32768" "0 < jf_height f" "jf_height f < 32768"
  shows "\<exists>pic. fst (decode_jpeg f wd0 ht0) = Some pic
       \<and> encode_jpeg True pic (jf_width f) (jf_height f) = (0, True,
           map (\<lambda>j. map (\<lambda>i. Some (if jf_components f = 3 then jf_line f j i else jf_line f j (i div 3)))
             [0..jf_width f * 3 - 1]) [0..jf_height f - 1])"
proof -
  let ?w = "jf_width f" and ?h = "jf_height f" and ?v = "sample f (jf_width f)"
  obtain pic where pic: "decode_jpeg f wd0 ht0 = (Some pic, True, ?w, ?h)"
    "\<And>k. pic k = (if 0 \<le> k \<and> k < ?w * ?h * 3 then Some (?v k) else None)"
    using decode_jpeg_lemma [OF assms] by blast
  define b where "b = for_range 0 ?h (\<lambda>j. for_step 0 (?w * 3) 3 (\<lambda>i.
    encode_pixel pic ?w (?h * (?w * 3)) (j * (?w * 3) + i))) (Map.empty, True)"
  have b: "wrote ?v {0..<?h * (?w * 3)} (Map.empty, True) b"
    unfolding b_def by (rule encode_block) (use g pic(2) in auto)
  have "fst b (?w * 3 * j + i) = Some (if jf_components f = 3 then jf_line f j i else jf_line f j (i div 3))"
    if "0 \<le> j" "j < ?h" "0 \<le> i" "i < ?w * 3" for j i
  proof -
    have "0 \<le> ?w * 3 * j + i \<and> ?w * 3 * j + i < ?w * 3 * ?h" using that by (intro row_fits) auto
    moreover have "?w * 3 * ?h = ?h * (?w * 3)" by simp
    ultimately have "?w * 3 * j + i \<in> {0..<?h * (?w * 3)}" by simp
    then have "fst b (?w * 3 * j + i) = Some (?v (?w * 3 * j + i))" using b unfolding wrote_def by simp
    then show ?thesis by (simp only: sample_at [OF that(3,4)])
  qed
  then have "map (\<lambda>j. map (\<lambda>i. fst b (?w * 3 * j + i)) [0..?w * 3 - 1]) [0..?h - 1]
    = map (\<lambda>j. map (\<lambda>i. Some (if jf_components f = 3 then jf_line f j i else jf_line f j (i div 3)))
        [0..?w * 3 - 1]) [0..?h - 1]"
    by (intro map_cong refl) auto
  moreover have "snd b" using b by (simp add: wrote_def)
  ultimately have "encode_jpeg True pic ?w ?h = (0, True,
      map (\<lambda>j. map (\<lambda>i. Some (if jf_components f = 3 then jf_line f j i else jf_line f j (i div 3)))
        [0..?w * 3 - 1]) [0..?h - 1])"
    by (simp add: encode_jpeg_def Let_def b_def)
  then show ?thesis using pic(1) by auto
qed

theorem encode_after_decode_witness:
  "\<exists>pic. fst (decode_jpeg demo_jpeg 0 0) = Some pic
     \<and> fst (encode_jpeg True pic 3 2) = 0"
  using encode_after_decode [of demo_jpeg 0 0] by (auto simp: demo_jpeg_def)

end
