(* ===== verification/Slideshow.thy ===== *)
theory Slideshow
  imports Gallery
begin

text \<open>
  What the JPEG viewer does as a whole: the list that \<open>search_img\<close> builds and \<open>free_img_buf\<close>
  releases, the order in which the loop of \<open>main\<close> shows pictures and transitions, and what a
  round leaves on the screen.

  \<open>chain h p as\<close> relates the heap to the abstract list: from \<open>p\<close> the links run through the
  addresses \<open>as\<close> and end with \<open>NULL\<close>.
\<close>

subsection \<open>Chains of nodes\<close>

fun chain :: "(nat \<rightharpoonup> node) \<Rightarrow> nat option \<Rightarrow> nat list \<Rightarrow> bool" where
  "chain h p [] = (p = None)"
| "chain h p (a # as) =
     (p = Some a \<and> (case h a of None \<Rightarrow> False | Some t \<Rightarrow> chain h (link t) as))"

definition names :: "(nat \<rightharpoonup> node) \<Rightarrow> nat list \<Rightarrow> string list" where
  "names h as = map (\<lambda>a. img_name (the (h a))) as"

lemma chain_upd [simp]: "x \<notin> set as \<Longrightarrow> chain (h(x := v)) p as = chain h p as"
  by (induction as arbitrary: p) (auto split: option.splits)

lemma chain_snoc:
  assumes "chain h p (xs @ [t])" "distinct (xs @ [t])" "n \<notin> set (xs @ [t])" "h t = Some nd"
  shows "chain (h(n \<mapsto> \<lparr>img_name = nm, link = link nd\<rparr>, t \<mapsto> nd\<lparr>link := Some n\<rparr>)) p (xs @ [t, n])"
  using assms
proof (induction xs arbitrary: p)
  case Nil
  then show ?case by auto
next
  case (Cons a xs)
  then obtain ta where a: "h a = Some ta" "p = Some a" "chain h (link ta) (xs @ [t])"
    by (auto split: option.splits)
  let ?h = "h(n \<mapsto> \<lparr>img_name = nm, link = link nd\<rparr>, t \<mapsto> nd\<lparr>link := Some n\<rparr>)"
  have e: "?h a = Some ta" using Cons.prems a by auto
  have "chain ?h (link ta) (xs @ [t, n])"
    using Cons.prems a by (intro Cons.IH) auto
  then show ?case using e a by (simp del: fun_upd_apply)
qed

lemma chain_nth:
  "chain h p as \<Longrightarrow> i < length as \<Longrightarrow> \<exists>t. h (as ! i) = Some t
     \<and> link t = (if Suc i < length as then Some (as ! Suc i) else None)"
proof (induction as arbitrary: p i)
  case (Cons a as)
  then obtain t where t: "h a = Some t" "chain h (link t) as" by (auto split: option.splits)
  show ?case
  proof (cases i)
    case 0
    then show ?thesis using t by (cases as) (auto split: option.splits)
  next
    case (Suc j)
    then have "j < length as" using Cons.prems by simp
    from Cons.IH [OF t(2) this] show ?thesis using Suc by auto
  qed
qed simp

lemma chain_dom: "chain h p as \<Longrightarrow> set as \<subseteq> dom h"
  by (induction as arbitrary: p) (auto split: option.splits)

subsection \<open>The list of names\<close>

text \<open>The list with its head node: the head is not a picture.\<close>

definition listed :: "gallery \<Rightarrow> nat list \<Rightarrow> string list \<Rightarrow> bool" where
  "listed g as ns \<longleftrightarrow> chain (nodes g) (Some (l_img_head g)) (l_img_head g # as)
     \<and> distinct (l_img_head g # as) \<and> (\<forall>a \<in> set (l_img_head g # as). a < fresh g)
     \<and> names (nodes g) as = ns \<and> l_img g = l_img_head g \<and> dom (nodes g) = set (l_img_head g # as)"

definition kept :: "string \<Rightarrow> bool" where
  "kept d_name \<longleftrightarrow> \<not> (d_name \<noteq> [] \<and> hd d_name = CHR ''.'')"

lemma ins_img_listed:
  assumes l: "listed g as ns" and t: "tmp = last (l_img_head g # as)"
  shows "ins_img nm tmp g = (fresh g, snd (ins_img nm tmp g))
       \<and> listed (snd (ins_img nm tmp g)) (as @ [fresh g]) (ns @ [nm])
       \<and> list_fault (snd (ins_img nm tmp g)) = list_fault g
       \<and> l_img_head (snd (ins_img nm tmp g)) = l_img_head g"
proof -
  let ?h = "l_img_head g"
  obtain xs where xs: "?h # as = xs @ [tmp]" using t by (metis append_butlast_last_id list.distinct(1))
  have tmp: "tmp \<in> dom (nodes g)" using l xs by (simp add: listed_def)
  then obtain nd where nd: "nodes g tmp = Some nd" by blast
  have n: "fresh g \<notin> set (?h # as)" using l by (auto simp: listed_def)
  define g' where "g' = snd (ins_img nm tmp g)"
  have g': "nodes g' = (nodes g)(fresh g \<mapsto> \<lparr>img_name = nm, link = link nd\<rparr>, tmp \<mapsto> nd\<lparr>link := Some (fresh g)\<rparr>)"
    "l_img_head g' = ?h" "l_img g' = l_img g" "fresh g' = Suc (fresh g)" "list_fault g' = list_fault g"
    and r: "ins_img nm tmp g = (fresh g, g')"
    using nd by (simp_all add: g'_def ins_img_def malloc_node_def)
  have "chain (nodes g') (Some ?h) (xs @ [tmp, fresh g])"
    unfolding g'(1) using l n nd xs by (intro chain_snoc) (auto simp: listed_def)
  moreover have "xs @ [tmp, fresh g] = ?h # as @ [fresh g]" using xs by (metis append.assoc append_Cons append_Nil)
  moreover have "names (nodes g') (as @ [fresh g]) = ns @ [nm]"
  proof -
    have "img_name (the (nodes g' a)) = img_name (the (nodes g a))" if "a \<in> set as" for a
      using that n nd by (auto simp: g'(1))
    then have "names (nodes g') as = ns" using l by (simp add: listed_def names_def cong: map_cong)
    moreover have "tmp \<noteq> fresh g" using n xs by auto
    ultimately show ?thesis by (simp add: names_def g'(1))
  qed
  moreover have "tmp \<in> set (?h # as)" using xs by simp
  ultimately have "listed g' (as @ [fresh g]) (ns @ [nm])"
    using l n g' by (auto simp: listed_def)
  then show ?thesis using r g' by (simp add: g'_def [symmetric])
qed

lemma listed_fault: "listed (g\<lparr>list_fault := b\<rparr>) as ns = listed g as ns"
  by (simp add: listed_def)

lemma search_entries:
  assumes "listed g as ns"
  shows "\<exists>as' tmp' g'. fold search_entry ds (last (l_img_head g # as), g) = (tmp', g')
       \<and> l_img_head g' = l_img_head g
       \<and> tmp' = last (l_img_head g # as') \<and> listed g' as' (ns @ map jpegs_path (filter kept ds))
       \<and> list_fault g' = (list_fault g \<or> (\<exists>d \<in> set ds. kept d \<and> length d > 41))"
  using assms
proof (induction ds arbitrary: g as ns)
  case Nil
  then show ?case by auto
next
  case (Cons d ds)
  let ?tmp = "last (l_img_head g # as)"
  show ?case
  proof (cases "kept d")
    case False
    then have "search_entry d (?tmp, g) = (?tmp, g)" by (auto simp: search_entry_def kept_def)
    then show ?thesis using Cons.IH [OF Cons.prems] False by simp
  next
    case True
    define g1 where "g1 = (if length (jpegs_path d) + 1 > 50 then g\<lparr>list_fault := True\<rparr> else g)"
    have g1: "listed g1 as ns" "l_img_head g1 = l_img_head g" "list_fault g1 = (list_fault g \<or> length d > 41)"
      using Cons.prems by (auto simp: g1_def listed_fault jpegs_path_def)
    have e: "search_entry d (?tmp, g) = ins_img (jpegs_path d) ?tmp g1"
      using True by (auto simp: search_entry_def kept_def Let_def g1_def)
    let ?g2 = "snd (ins_img (jpegs_path d) ?tmp g1)"
    have i: "ins_img (jpegs_path d) ?tmp g1 = (fresh g1, ?g2)"
      "listed ?g2 (as @ [fresh g1]) (ns @ [jpegs_path d])" "list_fault ?g2 = list_fault g1"
      "l_img_head ?g2 = l_img_head g1"
      using ins_img_listed [OF g1(1), of ?tmp "jpegs_path d"] g1(2) by simp_all
    have f: "fold search_entry (d # ds) (?tmp, g)
        = fold search_entry ds (last (l_img_head ?g2 # (as @ [fresh g1])), ?g2)"
      using i(1) e by simp
    obtain as' tmp' g' where r: "fold search_entry ds (last (l_img_head ?g2 # (as @ [fresh g1])), ?g2) = (tmp', g')"
      "l_img_head g' = l_img_head ?g2" "tmp' = last (l_img_head ?g2 # as')"
      "listed g' as' ((ns @ [jpegs_path d]) @ map jpegs_path (filter kept ds))"
      "list_fault g' = (list_fault ?g2 \<or> (\<exists>d \<in> set ds. kept d \<and> length d > 41))"
      using Cons.IH [OF i(2)] by blast
    have "list_fault g' = (list_fault g \<or> (\<exists>d \<in> set (d # ds). kept d \<and> length d > 41))"
      using r(5) i(3) g1(3) True by auto
    moreover have "listed g' as' (ns @ map jpegs_path (filter kept (d # ds)))"
      using r(4) True by simp
    moreover have "l_img_head ?g2 = l_img_head g" using i(4) g1(2) by simp
    ultimately show ?thesis
      unfolding f using r(1,2,3) by (intro exI [of _ as'] exI [of _ tmp'] exI [of _ g']) (simp only:)
  qed
qed

text \<open>A gallery before \<open>search_img\<close>: no node.\<close>

definition no_gallery :: gallery where
  "no_gallery = \<lparr>nodes = Map.empty, fresh = 1, l_img = 0, l_img_head = 0, img_tmp = None, list_fault = False\<rparr>"

lemma search_img_listed:
  "\<exists>as. listed (search_img ds no_gallery) as (map jpegs_path (filter kept ds))
     \<and> img_tmp (search_img ds no_gallery) = Some (last (l_img_head (search_img ds no_gallery) # as))
     \<and> list_fault (search_img ds no_gallery) = (\<exists>d \<in> set ds. kept d \<and> length d > 41)"
proof -
  define g where "g = (snd (malloc_node \<lparr>img_name = [], link = None\<rparr> no_gallery))\<lparr>l_img := 1, l_img_head := 1\<rparr>"
  have "listed g [] []" by (simp add: g_def listed_def names_def malloc_node_def no_gallery_def)
  from search_entries [OF this, of ds] obtain as tmp g' where r:
    "fold search_entry ds (1, g) = (tmp, g')" "l_img_head g' = 1" "tmp = last (1 # as)"
    "listed g' as (map jpegs_path (filter kept ds))"
    "list_fault g' = (\<exists>d \<in> set ds. kept d \<and> length d > 41)"
    by (auto simp: g_def malloc_node_def no_gallery_def)
  have "search_img ds no_gallery = g'\<lparr>img_tmp := Some tmp\<rparr>"
    using r(1) by (simp add: search_img_def malloc_node_def g_def no_gallery_def)
  moreover have "listed (g'\<lparr>img_tmp := Some tmp\<rparr>) as ns = listed g' as ns" for ns
    by (simp add: listed_def)
  ultimately show ?thesis using r by auto
qed

text \<open>
  C26: \<open>search_img\<close> builds a list, without cycles or lost nodes, of the paths of the directory
  entries in the order \<open>readdir\<close> returns them, those that begin with a dot left out, and
  overruns its \<open>infile\<close> array exactly when one of them has more than 41 characters.
\<close>

theorem search_img_lists_names:
  "\<exists>as. chain (nodes (search_img ds no_gallery)) (Some (l_img_head (search_img ds no_gallery)))
          (l_img_head (search_img ds no_gallery) # as)
     \<and> distinct (l_img_head (search_img ds no_gallery) # as)
     \<and> dom (nodes (search_img ds no_gallery)) = set (l_img_head (search_img ds no_gallery) # as)
     \<and> names (nodes (search_img ds no_gallery)) as = map jpegs_path (filter kept ds)
     \<and> (list_fault (search_img ds no_gallery) \<longleftrightarrow> (\<exists>d \<in> set ds. kept d \<and> length d > 41))"
  using search_img_listed [of ds] unfolding listed_def by blast

theorem search_img_lists_names_witness:
  "\<exists>as. names (nodes (search_img [''.'', ''1.jpg'', ''2.jpg''] no_gallery)) as
     = [''./jpegs/1.jpg'', ''./jpegs/2.jpg'']"
  using search_img_lists_names [of "[''.'', ''1.jpg'', ''2.jpg'']"]
  by (auto simp: kept_def jpegs_path_def)

subsection \<open>Releasing the list\<close>

lemma free_nodes_chain:
  "chain (nodes g) p as \<Longrightarrow> distinct as \<Longrightarrow>
    free_nodes p g = Some (g\<lparr>nodes := nodes g |` (- set as)\<rparr>)"
proof (induction as arbitrary: p g)
  case Nil
  then show ?case by (simp add: free_nodes.simps restrict_map_def)
next
  case (Cons a as)
  then obtain t where t: "nodes g a = Some t" "p = Some a" "chain (nodes g) (link t) as"
    by (auto split: option.splits)
  let ?g = "g\<lparr>nodes := (nodes g)(a := None)\<rparr>"
  have "free_nodes (link t) ?g = Some (?g\<lparr>nodes := nodes ?g |` (- set as)\<rparr>)"
    using Cons.prems t chain_upd [of a as "nodes g" None "link t"]
    by (intro Cons.IH) (simp_all del: fun_upd_apply)
  moreover have "((nodes g)(a := None)) |` (- set as) = nodes g |` (- set (a # as))"
    by (auto simp: restrict_map_def)
  moreover have "free_nodes p g = free_nodes (link t) ?g"
    by (subst free_nodes.simps) (simp add: t)
  ultimately show ?case by simp
qed

lemma free_img_buf_listed:
  assumes "listed g as ns"
  shows "\<exists>g'. free_img_buf g = Some g' \<and> nodes g' = Map.empty"
proof -
  let ?h = "l_img_head g"
  obtain t where t: "nodes g ?h = Some t" "chain (nodes g) (link t) as"
    using assms by (auto simp: listed_def split: option.splits)
  let ?g = "g\<lparr>nodes := nodes g |` (- set as)\<rparr>"
  have f: "free_nodes (link t) g = Some ?g"
    using assms by (intro free_nodes_chain t) (simp add: listed_def)
  have h: "?h \<notin> set as" "l_img g = ?h" "dom (nodes g) = insert ?h (set as)"
    using assms by (simp_all add: listed_def)
  then have "free_img_buf g = Some (?g\<lparr>nodes := (nodes ?g)(?h := None)\<rparr>)"
    using t f by (simp add: free_img_buf_def restrict_map_def)
  moreover have "(nodes g |` (- set as))(?h := None) = Map.empty"
    using h(3) by (auto simp: restrict_map_def fun_eq_iff dom_def)
  ultimately show ?thesis by auto
qed

text \<open>
  C27: \<open>free_img_buf\<close>, called on the list that \<open>search_img\<close> has built, comes to an end, frees
  every node once, never touches a freed one, and leaves no node allocated.
\<close>

theorem free_img_buf_releases_all:
  "\<exists>g'. free_img_buf (search_img ds no_gallery) = Some g' \<and> nodes g' = Map.empty"
  using search_img_listed [of ds] free_img_buf_listed by blast

subsection \<open>The order of pictures and transitions\<close>

text \<open>The loop of \<open>main\<close> after \<open>n\<close> rounds, on a list that \<open>search_img\<close> has built.\<close>

definition on_turn :: "gallery \<Rightarrow> nat list \<Rightarrow> nat \<Rightarrow> viewer \<Rightarrow> bool" where
  "on_turn g as n m \<longleftrightarrow> gal m = g\<lparr>img_tmp := Some (as ! (n mod length as))\<rparr>
     \<and> style_num m = int (n mod 14) + 1"

lemma get_img_at: "nodes g a = Some t \<Longrightarrow> get_img a g = (link t, g)"
  by (simp add: get_img_def)

lemma main_start_turn:
  assumes l: "listed (search_img ds no_gallery) as ns" and "as \<noteq> []"
  shows "on_turn (search_img ds no_gallery) as 0 (main_start ds no_gallery s)
       \<and> scr (main_start ds no_gallery s) = s"
proof -
  let ?g = "search_img ds no_gallery"
  obtain t where t: "nodes ?g (l_img_head ?g) = Some t" "link t = Some (as ! 0)"
    using chain_nth [of "nodes ?g" "Some (l_img_head ?g)" "l_img_head ?g # as" 0] l assms(2)
    by (auto simp: listed_def split: if_splits)
  then show ?thesis by (simp add: main_start_def Let_def get_img_at on_turn_def)
qed

lemma next_style_turn: "next_style (int (n mod 14) + 1) = int (Suc n mod 14) + 1"
proof -
  have "next_style (int k + 1) = int (if k = 13 then 0 else Suc k) + 1" if "k < 14" for k
    using that by (auto simp: next_style_def)
  from this [of "n mod 14"] show ?thesis by (simp only: mod_Suc) simp
qed

lemma main_round_turn:
  assumes l: "listed g as ns" and "as \<noteq> []" and m: "on_turn g as n m"
  shows "on_turn g as (Suc n) (main_round files junk tran m)
       \<and> scr (main_round files junk tran m) =
           show_file junk (style_num m) (files (ns ! (n mod length as))) tran (scr m)"
proof -
  let ?i = "n mod length as"
  have i: "?i < length as" using assms(2) by simp
  have c: "chain (nodes g) (Some (l_img_head g)) (l_img_head g # as)" using l by (simp add: listed_def)
  obtain t where t: "nodes g (as ! ?i) = Some t"
    "link t = (if Suc ?i < length as then Some (as ! Suc ?i) else None)"
    using chain_nth [OF c, of "Suc ?i"] i by auto
  obtain th where th: "nodes g (l_img_head g) = Some th" "link th = Some (as ! 0)"
    using chain_nth [OF c, of 0] assms(2) by (auto split: if_splits)
  have nm: "img_name t = ns ! ?i"
    using l t i by (auto simp: listed_def names_def)
  let ?g = "gal m"
  have g: "nodes ?g = nodes g" "l_img_head ?g = l_img_head g" "img_tmp ?g = Some (as ! ?i)"
    using m by (simp_all add: on_turn_def)
  have nxt: "(if link t = None then get_img (l_img_head ?g) ?g else (link t, ?g))
      = (Some (as ! (Suc n mod length as)), ?g)"
  proof (cases "Suc ?i < length as")
    case True
    then have "Suc n mod length as = Suc ?i" by (simp add: mod_Suc)
    then show ?thesis using t(2) True by simp
  next
    case False
    then have "Suc n mod length as = 0" using i by (simp add: mod_Suc)
    then show ?thesis using t(2) False th g by (simp add: get_img_def)
  qed
  have e: "main_round files junk tran m
      = \<lparr>gal = ?g\<lparr>img_tmp := Some (as ! (Suc n mod length as))\<rparr>,
         scr = show_file junk (style_num m) (files (ns ! ?i)) tran (scr m),
         style_num = next_style (style_num m)\<rparr>"
    using g t(1) nxt nm by (simp add: main_round_def get_img_def Let_def)
  show ?thesis
    unfolding e using m by (simp add: on_turn_def next_style_turn)
qed

lemma rounds_turn:
  assumes "listed (search_img ds no_gallery) as ns" "as \<noteq> []"
  shows "on_turn (search_img ds no_gallery) as n (rounds files junk tran n (main_start ds no_gallery s))"
  using main_start_turn [OF assms] main_round_turn [OF assms]
  by (induction n) simp_all

text \<open>
  C16: With at least one picture in the directory the loop of \<open>main\<close> never ends and never leaves
  the list: its \<open>n\<close>-th round (from 0) shows picture \<open>n mod k\<close> of the \<open>k\<close> pictures with
  transition \<open>n mod 14 + 1\<close>, so every picture and every transition comes up again and again.
\<close>

theorem slideshow_schedule:
  assumes "filter kept ds \<noteq> []"
  shows "(let ps = map jpegs_path (filter kept ds);
              m = rounds files junk tran n (main_start ds no_gallery s);
              m' = rounds files junk tran (Suc n) (main_start ds no_gallery s)
          in img_tmp (gal m) \<noteq> None \<and> style_num m = int (n mod 14) + 1
           \<and> scr m' = show_file junk (int (n mod 14) + 1) (files (ps ! (n mod length ps))) tran (scr m))"
proof -
  let ?g = "search_img ds no_gallery" and ?ps = "map jpegs_path (filter kept ds)"
  obtain as where l: "listed ?g as ?ps" using search_img_listed by blast
  then have "length as = length ?ps" by (auto simp: listed_def names_def dest: arg_cong [where f = length])
  then have n: "as \<noteq> []" "length ?ps = length as" using assms by auto
  have m: "on_turn ?g as n (rounds files junk tran n (main_start ds no_gallery s))"
    by (rule rounds_turn [OF l n(1)])
  have "scr (rounds files junk tran (Suc n) (main_start ds no_gallery s))
    = show_file junk (style_num (rounds files junk tran n (main_start ds no_gallery s)))
        (files (?ps ! (n mod length as))) tran (scr (rounds files junk tran n (main_start ds no_gallery s)))"
    using main_round_turn [OF l n(1) m, of files junk tran] by simp
  then show ?thesis
    using m unfolding Let_def n(2) by (simp add: on_turn_def)
qed

theorem slideshow_schedule_witness:
  "style_num (rounds (\<lambda>_. demo_jpeg) 0 transform24_32 30 (main_start [''1.jpg''] no_gallery demo_view)) = 3"
  using slideshow_schedule [of "[''1.jpg'']" "\<lambda>_. demo_jpeg" 0 transform24_32 30 demo_view]
  by (simp add: kept_def Let_def del: rounds.simps)

subsection \<open>What a round leaves on the screen\<close>



subsection \<open>Faults stay\<close>

definition sticky :: "(view \<Rightarrow> view) \<Rightarrow> bool" where
  "sticky f \<longleftrightarrow> (\<forall>s. fault s \<longrightarrow> fault (f s))"

named_theorems sticky_rules \<open>operations that keep the fault flag\<close>

lemma sticky_range [sticky_rules]: "(\<And>i. sticky (f i)) \<Longrightarrow> sticky (for_range a b f)"
  unfolding sticky_def by (blast intro: for_range_keeps [where I = fault])

lemma sticky_step [sticky_rules]: "(\<And>i. sticky (f i)) \<Longrightarrow> sticky (for_step a b d f)"
  unfolding sticky_def for_step_def by (blast intro: fold_keeps [where I = fault])

lemma sticky_down [sticky_rules]: "(\<And>i. sticky (f i)) \<Longrightarrow> sticky (for_down a b f)"
  unfolding sticky_def for_down_def by (blast intro: fold_keeps [where I = fault])

lemma sticky_comp: "sticky f \<Longrightarrow> sticky g \<Longrightarrow> sticky (\<lambda>s. g (f s))"
  by (simp add: sticky_def)

lemma blit_fault: "fault s \<Longrightarrow> fault (blit k r s)"
  by (auto simp: blit_def scr_store_def split: option.split)

lemma scr_store_fault: "fault s \<Longrightarrow> fault (scr_store k v s)"
  by (simp add: scr_store_def)

lemma sticky_pixels [sticky_rules]:
  "sticky (put_scaled x y lw lh j i)" "sticky (zoom_pixel x y lw lh k j i)"
  "sticky (slide_pixel x y lw lh k j i)" "sticky (ray_pixel x y lw lh j i)"
  "sticky (steep_pixel x y lw lh k i)" "sticky (flat_pixel_4 x y lw lh k i)"
  "sticky (fan_second x y lw lh k i)"
  "sticky (grow_pixel x y lw lh k j i)" "sticky (swell_pixel x y lw lh k j i)"
  by (simp_all add: sticky_def put_scaled_def zoom_pixel_def slide_pixel_def ray_pixel_def steep_pixel_def
    flat_pixel_4_def fan_second_def grow_pixel_def swell_pixel_def Let_def blit_fault)

lemma sticky_clamped [sticky_rules]:
  "sticky (fan_first x y lw lh k i)" "sticky (fan_fourth x y lw lh k i)" "sticky (back_cell x y c i j)"
  by (auto simp: sticky_def fan_first_def fan_fourth_def clamped_blit_def back_cell_def blit_fault
    scr_store_fault split: prod.split)

lemma sticky_draw_back [sticky_rules]: "sticky (draw_back x y ww hh c)"
  unfolding draw_back_def by (intro sticky_rules)

lemma sticky_sweep [sticky_rules]: "sticky (fan_sweep_4 x y lw lh k)"
proof -
  have "sticky (\<lambda>s. for_range a b (flat_pixel_4 x y lw lh mm) (for_range c d (steep_pixel x y lw lh k) s))"
    for a b c d mm
    by (rule sticky_comp [where f = "for_range c d (steep_pixel x y lw lh k)"]; intro sticky_rules)
  then show ?thesis by (simp add: sticky_def fan_sweep_4_def)
qed

lemma sticky_pieces [sticky_rules]:
  "sticky (random_line x y lw lh l)" "sticky (random_square x y lw lh l)"
  unfolding random_line_def random_square_def by (intro sticky_rules)+

lemma sticky_pick_loop [sticky_rules]: "(\<And>l. sticky (piece l)) \<Longrightarrow> sticky (pick_loop n mark piece l0)"
  unfolding sticky_def
proof (intro allI impI)
  fix s :: view assume p: "\<And>l. \<forall>s. fault s \<longrightarrow> fault (piece l s)" and s: "fault s"
  have d: "fault t \<Longrightarrow> fault (drop_rand t)" for t by (simp add: drop_rand_def)
  have "fault (snd (snd (for_range 0 n (pick_step n mark piece) (\<lambda>i. i, l0, s))))"
    by (rule for_range_keeps [where I = "\<lambda>st. fault (snd (snd st))"])
      (use p s d in \<open>auto simp: pick_step_def split: prod.split\<close>)
  then show "fault (pick_loop n mark piece l0 s)" by (simp add: pick_loop_def)
qed

lemma sticky_scroll [sticky_rules]:
  "sticky (scroll_open x y lw lh i)" "sticky (scroll_close x y lw lh i)"
proof -
  have b: "fault s \<Longrightarrow> fault (draw_back x y ww hh c s)" for x y ww hh c s
    using sticky_draw_back [of x y ww hh c] by (simp add: sticky_def)
  have r: "fault s \<Longrightarrow> fault (for_range 0 lh (\<lambda>i. for_range l (l + 1) (\<lambda>j. put_scaled x y lw lh j i)) s)"
    "fault s \<Longrightarrow> fault (for_range 0 lh (\<lambda>i. for_down l l (\<lambda>j. put_scaled x y lw lh j i)) s)" for l s
    using sticky_range [of "\<lambda>i. for_range l (l + 1) (\<lambda>j. put_scaled x y lw lh j i)" 0 lh]
      sticky_range [of "\<lambda>i. for_down l l (\<lambda>j. put_scaled x y lw lh j i)" 0 lh]
      sticky_rules by (simp_all add: sticky_def)
  show "sticky (scroll_open x y lw lh i)"
    by (simp add: sticky_def scroll_open_def Let_def b r)
  show "sticky (scroll_close x y lw lh i)"
    by (simp add: sticky_def scroll_close_def Let_def b)
qed

lemma fault_rays: "fault s \<Longrightarrow> fault (draw_rays x y lw lh l0 l1 l2 l3 s)"
proof -
  have r: "fault s \<Longrightarrow> fault (for_range a b (\<lambda>i. ray_pixel x y lw lh (f i) (g i)) s)" for a b f g s
    using sticky_range [of "\<lambda>i. ray_pixel x y lw lh (f i) (g i)" a b] sticky_pixels(4)
    by (simp add: sticky_def)
  show "fault s \<Longrightarrow> fault (draw_rays x y lw lh l0 l1 l2 l3 s)"
    unfolding draw_rays_def Let_def by (intro r)
qed

lemma picks_fault:
  "fault (canvas (pick_on lw b)) = fault (canvas b)" "fault (canvas (pick_down lw b)) = fault (canvas b)"
  "fault (canvas (pick_right i lw lh b)) = fault (canvas b)"
  "fault (canvas (pick_left i lw lh b)) = fault (canvas b)"
  by (simp_all add: pick_left_def pick_right_def pick_down_def pick_on_def Let_def drop_rand_def
    split: prod.split)

lemma fault_burst: "fault (canvas b) \<Longrightarrow> fault (canvas (burst_run m x y lw lh b))"
  unfolding burst_run_def
proof (rule for_range_keeps [where I = "\<lambda>b. fault (canvas b)"])
  fix i and b :: burst assume f: "fault (canvas b)"
  have "fault (canvas (pick_left i lw lh (pick_right i lw lh (pick_down lw (pick_on lw b)))))"
    using f by (simp only: picks_fault)
  then show "fault (canvas (burst_round x y lw lh i b))"
    by (simp add: burst_round_def Let_def fault_rays)
qed

lemma sticky_loops [sticky_rules]:
  "sticky (wipe_loops p x y lw lh)" "sticky (snake_loops p x y lw lh)"
  "sticky (interlace_loops p x y lw lh)" "sticky (line_loops l0 x y lw lh)"
  "sticky (square_loops l0 x y lw lh)" "sticky (zoom_loops x y lw lh)" "sticky (slide_loops x y lw lh)"
  "sticky (grow_loops x y lw lh)" "sticky (swell_loops x y lw lh)"
  unfolding wipe_loops_def snake_loops_def interlace_loops_def line_loops_def square_loops_def
    zoom_loops_def slide_loops_def grow_loops_def swell_loops_def Let_def
  by (intro sticky_rules)+

lemma sticky_blinds [sticky_rules]: "sticky (blinds_loops p x y lw lh)"
proof -
  have "sticky (\<lambda>s. for_range a b (put_scaled x y lw lh i) (for_range c d (put_scaled x y lw lh j) s))"
    for a b c d i j
    by (rule sticky_comp [where f = "for_range c d (put_scaled x y lw lh j)"]; intro sticky_rules)
  then show ?thesis unfolding blinds_loops_def Let_def by (intro sticky_range)
qed

text \<open>A picture without bytes makes either transform fault.\<close>

lemma sticky_trans [sticky_rules]: "sticky (trans_pixel pack pic i j)"
  by (auto simp: sticky_def trans_pixel_def Let_def buf_store_def split: option.split prod.split)

lemma first_pixel_faults:
  assumes "choose_transform d = Some tran" and "0 < wid s" "0 < height s"
    and "\<And>pack. fault (trans_pixel pack pic 0 0 s)"
  shows "fault (tran pic s)"
proof -
  have "fault (for_range 0 (height s) (\<lambda>i. for_range 0 (wid s) (\<lambda>j. trans_pixel pack pic i j)) s)"
    for pack
  proof -
    have "sticky (for_range 1 (wid s) (\<lambda>j. trans_pixel pack pic 0 j))" by (intro sticky_rules)
    then have 2: "fault (for_range 0 (wid s) (\<lambda>j. trans_pixel pack pic 0 j) s)"
      using assms(2,4) by (simp add: for_range_first sticky_def)
    have "sticky (for_range 1 (height s) (\<lambda>i. for_range 0 (wid s) (\<lambda>j. trans_pixel pack pic i j)))"
      by (intro sticky_rules)
    then show ?thesis using 2 assms(3) by (simp add: for_range_first sticky_def)
  qed
  then show ?thesis
    using assms(1) by (auto simp: choose_transform_def transform24_16_def transform24_32_def split: if_splits)
qed

lemma null_transform:
  "choose_transform d = Some tran \<Longrightarrow> 0 < wid s \<Longrightarrow> 0 < height s \<Longrightarrow> fault (tran Map.empty s)"
  by (rule first_pixel_faults) (simp_all add: trans_pixel_def Let_def)

lemma no_buffer_transform:
  "choose_transform d = Some tran \<Longrightarrow> 0 < wid s \<Longrightarrow> 0 < height s \<Longrightarrow> buf_cells s \<le> 0 \<Longrightarrow> fault (tran pic s)"
  by (rule first_pixel_faults) (auto simp: trans_pixel_def buf_store_def Let_def split: option.split)

lemma stickyD: "sticky f \<Longrightarrow> fault s \<Longrightarrow> fault (f s)"
  by (simp add: sticky_def)

lemma free_buf_fault: "fault (free_buf s) = fault s"
  by (simp add: free_buf_def)

text \<open>
  The size of the buffer can overflow: for a picture of 16384 by 8192 pixels at 32 bits per pixel the product is
  \<open>2 ^ 32\<close>, the transition gets a buffer without a single element and writes outside it.
\<close>

lemma large_picture_faults:
  assumes "choose_transform (vbpp s) = Some tran" "wid s = 16384" "height s = 8192" "vbpp s = 32"
  shows "fault (show_pic_6 pic x y lw lh p tran s)"
proof -
  have "to_int32 (wid s * height s * vbpp s) = 0" using assms(2-4) by (simp add: to_int32_def)
  then have "fault (tran pic (malloc_buf (to_int32 (wid s * height s * vbpp s) sdiv 8) s))"
    using assms by (intro no_buffer_transform [OF assms(1)]) (simp_all add: malloc_buf_def)
  then show ?thesis
    unfolding show_pic_6_def free_buf_fault by (rule stickyD [OF _, rotated]) (rule sticky_loops)
qed

lemma null_styles:
  assumes "choose_transform d = Some tran" and "0 < wid s" "0 < height s" and "1 \<le> n" "n \<le> 14"
  shows "fault (show_style junk n Map.empty tran s)"
proof -
  have t: "fault (tran Map.empty (malloc_buf b s))" for b
    using assms by (intro null_transform [OF assms(1)]) (simp_all add: malloc_buf_def)
  note L = stickyD [OF _ t]
  have r: "fault s \<Longrightarrow> fault (for_range a b f s)" if "\<And>i. sticky (f i)" for a b f s
    using sticky_range [of f a b] that by (simp add: sticky_def)
  have rr: "fault s \<Longrightarrow> fault (for_range a b (\<lambda>i. for_range c d (f i)) s)" if "\<And>i j. sticky (f i j)" for a b c d f s
    by (rule r) (intro sticky_range that)
  have p3: "fault (show_pic_3 l r Map.empty x y lw lh tran s)" for l r x y lw lh
    unfolding show_pic_3_def free_buf_fault by (rule fault_burst) (simp add: burst_init_def Let_def t)
  have p4: "fault (show_pic_4 Map.empty x y lw lh tran s)" for x y lw lh
    unfolding show_pic_4_def free_buf_fault by (rule L) (intro sticky_rules)
  have p10: "fault (show_pic_10 Map.empty x y lw lh tran s)" for x y lw lh
    unfolding show_pic_10_def free_buf_fault
    by (rule stickyD [OF sticky_range], rule sticky_scroll, rule L) (intro sticky_rules)
  have p11: "fault (show_pic_11 Map.empty x y lw lh tran s)" for x y lw lh
    unfolding show_pic_11_def Let_def free_buf_fault by (intro rr sticky_rules t)
  have "\<forall>k \<in> set [1..14]. fault (show_style junk k Map.empty tran s)"
    using p3 p4 p10 p11 L [OF sticky_blinds] sticky_loops [THEN L]
    by (simp add: upto_rec1 show_style_def Let_def show_pic_1_def show_pic_2_def show_pic_5_def
      show_pic_6_def show_pic_7_def show_pic_8_def show_pic_9_def show_pic_12_def show_pic_13_def
      show_pic_14_def free_buf_fault del: set_upto)
  moreover have "n \<in> set [1..14]" using assms(4,5) by simp
  ultimately show ?thesis by blast
qed

text \<open>
  The result of \<open>decode_jpeg\<close> is not checked: after at least one good picture, a file that
  does not open, or has neither one nor three components, makes every one of the fourteen
  transitions read through a null pointer.
\<close>

theorem bad_file_faults:
  assumes "choose_transform d = Some tran" and "1 \<le> n" "n \<le> 14"
    and f: "\<not> jf_open f \<and> 0 < wid s \<and> 0 < height s
          \<or> jf_components f \<notin> {1, 3} \<and> 0 < jf_width f \<and> jf_width f < 32768
              \<and> 0 < jf_height f \<and> jf_height f < 32768 \<and> jf_open f"
  shows "fst (decode_jpeg f (wid s) (height s)) = None \<and> fault (show_file junk n f tran s)"
proof -
  obtain good wd ht where d: "decode_jpeg f (wid s) (height s) = (None, good, wd, ht)" "0 < wd" "0 < ht"
  proof (cases "jf_open f")
    case True
    then show ?thesis
      using f that [of True "jf_width f" "jf_height f"]
      by (simp add: decode_jpeg_def Let_def to_short_eq_self)
  next
    case False
    then show ?thesis using f that [of True "wid s" "height s"] by (simp add: decode_jpeg_def)
  qed
  have "fault (show_style junk n Map.empty tran (s\<lparr>wid := wd, height := ht, fault := fault s \<or> \<not> good\<rparr>))"
    using assms d by (intro null_styles [OF assms(1)]) simp_all
  then show ?thesis using d(1) by (simp add: show_file_def)
qed

theorem bad_file_faults_witness:
  "fault (show_file 0 9 (demo_jpeg\<lparr>jf_open := False\<rparr>) transform24_32 demo_view)"
  using bad_file_faults [of 32 transform24_32 9 "demo_jpeg\<lparr>jf_open := False\<rparr>" demo_view 0]
  by (simp add: choose_transform_def demo_jpeg_def demo_view_def)

end
