(* ===== verification/Jtag.thy ===== *)
theory Jtag
  imports Prelude
begin

text \<open>
  The JTAG layer of the flash programmer (\<open>armboard/jflash-2440-akae\<close>): \<open>jtag.c\<close>, \<open>jtag.h\<close>
  and the port macros of \<open>ppt.h\<close>.

  The program drives the parallel port. The state \<open>jtag\<close> keeps the accesses made so far, oldest
  first, and what the wires answer: \<open>port\<close> gives the status byte that the next read returns,
  as a function of all accesses before it, so nothing is fixed about the board. \<open>JTAG_DELAY()\<close>
  is empty in the source; \<open>Delay\<close> and \<open>printf\<close> have no effect on the state and are left out.

  What the accesses mean is said by a monitor of the IEEE 1149.1 test access port: \<open>tap_next\<close>
  is the state diagram of the standard, \<open>observe\<close> advances it on rising edges of \<open>TCK\<close> and
  collects the bits shifted in and sampled. Each routine of \<open>jtag.c\<close> is shown to make exactly
  one scan and to come back to Run-Test/Idle.
\<close>

subsection \<open>The port\<close>

datatype port_act = Outp int | Inp int

record jtag =
  hist :: "port_act list"
  port :: "port_act list \<Rightarrow> int"

definition OutputPpt :: "int \<Rightarrow> 'a jtag_scheme \<Rightarrow> 'a jtag_scheme" where
  "OutputPpt v s = s\<lparr>hist := hist s @ [Outp v]\<rparr>"

definition InputPpt :: "'a jtag_scheme \<Rightarrow> int \<times> 'a jtag_scheme" where
  "InputPpt s = (let v = port s (hist s) in (v, s\<lparr>hist := hist s @ [Inp v]\<rparr>))"

definition LOW :: char where "LOW = CHR ''0''"
definition HIGH :: char where "HIGH = CHR ''1''"

definition TCK_H :: int where "TCK_H = 0x04"
definition TDI_H :: int where "TDI_H = 0x08"
definition TMS_H :: int where "TMS_H = 0x02"
definition TCK_L :: int where "TCK_L = 0x00"
definition TDI_L :: int where "TDI_L = 0x00"
definition TMS_L :: int where "TMS_L = 0x00"

definition JTAG_SET :: "int \<Rightarrow> 'a jtag_scheme \<Rightarrow> 'a jtag_scheme" where
  "JTAG_SET v = OutputPpt v"

definition JTAG_GET_TDO :: "'a jtag_scheme \<Rightarrow> char \<times> 'a jtag_scheme" where
  "JTAG_GET_TDO s =
     (case InputPpt s of (v, t) \<Rightarrow> (if v AND push_bit 7 1 \<noteq> 0 then LOW else HIGH, t))"

text \<open>The pair of \<open>JTAG_SET\<close> lines that the code repeats: the values, then the rising edge.\<close>

definition tick :: "int \<Rightarrow> 'a jtag_scheme \<Rightarrow> 'a jtag_scheme" where
  "tick v s = JTAG_SET (v OR TCK_H) (JTAG_SET (v OR TCK_L) s)"

subsection \<open>The routines\<close>

text \<open>C strings are the characters of the array; \<open>strlen\<close> counts up to the terminator.\<close>

definition strlen :: "char list \<Rightarrow> nat" where
  "strlen wr = length (takeWhile (\<lambda>c. c \<noteq> NUL) wr)"

definition tdi_of :: "char \<Rightarrow> int" where
  "tdi_of c = (if c = HIGH then TDI_H else TDI_L)"

definition JTAG_Reset :: "'a jtag_scheme \<Rightarrow> 'a jtag_scheme" where
  "JTAG_Reset = fold tick
     [TDI_H OR TMS_H, TDI_H OR TMS_H, TDI_H OR TMS_H, TDI_H OR TMS_H, TDI_H OR TMS_H, TDI_H OR TMS_H]"

definition JTAG_RunTestldleState :: "'a jtag_scheme \<Rightarrow> 'a jtag_scheme" where
  "JTAG_RunTestldleState s =
     fold tick [TDI_H OR TMS_L, TDI_H OR TMS_L, TDI_H OR TMS_L] (JTAG_Reset s)"

definition shift_out :: "char list \<Rightarrow> nat \<Rightarrow> 'a jtag_scheme \<Rightarrow> 'a jtag_scheme" where
  "shift_out wr i = tick (tdi_of (wr ! i) OR TMS_L)"

definition JTAG_ShiftIRState :: "char list \<Rightarrow> 'a jtag_scheme \<Rightarrow> 'a jtag_scheme" where
  "JTAG_ShiftIRState wrIR s =
     (let size = strlen wrIR;
          s = fold tick [TDI_H OR TMS_H, TDI_H OR TMS_H, TDI_H OR TMS_L, TDI_H OR TMS_L] s;
          s = fold (shift_out wrIR) [0..<size - 1] s;
          s = tick (tdi_of (wrIR ! (size - 1)) OR TMS_H) s
      in fold tick [TDI_H OR TMS_H, TDI_H OR TMS_L] s)"

definition shift_both ::
  "char list \<Rightarrow> nat \<Rightarrow> char list \<times> 'a jtag_scheme \<Rightarrow> char list \<times> 'a jtag_scheme" where
  "shift_both wr i = (\<lambda>(rd, s).
     case JTAG_GET_TDO (tick (tdi_of (wr ! i) OR TMS_L) s) of (c, t) \<Rightarrow> (array_set rd i c, t))"

definition JTAG_ShiftDRState ::
  "char list \<Rightarrow> char list \<Rightarrow> 'a jtag_scheme \<Rightarrow> char list \<times> 'a jtag_scheme" where
  "JTAG_ShiftDRState wrDR rdDR s =
     (let s = fold tick [TDI_H OR TMS_H, TDI_H OR TMS_L, TDI_H OR TMS_L] s;
          size = strlen wrDR
      in case fold (shift_both wrDR) [0..<size - 1] (rdDR, s) of (rd, s) \<Rightarrow>
         case JTAG_GET_TDO (tick (tdi_of (wrDR ! (size - 1)) OR TMS_H) s) of (c, s) \<Rightarrow>
           (array_set rd (size - 1) c, fold tick [TDI_H OR TMS_H, TDI_H OR TMS_L] s))"

definition JTAG_ShiftDRStateNoTdo :: "char list \<Rightarrow> 'a jtag_scheme \<Rightarrow> 'a jtag_scheme" where
  "JTAG_ShiftDRStateNoTdo wrDR s =
     (let s = fold tick [TDI_H OR TMS_H, TDI_H OR TMS_L, TDI_H OR TMS_L] s;
          size = strlen wrDR;
          s = fold (shift_out wrDR) [0..<size - 1] s;
          s = tick (tdi_of (wrDR ! (size - 1)) OR TMS_H) s
      in fold tick [TDI_H OR TMS_H, TDI_H OR TMS_L] s)"

definition read_id_bit :: "nat \<Rightarrow> char list \<times> 'a jtag_scheme \<Rightarrow> char list \<times> 'a jtag_scheme" where
  "read_id_bit i = (\<lambda>(ids, s).
     case JTAG_GET_TDO (tick (TDI_H OR TMS_L) s) of (c, t) \<Rightarrow> (array_set ids i c, t))"

text \<open>\<open>x |= 1 << i\<close> for the indices of a loop at which a test holds.\<close>

definition or_bits :: "(nat \<Rightarrow> bool) \<Rightarrow> nat list \<Rightarrow> int" where
  "or_bits p is = fold (\<lambda>i x. if p i then x OR push_bit i 1 else x) is 0"

text \<open>
  \<open>JTAG_ReadId\<close> returns what it prints: the identity register and whether it is that of the
  S3C2410X. \<open>id0\<close> is the uninitialised array \<open>id[32]\<close>.
\<close>

definition read_id_register :: "char list \<Rightarrow> 'a jtag_scheme \<Rightarrow> (int \<times> bool) \<times> 'a jtag_scheme" where
  "read_id_register id0 s =
     (case fold read_id_bit [0..<31] (id0, s) of (ids, s) \<Rightarrow>
      case JTAG_GET_TDO (tick (TDI_H OR TMS_H) s) of (c, s) \<Rightarrow>
        let ids = array_set ids 31 c;
            s = fold tick [TDI_H OR TMS_H, TDI_H OR TMS_L, TDI_H OR TMS_L, TDI_H OR TMS_L] s;
            id32 = or_bits (\<lambda>i. ids ! i = HIGH) (rev [0..<32])
        in ((id32, id32 = 0x0032409d), s))"

definition JTAG_ReadId :: "char list \<Rightarrow> 'a jtag_scheme \<Rightarrow> (int \<times> bool) \<times> 'a jtag_scheme" where
  "JTAG_ReadId id0 s =
     (let s = JTAG_Reset s;
          s = fold tick [TDI_H OR TMS_L, TDI_H OR TMS_L, TDI_H OR TMS_L, TDI_H OR TMS_L] s;
          s = fold tick [TDI_H OR TMS_H, TDI_H OR TMS_H, TDI_H OR TMS_L, TDI_H OR TMS_L] s;
          s = fold tick [TDI_L OR TMS_L, TDI_H OR TMS_L, TDI_H OR TMS_L, TDI_H OR TMS_H] s;
          s = fold tick [TDI_H OR TMS_H, TDI_H OR TMS_H, TDI_H OR TMS_L, TDI_H OR TMS_L] s
      in read_id_register id0 s)"

subsection \<open>The test access port\<close>

datatype tap =
    Test_Logic_Reset | Run_Test_Idle
  | Select_DR | Capture_DR | Shift_DR | Exit1_DR | Pause_DR | Exit2_DR | Update_DR
  | Select_IR | Capture_IR | Shift_IR | Exit1_IR | Pause_IR | Exit2_IR | Update_IR

fun tap_next :: "tap \<Rightarrow> bool \<Rightarrow> tap" where
  "tap_next Test_Logic_Reset tms = (if tms then Test_Logic_Reset else Run_Test_Idle)"
| "tap_next Run_Test_Idle tms = (if tms then Select_DR else Run_Test_Idle)"
| "tap_next Select_DR tms = (if tms then Select_IR else Capture_DR)"
| "tap_next Capture_DR tms = (if tms then Exit1_DR else Shift_DR)"
| "tap_next Shift_DR tms = (if tms then Exit1_DR else Shift_DR)"
| "tap_next Exit1_DR tms = (if tms then Update_DR else Pause_DR)"
| "tap_next Pause_DR tms = (if tms then Exit2_DR else Pause_DR)"
| "tap_next Exit2_DR tms = (if tms then Update_DR else Shift_DR)"
| "tap_next Update_DR tms = (if tms then Select_DR else Run_Test_Idle)"
| "tap_next Select_IR tms = (if tms then Test_Logic_Reset else Capture_IR)"
| "tap_next Capture_IR tms = (if tms then Exit1_IR else Shift_IR)"
| "tap_next Shift_IR tms = (if tms then Exit1_IR else Shift_IR)"
| "tap_next Exit1_IR tms = (if tms then Update_IR else Pause_IR)"
| "tap_next Pause_IR tms = (if tms then Exit2_IR else Pause_IR)"
| "tap_next Exit2_IR tms = (if tms then Update_IR else Shift_IR)"
| "tap_next Update_IR tms = (if tms then Select_DR else Run_Test_Idle)"

text \<open>
  A scan is what one pass through Capture, Shift and Update did: the bits shifted in and, for a
  data scan, the bits that were sampled. A reset selects the default instruction.
\<close>

datatype tap_scan = Tap_reset | IR_scan "bool list" | DR_scan "bool list" "bool list"

record monitor =
  tap :: tap
  tck :: bool
  bits_in :: "bool list"
  bits_out :: "bool list"
  scans :: "tap_scan list"

definition completed :: "tap \<Rightarrow> monitor \<Rightarrow> tap_scan list" where
  "completed t m =
     (case t of
        Update_IR \<Rightarrow> [IR_scan (bits_in m)]
      | Update_DR \<Rightarrow> [DR_scan (bits_in m) (bits_out m)]
      | Test_Logic_Reset \<Rightarrow> [Tap_reset]
      | _ \<Rightarrow> [])"

definition shifted :: "bool \<Rightarrow> monitor \<Rightarrow> monitor" where
  "shifted tdi m =
     (case tap m of
        Capture_DR \<Rightarrow> m\<lparr>bits_in := [], bits_out := []\<rparr>
      | Capture_IR \<Rightarrow> m\<lparr>bits_in := [], bits_out := []\<rparr>
      | Shift_DR \<Rightarrow> m\<lparr>bits_in := bits_in m @ [tdi]\<rparr>
      | Shift_IR \<Rightarrow> m\<lparr>bits_in := bits_in m @ [tdi]\<rparr>
      | _ \<Rightarrow> m)"

definition rise :: "bool \<Rightarrow> bool \<Rightarrow> monitor \<Rightarrow> monitor" where
  "rise tms tdi m =
     (let m = shifted tdi m; t = tap_next (tap m) tms
      in m\<lparr>tap := t, scans := scans m @ completed t m\<rparr>)"

fun observe :: "port_act \<Rightarrow> monitor \<Rightarrow> monitor" where
  "observe (Outp v) m =
     (let up = v AND TCK_H \<noteq> 0;
          m' = (if up \<and> \<not> tck m then rise (v AND TMS_H \<noteq> 0) (v AND TDI_H \<noteq> 0) m else m)
      in m'\<lparr>tck := up\<rparr>)"
| "observe (Inp v) m = m\<lparr>bits_out := bits_out m @ [v AND push_bit 7 1 = 0]\<rparr>"

definition watch :: "monitor \<Rightarrow> 'a jtag_scheme \<Rightarrow> monitor" where
  "watch m s = fold observe (hist s) m"


subsection \<open>Ticks\<close>

text \<open>\<open>talks s t\<close>: \<open>t\<close> is \<open>s\<close> after some accesses of the port and nothing else.\<close>

definition talks :: "'a jtag_scheme \<Rightarrow> 'a jtag_scheme \<Rightarrow> bool" where
  "talks s t \<longleftrightarrow> (\<exists>xs. t = s\<lparr>hist := hist s @ xs\<rparr>)"

lemma talks_refl [simp]: "talks s s"
  by (auto simp: talks_def intro: exI [of _ "[]"])

lemma talks_trans: "talks s t \<Longrightarrow> talks t u \<Longrightarrow> talks s u"
  by (auto simp: talks_def)

lemma talks_keeps:
  assumes "talks s t"
  shows "port t = port s" and "jtag.more t = jtag.more s"
  using assms by (auto simp: talks_def)

lemma talks_tick [simp]: "talks s (tick v s)"
  by (auto simp: talks_def tick_def JTAG_SET_def OutputPpt_def)

lemma talks_ticks [simp]: "talks s (fold tick vs s)"
  by (induction vs arbitrary: s) (auto intro: talks_trans talks_tick)

lemma port_tick [simp]: "port (tick v s) = port s"
  by (rule talks_keeps) simp

lemma watch_hist: "watch m (s\<lparr>hist := hist s @ xs\<rparr>) = fold observe xs (watch m s)"
  by (simp add: watch_def)

lemma rise_tck [simp]: "rise a b (m\<lparr>tck := x\<rparr>) = (rise a b m)\<lparr>tck := x\<rparr>"
  by (cases "tap m") (simp_all add: rise_def shifted_def completed_def)

lemmas pins = TCK_H_def TCK_L_def TDI_H_def TDI_L_def TMS_H_def TMS_L_def

lemma watch_tick:
  assumes "v AND TCK_H = 0"
  shows "watch m (tick v s) =
    (rise (v AND TMS_H \<noteq> 0) (v AND TDI_H \<noteq> 0) (watch m s))\<lparr>tck := True\<rparr>"
proof -
  have hist: "tick v s = s\<lparr>hist := hist s @ [Outp v, Outp (v OR 4)]\<rparr>"
    by (simp add: tick_def JTAG_SET_def OutputPpt_def pins)
  have "(v OR 4) AND 4 = (4::int)" "(v OR 4) AND 2 = v AND 2" "(v OR 4) AND 8 = v AND 8"
    using assms by (simp_all add: bit.conj_disj_distrib2 pins)
  then show ?thesis unfolding hist watch_hist
    using assms by (simp add: pins Let_def)
qed

lemma watch_ticks [simp]:
  "watch m (tick (TDI_H OR TMS_H) s) = (rise True True (watch m s))\<lparr>tck := True\<rparr>"
  "watch m (tick (TDI_H OR TMS_L) s) = (rise False True (watch m s))\<lparr>tck := True\<rparr>"
  "watch m (tick (TDI_L OR TMS_L) s) = (rise False False (watch m s))\<lparr>tck := True\<rparr>"
  "watch m (tick (tdi_of c OR TMS_H) s) = (rise True (c = HIGH) (watch m s))\<lparr>tck := True\<rparr>"
  "watch m (tick (tdi_of c OR TMS_L) s) = (rise False (c = HIGH) (watch m s))\<lparr>tck := True\<rparr>"
  by (subst watch_tick; simp add: pins tdi_of_def)+

text \<open>What a clock does in each state of the diagram.\<close>

lemmas rise_simps = rise_def shifted_def completed_def Let_def


subsection \<open>Loops over the bits\<close>

definition bits_of :: "char list \<Rightarrow> bool list" where
  "bits_of wr = map (\<lambda>c. c = HIGH) (take (strlen wr) wr)"

definition chars_of :: "bool list \<Rightarrow> char list" where
  "chars_of = map (\<lambda>b. if b then HIGH else LOW)"

lemma strlen_le: "strlen wr \<le> length wr"
  by (simp add: strlen_def length_takeWhile_le)

lemma length_bits_of [simp]: "length (bits_of wr) = strlen wr"
  using strlen_le [of wr] by (simp add: bits_of_def)

lemma bits_of_nth [simp]: "i < strlen wr \<Longrightarrow> bits_of wr ! i = (wr ! i = HIGH)"
  using strlen_le [of wr] by (simp add: bits_of_def)

text \<open>
  \<open>sampled m s t w r k\<close>: between \<open>s\<close> and \<open>t\<close>, \<open>k\<close> bits of the scan \<open>w\<close> were shifted and the
  answers \<open>r\<close> sampled, each when the port had exactly the bits up to its own behind it.
\<close>

definition answer_at :: "monitor \<Rightarrow> tap_scan list \<Rightarrow> 'a jtag_scheme \<Rightarrow> bool list \<Rightarrow> bool list \<Rightarrow> nat \<Rightarrow> bool" where
  "answer_at m ss s w r i \<longleftrightarrow> (\<exists>h.
     r ! i = (port s h AND push_bit 7 1 = 0) \<and>
     tap (fold observe h m) \<in> {Shift_DR, Exit1_DR} \<and>
     bits_in (fold observe h m) = take (Suc i) w \<and>
     scans (fold observe h m) = ss)"

definition answered :: "monitor \<Rightarrow> tap_scan list \<Rightarrow> 'a jtag_scheme \<Rightarrow> bool list \<Rightarrow> bool list \<Rightarrow> bool" where
  "answered m ss s w r \<longleftrightarrow> length r = length w \<and> (\<forall>i<length w. answer_at m ss s w r i)"

lemma answer_at_append:
  "i < length r \<Longrightarrow> answer_at m ss s w (r @ q) i = answer_at m ss s w r i"
  by (simp add: answer_at_def nth_append)

lemma get_tdo:
  assumes "JTAG_GET_TDO s = (c, t)"
  obtains b where "c = (if b then HIGH else LOW)" "b = (port s (hist s) AND push_bit 7 1 = 0)"
    "talks s t" "watch m t = (watch m s)\<lparr>bits_out := bits_out (watch m s) @ [b]\<rparr>"
proof -
  let ?b = "port s (hist s) AND push_bit 7 1 = 0"
  have t: "t = s\<lparr>hist := hist s @ [Inp (port s (hist s))]\<rparr>" and "c = (if ?b then HIGH else LOW)"
    using assms by (auto simp: JTAG_GET_TDO_def InputPpt_def Let_def split: if_splits)
  moreover have "watch m t = (watch m s)\<lparr>bits_out := bits_out (watch m s) @ [?b]\<rparr>"
    unfolding t watch_hist by simp
  moreover have "talks s t" by (auto simp: t talks_def)
  ultimately show thesis using that by blast
qed

lemma tdo_talks: "JTAG_GET_TDO s = (c, t) \<Longrightarrow> talks s t"
  by (auto simp: JTAG_GET_TDO_def InputPpt_def talks_def Let_def split: if_splits)

lemma tdo_level: "JTAG_GET_TDO s = (c, t) \<Longrightarrow> c = HIGH \<or> c = LOW"
  by (auto simp: JTAG_GET_TDO_def Let_def split: prod.splits if_splits)

lemma shift_out_talks [simp]: "talks s (fold (shift_out wr) is s)"
  by (induction "is" arbitrary: s) (auto simp: shift_out_def intro: talks_trans talks_tick)

lemma talks_more:
  "talks s t \<Longrightarrow> talks s (tick v t)"
  "talks s t \<Longrightarrow> talks s (fold tick vs t)"
  "talks s t \<Longrightarrow> talks s (fold (shift_out wr) is t)"
  by (erule talks_trans; simp)+

lemma shift_out_watch:
  assumes "tap (watch m s) \<in> {Shift_DR, Shift_IR}" and "tck (watch m s)"
  shows "watch m (fold (shift_out wr) [0..<k] s) = (watch m s)
    \<lparr>bits_in := bits_in (watch m s) @ map (\<lambda>i. wr ! i = HIGH) [0..<k]\<rparr>"
  using assms by (induction k) (auto simp: shift_out_def rise_simps)

lemma bits_of_upt:
  assumes "0 < strlen wr"
  shows "map (\<lambda>i. wr ! i = HIGH) [0..<strlen wr - 1] @ [wr ! (strlen wr - 1) = HIGH] = bits_of wr"
  (is "?l = _")
proof (rule nth_equalityI)
  show "length ?l = length (bits_of wr)" using assms by simp
  fix i
  assume "i < length ?l"
  then show "?l ! i = bits_of wr ! i"
    using assms by (auto simp: nth_append less_Suc_eq dest: le_neq_implies_less intro!: arg_cong [where f = "\<lambda>i. wr ! i = HIGH"])
qed

lemma shift_both_apply:
  "shift_both wr i (rd, s) =
     (case JTAG_GET_TDO (tick (tdi_of (wr ! i) OR TMS_L) s) of (c, t) \<Rightarrow> (array_set rd i c, t))"
  by (simp add: shift_both_def)

text \<open>A loop that reads: the array receives what was sampled.\<close>

lemma shift_both_watch:
  assumes "tap (watch m s) = Shift_DR" "tck (watch m s)" "bits_in (watch m s) = []"
    and "k \<le> strlen wr" "k \<le> length rd" "fold (shift_both wr) [0..<k] (rd, s) = (rd', t)"
  obtains r where "length r = k" "rd' = chars_of r @ drop k rd" "talks s t"
    "watch m t = (watch m s)\<lparr>bits_in := take k (bits_of wr), bits_out := bits_out (watch m s) @ r\<rparr>"
    "\<forall>i<k. answer_at m (scans (watch m s)) s (bits_of wr) r i"
  using assms(4-)
proof (induction k arbitrary: rd' t thesis)
  case 0
  then show ?case using assms(3) by (simp add: chars_of_def)
next
  case (Suc k)
  obtain rd1 t1 where t1: "fold (shift_both wr) [0..<k] (rd, s) = (rd1, t1)" by fastforce
  obtain r where r: "length r = k" "rd1 = chars_of r @ drop k rd" "talks s t1"
    "watch m t1 = (watch m s)\<lparr>bits_in := take k (bits_of wr), bits_out := bits_out (watch m s) @ r\<rparr>"
    "\<forall>i<k. answer_at m (scans (watch m s)) s (bits_of wr) r i"
    using Suc.IH [OF _ _ _ t1] Suc.prems(2,3) by auto
  define u where "u = tick (tdi_of (wr ! k) OR TMS_L) t1"
  obtain c t2 where c: "JTAG_GET_TDO u = (c, t2)" by fastforce
  obtain b where b: "c = (if b then HIGH else LOW)" "b = (port u (hist u) AND push_bit 7 1 = 0)"
    "talks u t2" "watch m t2 = (watch m u)\<lparr>bits_out := bits_out (watch m u) @ [b]\<rparr>"
    using get_tdo [OF c] by blast
  have "k < length rd1" using Suc.prems(3) by (simp add: r(1,2) chars_of_def)
  then have t: "t = t2" "rd' = rd1[k := c]"
    using Suc.prems(4) t1 c by (simp_all add: shift_both_apply u_def)
  have upto: "take (Suc k) (bits_of wr) = take k (bits_of wr) @ [wr ! k = HIGH]"
    using Suc.prems(2) by (simp add: take_Suc_conv_app_nth)
  have u: "watch m u = (watch m s)\<lparr>bits_in := take (Suc k) (bits_of wr), bits_out := bits_out (watch m s) @ r\<rparr>"
    using assms(1,2) by (simp add: u_def r(4) rise_simps upto)
  have "talks s u" unfolding u_def using r(3) by (rule talks_trans) simp
  then have "port u = port s" by (rule talks_keeps)
  then have "answer_at m (scans (watch m s)) s (bits_of wr) (r @ [b]) k"
    using b(2) u assms(1) r(1)
    by (auto simp: answer_at_def watch_def nth_append intro!: exI [of _ "hist u"])
  then have "\<forall>i<Suc k. answer_at m (scans (watch m s)) s (bits_of wr) (r @ [b]) i"
    using r(1,5) by (auto simp: less_Suc_eq answer_at_append)
  moreover have "rd' = chars_of (r @ [b]) @ drop (Suc k) rd"
    using Suc.prems(3) r(1,2) b(1)
    by (auto simp: t chars_of_def list_update_append Cons_nth_drop_Suc [symmetric])
  moreover have "watch m t = (watch m s)\<lparr>bits_in := take (Suc k) (bits_of wr), bits_out := bits_out (watch m s) @ r @ [b]\<rparr>"
    by (simp add: t b(4) u)
  moreover have "talks s t" using talks_trans [OF \<open>talks s u\<close> b(3)] by (simp add: t)
  ultimately show ?case using Suc.prems(1) [of "r @ [b]"] r(1) by simp
qed


subsection \<open>One scan\<close>

definition idle :: "monitor \<Rightarrow> 'a jtag_scheme \<Rightarrow> bool" where
  "idle m s \<longleftrightarrow> tap (watch m s) = Run_Test_Idle"

lemma ir_scan:
  assumes "idle m s" and "0 < strlen wr"
  shows "watch m (JTAG_ShiftIRState wr s) = (watch m s)\<lparr>tck := True, bits_in := bits_of wr,
    bits_out := [], scans := scans (watch m s) @ [IR_scan (bits_of wr)]\<rparr>"
    and "talks s (JTAG_ShiftIRState wr s)"
proof -
  define a where "a = fold tick [TDI_H OR TMS_H, TDI_H OR TMS_H, TDI_H OR TMS_L, TDI_H OR TMS_L] s"
  define b where "b = fold (shift_out wr) [0..<strlen wr - 1] a"
  have a: "watch m a = (watch m s)\<lparr>tap := Shift_IR, tck := True, bits_in := [], bits_out := []\<rparr>"
    using assms(1) by (simp add: a_def idle_def rise_simps)
  have b: "watch m b = (watch m a)\<lparr>bits_in := map (\<lambda>i. wr ! i = HIGH) [0..<strlen wr - 1]\<rparr>"
    using a by (simp add: b_def shift_out_watch)
  have run: "JTAG_ShiftIRState wr s =
    fold tick [TDI_H OR TMS_H, TDI_H OR TMS_L] (tick (tdi_of (wr ! (strlen wr - 1)) OR TMS_H) b)"
    by (simp add: JTAG_ShiftIRState_def Let_def a_def b_def)
  show "watch m (JTAG_ShiftIRState wr s) = (watch m s)\<lparr>tck := True, bits_in := bits_of wr,
    bits_out := [], scans := scans (watch m s) @ [IR_scan (bits_of wr)]\<rparr>"
    using assms(1)
    by (cases "watch m s") (simp add: run b a rise_simps idle_def bits_of_upt [OF assms(2), simplified])
  show "talks s (JTAG_ShiftIRState wr s)"
    by (simp add: run b_def a_def talks_more)
qed


lemma dr_scan_no_tdo:
  assumes "idle m s" and "0 < strlen wr"
  shows "watch m (JTAG_ShiftDRStateNoTdo wr s) = (watch m s)\<lparr>tck := True, bits_in := bits_of wr,
    bits_out := [], scans := scans (watch m s) @ [DR_scan (bits_of wr) []]\<rparr>"
    and "talks s (JTAG_ShiftDRStateNoTdo wr s)"
proof -
  define a where "a = fold tick [TDI_H OR TMS_H, TDI_H OR TMS_L, TDI_H OR TMS_L] s"
  define b where "b = fold (shift_out wr) [0..<strlen wr - 1] a"
  have a: "watch m a = (watch m s)\<lparr>tap := Shift_DR, tck := True, bits_in := [], bits_out := []\<rparr>"
    using assms(1) by (simp add: a_def idle_def rise_simps)
  have b: "watch m b = (watch m a)\<lparr>bits_in := map (\<lambda>i. wr ! i = HIGH) [0..<strlen wr - 1]\<rparr>"
    using a by (simp add: b_def shift_out_watch)
  have run: "JTAG_ShiftDRStateNoTdo wr s =
    fold tick [TDI_H OR TMS_H, TDI_H OR TMS_L] (tick (tdi_of (wr ! (strlen wr - 1)) OR TMS_H) b)"
    by (simp add: JTAG_ShiftDRStateNoTdo_def Let_def a_def b_def)
  show "watch m (JTAG_ShiftDRStateNoTdo wr s) = (watch m s)\<lparr>tck := True, bits_in := bits_of wr,
    bits_out := [], scans := scans (watch m s) @ [DR_scan (bits_of wr) []]\<rparr>"
    using assms(1)
    by (cases "watch m s") (simp add: run b a rise_simps idle_def bits_of_upt [OF assms(2), simplified])
  show "talks s (JTAG_ShiftDRStateNoTdo wr s)"
    by (simp add: run b_def a_def talks_more)
qed

text \<open>The last bit of a scan leaves Shift-DR; it is sampled all the same.\<close>

lemma last_bit:
  assumes "watch m s = x\<lparr>tap := Shift_DR, tck := True, bits_in := take n (bits_of wr), bits_out := r\<rparr>"
    and "strlen wr = Suc n" and "length r = n" and "\<forall>i<n. answer_at m (scans x) s (bits_of wr) r i"
    and "JTAG_GET_TDO (tick (tdi_of (wr ! n) OR TMS_H) s) = (c, t)"
  obtains b where "c = (if b then HIGH else LOW)" "talks s t"
    "watch m t = x\<lparr>tap := Exit1_DR, tck := True, bits_in := bits_of wr, bits_out := r @ [b]\<rparr>"
    "answered m (scans x) s (bits_of wr) (r @ [b])"
proof -
  define u where "u = tick (tdi_of (wr ! n) OR TMS_H) s"
  obtain b where b: "c = (if b then HIGH else LOW)" "b = (port u (hist u) AND push_bit 7 1 = 0)"
    "talks u t" "watch m t = (watch m u)\<lparr>bits_out := bits_out (watch m u) @ [b]\<rparr>"
    using get_tdo assms(5) unfolding u_def by blast
  have full: "take n (bits_of wr) @ [wr ! n = HIGH] = bits_of wr"
    using take_Suc_conv_app_nth [of n "bits_of wr"] assms(2) by simp
  have u: "watch m u = x\<lparr>tap := Exit1_DR, tck := True, bits_in := bits_of wr, bits_out := r\<rparr>"
    by (simp add: u_def assms(1) rise_simps full)
  have "talks s u" by (simp add: u_def)
  moreover have "port u = port s" by (simp add: u_def)
  then have "answer_at m (scans x) s (bits_of wr) (r @ [b]) n"
    using b(2) u assms(2,3) by (auto simp: answer_at_def watch_def nth_append intro!: exI [of _ "hist u"])
  then have "answered m (scans x) s (bits_of wr) (r @ [b])"
    using assms(2-4) by (auto simp: answered_def less_Suc_eq answer_at_append)
  ultimately show thesis using that b by (simp add: u talks_trans [OF _ b(3)])
qed

lemma dr_scan:
  assumes "idle m s" and "0 < strlen wr" and "strlen wr \<le> length rd"
    and "JTAG_ShiftDRState wr rd s = (rd', t)"
  obtains r where "answered m (scans (watch m s)) s (bits_of wr) r"
    "rd' = chars_of r @ drop (strlen wr) rd" "talks s t"
    "watch m t = (watch m s)\<lparr>tck := True, bits_in := bits_of wr, bits_out := r,
      scans := scans (watch m s) @ [DR_scan (bits_of wr) r]\<rparr>"
proof -
  obtain n where n: "strlen wr = Suc n" using assms(2) gr0_implies_Suc by blast
  define a where "a = fold tick [TDI_H OR TMS_H, TDI_H OR TMS_L, TDI_H OR TMS_L] s"
  have a: "watch m a = (watch m s)\<lparr>tap := Shift_DR, tck := True, bits_in := [], bits_out := []\<rparr>"
    using assms(1) by (simp add: a_def idle_def rise_simps)
  have "talks s a" by (simp add: a_def talks_more)
  obtain rd1 b where b: "fold (shift_both wr) [0..<n] (rd, a) = (rd1, b)" by fastforce
  have start: "tap (watch m a) = Shift_DR" "tck (watch m a)" "bits_in (watch m a) = []"
    "n \<le> strlen wr" "n \<le> length rd"
    using a n assms(3) by simp_all
  obtain r where r: "length r = n" "rd1 = chars_of r @ drop n rd" "talks a b"
    "watch m b = (watch m a)\<lparr>bits_in := take n (bits_of wr), bits_out := bits_out (watch m a) @ r\<rparr>"
    "\<forall>i<n. answer_at m (scans (watch m a)) a (bits_of wr) r i"
    using shift_both_watch [OF start b] by blast
  obtain c d where c: "JTAG_GET_TDO (tick (tdi_of (wr ! n) OR TMS_H) b) = (c, d)" by fastforce
  have "talks s b" using \<open>talks s a\<close> r(3) by (rule talks_trans)
  then have port: "port b = port s" "port a = port s"
    using \<open>talks s a\<close> by (simp_all add: talks_keeps)
  have "watch m b = (watch m s)\<lparr>tap := Shift_DR, tck := True, bits_in := take n (bits_of wr), bits_out := r\<rparr>"
    by (simp add: r(4) a)
  moreover have "\<forall>i<n. answer_at m (scans (watch m s)) b (bits_of wr) r i"
    using r(5) a port by (simp add: answer_at_def)
  ultimately obtain y where y: "c = (if y then HIGH else LOW)" "talks b d"
    "watch m d = (watch m s)\<lparr>tap := Exit1_DR, tck := True, bits_in := bits_of wr, bits_out := r @ [y]\<rparr>"
    "answered m (scans (watch m s)) b (bits_of wr) (r @ [y])"
    using last_bit [OF _ n r(1) _ c] by blast
  have "n < length rd1" using n assms(3) by (simp add: r(1,2) chars_of_def)
  then have t: "t = fold tick [TDI_H OR TMS_H, TDI_H OR TMS_L] d" "rd' = rd1[n := c]"
    using assms(4) b c n by (simp_all add: JTAG_ShiftDRState_def Let_def a_def)
  show thesis
  proof (rule that)
    show "answered m (scans (watch m s)) s (bits_of wr) (r @ [y])"
      using y(4) port by (simp add: answered_def answer_at_def)
    show "rd' = chars_of (r @ [y]) @ drop (strlen wr) rd"
      using n r(1,2) assms(3) y(1)
      by (auto simp: t chars_of_def list_update_append Cons_nth_drop_Suc [symmetric])
    show "talks s t"
      using talks_trans [OF \<open>talks s b\<close> y(2)] by (simp add: t talks_more)
    show "watch m t = (watch m s)\<lparr>tck := True, bits_in := bits_of wr, bits_out := r @ [y],
      scans := scans (watch m s) @ [DR_scan (bits_of wr) (r @ [y])]\<rparr>"
      using assms(1) by (cases "watch m s") (simp add: t y(3) rise_simps idle_def)
  qed
qed


subsection \<open>What the routines do\<close>

lemma reset_watch:
  "tap (watch m (JTAG_Reset s)) = Test_Logic_Reset \<and> tck (watch m (JTAG_Reset s)) \<and>
   (\<exists>xs. scans (watch m (JTAG_Reset s)) = scans (watch m s) @ xs @ [Tap_reset])"
  by (cases "tap (watch m s)") (simp_all add: JTAG_Reset_def rise_simps)

lemma talks_reset [simp]: "talks s (JTAG_Reset s)" "talks s (JTAG_RunTestldleState s)"
  by (simp_all add: JTAG_Reset_def JTAG_RunTestldleState_def talks_more)

lemma run_test_watch:
  "idle m (JTAG_RunTestldleState s) \<and>
   (\<exists>xs. scans (watch m (JTAG_RunTestldleState s)) = scans (watch m s) @ xs @ [Tap_reset])"
  using reset_watch [of m s] by (auto simp: JTAG_RunTestldleState_def idle_def rise_simps)

text \<open>
  Whatever state the test access port is in, \<open>JTAG_Reset\<close> takes it to Test-Logic-Reset and
  \<open>JTAG_RunTestldleState\<close> to Run-Test/Idle; the last thing either did to the chip is a reset.
\<close>

theorem reset_from_any_state:
  shows "tap (watch m (JTAG_Reset s)) = Test_Logic_Reset \<and>
    tap (watch m (JTAG_RunTestldleState s)) = Run_Test_Idle \<and>
    last (scans (watch m (JTAG_Reset s))) = Tap_reset \<and>
    last (scans (watch m (JTAG_RunTestldleState s))) = Tap_reset \<and>
    port (JTAG_RunTestldleState s) = port s"
  using reset_watch [of m s] run_test_watch [of m s]
  by (auto simp: idle_def talks_keeps [OF talks_reset(2)])

text \<open>
  C29: From Run-Test/Idle each shift routine makes exactly one scan of the given register with
  the characters of its string, first character first, and returns to Run-Test/Idle;
  \<open>JTAG_ShiftDRState\<close> stores for every bit the answer that the port gave when exactly the bits up
  to this one had been shifted, and leaves the rest of the array alone.
\<close>

theorem shifts_are_single_scans:
  assumes "tap (watch m s) = Run_Test_Idle" and "0 < strlen wr" and "strlen wr \<le> length rd"
  shows "tap (watch m (JTAG_ShiftIRState wr s)) = Run_Test_Idle \<and>
      scans (watch m (JTAG_ShiftIRState wr s)) = scans (watch m s) @ [IR_scan (bits_of wr)] \<and>
    tap (watch m (JTAG_ShiftDRStateNoTdo wr s)) = Run_Test_Idle \<and>
      scans (watch m (JTAG_ShiftDRStateNoTdo wr s)) = scans (watch m s) @ [DR_scan (bits_of wr) []] \<and>
    (case JTAG_ShiftDRState wr rd s of (rd', t) \<Rightarrow> \<exists>r.
      answered m (scans (watch m s)) s (bits_of wr) r \<and> tap (watch m t) = Run_Test_Idle \<and>
      scans (watch m t) = scans (watch m s) @ [DR_scan (bits_of wr) r] \<and>
      rd' = chars_of r @ drop (strlen wr) rd)"
proof -
  have idle: "idle m s" using assms(1) by (simp add: idle_def)
  have r1: "tap (watch m (JTAG_ShiftIRState wr s)) = Run_Test_Idle \<and>
      scans (watch m (JTAG_ShiftIRState wr s)) = scans (watch m s) @ [IR_scan (bits_of wr)]"
    using assms(1) by (simp add: ir_scan [OF idle assms(2)])
  have r2: "tap (watch m (JTAG_ShiftDRStateNoTdo wr s)) = Run_Test_Idle \<and>
      scans (watch m (JTAG_ShiftDRStateNoTdo wr s)) = scans (watch m s) @ [DR_scan (bits_of wr) []]"
    using assms(1) by (simp add: dr_scan_no_tdo [OF idle assms(2)])
  obtain rd' t where t: "JTAG_ShiftDRState wr rd s = (rd', t)" by fastforce
  then have r3: "case JTAG_ShiftDRState wr rd s of (rd', t) \<Rightarrow> \<exists>r.
      answered m (scans (watch m s)) s (bits_of wr) r \<and> tap (watch m t) = Run_Test_Idle \<and>
      scans (watch m t) = scans (watch m s) @ [DR_scan (bits_of wr) r] \<and>
      rd' = chars_of r @ drop (strlen wr) rd"
    using dr_scan [OF idle assms(2,3) t] assms(1) by fastforce
  show ?thesis using r1 r2 r3 by blast
qed

definition demo_port :: jtag where
  "demo_port = \<lparr>hist = [], port = \<lambda>h. if length h = 11 then 0x80 else 0x7f\<rparr>"

definition demo_tap :: monitor where
  "demo_tap = \<lparr>tap = Run_Test_Idle, tck = False, bits_in = [], bits_out = [], scans = []\<rparr>"

lemma demo_idle: "tap (watch demo_tap demo_port) = Run_Test_Idle"
  by (simp add: watch_def demo_tap_def demo_port_def)

text \<open>Shifting three bits: the port pulls the third answer low, so it is read as \<open>0\<close>.\<close>

theorem shifts_are_single_scans_witness:
  "scans (watch demo_tap (JTAG_ShiftIRState [HIGH, LOW, NUL] demo_port)) = [IR_scan [True, False]]"
proof -
  have "strlen [HIGH, LOW, NUL] = 2" "bits_of [HIGH, LOW, NUL] = [True, False]"
    by (simp_all add: strlen_def bits_of_def HIGH_def LOW_def NUL_def)
  moreover have "scans (watch demo_tap demo_port) = []"
    by (simp add: watch_def demo_tap_def demo_port_def)
  ultimately show ?thesis
    using shifts_are_single_scans [OF demo_idle, of "[HIGH, LOW, NUL]" "[NUL, NUL]"] by simp
qed

lemma bit_or_bits: "bit (or_bits p is) n \<longleftrightarrow> n \<in> set is \<and> p n"
proof -
  have "bit (fold (\<lambda>i x. if p i then x OR push_bit i 1 else x) is a) n \<longleftrightarrow> bit a n \<or> n \<in> set is \<and> p n" for a :: int
    by (induction "is" arbitrary: a) (auto simp: bit_simps)
  then show ?thesis by (simp add: or_bits_def)
qed

lemma or_bits_horner: "set is = {..<k} \<Longrightarrow> or_bits p is = horner_sum of_bool 2 (map p [0..<k])"
proof (rule bit_eqI)
  fix n
  assume "set is = {..<k}"
  then show "bit (or_bits p is) n = bit (horner_sum of_bool 2 (map p [0..<k]) :: int) n"
    unfolding bit_or_bits bit_horner_sum_bit_iff by (cases "n < k") simp_all
qed


text \<open>Reading the identity register is a data scan of 32 ones.\<close>

definition ones :: "char list" where "ones = replicate 32 HIGH @ [NUL]"

lemma ones_simps: "strlen ones = 32" "bits_of ones = replicate 32 True" "i < 32 \<Longrightarrow> ones ! i = HIGH"
proof -
  have "HIGH \<noteq> NUL" by (simp add: HIGH_def NUL_def)
  then have "takeWhile (\<lambda>c. c \<noteq> NUL) ones = replicate 32 HIGH"
    unfolding ones_def by (subst takeWhile_append2) auto
  then show len: "strlen ones = 32" by (simp add: strlen_def)
  show "bits_of ones = replicate 32 True"
    by (simp add: bits_of_def len) (simp add: ones_def)
  show "i < 32 \<Longrightarrow> ones ! i = HIGH" by (simp add: ones_def nth_append)
qed

lemma read_id_loop: "k \<le> 32 \<Longrightarrow> fold read_id_bit [0..<k] x = fold (shift_both ones) [0..<k] x"
  by (rule fold_cong) (auto simp: read_id_bit_def shift_both_def ones_simps tdi_of_def)

lemma read_id_start:
  fixes s :: "'a jtag_scheme"
  obtains a :: "'a jtag_scheme" and xs where
    "JTAG_ReadId id0 s = read_id_register id0 a"
    "talks s a" "tap (watch m a) = Shift_DR" "tck (watch m a)" "bits_in (watch m a) = []"
    "bits_out (watch m a) = []"
    "scans (watch m a) = scans (watch m s) @ xs @ [Tap_reset, IR_scan [False, True, True, True]]"
proof -
  define a where "a = fold tick
    [TDI_H OR TMS_L, TDI_H OR TMS_L, TDI_H OR TMS_L, TDI_H OR TMS_L,
     TDI_H OR TMS_H, TDI_H OR TMS_H, TDI_H OR TMS_L, TDI_H OR TMS_L,
     TDI_L OR TMS_L, TDI_H OR TMS_L, TDI_H OR TMS_L, TDI_H OR TMS_H,
     TDI_H OR TMS_H, TDI_H OR TMS_H, TDI_H OR TMS_L, TDI_H OR TMS_L] (JTAG_Reset s)"
  have "talks s a" unfolding a_def by (rule talks_trans [OF talks_reset(1)]) (simp add: talks_more)
  moreover obtain xs where "tap (watch m (JTAG_Reset s)) = Test_Logic_Reset"
    "scans (watch m (JTAG_Reset s)) = scans (watch m s) @ xs @ [Tap_reset]"
    using reset_watch [of m s] by blast
  ultimately show thesis
    by (intro that [of a xs]) (simp_all add: a_def JTAG_ReadId_def Let_def rise_simps)
qed

text \<open>
  From any state of the port \<open>JTAG_ReadId\<close> resets, loads the IDCODE instruction and makes
  one data scan of 32 bits; the number it prints is that of the answers, the first being the
  lowest bit, and the processor is reported as found exactly for 0x0032409d.
\<close>

theorem read_id_reads_register:
  assumes "length id0 = 32"
  shows "case JTAG_ReadId id0 s of ((id32, found), t) \<Rightarrow> \<exists>r xs.
      let before = scans (watch m s) @ xs @ [Tap_reset, IR_scan [False, True, True, True]] in
      answered m before s (replicate 32 True) r \<and>
      tap (watch m t) = Run_Test_Idle \<and>
      scans (watch m t) = before @ [DR_scan (replicate 32 True) r] \<and>
      id32 = horner_sum of_bool 2 r \<and>
      found = (id32 = 0x0032409d)"
proof -
  obtain a :: "'a jtag_scheme" and xs where run: "JTAG_ReadId id0 s = read_id_register id0 a"
    and a:
    "talks s a" "tap (watch m a) = Shift_DR" "tck (watch m a)" "bits_in (watch m a) = []"
    "bits_out (watch m a) = []"
    and ss: "scans (watch m a) = scans (watch m s) @ xs @ [Tap_reset, IR_scan [False, True, True, True]]"
    by (rule read_id_start [where s = s and m = m and ?id0.0 = id0])
  obtain ids b where b: "fold (shift_both ones) [0..<31] (id0, a) = (ids, b)" by fastforce
  have len32: "strlen ones = Suc 31" by (simp add: ones_simps)
  have len: "31 \<le> strlen ones" "31 \<le> length id0" using assms by (simp_all add: ones_simps)
  obtain r where r: "length r = 31" "ids = chars_of r @ drop 31 id0" "talks a b"
    "watch m b = (watch m a)\<lparr>bits_in := take 31 (bits_of ones), bits_out := bits_out (watch m a) @ r\<rparr>"
    "\<forall>i<31. answer_at m (scans (watch m a)) a (bits_of ones) r i"
    using shift_both_watch [OF a(2-4) len b] by blast
  obtain c d where c: "JTAG_GET_TDO (tick (tdi_of (ones ! 31) OR TMS_H) b) = (c, d)" by fastforce
  have port: "port b = port s" "port a = port s"
    using talks_trans [OF a(1) r(3)] a(1) by (simp_all add: talks_keeps)
  have "watch m b = (watch m a)\<lparr>tap := Shift_DR, tck := True, bits_in := take 31 (bits_of ones), bits_out := r\<rparr>"
    using a(2,3,5) by (cases "watch m a") (simp add: r(4))
  moreover have "\<forall>i<31. answer_at m (scans (watch m a)) b (bits_of ones) r i"
    using r(5) port by (simp add: answer_at_def)
  ultimately obtain y where y: "c = (if y then HIGH else LOW)" "talks b d"
    "watch m d = (watch m a)\<lparr>tap := Exit1_DR, tck := True, bits_in := bits_of ones, bits_out := r @ [y]\<rparr>"
    "answered m (scans (watch m a)) b (bits_of ones) (r @ [y])"
    using last_bit [OF _ len32 r(1) _ c] by blast
  have set32: "set (rev [0..<32]) = {..<32}" by auto
  have "drop 31 id0 = [id0 ! 31]" using Cons_nth_drop_Suc [of 31 id0] assms by simp
  then have "array_set ids 31 c = chars_of (r @ [y])"
    using r(1,2) y(1) by (simp add: chars_of_def list_update_append)
  then have "map (\<lambda>i. array_set ids 31 c ! i = HIGH) [0..<32] = r @ [y]"
    using r(1) by (intro nth_equalityI) (auto simp: chars_of_def nth_append HIGH_def LOW_def)
  then have "or_bits (\<lambda>i. array_set ids 31 c ! i = HIGH) (rev [0..<32]) = horner_sum of_bool 2 (r @ [y])"
    unfolding or_bits_horner [OF set32] by simp
  moreover have "ones ! 31 = HIGH" by (rule ones_simps) simp
  moreover have "answered m (scans (watch m a)) s (bits_of ones) (r @ [y])"
    using y(4) port by (simp add: answered_def answer_at_def)
  ultimately show ?thesis
    using b c y(3) ss unfolding run read_id_register_def
    by (auto simp: read_id_loop Let_def rise_simps ones_simps tdi_of_def intro!: exI [of _ "r @ [y]"] exI [of _ xs])
qed

theorem read_id_reads_register_witness:
  "\<exists>r xs. fst (fst (JTAG_ReadId (replicate 32 NUL) demo_port)) = horner_sum of_bool 2 r \<and>
    scans (watch demo_tap (snd (JTAG_ReadId (replicate 32 NUL) demo_port))) =
      scans (watch demo_tap demo_port) @ xs @
        [Tap_reset, IR_scan [False, True, True, True], DR_scan (replicate 32 True) r]"
  using read_id_reads_register [where s = demo_port and m = demo_tap, of "replicate 32 NUL"]
  by (auto simp: Let_def split: prod.splits)

end
