(* ===== verification/Cells.thy ===== *)
theory Cells
  imports Jtag
begin

text \<open>
  The boundary scan cells of the flash programmer: \<open>pin2440.c\<close> and the cell numbers of
  \<open>pin2440.h\<close>. The record \<open>cells\<close> adds the global arrays of the file to the port: the two C
  strings of 472 cell values with their terminators and the index tables that
  \<open>S2410_InitCell\<close> fills (\<open>S2440_MAX_CELL_INDEX\<close> is 471).
\<close>

subsection \<open>Cell numbers\<close>

definition S2440_MAX_CELL_INDEX :: nat where "S2440_MAX_CELL_INDEX = 471"

definition DATA_OUT :: "nat list" where
  "DATA_OUT =
     [401, 403, 405, 407, 409, 411, 413, 415, 418, 420, 422, 424,
      426, 428, 430, 432, 435, 437, 439, 441, 443, 445, 447, 449,
      452, 454, 456, 458, 460, 462, 464, 466]"

definition DATA_IN :: "nat list" where
  "DATA_IN =
     [402, 404, 406, 408, 410, 412, 414, 417, 419, 421, 423, 425,
      427, 429, 431, 434, 436, 438, 440, 442, 444, 446, 448, 451,
      453, 455, 457, 459, 461, 463, 465, 468]"

definition ADDR :: "nat list" where
  "ADDR =
     [361, 363, 364, 365, 366, 367, 368, 369, 370, 371, 372, 373,
      374, 375, 376, 377, 379, 381, 383, 385, 387, 389, 391, 393,
      395, 397, 399]"

definition DATA0_7_CON :: nat where "DATA0_7_CON = 416"
definition DATA8_15_CON :: nat where "DATA8_15_CON = 433"
definition DATA16_23_CON :: nat where "DATA16_23_CON = 450"
definition DATA24_31_CON :: nat where "DATA24_31_CON = 467"
definition ADDR0_CON :: nat where "ADDR0_CON = 362"
definition ADDR1_15_CON :: nat where "ADDR1_15_CON = 378"
definition ADDR16_CON :: nat where "ADDR16_CON = 380"
definition ADDR17_CON :: nat where "ADDR17_CON = 382"
definition ADDR18_CON :: nat where "ADDR18_CON = 384"
definition ADDR19_CON :: nat where "ADDR19_CON = 386"
definition ADDR20_CON :: nat where "ADDR20_CON = 388"
definition ADDR21_CON :: nat where "ADDR21_CON = 390"
definition ADDR22_CON :: nat where "ADDR22_CON = 392"
definition ADDR23_CON :: nat where "ADDR23_CON = 394"
definition ADDR24_CON :: nat where "ADDR24_CON = 396"
definition ADDR25_CON :: nat where "ADDR25_CON = 398"
definition ADDR26_CON :: nat where "ADDR26_CON = 400"
definition nGCS67_CON :: nat where "nGCS67_CON = 360"
definition nGCS7 :: nat where "nGCS7 = 335"
definition nGCS6 :: nat where "nGCS6 = 336"
definition nGCS5_CON :: nat where "nGCS5_CON = 338"
definition nGCS5 :: nat where "nGCS5 = 337"
definition nGCS4_CON :: nat where "nGCS4_CON = 340"
definition nGCS4 :: nat where "nGCS4 = 339"
definition nGCS3_CON :: nat where "nGCS3_CON = 342"
definition nGCS3 :: nat where "nGCS3 = 341"
definition nGCS2_CON :: nat where "nGCS2_CON = 344"
definition nGCS2 :: nat where "nGCS2 = 343"
definition nGCS1_CON :: nat where "nGCS1_CON = 346"
definition nGCS1 :: nat where "nGCS1 = 345"
definition nGCS0_ETC_CON :: nat where "nGCS0_ETC_CON = 357"
definition nGCS0 :: nat where "nGCS0 = 347"
definition nWE :: nat where "nWE = 351"
definition nOE :: nat where "nOE = 352"
definition nBE0 :: nat where "nBE0 = 353"
definition nBE1 :: nat where "nBE1 = 354"
definition nBE2 :: nat where "nBE2 = 355"
definition nBE3 :: nat where "nBE3 = 356"
definition nFRE :: nat where "nFRE = 325"
definition nFWE :: nat where "nFWE = 327"
definition nFCE :: nat where "nFCE = 323"
definition CLE_CON :: nat where "CLE_CON = 332"
definition ALE_CON :: nat where "ALE_CON = 330"
definition nFCE_CON :: nat where "nFCE_CON = 324"
definition nFRE_CON :: nat where "nFRE_CON = 326"
definition nFWE_CON :: nat where "nFWE_CON = 328"
definition CLE :: nat where "CLE = 331"
definition ALE :: nat where "ALE = 329"
definition RnB :: nat where "RnB = 322"

lemmas pin_numbers =
  DATA0_7_CON_def DATA8_15_CON_def DATA16_23_CON_def DATA24_31_CON_def ADDR0_CON_def ADDR1_15_CON_def
  ADDR16_CON_def ADDR17_CON_def ADDR18_CON_def ADDR19_CON_def ADDR20_CON_def ADDR21_CON_def
  ADDR22_CON_def ADDR23_CON_def ADDR24_CON_def ADDR25_CON_def ADDR26_CON_def nGCS67_CON_def
  nGCS7_def nGCS6_def nGCS5_CON_def nGCS5_def nGCS4_CON_def nGCS4_def
  nGCS3_CON_def nGCS3_def nGCS2_CON_def nGCS2_def nGCS1_CON_def nGCS1_def
  nGCS0_ETC_CON_def nGCS0_def nWE_def nOE_def nBE0_def nBE1_def
  nBE2_def nBE3_def nFRE_def nFWE_def nFCE_def CLE_CON_def
  ALE_CON_def nFCE_CON_def nFRE_CON_def nFWE_CON_def CLE_def ALE_def
  RnB_def

subsection \<open>The routines\<close>

record cells = jtag +
  outCellValue :: "char list"
  inCellValue :: "char list"
  dataOutCellIndex :: "nat list"
  dataInCellIndex :: "nat list"
  addrCellIndex :: "nat list"

definition S2410_SetPin :: "nat \<Rightarrow> char \<Rightarrow> 'a cells_scheme \<Rightarrow> 'a cells_scheme" where
  "S2410_SetPin index v s = s\<lparr>outCellValue := array_set (outCellValue s) index v\<rparr>"

definition S2410_GetPin :: "nat \<Rightarrow> 'a cells_scheme \<Rightarrow> char" where
  "S2410_GetPin index s = inCellValue s ! index"

text \<open>The loop that the four setters share: bit \<open>i\<close> of the value goes to cell \<open>table[i]\<close>.\<close>

definition set_bits :: "nat list \<Rightarrow> nat \<Rightarrow> int \<Rightarrow> char list \<Rightarrow> char list" where
  "set_bits tab n v = fold (\<lambda>i out.
     if v AND push_bit i 1 \<noteq> 0 then array_set out (tab ! i) HIGH else array_set out (tab ! i) LOW) [0..<n]"

definition S2410_SetAddr :: "int \<Rightarrow> 'a cells_scheme \<Rightarrow> 'a cells_scheme" where
  "S2410_SetAddr addr s = s\<lparr>outCellValue := set_bits (addrCellIndex s) 27 addr (outCellValue s)\<rparr>"

definition S2410_SetDataByte :: "int \<Rightarrow> 'a cells_scheme \<Rightarrow> 'a cells_scheme" where
  "S2410_SetDataByte v s = s\<lparr>outCellValue := set_bits (dataOutCellIndex s) 8 v (outCellValue s)\<rparr>"

definition S2410_SetDataHW :: "int \<Rightarrow> 'a cells_scheme \<Rightarrow> 'a cells_scheme" where
  "S2410_SetDataHW v s = s\<lparr>outCellValue := set_bits (dataOutCellIndex s) 16 v (outCellValue s)\<rparr>"

definition S2410_SetDataWord :: "int \<Rightarrow> 'a cells_scheme \<Rightarrow> 'a cells_scheme" where
  "S2410_SetDataWord v s = s\<lparr>outCellValue := set_bits (dataOutCellIndex s) 32 v (outCellValue s)\<rparr>"

definition S2410_GetDataByte :: "'a cells_scheme \<Rightarrow> int" where
  "S2410_GetDataByte s = or_bits (\<lambda>i. inCellValue s ! (dataInCellIndex s ! i) = HIGH) [0..<8]"

definition S2410_GetDataHW :: "'a cells_scheme \<Rightarrow> int" where
  "S2410_GetDataHW s = or_bits (\<lambda>i. inCellValue s ! (dataInCellIndex s ! i) = HIGH) [0..<16]"

definition S2410_GetDataWord :: "'a cells_scheme \<Rightarrow> int" where
  "S2410_GetDataWord s = or_bits (\<lambda>i. inCellValue s ! (dataInCellIndex s ! i) = HIGH) [0..<32]"

definition SAMPLE_PRELOAD :: "char list" where "SAMPLE_PRELOAD = [HIGH, HIGH, LOW, LOW, NUL]"

definition init_pins :: "(nat \<times> char) list" where
  "init_pins =
     [(DATA0_7_CON, HIGH), (DATA8_15_CON, HIGH), (DATA16_23_CON, HIGH), (DATA24_31_CON, HIGH),
      (ADDR0_CON, LOW), (ADDR1_15_CON, LOW), (ADDR16_CON, LOW), (ADDR17_CON, LOW),
      (ADDR18_CON, LOW), (ADDR19_CON, LOW), (ADDR20_CON, LOW), (ADDR21_CON, LOW),
      (ADDR22_CON, LOW), (ADDR23_CON, LOW), (ADDR24_CON, LOW), (ADDR25_CON, LOW),
      (ADDR26_CON, LOW), (nGCS67_CON, LOW), (nGCS7, HIGH), (nGCS6, HIGH),
      (nGCS5_CON, LOW), (nGCS5, HIGH), (nGCS4_CON, LOW), (nGCS4, HIGH),
      (nGCS3_CON, LOW), (nGCS3, HIGH), (nGCS2_CON, LOW), (nGCS2, HIGH),
      (nGCS1_CON, LOW), (nGCS1, HIGH), (nGCS0_ETC_CON, LOW), (nGCS0, HIGH),
      (nWE, HIGH), (nOE, HIGH), (nBE0, HIGH), (nBE1, HIGH),
      (nBE2, HIGH), (nBE3, HIGH), (nFRE, HIGH), (nFWE, HIGH),
      (nFCE, HIGH)]"

definition S2410_InitCell :: "'a cells_scheme \<Rightarrow> 'a cells_scheme" where
  "S2410_InitCell s =
     (let s = s\<lparr>dataOutCellIndex := DATA_OUT, dataInCellIndex := DATA_IN, addrCellIndex := ADDR\<rparr>;
          n = Suc S2440_MAX_CELL_INDEX;
          s = s\<lparr>outCellValue := map (\<lambda>i. HIGH) [0..<n] @ [NUL],
                inCellValue := map (\<lambda>i. CHR ''u'') [0..<n] @ [NUL]\<rparr>;
          s = JTAG_ShiftIRState SAMPLE_PRELOAD (JTAG_RunTestldleState s)
      in case JTAG_ShiftDRState (outCellValue s) (inCellValue s) s of (rd, s) \<Rightarrow>
           let s = s\<lparr>inCellValue := rd\<rparr>;
               s = s\<lparr>outCellValue := map (\<lambda>i. rd ! i) [0..<n] @ drop n (outCellValue s)\<rparr>
           in fold (\<lambda>(p, v). S2410_SetPin p v) init_pins s)"


subsection \<open>The buses\<close>

text \<open>The number that the first \<open>n\<close> cells of a table hold.\<close>

definition bus_value :: "nat list \<Rightarrow> nat \<Rightarrow> char list \<Rightarrow> int" where
  "bus_value tab n cs = horner_sum of_bool 2 (map (\<lambda>i. cs ! (tab ! i) = HIGH) [0..<n])"

definition wired :: "'a cells_scheme \<Rightarrow> bool" where
  "wired s \<longleftrightarrow> dataOutCellIndex s = DATA_OUT \<and> dataInCellIndex s = DATA_IN \<and>
     addrCellIndex s = ADDR \<and> length (outCellValue s) = 473 \<and> length (inCellValue s) = 473"

lemma HIGH_LOW [simp]: "HIGH \<noteq> LOW" "LOW \<noteq> HIGH" "HIGH \<noteq> NUL" "LOW \<noteq> NUL"
  by (simp_all add: HIGH_def LOW_def NUL_def)

lemma set_bits_0 [simp]: "set_bits tab 0 v out = out"
  by (simp add: set_bits_def)

lemma set_bits_Suc:
  "set_bits tab (Suc n) v out = array_set (set_bits tab n v out) (tab ! n) (if bit v n then HIGH else LOW)"
  by (simp add: set_bits_def bit_iff_and_push_bit_not_eq_0)

lemma length_set_bits [simp]:
  "n \<le> length tab \<Longrightarrow> \<forall>k\<in>set tab. k < length out \<Longrightarrow> length (set_bits tab n v out) = length out"
  by (induction n) (simp_all add: set_bits_Suc)

lemma set_bits_other:
  "k \<notin> set (take n tab) \<Longrightarrow> n \<le> length tab \<Longrightarrow> \<forall>k\<in>set tab. k < length out
    \<Longrightarrow> set_bits tab n v out ! k = out ! k"
  by (induction n) (auto simp: set_bits_Suc take_Suc_conv_app_nth)

lemma set_bits_nth:
  assumes "distinct tab" "n \<le> length tab" "\<forall>k\<in>set tab. k < length out" "i < n"
  shows "set_bits tab n v out ! (tab ! i) = (if bit v i then HIGH else LOW)"
  using assms(2,4)
proof (induction n)
  case (Suc n)
  then show ?case
    using assms(1,3) by (cases "i = n") (auto simp: set_bits_Suc nth_eq_iff_index_eq nth_list_update_neq)
qed simp

lemma bus_value_set_bits:
  assumes "distinct tab" "n \<le> length tab" "\<forall>k\<in>set tab. k < length out"
  shows "bus_value tab n (set_bits tab n v out) = v mod 2 ^ n"
proof -
  have "map (\<lambda>i. set_bits tab n v out ! (tab ! i) = HIGH) [0..<n] = map (bit v) [0..<n]"
    using set_bits_nth [OF assms] by simp
  then show ?thesis unfolding bus_value_def by (simp only: horner_sum_bit_eq_take_bit take_bit_eq_mod)
qed

lemma or_bits_bus: "or_bits (\<lambda>i. cs ! (tab ! i) = HIGH) [0..<n] = bus_value tab n cs"
  unfolding bus_value_def by (rule or_bits_horner) auto

lemma bus_value_cong: "(\<And>i. i < n \<Longrightarrow> cs ! (tab ! i) = ds ! (tab ! i)) \<Longrightarrow> bus_value tab n cs = bus_value tab n ds"
  unfolding bus_value_def by (rule arg_cong [where f = "horner_sum of_bool 2"]) simp

lemma tables:
  "distinct DATA_OUT" "distinct DATA_IN" "distinct ADDR"
  "length DATA_OUT = 32" "length DATA_IN = 32" "length ADDR = 27"
  by (simp_all add: DATA_OUT_def DATA_IN_def ADDR_def)

lemma tables_range: "\<forall>k\<in>set DATA_OUT. 401 \<le> k \<and> k < 472" "\<forall>k\<in>set ADDR. 361 \<le> k \<and> k < 401"
  "\<forall>k\<in>set DATA_IN. 402 \<le> k \<and> k < 472"
  by (simp_all add: DATA_OUT_def DATA_IN_def ADDR_def)

lemma tables_disjoint:
  "k \<in> set DATA_OUT \<Longrightarrow> k \<notin> set ADDR" "k \<in> set ADDR \<Longrightarrow> k \<notin> set DATA_OUT"
  using tables_range by fastforce+

text \<open>
  What a setter of \<open>n\<close> bits does: only the output cells change, and of them only those of the first \<open>n\<close>
  entries of its table, which receive the bits of the value.
\<close>

definition puts_on :: "nat list \<Rightarrow> nat \<Rightarrow> int \<Rightarrow> 'a cells_scheme \<Rightarrow> 'a cells_scheme \<Rightarrow> bool" where
  "puts_on tab n v s t \<longleftrightarrow> t = s\<lparr>outCellValue := outCellValue t\<rparr> \<and>
     length (outCellValue t) = length (outCellValue s) \<and>
     (\<forall>i<n. outCellValue t ! (tab ! i) = (if bit v i then HIGH else LOW)) \<and>
     (\<forall>k. k \<notin> set (take n tab) \<longrightarrow> outCellValue t ! k = outCellValue s ! k)"

lemma puts_on_set_bits:
  assumes "distinct tab" "n \<le> length tab" "\<forall>k\<in>set tab. k < length (outCellValue s)"
  shows "puts_on tab n v s (s\<lparr>outCellValue := set_bits tab n v (outCellValue s)\<rparr>)"
  using assms by (simp add: puts_on_def set_bits_nth set_bits_other)

text \<open>
  C36: The setters put the low bits of their argument on the cells of their own bus, 8, 16 or 32 bits of
  data or 27 bits of address, and change nothing else: no other cell of the array, in particular no
  direction cell and none of the other bus, and no other variable. The getters return what the input
  cells of the data bus hold, so a value that the board loops back from the output cells is read again.
\<close>

theorem bus_round_trip:
  assumes "wired s"
  shows "bus_value DATA_OUT 8 (outCellValue (S2410_SetDataByte v s)) = v mod 2 ^ 8 \<and>
    bus_value DATA_OUT 16 (outCellValue (S2410_SetDataHW v s)) = v mod 2 ^ 16 \<and>
    bus_value DATA_OUT 32 (outCellValue (S2410_SetDataWord v s)) = v mod 2 ^ 32 \<and>
    bus_value ADDR 27 (outCellValue (S2410_SetAddr a s)) = a mod 2 ^ 27 \<and>
    bus_value DATA_OUT 32 (outCellValue (S2410_SetAddr a s)) = bus_value DATA_OUT 32 (outCellValue s) \<and>
    bus_value ADDR 27 (outCellValue (S2410_SetDataWord v s)) = bus_value ADDR 27 (outCellValue s) \<and>
    puts_on DATA_OUT 8 v s (S2410_SetDataByte v s) \<and> puts_on DATA_OUT 16 v s (S2410_SetDataHW v s) \<and>
    puts_on DATA_OUT 32 v s (S2410_SetDataWord v s) \<and> puts_on ADDR 27 a s (S2410_SetAddr a s) \<and>
    ((\<forall>i<32. inCellValue s ! (DATA_IN ! i) = outCellValue (S2410_SetDataWord v s) ! (DATA_OUT ! i)) \<longrightarrow>
      S2410_GetDataWord s = v mod 2 ^ 32 \<and> S2410_GetDataHW s = v mod 2 ^ 16 \<and> S2410_GetDataByte s = v mod 2 ^ 8)"
proof -
  have w: "dataOutCellIndex s = DATA_OUT" "dataInCellIndex s = DATA_IN" "addrCellIndex s = ADDR"
    "\<forall>k\<in>set DATA_OUT. k < length (outCellValue s)" "\<forall>k\<in>set ADDR. k < length (outCellValue s)"
    using assms tables_range by (fastforce simp: wired_def)+
  note simps = S2410_SetDataByte_def S2410_SetDataHW_def S2410_SetDataWord_def S2410_SetAddr_def
    bus_value_set_bits tables w
  have r1: "bus_value DATA_OUT 8 (outCellValue (S2410_SetDataByte v s)) = v mod 2 ^ 8"
    "bus_value DATA_OUT 16 (outCellValue (S2410_SetDataHW v s)) = v mod 2 ^ 16"
    "bus_value DATA_OUT 32 (outCellValue (S2410_SetDataWord v s)) = v mod 2 ^ 32"
    "bus_value ADDR 27 (outCellValue (S2410_SetAddr a s)) = a mod 2 ^ 27"
    by (simp_all add: simps)
  have r4: "puts_on DATA_OUT 8 v s (S2410_SetDataByte v s)" "puts_on DATA_OUT 16 v s (S2410_SetDataHW v s)"
    "puts_on DATA_OUT 32 v s (S2410_SetDataWord v s)" "puts_on ADDR 27 a s (S2410_SetAddr a s)"
    using w by (simp_all add: S2410_SetDataByte_def S2410_SetDataHW_def S2410_SetDataWord_def
        S2410_SetAddr_def puts_on_set_bits tables)
  have r2: "bus_value DATA_OUT 32 (outCellValue (S2410_SetAddr a s)) = bus_value DATA_OUT 32 (outCellValue s)"
    by (rule bus_value_cong) (simp add: simps set_bits_other tables_disjoint)
  have r3: "bus_value ADDR 27 (outCellValue (S2410_SetDataWord v s)) = bus_value ADDR 27 (outCellValue s)"
    by (rule bus_value_cong) (simp add: simps set_bits_other tables_disjoint)
  have "bus_value DATA_IN n (inCellValue s) = v mod 2 ^ n"
    if "\<forall>i<32. inCellValue s ! (DATA_IN ! i) = outCellValue (S2410_SetDataWord v s) ! (DATA_OUT ! i)" "n \<le> 32" for n
  proof -
    have "map (\<lambda>i. inCellValue s ! (DATA_IN ! i) = HIGH) [0..<n] = map (bit v) [0..<n]"
      using that set_bits_nth [OF tables(1) _ w(4), of 32] by (simp add: simps)
    then show ?thesis unfolding bus_value_def by (simp only: horner_sum_bit_eq_take_bit take_bit_eq_mod)
  qed
  from this [of 32] this [of 16] this [of 8] have r5:
    "(\<forall>i<32. inCellValue s ! (DATA_IN ! i) = outCellValue (S2410_SetDataWord v s) ! (DATA_OUT ! i)) \<longrightarrow>
      S2410_GetDataWord s = v mod 2 ^ 32 \<and> S2410_GetDataHW s = v mod 2 ^ 16 \<and> S2410_GetDataByte s = v mod 2 ^ 8"
    by (simp add: S2410_GetDataWord_def S2410_GetDataHW_def S2410_GetDataByte_def or_bits_bus w)
  show ?thesis using r1 r2 r3 r4 r5 by blast
qed


text \<open>Looping the word 0xBEEF1234 back on every pin.\<close>

definition loop_cells :: cells where
  "loop_cells = \<lparr>hist = [], port = \<lambda>h. 0, outCellValue = replicate 473 LOW,
     inCellValue = replicate 473 LOW, dataOutCellIndex = DATA_OUT, dataInCellIndex = DATA_IN,
     addrCellIndex = ADDR\<rparr>"

theorem bus_round_trip_witness:
  "S2410_GetDataWord (loop_cells\<lparr>inCellValue := set_bits DATA_IN 32 0xBEEF1234 (replicate 473 LOW)\<rparr>) = 0xBEEF1234"
proof -
  define s where "s = loop_cells\<lparr>inCellValue := set_bits DATA_IN 32 0xBEEF1234 (replicate 473 LOW)\<rparr>"
  have in473: "\<forall>k\<in>set DATA_IN. k < 473" "\<forall>k\<in>set DATA_OUT. k < 473" using tables_range by fastforce+
  then have w: "wired s" by (simp add: s_def loop_cells_def wired_def tables)
  from in473 have "\<forall>i<32. inCellValue s ! (DATA_IN ! i) = outCellValue (S2410_SetDataWord 0xBEEF1234 s) ! (DATA_OUT ! i)"
    by (simp add: s_def loop_cells_def S2410_SetDataWord_def set_bits_nth tables)
  with bus_round_trip [OF w, of "0xBEEF1234"] show ?thesis by (simp add: s_def)
qed

subsection \<open>Initialisation\<close>

text \<open>A string of cell values: 472 characters \<open>0\<close> or \<open>1\<close>, then the terminator.\<close>

definition levels :: "char list \<Rightarrow> bool" where
  "levels cs \<longleftrightarrow> length cs = 473 \<and> cs ! 472 = NUL \<and> (\<forall>i<472. cs ! i = HIGH \<or> cs ! i = LOW)"

lemma levels_split:
  assumes "levels cs"
  shows "cs = take 472 cs @ [NUL]" and "\<forall>c\<in>set (take 472 cs). c \<noteq> NUL"
proof -
  show "cs = take 472 cs @ [NUL]"
    using take_Suc_conv_app_nth [of 472 cs] assms by (simp add: levels_def)
  show "\<forall>c\<in>set (take 472 cs). c \<noteq> NUL"
    using assms HIGH_LOW(3,4) by (force simp: levels_def in_set_conv_nth)
qed

lemma levels_strlen [simp]:
  assumes "levels cs"
  shows "strlen cs = 472"
proof -
  have "takeWhile (\<lambda>c. c \<noteq> NUL) (take 472 cs @ [NUL]) = take 472 cs"
    using levels_split(2) [OF assms] by (subst takeWhile_append2) auto
  then have "takeWhile (\<lambda>c. c \<noteq> NUL) cs = take 472 cs"
    using levels_split(1) [OF assms] by simp
  then show ?thesis using assms by (simp add: strlen_def levels_def)
qed

lemma levels_upd [simp]: "levels cs \<Longrightarrow> k < 472 \<Longrightarrow> v = HIGH \<or> v = LOW \<Longrightarrow> levels (cs[k := v])"
  by (auto simp: levels_def nth_list_update)

lemma levels_array_set [simp]: "levels cs \<Longrightarrow> k < 472 \<Longrightarrow> v = HIGH \<or> v = LOW \<Longrightarrow> levels (array_set cs k v)"
  using levels_upd [of cs k v] by (simp add: levels_def)

lemma levels_set_bits:
  assumes "levels cs" "\<forall>k\<in>set tab. k < 472" "n \<le> length tab"
  shows "levels (set_bits tab n v cs)"
  using assms(3)
proof (induction n)
  case 0
  then show ?case using assms(1) by simp
next
  case (Suc n)
  then have "tab ! n < 472" using assms(2) by simp
  then show ?case using Suc by (simp add: set_bits_Suc)
qed

lemma levels_chars: "length r = 472 \<Longrightarrow> levels (chars_of r @ [NUL])"
  by (auto simp: levels_def chars_of_def nth_append)

lemma talks_cells:
  assumes "talks s t"
  shows "outCellValue t = outCellValue s" "inCellValue t = inCellValue s"
    "dataOutCellIndex t = dataOutCellIndex s" "dataInCellIndex t = dataInCellIndex s"
    "addrCellIndex t = addrCellIndex s" "cells.more t = cells.more s"
  using assms by (auto simp: talks_def)

lemma watch_cells [simp]:
  "watch m (s\<lparr>outCellValue := a\<rparr>) = watch m s" "watch m (s\<lparr>inCellValue := a\<rparr>) = watch m s"
  "watch m (s\<lparr>dataOutCellIndex := t\<rparr>) = watch m s" "watch m (s\<lparr>dataInCellIndex := t\<rparr>) = watch m s"
  "watch m (s\<lparr>addrCellIndex := t\<rparr>) = watch m s"
  by (simp_all add: watch_def)

lemma watch_SetPin [simp]: "watch m (S2410_SetPin p v s) = watch m s"
  by (simp add: S2410_SetPin_def)

definition put_pins :: "(nat \<times> char) list \<Rightarrow> char list \<Rightarrow> char list" where
  "put_pins ps cs = fold (\<lambda>(p, v) cs. array_set cs p v) ps cs"

lemma set_pins: "fold (\<lambda>(p, v). S2410_SetPin p v) ps s = s\<lparr>outCellValue := put_pins ps (outCellValue s)\<rparr>"
  by (induction ps arbitrary: s) (auto simp: put_pins_def S2410_SetPin_def)

lemma put_pins_Cons: "put_pins (a # ps) cs = put_pins ps (array_set cs (fst a) (snd a))"
  by (simp add: put_pins_def split: prod.splits)

lemma put_pins_other:
  "k \<notin> fst ` set ps \<Longrightarrow> \<forall>p\<in>fst ` set ps. p < length cs \<Longrightarrow> put_pins ps cs ! k = cs ! k"
  by (induction ps arbitrary: cs) (auto simp: put_pins_Cons, simp add: put_pins_def)

lemma put_pins_nth:
  assumes "distinct (map fst ps)" "(p, v) \<in> set ps" "\<forall>p\<in>fst ` set ps. p < length cs"
  shows "put_pins ps cs ! p = v"
  using assms
proof (induction ps arbitrary: cs)
  case (Cons a ps)
  have step: "put_pins (a # ps) cs = put_pins ps (cs[fst a := snd a])"
    using Cons.prems(3) by (simp add: put_pins_Cons)
  show ?case
  proof (cases "a = (p, v)")
    case True
    then have "p \<notin> fst ` set ps" using Cons.prems(1) by auto
    then show ?thesis using True Cons.prems(3) unfolding step by (simp add: put_pins_other)
  next
    case False
    then show ?thesis using Cons by (simp add: step)
  qed
qed simp

lemma levels_put_pins:
  "levels cs \<Longrightarrow> \<forall>(p, v)\<in>set ps. p < 472 \<and> (v = HIGH \<or> v = LOW) \<Longrightarrow> levels (put_pins ps cs)"
  by (induction ps arbitrary: cs) (auto simp: put_pins_def)

lemma init_pins_ok:
  "\<forall>(p, v)\<in>set init_pins. p < 472 \<and> (v = HIGH \<or> v = LOW)" "distinct (map fst init_pins)"
  by (simp_all add: init_pins_def pin_numbers)


lemma init_pins_in: "levels cs \<Longrightarrow> \<forall>p\<in>fst ` set init_pins. p < length cs"
  using init_pins_ok(1) by (fastforce simp: levels_def)

lemma init_cell_lemma:
  fixes s :: "'a cells_scheme"
  obtains a :: "'a cells_scheme" and r xs where "length r = 472"
    "S2410_InitCell s = a\<lparr>inCellValue := chars_of r @ [NUL],
      outCellValue := put_pins init_pins (chars_of r @ [NUL])\<rparr>"
    "wired a" "port a = port s" "idle m a" "tck (watch m a)" "cells.more a = cells.more s"
    "scans (watch m a) = scans (watch m s) @ xs @
      [Tap_reset, IR_scan [True, True, False, False], DR_scan (replicate 472 True) r]"
proof -
  define init where "init = s\<lparr>dataOutCellIndex := DATA_OUT, dataInCellIndex := DATA_IN,
    addrCellIndex := ADDR, outCellValue := map (\<lambda>i. HIGH) [0..<472] @ [NUL],
    inCellValue := map (\<lambda>i. CHR ''u'') [0..<472] @ [NUL]\<rparr>"
  have init: "watch m init = watch m s" "port init = port s" "cells.more init = cells.more s"
    by (simp_all add: init_def)
  define b where "b = JTAG_ShiftIRState SAMPLE_PRELOAD (JTAG_RunTestldleState init)"
  have SP: "strlen SAMPLE_PRELOAD = 4" "bits_of SAMPLE_PRELOAD = [True, True, False, False]"
    by (simp_all add: SAMPLE_PRELOAD_def bits_of_def strlen_def)
  obtain xs where i: "idle m (JTAG_RunTestldleState init)"
    "scans (watch m (JTAG_RunTestldleState init)) = scans (watch m s) @ xs @ [Tap_reset]"
    using run_test_watch [of m init] init(1) by auto
  have b: "watch m b = (watch m (JTAG_RunTestldleState init))\<lparr>tck := True, bits_in := [True, True, False, False],
    bits_out := [], scans := scans (watch m s) @ xs @ [Tap_reset, IR_scan [True, True, False, False]]\<rparr>"
    unfolding b_def using i ir_scan(1) [OF i(1), of SAMPLE_PRELOAD] by (simp add: SP)
  have "talks init b" unfolding b_def
    using talks_trans [OF talks_reset(2) ir_scan(2) [OF i(1)]] by (simp add: SP)
  note tb = talks_cells [OF this] talks_keeps(1) [OF this]
  have out: "outCellValue b = replicate 472 HIGH @ [NUL]" "length (inCellValue b) = 473"
    "inCellValue b = replicate 472 (CHR ''u'') @ [NUL]"
    by (simp_all add: tb init_def map_replicate_const)
  have "levels (outCellValue b)" by (simp add: out levels_def nth_append)
  then have len: "strlen (outCellValue b) = 472" by simp
  have ones: "bits_of (outCellValue b) = replicate 472 True"
    by (simp only: bits_of_def len) (simp add: out)
  have idle: "idle m b" using i(1) by (simp add: idle_def b)
  obtain rd c where c: "JTAG_ShiftDRState (outCellValue b) (inCellValue b) b = (rd, c)" by fastforce
  have "0 < strlen (outCellValue b)" "strlen (outCellValue b) \<le> length (inCellValue b)"
    using out(2) by (simp_all only: len)
  then obtain r where r: "answered m (scans (watch m b)) b (bits_of (outCellValue b)) r"
    "rd = chars_of r @ drop (strlen (outCellValue b)) (inCellValue b)" "talks b c"
    "watch m c = (watch m b)\<lparr>tck := True, bits_in := bits_of (outCellValue b), bits_out := r,
      scans := scans (watch m b) @ [DR_scan (bits_of (outCellValue b)) r]\<rparr>"
    using dr_scan [OF idle _ _ c] by blast
  have lr: "length r = 472" using r(1) by (simp add: answered_def ones)
  have rd: "rd = chars_of r @ [NUL]" unfolding r(2) len by (simp add: out(3))
  then have copy: "map (\<lambda>i. rd ! i) [0..<472] = chars_of r"
    by (intro nth_equalityI) (simp_all add: lr chars_of_def nth_append)
  note tc = talks_cells [OF r(3)] talks_keeps(1) [OF r(3)]
  show thesis
  proof (rule that [OF lr])
    show "S2410_InitCell s = c\<lparr>inCellValue := chars_of r @ [NUL],
      outCellValue := put_pins init_pins (chars_of r @ [NUL])\<rparr>"
      using c copy by (simp add: S2410_InitCell_def Let_def S2440_MAX_CELL_INDEX_def set_pins
          init_def [symmetric] b_def [symmetric] tc out del: upt_Suc) (simp add: rd)
    show "wired c" using out tb tc by (simp add: wired_def init_def)
    show "port c = port s" by (simp add: tb tc init)
    show "idle m c" using idle by (simp add: idle_def r(4))
    show "tck (watch m c)" by (simp add: r(4))
    show "cells.more c = cells.more s" by (simp add: tb tc init)
    show "scans (watch m c) = scans (watch m s) @ xs @
      [Tap_reset, IR_scan [True, True, False, False], DR_scan (replicate 472 True) r]"
      by (simp add: r(4) b ones)
  qed
qed


text \<open>
  \<open>S2410_InitCell\<close> samples the pins with one SAMPLE/PRELOAD scan that preloads ones and keeps
  the sampled levels as the values to drive, except for the 41 control pins it sets; the arrays
  become proper strings of 472 levels, the tables are filled and the port is in Run-Test/Idle,
  whatever was in the memory and in whatever state the port was.
\<close>

theorem init_cell_samples_pins:
  shows "(\<exists>r xs. length r = 472 \<and>
      scans (watch m (S2410_InitCell s)) = scans (watch m s) @ xs @
        [Tap_reset, IR_scan [True, True, False, False], DR_scan (replicate 472 True) r] \<and>
      inCellValue (S2410_InitCell s) = chars_of r @ [NUL]) \<and>
    (\<forall>(p, v)\<in>set init_pins. outCellValue (S2410_InitCell s) ! p = v) \<and>
    (\<forall>k. k \<notin> fst ` set init_pins \<longrightarrow> outCellValue (S2410_InitCell s) ! k = inCellValue (S2410_InitCell s) ! k) \<and>
    levels (outCellValue (S2410_InitCell s)) \<and> wired (S2410_InitCell s) \<and>
    tap (watch m (S2410_InitCell s)) = Run_Test_Idle"
proof -
  obtain a r xs where a: "length r = 472"
    "S2410_InitCell s = a\<lparr>inCellValue := chars_of r @ [NUL],
      outCellValue := put_pins init_pins (chars_of r @ [NUL])\<rparr>"
    "wired a" "port a = port s" "idle m a" "tck (watch m a)" "cells.more a = cells.more s"
    and ss: "scans (watch m a) = scans (watch m s) @ xs @
      [Tap_reset, IR_scan [True, True, False, False], DR_scan (replicate 472 True) r]"
    by (rule init_cell_lemma [where s = s and m = m])
  have lv: "levels (chars_of r @ [NUL])" using a(1) by (rule levels_chars)
  then have lp: "levels (put_pins init_pins (chars_of r @ [NUL]))"
    by (rule levels_put_pins) (rule init_pins_ok)
  have r1: "\<exists>r xs. length r = 472 \<and>
      scans (watch m (S2410_InitCell s)) = scans (watch m s) @ xs @
        [Tap_reset, IR_scan [True, True, False, False], DR_scan (replicate 472 True) r] \<and>
      inCellValue (S2410_InitCell s) = chars_of r @ [NUL]"
    using a(1) ss by (auto simp: a(2))
  have r2: "\<forall>(p, v)\<in>set init_pins. outCellValue (S2410_InitCell s) ! p = v"
    using put_pins_nth [OF init_pins_ok(2) _ init_pins_in [OF lv]] by (auto simp: a(2))
  have r3: "\<forall>k. k \<notin> fst ` set init_pins \<longrightarrow> outCellValue (S2410_InitCell s) ! k = inCellValue (S2410_InitCell s) ! k"
    using put_pins_other [OF _ init_pins_in [OF lv]] by (simp add: a(2))
  have r4: "levels (outCellValue (S2410_InitCell s)) \<and> wired (S2410_InitCell s)"
    using lp lv a(3) by (simp add: a(2) wired_def levels_def)
  have r5: "tap (watch m (S2410_InitCell s)) = Run_Test_Idle"
    using a(5) by (simp add: a(2) idle_def)
  show ?thesis using r1 r2 r3 r4 r5 by blast
qed

theorem init_cell_samples_pins_witness:
  "outCellValue (S2410_InitCell loop_cells) ! nFCE = HIGH"
  using init_cell_samples_pins [of demo_tap loop_cells] by (auto simp: init_pins_def)

end
