(* ===== verification/Nandbus.thy ===== *)
theory Nandbus
  imports Cells
begin

text \<open>
  The NAND flash bus of the flash programmer: the ``JTAG dependent primitive functions'' of
  \<open>k9s1208.c\<close>, which make bus cycles out of boundary scans.

  What a sequence of scans does on the pins is said by \<open>drive\<close>: under EXTEST a data scan sets the
  pins, and \<open>nand_cycle\<close> reads off two successive settings which cycle of the NAND bus they make
  (a rising \<open>nFWE\<close> latches a command, an address or a data byte, a rising \<open>nFRE\<close> ends a read).
  A cycle in which the latched lines move with the edge, the bus is not driven by the right side
  or both latch enables are up is a \<open>Conflict\<close>. The primitives are shown to make exactly the
  cycle they stand for; the interface \<open>bus_port\<close> states this for the commands built on them.
\<close>

subsection \<open>The primitives\<close>

definition EXTEST :: "char list" where "EXTEST = [LOW, LOW, LOW, LOW, NUL]"

definition set_cells :: "(nat \<times> char) list \<Rightarrow> 'a cells_scheme \<Rightarrow> 'a cells_scheme" where
  "set_cells = fold (\<lambda>(p, v). S2410_SetPin p v)"

definition shift_cells :: "'a cells_scheme \<Rightarrow> 'a cells_scheme" where
  "shift_cells s = JTAG_ShiftDRStateNoTdo (outCellValue s) s"

definition shift_cells_in :: "'a cells_scheme \<Rightarrow> 'a cells_scheme" where
  "shift_cells_in s =
     (case JTAG_ShiftDRState (outCellValue s) (inCellValue s) s of (rd, t) \<Rightarrow> t\<lparr>inCellValue := rd\<rparr>)"

definition K9S1208_JtagInit :: "'a cells_scheme \<Rightarrow> 'a cells_scheme" where
  "K9S1208_JtagInit s =
     set_cells [(CLE_CON, LOW), (ALE_CON, LOW), (nFCE_CON, LOW), (nFRE_CON, LOW), (nFWE_CON, LOW),
                (CLE, LOW), (ALE, LOW)]
       (JTAG_ShiftIRState EXTEST (JTAG_RunTestldleState s))"

definition NF_CMD :: "int \<Rightarrow> 'a cells_scheme \<Rightarrow> 'a cells_scheme" where
  "NF_CMD cmd s =
     (let s = set_cells [(DATA0_7_CON, LOW), (nFCE, LOW), (nFRE, HIGH), (nFWE, LOW), (ALE, LOW), (CLE, HIGH)] s;
          s = shift_cells (S2410_SetDataByte cmd s);
          s = shift_cells (S2410_SetPin nFWE HIGH s)
      in shift_cells (set_cells [(CLE, LOW), (DATA0_7_CON, HIGH)] s))"

definition NF_ADDR :: "int \<Rightarrow> 'a cells_scheme \<Rightarrow> 'a cells_scheme" where
  "NF_ADDR addr s =
     (let s = set_cells [(DATA0_7_CON, LOW), (nFCE, LOW), (nFRE, HIGH), (nFWE, LOW), (ALE, HIGH), (CLE, LOW)] s;
          s = shift_cells (S2410_SetDataByte addr s);
          s = shift_cells (S2410_SetPin nFWE HIGH s)
      in shift_cells (set_cells [(ALE, LOW), (DATA0_7_CON, HIGH)] s))"

definition NF_nFCE_L :: "'a cells_scheme \<Rightarrow> 'a cells_scheme" where
  "NF_nFCE_L s = shift_cells (set_cells [(nFCE_CON, LOW), (nFCE, LOW)] s)"

definition NF_nFCE_H :: "'a cells_scheme \<Rightarrow> 'a cells_scheme" where
  "NF_nFCE_H s = shift_cells (S2410_SetPin nFCE HIGH s)"

definition NF_RDDATA :: "'a cells_scheme \<Rightarrow> int \<times> 'a cells_scheme" where
  "NF_RDDATA s =
     (let s = shift_cells (set_cells [(DATA0_7_CON, HIGH), (nFRE, LOW)] s);
          s = shift_cells_in (S2410_SetPin nFRE HIGH s)
      in (S2410_GetDataByte s, s))"

definition NF_WRDATA :: "int \<Rightarrow> 'a cells_scheme \<Rightarrow> 'a cells_scheme" where
  "NF_WRDATA v s =
     (let s = set_cells [(DATA0_7_CON, LOW), (nFWE, LOW)] s;
          s = shift_cells (S2410_SetDataByte v s)
      in shift_cells (S2410_SetPin nFWE HIGH s))"

text \<open>The loop has no bound: it does not return when the flash stays busy.\<close>

partial_function (option) NF_WAITRB :: "'a cells_scheme \<Rightarrow> 'a cells_scheme option" where
  "NF_WAITRB s =
     (let s = shift_cells_in s in if S2410_GetPin RnB s = HIGH then Some s else NF_WAITRB s)"

subsection \<open>Cycles on the bus\<close>

datatype cycle = Cmd int | Addr int | Din int | Dout int | Poll bool | Conflict

definition byte_at :: "nat list \<Rightarrow> bool list \<Rightarrow> int" where
  "byte_at tab ls = horner_sum of_bool 2 (map (\<lambda>i. ls ! (tab ! i)) [0..<8])"

definition latched :: "bool list \<Rightarrow> bool list \<Rightarrow> cycle" where
  "latched p q =
     (if p ! DATA0_7_CON \<or> q ! DATA0_7_CON \<or> \<not> p ! nFRE \<or> \<not> q ! nFRE \<or> p ! CLE \<and> p ! ALE \<or>
         p ! CLE \<noteq> q ! CLE \<or> p ! ALE \<noteq> q ! ALE \<or> byte_at DATA_OUT p \<noteq> byte_at DATA_OUT q
      then Conflict
      else if p ! CLE then Cmd (byte_at DATA_OUT p)
      else if p ! ALE then Addr (byte_at DATA_OUT p)
      else Din (byte_at DATA_OUT p))"

definition nand_cycle :: "bool list \<Rightarrow> bool list \<Rightarrow> bool list \<Rightarrow> cycle list" where
  "nand_cycle p q r =
     (if \<not> p ! nFCE \<and> \<not> q ! nFCE \<and> \<not> p ! nFWE \<and> q ! nFWE then [latched p q]
      else if \<not> p ! nFCE \<and> \<not> q ! nFCE \<and> \<not> p ! nFRE \<and> q ! nFRE then
        [if r = [] \<or> \<not> p ! DATA0_7_CON \<or> p ! CLE \<or> p ! ALE \<or> \<not> p ! nFWE then Conflict
         else Dout (byte_at DATA_IN r)]
      else if r \<noteq> [] then [Poll (r ! RnB)] else [])"

record nand_board =
  instr :: "bool list"
  lines :: "bool list"
  bus :: "cycle list"

fun drive :: "tap_scan \<Rightarrow> nand_board \<Rightarrow> nand_board" where
  "drive Tap_reset b = b\<lparr>instr := [False, True, True, True]\<rparr>"
| "drive (IR_scan i) b = b\<lparr>instr := i\<rparr>"
| "drive (DR_scan w r) b =
     (if instr b = [False, False, False, False] then b\<lparr>lines := w, bus := bus b @ nand_cycle (lines b) w r\<rparr>
      else if instr b = [True, True, False, False] then b\<lparr>lines := w\<rparr>
      else b)"

definition seen :: "monitor \<Rightarrow> nand_board \<Rightarrow> 'a jtag_scheme \<Rightarrow> nand_board" where
  "seen m b s = fold drive (scans (watch m s)) b"

definition trace :: "monitor \<Rightarrow> nand_board \<Rightarrow> 'a jtag_scheme \<Rightarrow> cycle list" where
  "trace m b s = bus (seen m b s)"


subsection \<open>One scan of all cells\<close>

text \<open>
  \<open>never_stuck\<close>: the flash is not busy for ever. There is a bound on the number of consecutive
  polls that see it busy: after that many, the answer sampled for cell \<open>RnB\<close> is high.
\<close>

definition never_stuck :: "monitor \<Rightarrow> nand_board \<Rightarrow> (port_act list \<Rightarrow> int) \<Rightarrow> bool" where
  "never_stuck m b wires \<longleftrightarrow> (\<exists>N. \<forall>h es.
     tap (fold observe h m) \<in> {Shift_DR, Exit1_DR} \<longrightarrow>
     length (bits_in (fold observe h m)) = Suc RnB \<longrightarrow>
     bus (fold drive (scans (fold observe h m)) b) = es @ replicate N (Poll False) \<longrightarrow>
     wires h AND push_bit 7 1 = 0)"

definition core :: "monitor \<Rightarrow> nand_board \<Rightarrow> 'a cells_scheme \<Rightarrow> bool" where
  "core m b s \<longleftrightarrow> wired s \<and> levels (outCellValue s) \<and> levels (inCellValue s) \<and> idle m s \<and>
     instr (seen m b s) = [False, False, False, False] \<and> never_stuck m b (port s)"

text \<open>What the primitives leave alone: the wires and the rest of the program's state.\<close>

definition frame :: "'a cells_scheme \<Rightarrow> (port_act list \<Rightarrow> int) \<times> 'a" where
  "frame s = (port s, cells.more s)"

lemma seen_cells [simp]:
  "seen m b (s\<lparr>outCellValue := a\<rparr>) = seen m b s" "seen m b (s\<lparr>inCellValue := a\<rparr>) = seen m b s"
  "trace m b (s\<lparr>outCellValue := a\<rparr>) = trace m b s" "trace m b (s\<lparr>inCellValue := a\<rparr>) = trace m b s"
  by (simp_all add: seen_def trace_def)

lemma frame_cells [simp]:
  "frame (s\<lparr>outCellValue := a\<rparr>) = frame s" "frame (s\<lparr>inCellValue := a\<rparr>) = frame s"
  by (simp_all add: frame_def)

lemma set_cells_eq: "set_cells ps s = s\<lparr>outCellValue := put_pins ps (outCellValue s)\<rparr>"
  unfolding set_cells_def by (rule set_pins)

lemma core_out: "core m b s \<Longrightarrow> levels cs \<Longrightarrow> core m b (s\<lparr>outCellValue := cs\<rparr>)"
  by (simp add: core_def wired_def idle_def) (simp add: levels_def)

lemma shift_cells_core:
  assumes "core m b s"
  shows "core m b (shift_cells s)" "outCellValue (shift_cells s) = outCellValue s"
    "lines (seen m b (shift_cells s)) = bits_of (outCellValue s)" "frame (shift_cells s) = frame s"
    "trace m b (shift_cells s) =
      trace m b s @ nand_cycle (lines (seen m b s)) (bits_of (outCellValue s)) []"
proof -
  have c: "levels (outCellValue s)" "idle m s" "instr (seen m b s) = [False, False, False, False]"
    using assms by (simp_all add: core_def)
  have pos: "0 < strlen (outCellValue s)" using c(1) by simp
  note scan = dr_scan_no_tdo [OF c(2) pos, folded shift_cells_def]
  have seen: "seen m b (shift_cells s) = (seen m b s)\<lparr>lines := bits_of (outCellValue s),
      bus := bus (seen m b s) @ nand_cycle (lines (seen m b s)) (bits_of (outCellValue s)) []\<rparr>"
    using c(3) by (simp add: seen_def scan(1))
  note kept = talks_cells [OF scan(2)] talks_keeps(1) [OF scan(2)]
  show "outCellValue (shift_cells s) = outCellValue s" by (rule kept)
  show "frame (shift_cells s) = frame s" by (simp add: frame_def kept)
  show "lines (seen m b (shift_cells s)) = bits_of (outCellValue s)" by (simp add: seen)
  show "trace m b (shift_cells s) =
      trace m b s @ nand_cycle (lines (seen m b s)) (bits_of (outCellValue s)) []"
    by (simp add: trace_def seen)
  have "idle m (shift_cells s)" using c(2) by (simp add: idle_def scan(1))
  then show "core m b (shift_cells s)"
    using assms by (simp add: core_def seen wired_def kept)
qed

lemma shift_cells_in_core:
  assumes "core m b s"
  obtains r where "length r = 472" "inCellValue (shift_cells_in s) = chars_of r @ [NUL]"
    "core m b (shift_cells_in s)" "outCellValue (shift_cells_in s) = outCellValue s"
    "lines (seen m b (shift_cells_in s)) = bits_of (outCellValue s)"
    "frame (shift_cells_in s) = frame s"
    "trace m b (shift_cells_in s) =
      trace m b s @ nand_cycle (lines (seen m b s)) (bits_of (outCellValue s)) r"
    "\<And>k. k < 472 \<Longrightarrow> answer_at m (scans (watch m s)) s (bits_of (outCellValue s)) r k"
proof -
  have c: "levels (outCellValue s)" "levels (inCellValue s)" "idle m s"
    "instr (seen m b s) = [False, False, False, False]"
    using assms by (simp_all add: core_def)
  have pos: "0 < strlen (outCellValue s)" "strlen (outCellValue s) \<le> length (inCellValue s)"
    using c(1,2) by (simp_all add: levels_def [of "inCellValue s"])
  obtain rd t where t: "JTAG_ShiftDRState (outCellValue s) (inCellValue s) s = (rd, t)" by fastforce
  obtain r where r: "answered m (scans (watch m s)) s (bits_of (outCellValue s)) r"
    "rd = chars_of r @ drop (strlen (outCellValue s)) (inCellValue s)" "talks s t"
    "watch m t = (watch m s)\<lparr>tck := True, bits_in := bits_of (outCellValue s), bits_out := r,
      scans := scans (watch m s) @ [DR_scan (bits_of (outCellValue s)) r]\<rparr>"
    using dr_scan [OF c(3) pos t] by blast
  have run: "shift_cells_in s = t\<lparr>inCellValue := rd\<rparr>" by (simp add: shift_cells_in_def t)
  have len: "length r = 472" using r(1) c(1) by (simp add: answered_def)
  have "drop 472 (inCellValue s) = [NUL]"
    using Cons_nth_drop_Suc [of 472 "inCellValue s"] c(2) by (simp add: levels_def)
  then have rd: "rd = chars_of r @ [NUL]" using r(2) c(1) by simp
  have seen: "seen m b t = (seen m b s)\<lparr>lines := bits_of (outCellValue s),
      bus := bus (seen m b s) @ nand_cycle (lines (seen m b s)) (bits_of (outCellValue s)) r\<rparr>"
    using c(4) by (simp add: seen_def r(4))
  note kept = talks_cells [OF r(3)] talks_keeps(1) [OF r(3)]
  have "idle m t" using c(3) by (simp add: idle_def r(4))
  then have core: "core m b (shift_cells_in s)"
    using assms levels_chars [OF len]
    by (simp add: core_def run seen wired_def kept rd idle_def) (simp add: levels_def)
  have "answer_at m (scans (watch m s)) s (bits_of (outCellValue s)) r k" if "k < 472" for k
    using r(1) c(1) that by (simp add: answered_def)
  then show thesis
    using that [OF len] core by (simp add: run rd seen kept frame_def trace_def)
qed

subsection \<open>One bus cycle\<close>

text \<open>
  Between two primitives the strobes are up and the latch enables down, in the cells as on the
  pins; \<open>chip_on\<close> says that the chip is enabled.
\<close>

definition linked :: "monitor \<Rightarrow> nand_board \<Rightarrow> 'a cells_scheme \<Rightarrow> bool" where
  "linked m b s \<longleftrightarrow> core m b s \<and> lines (seen m b s) ! nFWE \<and> lines (seen m b s) ! nFRE \<and>
     outCellValue s ! nFWE = HIGH \<and> outCellValue s ! nFRE = HIGH \<and>
     outCellValue s ! CLE = LOW \<and> outCellValue s ! ALE = LOW"

definition chip_on :: "'a cells_scheme \<Rightarrow> bool" where
  "chip_on s \<longleftrightarrow> outCellValue s ! nFCE = LOW"

lemma byte_at_bits: "levels cs \<Longrightarrow> byte_at DATA_OUT (bits_of cs) = bus_value DATA_OUT 8 cs"
proof -
  assume "levels cs"
  moreover have "DATA_OUT ! i < 472" if "i < 8" for i using that tables_range(1) tables by simp
  ultimately have "map (\<lambda>i. bits_of cs ! (DATA_OUT ! i)) [0..<8] = map (\<lambda>i. cs ! (DATA_OUT ! i) = HIGH) [0..<8]"
    by simp
  then show ?thesis by (simp only: byte_at_def bus_value_def)
qed

lemma byte_at_chars:
  assumes "length r = 472"
  shows "byte_at DATA_IN r = bus_value DATA_IN 8 (chars_of r @ [NUL])"
proof -
  have "DATA_IN ! i < 472" if "i < 8" for i using that tables_range(3) tables by simp
  then have "map (\<lambda>i. r ! (DATA_IN ! i)) [0..<8] = map (\<lambda>i. (chars_of r @ [NUL]) ! (DATA_IN ! i) = HIGH) [0..<8]"
    using assms by (simp add: chars_of_def nth_append)
  then show ?thesis by (simp only: byte_at_def bus_value_def)
qed

lemma data_pins: "DATA0_7_CON \<notin> set DATA_OUT" "nFWE \<notin> set DATA_OUT" "nFRE \<notin> set DATA_OUT"
  "nFCE \<notin> set DATA_OUT" "CLE \<notin> set DATA_OUT" "ALE \<notin> set DATA_OUT"
  by (simp_all add: DATA_OUT_def pin_numbers)

lemma data_in_range: "levels out \<Longrightarrow> \<forall>k\<in>set DATA_OUT. k < length out"
  using tables_range(1) by (fastforce simp: levels_def)

lemma set_data_other [simp]:
  "k \<notin> set DATA_OUT \<Longrightarrow> levels out \<Longrightarrow> set_bits DATA_OUT 8 v out ! k = out ! k"
  by (rule set_bits_other) (auto dest: in_set_takeD simp: tables data_in_range)

lemma bus_value_data:
  assumes "levels out"
  shows "bus_value DATA_OUT 8 (set_bits DATA_OUT 8 v out) = v mod 256"
  using bus_value_set_bits [OF tables(1) _ data_in_range [OF assms], of 8 v] by (simp add: tables)

lemma bus_value_upd: "k \<notin> set DATA_OUT \<Longrightarrow> bus_value DATA_OUT 8 (cs[k := v]) = bus_value DATA_OUT 8 cs"
  by (rule bus_value_cong) (metis nth_list_update_neq nth_mem tables(4) less_trans numeral_less_iff semiring_norm(76,78,81))


definition strobe :: "char list \<Rightarrow> 'a cells_scheme \<Rightarrow> 'a cells_scheme" where
  "strobe cs s = shift_cells ((shift_cells (s\<lparr>outCellValue := cs\<rparr>))\<lparr>outCellValue := cs[nFWE := HIGH]\<rparr>)"

lemma bit_at: "levels cs \<Longrightarrow> k < 472 \<Longrightarrow> bits_of cs ! k = (cs ! k = HIGH)"
  by simp

lemma pin_range: "nFWE < 472" "nFRE < 472" "nFCE < 472" "CLE < 472" "ALE < 472" "DATA0_7_CON < 472"
  "RnB < 472"
  by (simp_all add: pin_numbers)

lemma array_set_pin: "levels cs \<Longrightarrow> k < 472 \<Longrightarrow> array_set cs k v = cs[k := v]"
  by (simp add: levels_def)

lemma pin_neq:
  "nFWE \<noteq> nFRE" "nFWE \<noteq> nFCE" "nFWE \<noteq> CLE" "nFWE \<noteq> ALE" "nFWE \<noteq> DATA0_7_CON"
  by (simp_all add: pin_numbers)

text \<open>Lowering and raising \<open>nFWE\<close> with everything else at rest is one latched cycle.\<close>

lemma strobe_cycle:
  assumes "core m b s" "lines (seen m b s) ! nFWE" "lines (seen m b s) ! nFRE" "levels cs"
    and "cs ! nFCE = LOW" "cs ! nFWE = LOW" "cs ! nFRE = HIGH" "cs ! DATA0_7_CON = LOW"
    and "\<not> (cs ! CLE = HIGH \<and> cs ! ALE = HIGH)"
  shows "core m b (strobe cs s)" "outCellValue (strobe cs s) = cs[nFWE := HIGH]"
    "lines (seen m b (strobe cs s)) = bits_of (cs[nFWE := HIGH])" "frame (strobe cs s) = frame s"
    "trace m b (strobe cs s) = trace m b s @
      [if cs ! CLE = HIGH then Cmd (bus_value DATA_OUT 8 cs)
       else if cs ! ALE = HIGH then Addr (bus_value DATA_OUT 8 cs) else Din (bus_value DATA_OUT 8 cs)]"
proof -
  let ?cs = "cs[nFWE := HIGH]"
  define t where "t = shift_cells (s\<lparr>outCellValue := cs\<rparr>)"
  have lv: "levels ?cs" using assms(4) pin_range by simp
  have "core m b (s\<lparr>outCellValue := cs\<rparr>)" using assms(1,4) by (rule core_out)
  note t = shift_cells_core [OF this, folded t_def, simplified]
  have "core m b (t\<lparr>outCellValue := ?cs\<rparr>)" using t(1) lv by (rule core_out)
  note u = shift_cells_core [OF this, simplified]
  have run: "strobe cs s = shift_cells (t\<lparr>outCellValue := ?cs\<rparr>)"
    by (simp add: strobe_def t_def)
  show "core m b (strobe cs s)" "outCellValue (strobe cs s) = ?cs"
    "lines (seen m b (strobe cs s)) = bits_of ?cs" "frame (strobe cs s) = frame s"
    by (simp_all add: run u t)
  have len: "nFWE < length cs" using assms(4) pin_range by (simp add: levels_def)
  have "nand_cycle (lines (seen m b s)) (bits_of cs) [] = []"
    using assms(2,3) by (simp add: nand_cycle_def)
  moreover have "nand_cycle (bits_of cs) (bits_of ?cs) [] = [latched (bits_of cs) (bits_of ?cs)]"
    using assms(4-6) lv len by (simp add: nand_cycle_def bit_at pin_range pin_neq)
  moreover have "latched (bits_of cs) (bits_of ?cs) =
      (if cs ! CLE = HIGH then Cmd (bus_value DATA_OUT 8 cs)
       else if cs ! ALE = HIGH then Addr (bus_value DATA_OUT 8 cs) else Din (bus_value DATA_OUT 8 cs))"
    using assms(4-9) lv len
    by (simp add: latched_def bit_at pin_range pin_neq byte_at_bits bus_value_upd data_pins)
  ultimately show "trace m b (strobe cs s) = trace m b s @
      [if cs ! CLE = HIGH then Cmd (bus_value DATA_OUT 8 cs)
       else if cs ! ALE = HIGH then Addr (bus_value DATA_OUT 8 cs) else Din (bus_value DATA_OUT 8 cs)]"
    by (simp add: run u t)
qed

text \<open>A scan that leaves the strobes up is no cycle.\<close>

lemma quiet_scan:
  assumes "core m b s" "lines (seen m b s) ! nFWE" "lines (seen m b s) ! nFRE" "levels cs"
    and "cs ! nFWE = HIGH" "cs ! nFRE = HIGH" "cs ! CLE = LOW" "cs ! ALE = LOW"
  shows "linked m b (shift_cells (s\<lparr>outCellValue := cs\<rparr>))"
    "outCellValue (shift_cells (s\<lparr>outCellValue := cs\<rparr>)) = cs"
    "frame (shift_cells (s\<lparr>outCellValue := cs\<rparr>)) = frame s"
    "trace m b (shift_cells (s\<lparr>outCellValue := cs\<rparr>)) = trace m b s"
proof -
  note t = shift_cells_core [OF core_out [OF assms(1,4)], simplified]
  show "outCellValue (shift_cells (s\<lparr>outCellValue := cs\<rparr>)) = cs"
    "frame (shift_cells (s\<lparr>outCellValue := cs\<rparr>)) = frame s" by (rule t)+
  show "trace m b (shift_cells (s\<lparr>outCellValue := cs\<rparr>)) = trace m b s"
    using assms(2,3) by (simp add: t nand_cycle_def)
  show "linked m b (shift_cells (s\<lparr>outCellValue := cs\<rparr>))"
    using assms(4-8) by (simp add: linked_def t bit_at pin_range)
qed

lemma linkedD:
  assumes "linked m b s"
  shows "core m b s" "lines (seen m b s) ! nFWE" "lines (seen m b s) ! nFRE"
    "levels (outCellValue s)" "length (outCellValue s) = 473" "dataOutCellIndex s = DATA_OUT"
    "outCellValue s ! nFWE = HIGH" "outCellValue s ! nFRE = HIGH"
    "outCellValue s ! CLE = LOW" "outCellValue s ! ALE = LOW"
  using assms by (auto simp: linked_def core_def wired_def)

lemma SetDataByte_eq:
  "dataOutCellIndex s = DATA_OUT \<Longrightarrow> S2410_SetDataByte v s = s\<lparr>outCellValue := set_bits DATA_OUT 8 v (outCellValue s)\<rparr>"
  by (simp add: S2410_SetDataByte_def)

lemma strobe_data:
  assumes "linked m b s" "0 \<le> v" "v < 256" "levels ps"
    and "ps ! nFCE = LOW" "ps ! nFWE = LOW" "ps ! nFRE = HIGH" "ps ! DATA0_7_CON = LOW"
    and "\<not> (ps ! CLE = HIGH \<and> ps ! ALE = HIGH)"
  defines "cs \<equiv> set_bits DATA_OUT 8 v ps"
  shows "core m b (strobe cs s)" "outCellValue (strobe cs s) = cs[nFWE := HIGH]"
    "lines (seen m b (strobe cs s)) = bits_of (cs[nFWE := HIGH])" "frame (strobe cs s) = frame s"
    "trace m b (strobe cs s) = trace m b s @
      [if ps ! CLE = HIGH then Cmd v else if ps ! ALE = HIGH then Addr v else Din v]"
    and "levels cs" "length cs = 473" "\<forall>k. k \<notin> set DATA_OUT \<longrightarrow> cs ! k = ps ! k"
    "cs[nFWE := HIGH] ! nFWE = HIGH"
    "shift_cells (S2410_SetPin nFWE HIGH (shift_cells (S2410_SetDataByte v (s\<lparr>outCellValue := ps\<rparr>)))) = strobe cs s"
proof -
  note s = linkedD [OF assms(1)]
  show cs: "levels cs" unfolding cs_def using assms(4) tables_range(1)
    by (intro levels_set_bits) (auto simp: tables)
  then show len: "length cs = 473" by (simp add: levels_def)
  show keep: "\<forall>k. k \<notin> set DATA_OUT \<longrightarrow> cs ! k = ps ! k" using assms(4) by (simp add: cs_def)
  have val: "bus_value DATA_OUT 8 cs = v" using assms(2-4) by (simp add: cs_def bus_value_data)
  have pins: "cs ! nFCE = LOW" "cs ! nFWE = LOW" "cs ! nFRE = HIGH" "cs ! DATA0_7_CON = LOW"
    "cs ! CLE = ps ! CLE" "cs ! ALE = ps ! ALE"
    using keep assms(5-8) by (simp_all add: data_pins)
  then have "\<not> (cs ! CLE = HIGH \<and> cs ! ALE = HIGH)" using assms(9) by simp
  note cyc = strobe_cycle [OF s(1-3) cs pins(1-4) this]
  show "core m b (strobe cs s)" "outCellValue (strobe cs s) = cs[nFWE := HIGH]"
    "lines (seen m b (strobe cs s)) = bits_of (cs[nFWE := HIGH])" "frame (strobe cs s) = frame s"
    by (rule cyc)+
  show "trace m b (strobe cs s) = trace m b s @
      [if ps ! CLE = HIGH then Cmd v else if ps ! ALE = HIGH then Addr v else Din v]"
    by (simp add: cyc val pins)
  show "cs[nFWE := HIGH] ! nFWE = HIGH" using len by (simp add: pin_numbers)
  show "shift_cells (S2410_SetPin nFWE HIGH (shift_cells (S2410_SetDataByte v (s\<lparr>outCellValue := ps\<rparr>)))) = strobe cs s"
    by (simp add: SetDataByte_eq s(6) S2410_SetPin_def strobe_def cs_def [symmetric] array_set_pin cs pin_range
        shift_cells_core(2) [OF core_out [OF s(1) cs]])
qed

text \<open>\<open>NF_CMD\<close> and \<open>NF_ADDR\<close> differ in the latch enable \<open>k\<close> they raise.\<close>

lemma latch_cycle:
  assumes "linked m b s" "0 \<le> v" "v < 256" "levels ps"
    and "ps ! nFCE = LOW" "ps ! nFWE = LOW" "ps ! nFRE = HIGH" "ps ! DATA0_7_CON = LOW"
    and "k = CLE \<and> ps ! CLE = HIGH \<and> ps ! ALE = LOW \<or> k = ALE \<and> ps ! ALE = HIGH \<and> ps ! CLE = LOW"
  defines "t \<equiv> shift_cells (set_cells [(k, LOW), (DATA0_7_CON, HIGH)]
    (shift_cells (S2410_SetPin nFWE HIGH (shift_cells (S2410_SetDataByte v (s\<lparr>outCellValue := ps\<rparr>))))))"
  shows "linked m b t" "chip_on t" "frame t = frame s"
    "trace m b t = trace m b s @ [if k = CLE then Cmd v else Addr v]"
proof -
  define cs where "cs = set_bits DATA_OUT 8 v ps"
  have "\<not> (ps ! CLE = HIGH \<and> ps ! ALE = HIGH)" using assms(9) by auto
  note u = strobe_data [OF assms(1-8) this, folded cs_def]
  define ds where "ds = put_pins [(k, LOW), (DATA0_7_CON, HIGH)] (cs[nFWE := HIGH])"
  have k: "k = CLE \<or> k = ALE" using assms(9) by auto
  have pins: "cs ! nFRE = HIGH" "cs ! nFCE = LOW" "cs ! CLE = LOW \<or> k = CLE" "cs ! ALE = LOW \<or> k = ALE"
    using u(8) assms(5-9) by (auto simp: data_pins)
  have ds: "levels ds" "ds ! nFWE = HIGH" "ds ! nFRE = HIGH" "ds ! CLE = LOW" "ds ! ALE = LOW" "ds ! nFCE = LOW"
    using u(6,7) pins k by (auto simp: ds_def put_pins_def pin_numbers)
  have up: "lines (seen m b (strobe cs s)) ! nFWE" "lines (seen m b (strobe cs s)) ! nFRE"
    using u(6,9) pins by (simp_all add: u(3) bit_at pin_range pin_neq)
  have run: "t = shift_cells ((strobe cs s)\<lparr>outCellValue := ds\<rparr>)"
    by (simp add: t_def u(10) set_cells_eq u(2) ds_def)
  note q = quiet_scan [OF u(1) up ds(1-5), folded run]
  show "linked m b t" "frame t = frame s" using q u by simp_all
  show "trace m b t = trace m b s @ [if k = CLE then Cmd v else Addr v]"
    using assms(9) by (auto simp: q u(5) pin_numbers)
  show "chip_on t" using q(2) ds(6) by (simp add: chip_on_def)
qed

text \<open>What the primitives set before the data byte.\<close>

lemma primitive_pins:
  assumes "linked m b s"
  defines "c \<equiv> put_pins [(DATA0_7_CON, LOW), (nFCE, LOW), (nFRE, HIGH), (nFWE, LOW), (ALE, LOW), (CLE, HIGH)] (outCellValue s)"
    and "a \<equiv> put_pins [(DATA0_7_CON, LOW), (nFCE, LOW), (nFRE, HIGH), (nFWE, LOW), (ALE, HIGH), (CLE, LOW)] (outCellValue s)"
    and "d \<equiv> put_pins [(DATA0_7_CON, LOW), (nFWE, LOW)] (outCellValue s)"
  shows "levels c \<and> c ! nFCE = LOW \<and> c ! nFWE = LOW \<and> c ! nFRE = HIGH \<and> c ! DATA0_7_CON = LOW \<and> c ! CLE = HIGH \<and> c ! ALE = LOW"
    and "levels a \<and> a ! nFCE = LOW \<and> a ! nFWE = LOW \<and> a ! nFRE = HIGH \<and> a ! DATA0_7_CON = LOW \<and> a ! ALE = HIGH \<and> a ! CLE = LOW"
    and "levels d \<and> d ! nFCE = outCellValue s ! nFCE \<and> d ! nFWE = LOW \<and> d ! nFRE = HIGH \<and> d ! DATA0_7_CON = LOW \<and> d ! CLE = LOW \<and> d ! ALE = LOW"
  using linkedD [OF assms(1)]
  by (simp_all add: c_def a_def d_def put_pins_def pin_numbers)

lemma nf_cmd:
  assumes "linked m b s" "0 \<le> c" "c < 256"
  shows "linked m b (NF_CMD c s) \<and> chip_on (NF_CMD c s) \<and> frame (NF_CMD c s) = frame s \<and>
    trace m b (NF_CMD c s) = trace m b s @ [Cmd c]"
  using latch_cycle [OF assms, of "put_pins [(DATA0_7_CON, LOW), (nFCE, LOW), (nFRE, HIGH), (nFWE, LOW), (ALE, LOW), (CLE, HIGH)] (outCellValue s)" CLE]
    primitive_pins(1) [OF assms(1)]
  by (simp add: NF_CMD_def Let_def set_cells_eq)

lemma nf_addr:
  assumes "linked m b s" "0 \<le> c" "c < 256"
  shows "linked m b (NF_ADDR c s) \<and> chip_on (NF_ADDR c s) \<and> frame (NF_ADDR c s) = frame s \<and>
    trace m b (NF_ADDR c s) = trace m b s @ [Addr c]"
proof -
  have "ALE \<noteq> CLE" by (simp add: pin_numbers)
  then show ?thesis
    using latch_cycle [OF assms, of "put_pins [(DATA0_7_CON, LOW), (nFCE, LOW), (nFRE, HIGH), (nFWE, LOW), (ALE, HIGH), (CLE, LOW)] (outCellValue s)" ALE]
      primitive_pins(2) [OF assms(1)]
    by (simp add: NF_ADDR_def Let_def set_cells_eq)
qed

lemma nf_wrdata:
  assumes "linked m b s" "chip_on s" "0 \<le> c" "c < 256"
  shows "linked m b (NF_WRDATA c s) \<and> chip_on (NF_WRDATA c s) \<and> frame (NF_WRDATA c s) = frame s \<and>
    trace m b (NF_WRDATA c s) = trace m b s @ [Din c]"
proof -
  define ps where "ps = put_pins [(DATA0_7_CON, LOW), (nFWE, LOW)] (outCellValue s)"
  have ps: "levels ps" "ps ! nFCE = LOW" "ps ! nFWE = LOW" "ps ! nFRE = HIGH" "ps ! DATA0_7_CON = LOW"
    "ps ! CLE = LOW" "ps ! ALE = LOW"
    using primitive_pins(3) [OF assms(1)] assms(2) by (simp_all add: ps_def chip_on_def)
  then have "\<not> (ps ! CLE = HIGH \<and> ps ! ALE = HIGH)" by simp
  note u = strobe_data [OF assms(1,3,4) ps(1-5) this]
  have run: "NF_WRDATA c s = strobe (set_bits DATA_OUT 8 c ps) s"
    using u(10) by (simp add: NF_WRDATA_def Let_def set_cells_eq ps_def)
  let ?cs = "set_bits DATA_OUT 8 c ps"
  have "?cs ! nFRE = HIGH" "?cs ! CLE = LOW" "?cs ! ALE = LOW" "?cs ! nFCE = LOW"
    using ps by (simp_all add: data_pins)
  then show ?thesis
    using u(1-6,9) ps(6,7) unfolding run
    by (simp add: linked_def chip_on_def bit_at pin_range pin_neq)
qed


lemma nf_enable:
  assumes "linked m b s"
  shows "linked m b (NF_nFCE_L s) \<and> chip_on (NF_nFCE_L s) \<and> frame (NF_nFCE_L s) = frame s \<and>
      trace m b (NF_nFCE_L s) = trace m b s"
    and "linked m b (NF_nFCE_H s) \<and> frame (NF_nFCE_H s) = frame s \<and> trace m b (NF_nFCE_H s) = trace m b s"
proof -
  note s = linkedD [OF assms]
  define ps where "ps = put_pins [(nFCE_CON, LOW), (nFCE, LOW)] (outCellValue s)"
  have ps: "levels ps" "ps ! nFWE = HIGH" "ps ! nFRE = HIGH" "ps ! CLE = LOW" "ps ! ALE = LOW" "ps ! nFCE = LOW"
    using s(4,5,7-10) by (simp_all add: ps_def put_pins_def pin_numbers)
  show "linked m b (NF_nFCE_L s) \<and> chip_on (NF_nFCE_L s) \<and> frame (NF_nFCE_L s) = frame s \<and>
      trace m b (NF_nFCE_L s) = trace m b s"
    using quiet_scan [OF s(1-3) ps(1-5)] ps(6)
    by (simp add: NF_nFCE_L_def set_cells_eq ps_def [symmetric] chip_on_def)
  define qs where "qs = (outCellValue s)[nFCE := HIGH]"
  have qs: "levels qs" "qs ! nFWE = HIGH" "qs ! nFRE = HIGH" "qs ! CLE = LOW" "qs ! ALE = LOW"
    using s(4,5,7-10) by (simp_all add: qs_def pin_numbers)
  show "linked m b (NF_nFCE_H s) \<and> frame (NF_nFCE_H s) = frame s \<and> trace m b (NF_nFCE_H s) = trace m b s"
    using quiet_scan [OF s(1-3) qs] by (simp add: NF_nFCE_H_def S2410_SetPin_def qs_def array_set_pin s(4) pin_range)
qed

lemma get_byte:
  assumes "wired s" "inCellValue s = chars_of r @ [NUL]" "length r = 472"
  shows "S2410_GetDataByte s = byte_at DATA_IN r"
  using assms(1) byte_at_chars [OF assms(3)]
  by (simp add: S2410_GetDataByte_def or_bits_bus wired_def assms(2))

lemma byte_at_range: "0 \<le> byte_at tab ls" "byte_at tab ls < 256"
proof -
  have "byte_at tab ls = take_bit 8 (byte_at tab ls)"
    unfolding byte_at_def by (rule bit_eqI) (simp add: bit_simps bit_horner_sum_bit_iff)
  then have "byte_at tab ls = byte_at tab ls mod 256" by (simp add: take_bit_eq_mod)
  then show "0 \<le> byte_at tab ls" "byte_at tab ls < 256"
    using pos_mod_sign [of 256 "byte_at tab ls"] pos_mod_bound [of 256 "byte_at tab ls"] by linarith+
qed

text \<open>
  Reading a byte. Its low bit is what the wires answered when the bits up to that of data line 0
  had been shifted in, after the cycles on the trace.
\<close>

lemma odd_byte: "odd (byte_at tab ls) \<longleftrightarrow> ls ! (tab ! 0)"
  by (simp add: byte_at_def upt_conv_Cons)

lemma nf_read:
  assumes "linked m b s" "chip_on s"
  obtains v t h where "NF_RDDATA s = (v, t)" "linked m b t" "chip_on t" "frame t = frame s"
    "trace m b t = trace m b s @ [Dout v]" "0 \<le> v" "v < 256"
    "odd v \<longleftrightarrow> port s h AND push_bit 7 1 = 0" "tap (fold observe h m) \<in> {Shift_DR, Exit1_DR}"
    "length (bits_in (fold observe h m)) = Suc (DATA_IN ! 0)"
    "bus (fold drive (scans (fold observe h m)) b) = trace m b s"
proof -
  note s = linkedD [OF assms(1)]
  define ps where "ps = put_pins [(DATA0_7_CON, HIGH), (nFRE, LOW)] (outCellValue s)"
  define qs where "qs = ps[nFRE := HIGH]"
  have ps: "levels ps" "ps ! nFWE = HIGH" "ps ! nFRE = LOW" "ps ! CLE = LOW" "ps ! ALE = LOW" "ps ! nFCE = LOW"
    "ps ! DATA0_7_CON = HIGH"
    using s(4,5,7-10) assms(2) by (simp_all add: ps_def put_pins_def pin_numbers chip_on_def)
  have len: "length ps = 473" using ps(1) by (simp add: levels_def)
  have qs: "levels qs" "qs ! nFWE = HIGH" "qs ! nFRE = HIGH" "qs ! CLE = LOW" "qs ! ALE = LOW" "qs ! nFCE = LOW"
    using ps len by (simp_all add: qs_def pin_numbers)
  define t where "t = (shift_cells (s\<lparr>outCellValue := ps\<rparr>))\<lparr>outCellValue := qs\<rparr>"
  note u = shift_cells_core [OF core_out [OF s(1) ps(1)]]
  have t: "core m b t" "outCellValue t = qs" "lines (seen m b t) = bits_of ps" "frame t = frame s"
    using core_out [OF u(1) qs(1)] u by (simp_all add: t_def)
  have "nand_cycle (lines (seen m b s)) (bits_of ps) [] = []"
    using s(2,3) by (simp add: nand_cycle_def)
  then have tr: "trace m b t = trace m b s" using u(5) by (simp add: t_def)
  obtain r where r: "length r = 472" "inCellValue (shift_cells_in t) = chars_of r @ [NUL]"
    "core m b (shift_cells_in t)" "outCellValue (shift_cells_in t) = outCellValue t"
    "lines (seen m b (shift_cells_in t)) = bits_of (outCellValue t)"
    "frame (shift_cells_in t) = frame t"
    "trace m b (shift_cells_in t) = trace m b t @ nand_cycle (lines (seen m b t)) (bits_of (outCellValue t)) r"
    "answer_at m (scans (watch m t)) t (bits_of (outCellValue t)) r (DATA_IN ! 0)"
    by (rule shift_cells_in_core [OF t(1)]) (auto simp: DATA_IN_def)
  have "r \<noteq> []" using r(1) by auto
  then have cyc: "nand_cycle (bits_of ps) (bits_of qs) r = [Dout (byte_at DATA_IN r)]"
    using ps qs by (simp add: nand_cycle_def bit_at pin_range)
  have "wired (shift_cells_in t)" using r(3) by (simp add: core_def)
  then have val: "S2410_GetDataByte (shift_cells_in t) = byte_at DATA_IN r"
    using r(2) r(1) by (rule get_byte)
  have run: "NF_RDDATA s = (byte_at DATA_IN r, shift_cells_in t)"
    by (simp add: NF_RDDATA_def Let_def set_cells_eq ps_def [symmetric] S2410_SetPin_def val array_set_pin ps(1) pin_range
        u(2)[simplified] qs_def [symmetric] t_def [symmetric])
  have "linked m b (shift_cells_in t)"
    using r(3) qs by (simp add: linked_def r(4,5) t(2) bit_at pin_range)
  moreover have "chip_on (shift_cells_in t)" using qs(6) by (simp add: chip_on_def r(4) t(2))
  moreover obtain h where h: "r ! (DATA_IN ! 0) = (port t h AND push_bit 7 1 = 0)"
    "tap (fold observe h m) \<in> {Shift_DR, Exit1_DR}"
    "bits_in (fold observe h m) = take (Suc (DATA_IN ! 0)) (bits_of (outCellValue t))"
    "scans (fold observe h m) = scans (watch m t)"
    using r(8) unfolding answer_at_def by blast
  have "port t = port s" using t(4) by (simp add: frame_def)
  moreover have "bus (fold drive (scans (fold observe h m)) b) = trace m b s"
    using tr by (simp add: h(4) trace_def seen_def)
  moreover have "length (bits_in (fold observe h m)) = Suc (DATA_IN ! 0)"
    using qs(1) by (simp add: h(3) t(2) DATA_IN_def)
  ultimately show thesis
    using that [OF run, of h] h(1,2) by (simp add: r(6,7) t tr cyc byte_at_range odd_byte)
qed

lemma nf_rddata:
  assumes "linked m b s" "chip_on s"
  shows "case NF_RDDATA s of (v, t) \<Rightarrow> linked m b t \<and> chip_on t \<and> frame t = frame s \<and>
    trace m b t = trace m b s @ [Dout v] \<and> 0 \<le> v \<and> v < 256"
  by (rule nf_read [OF assms]) simp

lemma nf_poll:
  assumes "linked m b s"
  obtains r where "length r = 472" "linked m b (shift_cells_in s)"
    "outCellValue (shift_cells_in s) = outCellValue s" "frame (shift_cells_in s) = frame s"
    "trace m b (shift_cells_in s) = trace m b s @ [Poll (r ! RnB)]"
    "S2410_GetPin RnB (shift_cells_in s) = HIGH \<longleftrightarrow> r ! RnB"
    "answer_at m (scans (watch m s)) s (bits_of (outCellValue s)) r RnB"
proof -
  note s = linkedD [OF assms]
  obtain r where r: "length r = 472" "inCellValue (shift_cells_in s) = chars_of r @ [NUL]"
    "core m b (shift_cells_in s)" "outCellValue (shift_cells_in s) = outCellValue s"
    "lines (seen m b (shift_cells_in s)) = bits_of (outCellValue s)"
    "frame (shift_cells_in s) = frame s"
    "trace m b (shift_cells_in s) =
      trace m b s @ nand_cycle (lines (seen m b s)) (bits_of (outCellValue s)) r"
    "answer_at m (scans (watch m s)) s (bits_of (outCellValue s)) r RnB"
    by (rule shift_cells_in_core [OF s(1)]) (auto simp: pin_range)
  have "r \<noteq> []" using r(1) by auto
  then have "nand_cycle (lines (seen m b s)) (bits_of (outCellValue s)) r = [Poll (r ! RnB)]"
    using s(2,3) by (simp add: nand_cycle_def)
  moreover have "linked m b (shift_cells_in s)"
    using s r(3) by (simp add: linked_def r(4,5) bit_at pin_range)
  moreover have "S2410_GetPin RnB (shift_cells_in s) = HIGH \<longleftrightarrow> r ! RnB"
    using r(1) by (simp add: S2410_GetPin_def r(2) chars_of_def nth_append pin_range)
  ultimately show thesis using that r by metis
qed

text \<open>What waiting looks like on the bus.\<close>

definition waited :: "nat \<Rightarrow> cycle list" where
  "waited n = replicate n (Poll False) @ [Poll True]"

lemma nf_waitrb:
  assumes "linked m b s"
  shows "\<exists>n t. NF_WAITRB s = Some t \<and> linked m b t \<and> (chip_on s \<longrightarrow> chip_on t) \<and> frame t = frame s \<and>
    trace m b t = trace m b s @ waited n"
proof -
  obtain N where N: "\<And>h es. tap (fold observe h m) \<in> {Shift_DR, Exit1_DR} \<Longrightarrow>
     length (bits_in (fold observe h m)) = Suc RnB \<Longrightarrow>
     bus (fold drive (scans (fold observe h m)) b) = es @ replicate N (Poll False) \<Longrightarrow>
     port s h AND push_bit 7 1 = 0"
    using linkedD(1) [OF assms] unfolding core_def never_stuck_def by blast
  have "\<exists>n u. NF_WAITRB t = Some u \<and> linked m b u \<and> outCellValue u = outCellValue t \<and> frame u = frame t \<and>
    trace m b u = trace m b t @ waited n"
    if "linked m b t" "port t = port s" "trace m b t = es @ replicate k (Poll False)" "k + j = N" for t es k j
    using that
  proof (induction j arbitrary: t k)
    case (0 t k)
    obtain r where r: "linked m b (shift_cells_in t)" "outCellValue (shift_cells_in t) = outCellValue t"
      "frame (shift_cells_in t) = frame t" "trace m b (shift_cells_in t) = trace m b t @ [Poll (r ! RnB)]"
      "S2410_GetPin RnB (shift_cells_in t) = HIGH \<longleftrightarrow> r ! RnB"
      "answer_at m (scans (watch m t)) t (bits_of (outCellValue t)) r RnB"
      using nf_poll [OF 0(1)] by metis
    obtain h where h: "r ! RnB = (port t h AND push_bit 7 1 = 0)"
      "tap (fold observe h m) \<in> {Shift_DR, Exit1_DR}"
      "bits_in (fold observe h m) = take (Suc RnB) (bits_of (outCellValue t))"
      "scans (fold observe h m) = scans (watch m t)"
      using r(6) unfolding answer_at_def by blast
    have "length (bits_in (fold observe h m)) = Suc RnB"
      using linkedD(4) [OF 0(1)] pin_range(7) by (simp add: h(3))
    then have "r ! RnB"
      using N [OF h(2), of es] 0(2-4) h(1,4) by (simp add: trace_def seen_def)
    then show ?case
      using r by (subst NF_WAITRB.simps) (auto simp: Let_def waited_def intro!: exI [of _ 0])
  next
    case (Suc j t k)
    obtain r where r: "linked m b (shift_cells_in t)" "outCellValue (shift_cells_in t) = outCellValue t"
      "frame (shift_cells_in t) = frame t" "trace m b (shift_cells_in t) = trace m b t @ [Poll (r ! RnB)]"
      "S2410_GetPin RnB (shift_cells_in t) = HIGH \<longleftrightarrow> r ! RnB"
      using nf_poll [OF Suc.prems(1)] by metis
    show ?case
    proof (cases "r ! RnB")
      case True
      then show ?thesis
        using r by (subst NF_WAITRB.simps) (auto simp: Let_def waited_def intro!: exI [of _ 0])
    next
      case False
      have "port (shift_cells_in t) = port s" using r(3) Suc.prems(2) by (simp add: frame_def)
      moreover have "trace m b (shift_cells_in t) = es @ replicate (Suc k) (Poll False)"
        using r(4) False Suc.prems(3) by (simp add: replicate_append_same)
      moreover have "Suc k + j = N" using Suc.prems(4) by simp
      ultimately obtain n u where u: "NF_WAITRB (shift_cells_in t) = Some u" "linked m b u"
        "outCellValue u = outCellValue (shift_cells_in t)" "frame u = frame (shift_cells_in t)"
        "trace m b u = trace m b (shift_cells_in t) @ waited n"
        using Suc.IH [OF r(1)] by blast
      moreover have "trace m b u = trace m b t @ waited (Suc n)"
        using u(5) r(4) False by (simp add: waited_def)
      ultimately have "NF_WAITRB (shift_cells_in t) = Some u \<and> linked m b u \<and>
        outCellValue u = outCellValue t \<and> frame u = frame t \<and> trace m b u = trace m b t @ waited (Suc n)"
        using r(2,3) by simp
      moreover have "NF_WAITRB t = NF_WAITRB (shift_cells_in t)"
        using r(5) False by (subst NF_WAITRB.simps) (simp add: Let_def)
      ultimately show ?thesis by auto
    qed
  qed
  from this [OF assms refl, of "trace m b s" 0 N] show ?thesis by (auto simp: chip_on_def)
qed


subsection \<open>Linking up\<close>

lemma extest: "strlen EXTEST = 4" "bits_of EXTEST = [False, False, False, False]"
  by (simp_all add: EXTEST_def bits_of_def strlen_def)

lemma run_test_idle_scans:
  assumes "idle m s"
  shows "scans (watch m (JTAG_RunTestldleState s)) = scans (watch m s) @ replicate 4 Tap_reset"
  using assms by (simp add: JTAG_RunTestldleState_def JTAG_Reset_def idle_def rise_simps numeral_eq_Suc)

lemma jtag_init_frame:
  assumes "idle m s"
  shows "frame (K9S1208_JtagInit s) = frame s" "idle m (K9S1208_JtagInit s)"
    "scans (watch m (K9S1208_JtagInit s)) =
      scans (watch m s) @ replicate 4 Tap_reset @ [IR_scan [False, False, False, False]]"
    "outCellValue (K9S1208_JtagInit s) =
      put_pins [(CLE_CON, LOW), (ALE_CON, LOW), (nFCE_CON, LOW), (nFRE_CON, LOW), (nFWE_CON, LOW),
        (CLE, LOW), (ALE, LOW)] (outCellValue s)"
    "inCellValue (K9S1208_JtagInit s) = inCellValue s" "wired s \<Longrightarrow> wired (K9S1208_JtagInit s)"
proof -
  let ?r = "JTAG_RunTestldleState s"
  let ?t = "JTAG_ShiftIRState EXTEST ?r"
  have idle: "idle m ?r" using run_test_watch [of m s] by blast
  have pos: "0 < strlen EXTEST" by (simp add: extest)
  note scan = ir_scan [OF idle pos]
  have talks: "talks s ?t" using talks_reset(2) scan(2) by (rule talks_trans)
  note kept = talks_cells [OF talks] talks_keeps(1) [OF talks]
  show "frame (K9S1208_JtagInit s) = frame s"
    by (simp add: K9S1208_JtagInit_def set_cells_eq frame_def kept)
  show "idle m (K9S1208_JtagInit s)"
    using idle by (simp add: K9S1208_JtagInit_def set_cells_eq idle_def scan(1))
  show "scans (watch m (K9S1208_JtagInit s)) =
      scans (watch m s) @ replicate 4 Tap_reset @ [IR_scan [False, False, False, False]]"
    by (simp add: K9S1208_JtagInit_def set_cells_eq scan(1) extest run_test_idle_scans [OF assms])
  show "outCellValue (K9S1208_JtagInit s) =
      put_pins [(CLE_CON, LOW), (ALE_CON, LOW), (nFCE_CON, LOW), (nFRE_CON, LOW), (nFWE_CON, LOW),
        (CLE, LOW), (ALE, LOW)] (outCellValue s)"
    by (simp add: K9S1208_JtagInit_def set_cells_eq kept)
  show "inCellValue (K9S1208_JtagInit s) = inCellValue s"
    by (simp add: K9S1208_JtagInit_def set_cells_eq kept)
  show "wired s \<Longrightarrow> wired (K9S1208_JtagInit s)"
    by (simp add: K9S1208_JtagInit_def set_cells_eq kept wired_def put_pins_def pin_numbers)
qed

lemma init_linked_lemma:
  assumes "never_stuck m b (port s)"
  shows "linked m b (K9S1208_JtagInit (S2410_InitCell s))"
    "frame (K9S1208_JtagInit (S2410_InitCell s)) = frame s"
proof -
  obtain a r xs where a: "length r = 472"
    "S2410_InitCell s = a\<lparr>inCellValue := chars_of r @ [NUL],
      outCellValue := put_pins init_pins (chars_of r @ [NUL])\<rparr>"
    "wired a" "port a = port s" "idle m a" "tck (watch m a)" "cells.more a = cells.more s"
    "scans (watch m a) = scans (watch m s) @ xs @
      [Tap_reset, IR_scan [True, True, False, False], DR_scan (replicate 472 True) r]"
    by (rule init_cell_lemma [where s = s and m = m])
  let ?i = "S2410_InitCell s" and ?cs = "put_pins init_pins (chars_of r @ [NUL])"
  have idle: "idle m ?i" using a(5) by (simp add: a(2) idle_def)
  note j = jtag_init_frame [OF idle]
  have lv: "levels (chars_of r @ [NUL])" using a(1) by (rule levels_chars)
  then have lp: "levels ?cs" by (rule levels_put_pins) (rule init_pins_ok)
  have wired: "wired ?i" using lp lv a(3) by (simp add: a(2) wired_def levels_def)
  have len: "length (chars_of r @ [NUL]) = 473" using lv by (simp add: levels_def)
  have pins: "?cs ! nFWE = HIGH" "?cs ! nFRE = HIGH"
    using put_pins_nth [OF init_pins_ok(2) _ init_pins_in [OF lv]] by (simp_all add: init_pins_def)
  have out: "outCellValue ?i = ?cs" by (simp add: a(2))
  have "length ?cs = 473" using lp by (simp add: levels_def)
  then have strobes: "levels (outCellValue (K9S1208_JtagInit ?i)) \<and>
      outCellValue (K9S1208_JtagInit ?i) ! nFWE = HIGH \<and> outCellValue (K9S1208_JtagInit ?i) ! nFRE = HIGH \<and>
      outCellValue (K9S1208_JtagInit ?i) ! CLE = LOW \<and> outCellValue (K9S1208_JtagInit ?i) ! ALE = LOW"
    using lp pins by (simp add: j(4) out) (simp add: put_pins_def pin_numbers)
  have scans: "scans (watch m (K9S1208_JtagInit ?i)) = scans (watch m s) @ xs @
      [Tap_reset, IR_scan [True, True, False, False], DR_scan (replicate 472 True) r] @
      replicate 4 Tap_reset @ [IR_scan [False, False, False, False]]"
    by (simp add: j(3)) (simp add: a(2,8))
  have "lines (fold drive (replicate n Tap_reset) c) = lines c" for n c
    by (induction n arbitrary: c) auto
  then have "lines (seen m b (K9S1208_JtagInit ?i)) = replicate 472 True"
    "instr (seen m b (K9S1208_JtagInit ?i)) = [False, False, False, False]"
    unfolding seen_def scans by simp_all
  moreover have "frame ?i = frame s" by (simp add: a(2,4,7) frame_def)
  then show "frame (K9S1208_JtagInit ?i) = frame s" by (simp add: j(1))
  then have "port (K9S1208_JtagInit ?i) = port s" by (simp add: frame_def)
  moreover have "levels (inCellValue (K9S1208_JtagInit ?i))" using lv unfolding j(5) by (simp add: a(2))
  ultimately show "linked m b (K9S1208_JtagInit ?i)"
    using strobes j(2) j(6) [OF wired] assms pin_range by (simp add: linked_def core_def)
qed


subsection \<open>The cell arrays stay well-formed\<close>

text \<open>
  The tables are those of the processor, and both arrays are strings of 472 levels with their
  terminator, so that every scan has 472 bits and every cell index is inside the arrays.
\<close>

definition cells_wf :: "'a cells_scheme \<Rightarrow> bool" where
  "cells_wf s \<longleftrightarrow> wired s \<and> levels (outCellValue s) \<and> levels (inCellValue s)"

text \<open>
  What a state lets the driver read: a scan takes the output cells up to the terminator and stores as
  many input cells, \<open>NF_WAITRB\<close> reads the pin RnB, \<open>NF_RDDATA\<close> the cells of the low byte.
\<close>

definition reads_inside :: "'a cells_scheme \<Rightarrow> bool" where
  "reads_inside s \<longleftrightarrow> strlen (outCellValue s) < length (outCellValue s) \<and>
     strlen (outCellValue s) < length (inCellValue s) \<and> RnB < length (inCellValue s) \<and>
     8 \<le> length (dataInCellIndex s) \<and> (\<forall>i<8. dataInCellIndex s ! i < length (inCellValue s))"

lemma wf_reads_inside: "cells_wf s \<Longrightarrow> reads_inside s"
  using tables_range(3) pin_range(7)
  by (auto simp: reads_inside_def cells_wf_def wired_def tables intro: less_trans)

lemma wf_talks: "talks s t \<Longrightarrow> cells_wf s \<Longrightarrow> cells_wf t"
  by (simp add: cells_wf_def wired_def talks_cells)

lemma wf_out: "cells_wf s \<Longrightarrow> levels cs \<Longrightarrow> cells_wf (s\<lparr>outCellValue := cs\<rparr>)"
  by (simp add: cells_wf_def wired_def) (simp add: levels_def)

lemma wf_set_cells [intro]:
  "cells_wf s \<Longrightarrow> \<forall>(p, v)\<in>set ps. p < 472 \<and> (v = HIGH \<or> v = LOW) \<Longrightarrow> cells_wf (set_cells ps s)"
  unfolding set_cells_eq by (rule wf_out) (auto simp: cells_wf_def intro: levels_put_pins)

lemma wf_set_pin [intro]: "cells_wf s \<Longrightarrow> p < 472 \<Longrightarrow> v = HIGH \<or> v = LOW \<Longrightarrow> cells_wf (S2410_SetPin p v s)"
  unfolding S2410_SetPin_def by (rule wf_out) (simp_all add: cells_wf_def)

lemma wf_data [intro]: "cells_wf s \<Longrightarrow> cells_wf (S2410_SetDataByte v s)"
  unfolding S2410_SetDataByte_def
  by (rule wf_out) (use tables_range(1) in \<open>auto simp: cells_wf_def wired_def tables intro!: levels_set_bits\<close>)

lemma wf_shift [intro]: "cells_wf s \<Longrightarrow> cells_wf (shift_cells s)"
  by (erule wf_talks [rotated]) (simp add: shift_cells_def JTAG_ShiftDRStateNoTdo_def Let_def talks_more)

lemma shift_both_levels:
  assumes "fold (shift_both wr) is (rd, s) = (rd', t)" "levels rd" "set is \<subseteq> {..<472}"
  shows "levels rd' \<and> talks s t"
  using assms
proof (induction "is" arbitrary: rd s)
  case (Cons i "is")
  obtain c u where u: "JTAG_GET_TDO (tick (tdi_of (wr ! i) OR TMS_L) s) = (c, u)" by fastforce
  then have "fold (shift_both wr) is (array_set rd i c, u) = (rd', t)" using Cons.prems(1) by (simp add: shift_both_apply)
  moreover have "levels (array_set rd i c)" using Cons.prems(2,3) tdo_level [OF u] by simp
  ultimately have "levels rd' \<and> talks u t" using Cons.IH Cons.prems(3) by simp
  then show ?case using talks_trans [OF talks_trans [OF talks_tick tdo_talks [OF u]]] by blast
qed simp

lemma wf_shift_in [intro]:
  assumes "cells_wf s"
  shows "cells_wf (shift_cells_in s)"
proof -
  have lv: "levels (outCellValue s)" "levels (inCellValue s)" using assms by (simp_all add: cells_wf_def)
  define a where "a = fold tick [TDI_H OR TMS_H, TDI_H OR TMS_L, TDI_H OR TMS_L] s"
  obtain rd b where b: "fold (shift_both (outCellValue s)) [0..<471] (inCellValue s, a) = (rd, b)" by fastforce
  obtain c d where d: "JTAG_GET_TDO (tick (tdi_of (outCellValue s ! 471) OR TMS_H) b) = (c, d)" by fastforce
  have "set [0..<471] \<subseteq> {..<472 :: nat}" by auto
  from shift_both_levels [OF b lv(2) this] have rd: "levels rd" "talks a b" by blast+
  have talk: "talks s (fold tick [TDI_H OR TMS_H, TDI_H OR TMS_L] d)"
    by (intro talks_more(2) talks_trans [OF _ tdo_talks [OF d]] talks_more(1) talks_trans [OF _ rd(2)])
      (simp add: a_def talks_more)
  have run: "shift_cells_in s = (fold tick [TDI_H OR TMS_H, TDI_H OR TMS_L] d)\<lparr>inCellValue := array_set rd 471 c\<rparr>"
    using lv(1) b d by (simp add: shift_cells_in_def JTAG_ShiftDRState_def Let_def a_def)
  have "levels (array_set rd 471 c)" using rd(1) tdo_level [OF d] by simp
  then show ?thesis
    using wf_talks [OF talk assms] unfolding run
    by (simp add: cells_wf_def wired_def) (simp add: levels_def)
qed

lemma wf_waitrb: "NF_WAITRB s = Some t \<Longrightarrow> cells_wf s \<longrightarrow> cells_wf t"
proof (rule NF_WAITRB.raw_induct [where P = "\<lambda>s t. cells_wf s \<longrightarrow> cells_wf t"])
  fix wait :: "'a cells_scheme \<Rightarrow> 'a cells_scheme option" and s t
  assume later: "\<And>s t. wait s = Some t \<Longrightarrow> cells_wf s \<longrightarrow> cells_wf t"
    and body: "(let s = shift_cells_in s in if S2410_GetPin RnB s = HIGH then Some s else wait s) = Some t"
  show "cells_wf s \<longrightarrow> cells_wf t"
    using body later [of "shift_cells_in s" t] by (auto simp: Let_def split: if_splits)
qed

lemmas wf_moves = wf_set_cells wf_set_pin wf_data wf_shift wf_shift_in

text \<open>
  C30: The cell arrays stay well-formed and no access leaves them: after \<open>S2410_InitCell\<close>, from whatever
  state, both arrays are strings of 472 levels and the tables are filled, and no primitive of the flash driver nor
  a step of one changes that, wherever the test access port is and whatever it answers. A store outside an array
  would have left an empty one (\<open>array_set\<close>), so none happened; and in every such state the accesses that
  read, the scan, the pin RnB and the byte of the data bus, are inside (\<open>reads_inside\<close>).
\<close>

theorem primitives_keep_cells:
  fixes s :: "'a cells_scheme"
  assumes "cells_wf s"
  shows "cells_wf (NF_CMD v s) \<and> cells_wf (NF_ADDR v s) \<and> cells_wf (NF_WRDATA v s) \<and>
    cells_wf (snd (NF_RDDATA s)) \<and> cells_wf (NF_nFCE_L s) \<and> cells_wf (NF_nFCE_H s) \<and>
    cells_wf (K9S1208_JtagInit s) \<and> (\<forall>t. NF_WAITRB s = Some t \<longrightarrow> cells_wf t) \<and>
    cells_wf (S2410_InitCell (u :: 'a cells_scheme)) \<and>
    cells_wf (S2410_SetDataByte v s) \<and> cells_wf (shift_cells s) \<and> cells_wf (shift_cells_in s) \<and>
    (\<forall>t :: 'a cells_scheme. cells_wf t \<longrightarrow> reads_inside t)"
proof -
  have ok: "CLE_CON < 472" "ALE_CON < 472" "nFCE_CON < 472" "nFRE_CON < 472" "nFWE_CON < 472"
    by (simp_all add: pin_numbers)
  have "talks s (JTAG_ShiftIRState EXTEST (JTAG_RunTestldleState s))"
    by (rule talks_trans [OF talks_reset(2)]) (simp add: JTAG_ShiftIRState_def Let_def talks_more)
  from wf_talks [OF this assms] have "cells_wf (K9S1208_JtagInit s)"
    unfolding K9S1208_JtagInit_def by (rule wf_set_cells) (simp add: ok pin_range)
  moreover have "cells_wf (S2410_InitCell u)"
  proof -
    obtain a r xs where a: "length r = 472" "S2410_InitCell u = a\<lparr>inCellValue := chars_of r @ [NUL],
        outCellValue := put_pins init_pins (chars_of r @ [NUL])\<rparr>" "wired a"
      by (rule init_cell_lemma [where s = u and m = demo_tap])
    have lv: "levels (chars_of r @ [NUL])" using a(1) by (rule levels_chars)
    then have "levels (put_pins init_pins (chars_of r @ [NUL]))" by (rule levels_put_pins) (rule init_pins_ok)
    then show ?thesis using lv a(3) by (simp add: a(2) cells_wf_def wired_def) (simp add: levels_def)
  qed
  moreover have "cells_wf (NF_CMD v s)" "cells_wf (NF_ADDR v s)"
    unfolding NF_CMD_def NF_ADDR_def Let_def
    by (intro wf_moves assms; simp add: pin_range)+
  moreover have "cells_wf (NF_WRDATA v s)" "cells_wf (snd (NF_RDDATA s))"
    unfolding NF_WRDATA_def NF_RDDATA_def Let_def snd_conv
    by (intro wf_moves assms; simp add: pin_range)+
  moreover have "cells_wf (NF_nFCE_L s)" "cells_wf (NF_nFCE_H s)"
    unfolding NF_nFCE_L_def NF_nFCE_H_def
    by (intro wf_moves assms; simp add: pin_range ok)+
  moreover have "cells_wf (S2410_SetDataByte v s)" "cells_wf (shift_cells s)" "cells_wf (shift_cells_in s)"
    by (intro wf_moves assms)+
  ultimately show ?thesis using wf_waitrb [of s] wf_reads_inside assms by blast
qed

theorem primitives_keep_cells_witness:
  "cells_wf (snd (NF_RDDATA (loop_cells\<lparr>inCellValue := replicate 472 LOW @ [NUL], outCellValue := replicate 472 LOW @ [NUL]\<rparr>)))"
proof -
  let ?s = "loop_cells\<lparr>inCellValue := replicate 472 LOW @ [NUL], outCellValue := replicate 472 LOW @ [NUL]\<rparr>"
  have "levels (replicate 472 LOW @ [NUL])" by (simp add: levels_def nth_append)
  then have "cells_wf ?s" by (simp add: cells_wf_def wired_def loop_cells_def)
  then show ?thesis using primitives_keep_cells by blast
qed

subsection \<open>The interface of the bus\<close>

text \<open>
  What the flash commands rely on: while the port is \<open>good\<close>, every primitive makes its cycle on the
  trace, keeps the frame and the port good, and waiting ends. Status reads, address and data
  sequences are derived from this once.
\<close>

locale bus_port =
  fixes good :: "'s \<Rightarrow> bool" and tr :: "'s \<Rightarrow> cycle list" and fr :: "'s \<Rightarrow> 'f"
    and cmd :: "int \<Rightarrow> 's \<Rightarrow> 's" and addr :: "int \<Rightarrow> 's \<Rightarrow> 's" and put :: "int \<Rightarrow> 's \<Rightarrow> 's"
    and get :: "'s \<Rightarrow> int \<times> 's" and wait :: "'s \<Rightarrow> 's option"
  assumes cmd: "good s \<Longrightarrow> 0 \<le> v \<Longrightarrow> v < 256 \<Longrightarrow>
      good (cmd v s) \<and> fr (cmd v s) = fr s \<and> tr (cmd v s) = tr s @ [Cmd v]"
    and addr: "good s \<Longrightarrow> 0 \<le> v \<Longrightarrow> v < 256 \<Longrightarrow>
      good (addr v s) \<and> fr (addr v s) = fr s \<and> tr (addr v s) = tr s @ [Addr v]"
    and put: "good s \<Longrightarrow> 0 \<le> v \<Longrightarrow> v < 256 \<Longrightarrow>
      good (put v s) \<and> fr (put v s) = fr s \<and> tr (put v s) = tr s @ [Din v]"
    and get: "good s \<Longrightarrow> get s = (v, t) \<Longrightarrow>
      good t \<and> fr t = fr s \<and> tr t = tr s @ [Dout v] \<and> 0 \<le> v \<and> v < 256"
    and wait: "good s \<Longrightarrow> \<exists>n t. wait s = Some t \<and> good t \<and> fr t = fr s \<and> tr t = tr s @ waited n"
begin

lemma addrs:
  "good s \<Longrightarrow> \<forall>v\<in>set vs. 0 \<le> v \<and> v < 256 \<Longrightarrow>
    good (fold addr vs s) \<and> fr (fold addr vs s) = fr s \<and> tr (fold addr vs s) = tr s @ map Addr vs"
  by (induction vs arbitrary: s) (auto simp: addr)

lemma puts:
  "good s \<Longrightarrow> \<forall>v\<in>set vs. 0 \<le> v \<and> v < 256 \<Longrightarrow>
    good (fold put vs s) \<and> fr (fold put vs s) = fr s \<and> tr (fold put vs s) = tr s @ map Din vs"
  by (induction vs arbitrary: s) (auto simp: put)

lemma gets:
  assumes "good s" "n \<le> length buf"
    and "fold (\<lambda>i (b, s). case get s of (v, t) \<Rightarrow> (b[i := v], t)) [0..<n] (buf, s) = (b, t)"
  obtains vs where "length vs = n" "b = vs @ drop n buf" "good t" "fr t = fr s"
    "tr t = tr s @ map Dout vs" "\<forall>v\<in>set vs. 0 \<le> v \<and> v < 256"
  using assms(2,3)
proof (induction n arbitrary: b t thesis)
  case 0
  then show ?case using assms(1) by simp
next
  case (Suc n)
  obtain b1 t1 where t1: "fold (\<lambda>i (b, s). case get s of (v, t) \<Rightarrow> (b[i := v], t)) [0..<n] (buf, s) = (b1, t1)"
    by fastforce
  then obtain vs where vs: "length vs = n" "b1 = vs @ drop n buf" "good t1" "fr t1 = fr s"
    "tr t1 = tr s @ map Dout vs" "\<forall>v\<in>set vs. 0 \<le> v \<and> v < 256"
    using Suc.IH Suc.prems(2) by (metis Suc_leD)
  obtain v t2 where v: "get t1 = (v, t2)" by fastforce
  have b: "b = b1[n := v]" "t = t2" using Suc.prems(3) t1 v by simp_all
  have "b = (vs @ [v]) @ drop (Suc n) buf"
    using Suc.prems(2) vs(1,2) by (simp add: b list_update_append Cons_nth_drop_Suc [symmetric])
  then show ?case
    using Suc.prems(1) [of "vs @ [v]"] vs get [OF vs(3) v] by (simp add: b(2))
qed

text \<open>Confirm with \<open>c\<close>, wait, read the status.\<close>

lemma confirm:
  assumes "good s" "0 \<le> c" "c < 256"
  obtains n v t u where "wait (cmd c s) = Some t" "get (cmd 0x70 t) = (v, u)" "good u" "fr u = fr s"
    "tr u = tr s @ [Cmd c] @ waited n @ [Cmd 0x70, Dout v]" "0 \<le> v" "v < 256"
proof -
  note c = cmd [OF assms]
  obtain n t where t: "wait (cmd c s) = Some t" "good t" "fr t = fr s" "tr t = tr s @ [Cmd c] @ waited n"
    using wait [of "cmd c s"] c by auto
  obtain v u where u: "get (cmd 0x70 t) = (v, u)" by fastforce
  have d: "good (cmd 0x70 t) \<and> fr (cmd 0x70 t) = fr t \<and> tr (cmd 0x70 t) = tr t @ [Cmd 0x70]"
    using cmd [OF t(2), of "0x70"] by simp
  then have "good (cmd 0x70 t)" by simp
  from get [OF this u] d that [OF t(1) u] t show thesis by simp
qed

end

interpretation nand: bus_port "\<lambda>s. linked m b s \<and> chip_on s" "trace m b" frame
  NF_CMD NF_ADDR NF_WRDATA NF_RDDATA NF_WAITRB for m b
proof unfold_locales
  fix s t :: "'a cells_scheme" and v
  show "linked m b s \<and> chip_on s \<Longrightarrow> 0 \<le> v \<Longrightarrow> v < 256 \<Longrightarrow>
      (linked m b (NF_CMD v s) \<and> chip_on (NF_CMD v s)) \<and> frame (NF_CMD v s) = frame s \<and>
      trace m b (NF_CMD v s) = trace m b s @ [Cmd v]" using nf_cmd by blast
  show "linked m b s \<and> chip_on s \<Longrightarrow> 0 \<le> v \<Longrightarrow> v < 256 \<Longrightarrow>
      (linked m b (NF_ADDR v s) \<and> chip_on (NF_ADDR v s)) \<and> frame (NF_ADDR v s) = frame s \<and>
      trace m b (NF_ADDR v s) = trace m b s @ [Addr v]" using nf_addr by blast
  show "linked m b s \<and> chip_on s \<Longrightarrow> 0 \<le> v \<Longrightarrow> v < 256 \<Longrightarrow>
      (linked m b (NF_WRDATA v s) \<and> chip_on (NF_WRDATA v s)) \<and> frame (NF_WRDATA v s) = frame s \<and>
      trace m b (NF_WRDATA v s) = trace m b s @ [Din v]" using nf_wrdata by blast
  show "linked m b s \<and> chip_on s \<Longrightarrow> NF_RDDATA s = (v, t) \<Longrightarrow>
      (linked m b t \<and> chip_on t) \<and> frame t = frame s \<and> trace m b t = trace m b s @ [Dout v] \<and> 0 \<le> v \<and> v < 256"
    using nf_rddata [of m b s] by simp
  show "linked m b s \<and> chip_on s \<Longrightarrow> \<exists>n t. NF_WAITRB s = Some t \<and> (linked m b t \<and> chip_on t) \<and>
      frame t = frame s \<and> trace m b t = trace m b s @ waited n"
    using nf_waitrb [of m b s] by blast
qed

text \<open>
  C13: Each primitive of the flash driver makes exactly its cycle on the NAND bus: commands,
  addresses and data bytes are latched once, with stable lines, while the processor drives the
  bus, a read returns the byte of the one read cycle it makes, and enabling or disabling the
  chip makes none; afterwards the bus is at rest again.
\<close>

theorem primitives_make_cycles:
  assumes "linked m b s" and "0 \<le> v" and "v < 256"
  shows "linked m b (NF_CMD v s) \<and> trace m b (NF_CMD v s) = trace m b s @ [Cmd v] \<and>
    linked m b (NF_ADDR v s) \<and> trace m b (NF_ADDR v s) = trace m b s @ [Addr v] \<and>
    (chip_on s \<longrightarrow> linked m b (NF_WRDATA v s) \<and> trace m b (NF_WRDATA v s) = trace m b s @ [Din v]) \<and>
    (chip_on s \<longrightarrow> linked m b (snd (NF_RDDATA s)) \<and>
      trace m b (snd (NF_RDDATA s)) = trace m b s @ [Dout (fst (NF_RDDATA s))]) \<and>
    linked m b (NF_nFCE_L s) \<and> chip_on (NF_nFCE_L s) \<and> trace m b (NF_nFCE_L s) = trace m b s \<and>
    linked m b (NF_nFCE_H s) \<and> trace m b (NF_nFCE_H s) = trace m b s"
  using nf_cmd [OF assms] nf_addr [OF assms] nf_wrdata [OF assms(1) _ assms(2,3)]
    nf_rddata [OF assms(1)] nf_enable [OF assms(1)]
  by (auto split: prod.splits)

definition cold_board :: nand_board where
  "cold_board = \<lparr>instr = [], lines = [], bus = []\<rparr>"

lemma always_high: "never_stuck m b (\<lambda>h. 0)"
  by (simp add: never_stuck_def)

theorem primitives_make_cycles_witness:
  "trace demo_tap cold_board (NF_CMD 0x90 (K9S1208_JtagInit (S2410_InitCell loop_cells))) =
   trace demo_tap cold_board (K9S1208_JtagInit (S2410_InitCell loop_cells)) @ [Cmd 0x90]"
proof -
  have "never_stuck demo_tap cold_board (port loop_cells)"
    by (simp add: loop_cells_def always_high)
  from primitives_make_cycles [OF init_linked_lemma(1) [OF this], of "0x90"] show ?thesis by simp
qed

text \<open>
  \<open>NF_WAITRB\<close> returns on a flash that is not busy for ever, after polls that saw it busy and
  one that saw it ready, with the bus at rest.
\<close>

theorem waitrb_returns_when_ready:
  assumes "linked m b s"
  shows "\<exists>n t. NF_WAITRB s = Some t \<and> linked m b t \<and>
    trace m b t = trace m b s @ replicate n (Poll False) @ [Poll True]"
  using nf_waitrb [OF assms] by (auto simp: waited_def)

theorem waitrb_returns_when_ready_witness:
  "\<exists>t. NF_WAITRB (K9S1208_JtagInit (S2410_InitCell loop_cells)) = Some t"
proof -
  have "never_stuck demo_tap cold_board (port loop_cells)"
    by (simp add: loop_cells_def always_high)
  from waitrb_returns_when_ready [OF init_linked_lemma(1) [OF this]] show ?thesis by blast
qed

end
