(* ===== verification/K9S1208.thy ===== *)
theory K9S1208
  imports Nandbus "HOL-Library.Monad_Syntax"
begin

text \<open>
  The NAND flash commands of \<open>k9s1208.c\<close> (the ``H/W dependent functions''). The record \<open>flash\<close>
  adds the globals of \<open>k9s1208.c\<close> and \<open>sjf.c\<close> to the cells: the spare area pattern, the block
  buffer, the image file with its position and end-of-file flag, the sizes. \<open>console\<close> holds the
  numbers the user will type, \<open>printed\<close> the pages that were shown. Bytes are \<open>int\<close>s.

  A command returns \<open>None\<close> when it waits for ever. What a command does is given by its bus
  cycles; \<open>chip_step\<close> reads the cycles as the data sheet does, so that the theorems can say what
  is in the flash afterwards.
\<close>

subsection \<open>The code\<close>

record flash = cells +
  seBuf :: "int list"
  blockBuf :: "int list"
  image :: "int list"
  file_pos :: nat
  at_eof :: bool
  imageSize :: int
  targetBlock :: int
  targetSize :: int
  console :: "int list"
  printed :: "int list list"

definition to_U32 :: "int \<Rightarrow> int" where
  "to_U32 v = take_bit 32 v"

definition to_U16 :: "int \<Rightarrow> int" where
  "to_U16 v = take_bit 16 v"

text \<open>The three address bytes of a page.\<close>

definition NF_ADDR_page :: "int \<Rightarrow> flash \<Rightarrow> flash" where
  "NF_ADDR_page blockPage =
     fold NF_ADDR [blockPage AND 0xff, drop_bit 8 blockPage AND 0xff, drop_bit 16 blockPage AND 0xff]"

text \<open>The spare area that marks a bad block.\<close>

definition bad_mark :: "int list \<Rightarrow> int list" where
  "bad_mark se = se[0 := 0xff, 1 := 0xff, 2 := 0xff, 5 := 0x44]"

definition NF_MarkBadBlock :: "int \<Rightarrow> flash \<Rightarrow> (int \<times> flash) option" where
  "NF_MarkBadBlock block s =
     (let blockPage = to_U32 (push_bit 5 block);
          s = s\<lparr>seBuf := bad_mark (seBuf s)\<rparr>;
          s = NF_CMD 0x80 (NF_CMD 0x50 (NF_nFCE_L s));
          s = NF_ADDR_page blockPage (NF_ADDR 0x0 s);
          s = fold NF_WRDATA (map (\<lambda>i. seBuf s ! i) [0..<16]) s
      in do {
        s \<leftarrow> NF_WAITRB (NF_CMD 0x10 s);
        let (v, s) = NF_RDDATA (NF_CMD 0x70 s);
        Some (1, NF_nFCE_H s)
      })"

definition NF_EraseBlock :: "int \<Rightarrow> flash \<Rightarrow> (int \<times> flash) option" where
  "NF_EraseBlock block s =
     (let blockPage = to_U32 (push_bit 5 block);
          s = NF_ADDR_page blockPage (NF_CMD 0x60 (NF_nFCE_L s))
      in do {
        s \<leftarrow> NF_WAITRB (NF_CMD 0xd0 s);
        let (v, s) = NF_RDDATA (NF_CMD 0x70 s);
        if v AND 0x1 \<noteq> 0 then do {
          (_, s) \<leftarrow> NF_MarkBadBlock block (NF_nFCE_H s);
          Some (0, s)
        } else Some (1, NF_nFCE_H s)
      })"

definition NF_IsBadBlock :: "int \<Rightarrow> flash \<Rightarrow> (int \<times> flash) option" where
  "NF_IsBadBlock block s =
     (let blockPage = to_U32 (push_bit 5 block);
          s = NF_CMD 0x50 (NF_nFCE_L s);
          s = NF_ADDR_page blockPage (NF_ADDR (517 AND 0xf) s)
      in do {
        s \<leftarrow> NF_WAITRB s;
        let (v, s) = NF_RDDATA s;
        let s = NF_nFCE_H s;
        if v \<noteq> 0xff then Some (1, s) else Some (0, s)
      })"

definition read_data :: "nat \<Rightarrow> int list \<times> flash \<Rightarrow> int list \<times> flash" where
  "read_data n = fold (\<lambda>i (b, s). case NF_RDDATA s of (v, t) \<Rightarrow> (b[i := v], t)) [0..<n]"

text \<open>\<open>NF_ReadPage\<close> returns the contents of both buffers; \<open>None\<close> stands for a null \<open>spareBuf\<close>.\<close>

definition NF_ReadPage ::
  "int \<Rightarrow> int \<Rightarrow> int list \<Rightarrow> int list option \<Rightarrow> flash \<Rightarrow> (int \<times> int list \<times> int list option \<times> flash) option" where
  "NF_ReadPage block page buffer spareBuf s =
     (let page = page AND 0x1f;
          blockPage = to_U32 (push_bit 5 block + page);
          s = NF_ADDR_page blockPage (NF_ADDR 0 (NF_CMD 0x00 (NF_nFCE_L s)))
      in do {
        s \<leftarrow> NF_WAITRB s;
        let (buffer, s) = read_data 512 (buffer, s);
        let (spareBuf, s) =
          (case spareBuf of None \<Rightarrow> (None, s)
           | Some b \<Rightarrow> (case read_data 16 (b, s) of (b, s) \<Rightarrow> (Some b, s)));
        Some (1, buffer, spareBuf, NF_nFCE_H s)
      })"

definition NF_WritePage ::
  "int \<Rightarrow> int \<Rightarrow> int list \<Rightarrow> int list option \<Rightarrow> flash \<Rightarrow> (int \<times> flash) option" where
  "NF_WritePage block page buffer spareBuf s =
     (let blockPage = to_U32 (push_bit 5 block + page);
          s = NF_CMD 0x80 (NF_CMD 0x0 (NF_nFCE_L s));
          s = NF_ADDR_page blockPage (NF_ADDR 0 s);
          s = fold NF_WRDATA (map (\<lambda>i. buffer ! i) [0..<512]) s;
          s = (case spareBuf of None \<Rightarrow> s | Some b \<Rightarrow> fold NF_WRDATA (map (\<lambda>i. b ! i) [0..<16]) s)
      in do {
        s \<leftarrow> NF_WAITRB (NF_CMD 0x10 s);
        let (v, s) = NF_RDDATA (NF_CMD 0x70 s);
        if v AND 0x1 \<noteq> 0 then do {
          (_, s) \<leftarrow> NF_MarkBadBlock block (NF_nFCE_H s);
          Some (0, s)
        } else Some (1, NF_nFCE_H s)
      })"

definition NF_CheckId :: "flash \<Rightarrow> int \<times> flash" where
  "NF_CheckId s =
     (let s = NF_ADDR 0x0 (NF_CMD 0x90 (NF_nFCE_L s))
      in case NF_RDDATA s of (v, s) \<Rightarrow>
         case NF_RDDATA s of (w, s) \<Rightarrow>
           (to_U16 (to_U16 (push_bit 8 v) OR w), NF_nFCE_H s))"

definition NF_Reset :: "flash \<Rightarrow> flash option" where
  "NF_Reset s = do { s \<leftarrow> NF_WAITRB (NF_CMD 0xff (NF_nFCE_L s)); Some (NF_nFCE_H s) }"

definition NF_Init :: "flash \<Rightarrow> flash option" where
  "NF_Init s = do { s \<leftarrow> NF_Reset s; Some (NF_CMD 0x00 s) }"

subsection \<open>The chip\<close>

text \<open>
  The contents of the flash as its data sheet defines them, for operations that succeed: a
  pointer command selects the area, \<open>80h\<close> starts loading a page at the column and row that
  follow, \<open>10h\<close> clears the bits that are 0 in the loaded data, \<open>60h\<close> with a row and \<open>D0h\<close> sets
  the 32 pages of a block to ones. There are 131072 pages of 528 bytes; higher row bits are
  ignored.
\<close>

datatype mode = Idle | Load | Erase

record chip =
  area :: int
  mode :: mode
  row_col :: "int list"
  loaded :: "int list"
  mem :: "int \<Rightarrow> int \<Rightarrow> int"

definition row_of :: "int list \<Rightarrow> int" where
  "row_of as = horner_sum id 256 as mod 131072"

definition programmed :: "(int \<Rightarrow> int \<Rightarrow> int) \<Rightarrow> int \<Rightarrow> int \<Rightarrow> int list \<Rightarrow> int \<Rightarrow> int \<Rightarrow> int" where
  "programmed f row col bs = f(row := \<lambda>i.
     if col \<le> i \<and> i < col + int (length bs) then f row i AND bs ! nat (i - col) else f row i)"

definition erased :: "(int \<Rightarrow> int \<Rightarrow> int) \<Rightarrow> int \<Rightarrow> int \<Rightarrow> int \<Rightarrow> int" where
  "erased f row = (\<lambda>r. if r div 32 = row div 32 then (\<lambda>i. 255) else f r)"

fun chip_step :: "cycle \<Rightarrow> chip \<Rightarrow> chip" where
  "chip_step (Cmd v) c =
     (if v = 0x00 then c\<lparr>area := 0, mode := Idle\<rparr>
      else if v = 0x50 then c\<lparr>area := 512, mode := Idle\<rparr>
      else if v = 0x80 then c\<lparr>mode := Load, row_col := [], loaded := []\<rparr>
      else if v = 0x60 then c\<lparr>mode := Erase, row_col := []\<rparr>
      else if v = 0x10 \<and> mode c = Load then
        c\<lparr>mode := Idle, mem := programmed (mem c) (row_of (tl (row_col c))) (area c + hd (row_col c)) (loaded c)\<rparr>
      else if v = 0xd0 \<and> mode c = Erase then
        c\<lparr>mode := Idle, mem := erased (mem c) (row_of (row_col c))\<rparr>
      else c\<lparr>mode := Idle\<rparr>)"
| "chip_step (Addr v) c = c\<lparr>row_col := row_col c @ [v]\<rparr>"
| "chip_step (Din v) c = c\<lparr>loaded := loaded c @ [v]\<rparr>"
| "chip_step (Dout v) c = c"
| "chip_step (Poll v) c = c"
| "chip_step Conflict c = c"

definition chip_after :: "cycle list \<Rightarrow> chip \<Rightarrow> chip" where
  "chip_after cs c = fold chip_step cs c"


subsection \<open>Addresses and frames\<close>

definition bytes :: "int list \<Rightarrow> bool" where
  "bytes xs \<longleftrightarrow> (\<forall>v\<in>set xs. 0 \<le> v \<and> v < 256)"

definition page_bytes :: "int \<Rightarrow> int list" where
  "page_bytes bp = [bp mod 256, bp div 256 mod 256, bp div 65536 mod 256]"

lemma and_255: "x AND 0xff = x mod 256" for x :: int
  by (metis and_mask_int)

lemma NF_ADDR_page_eq: "NF_ADDR_page bp = fold NF_ADDR (page_bytes bp)"
  by (simp add: NF_ADDR_page_def page_bytes_def and_255 drop_bit_int)

lemma bytes_page: "\<forall>v\<in>set (page_bytes bp). 0 \<le> v \<and> v < 256"
  by (simp add: page_bytes_def)

lemma row_of_page: "row_of (page_bytes bp) = bp mod 131072"
proof -
  have "bp mod 256 + 256 * (bp div 256 mod 256 + 256 * (bp div 65536 mod 256)) = bp mod 16777216"
  proof -
    have n: "(16777216 :: int) = 256 * 65536" "(65536 :: int) = 256 * 256" by simp_all
    have a: "bp mod (256 * 65536) = 256 * (bp div 256 mod 65536) + bp mod 256"
      and b: "bp div 256 mod (256 * 256) = 256 * (bp div 256 div 256 mod 256) + bp div 256 mod 256"
      and c: "bp div (256 * 256) = bp div 256 div 256"
      by (rule zmod_zmult2_eq zdiv_zmult2_eq; simp)+
    show ?thesis
      unfolding a [folded n] b [folded n] c [folded n] by (simp only: ac_simps)
  qed
  then have "row_of (page_bytes bp) = bp mod 16777216 mod 131072"
    by (simp only: row_of_def page_bytes_def horner_sum_simps id_apply mult_zero_right add_0_right)
  also have "\<dots> = bp mod 131072" by (rule mod_mod_cancel) simp
  finally show ?thesis .
qed

text \<open>The port and the cells do not depend on the fields that \<open>flash\<close> adds.\<close>

lemma linked_cong:
  assumes "hist t = hist s" "port t = port s" "outCellValue t = outCellValue s" "inCellValue t = inCellValue s"
    "dataOutCellIndex t = dataOutCellIndex s" "dataInCellIndex t = dataInCellIndex s"
    "addrCellIndex t = addrCellIndex s"
  shows "linked m b t = linked m b s" "trace m b t = trace m b s"
proof -
  have w: "watch m t = watch m s" unfolding watch_def assms(1) ..
  then have "seen m b t = seen m b s" unfolding seen_def by simp
  with w show "linked m b t = linked m b s" "trace m b t = trace m b s"
    unfolding linked_def core_def wired_def idle_def trace_def assms(2-) by simp_all
qed

lemma linked_flash [simp]:
  "linked m b (s\<lparr>seBuf := x\<rparr>) = linked m b s" "linked m b (s\<lparr>blockBuf := x\<rparr>) = linked m b s"
  "linked m b (s\<lparr>file_pos := n\<rparr>) = linked m b s" "linked m b (s\<lparr>at_eof := e\<rparr>) = linked m b s"
  "linked m b (s\<lparr>targetBlock := i\<rparr>) = linked m b s" "linked m b (s\<lparr>targetSize := i\<rparr>) = linked m b s"
  "linked m b (s\<lparr>console := x\<rparr>) = linked m b s" "linked m b (s\<lparr>printed := y\<rparr>) = linked m b s"
  by (rule linked_cong; simp)+

lemma trace_flash [simp]:
  "trace m b (s\<lparr>seBuf := x\<rparr>) = trace m b s" "trace m b (s\<lparr>blockBuf := x\<rparr>) = trace m b s"
  "trace m b (s\<lparr>file_pos := n\<rparr>) = trace m b s" "trace m b (s\<lparr>at_eof := e\<rparr>) = trace m b s"
  "trace m b (s\<lparr>targetBlock := i\<rparr>) = trace m b s" "trace m b (s\<lparr>targetSize := i\<rparr>) = trace m b s"
  "trace m b (s\<lparr>console := x\<rparr>) = trace m b s" "trace m b (s\<lparr>printed := y\<rparr>) = trace m b s"
  by (rule linked_cong; simp)+

lemma frame_fields:
  assumes "frame u = frame (s :: flash)"
  shows "port u = port s" "seBuf u = seBuf s" "blockBuf u = blockBuf s" "image u = image s"
    "file_pos u = file_pos s" "at_eof u = at_eof s" "imageSize u = imageSize s"
    "targetBlock u = targetBlock s" "targetSize u = targetSize s" "console u = console s"
    "printed u = printed s"
  using assms by (cases u, cases s, simp add: frame_def)+

subsection \<open>What the commands do on the bus\<close>

definition status :: "int \<Rightarrow> nat \<Rightarrow> int \<Rightarrow> cycle list" where
  "status c n v = [Cmd c] @ waited n @ [Cmd 0x70, Dout v]"

definition mark_cycles :: "int \<Rightarrow> int list \<Rightarrow> cycle list" where
  "mark_cycles bp se = [Cmd 0x50, Cmd 0x80, Addr 0] @ map Addr (page_bytes bp) @ map Din (take 16 se)"

definition erase_cycles :: "int \<Rightarrow> cycle list" where
  "erase_cycles bp = [Cmd 0x60] @ map Addr (page_bytes bp)"

definition write_cycles :: "int \<Rightarrow> int list \<Rightarrow> cycle list" where
  "write_cycles bp bs = [Cmd 0, Cmd 0x80, Addr 0] @ map Addr (page_bytes bp) @ map Din bs"

lemma copy_prefix: "n \<le> length xs \<Longrightarrow> map (\<lambda>i. xs ! i) [0..<n] = take n xs"
  by (rule nth_equalityI) simp_all

lemma bytes_bad_mark: "bytes se \<Longrightarrow> bytes (bad_mark se)"
  unfolding bytes_def bad_mark_def by (intro ballI) (fastforce dest!: set_update_subset_insert [THEN subsetD])

lemma bytes_take: "bytes xs \<Longrightarrow> bytes (take n xs)"
  by (auto simp: bytes_def dest: in_set_takeD)

lemma confirm_codes: "0 \<le> (0x10 :: int)" "0x10 < (256 :: int)" "0 \<le> (0xd0 :: int)" "0xd0 < (256 :: int)"
  by simp_all

lemma mark_bad_block:
  fixes s :: flash
  assumes "linked m b s" "length (seBuf s) = 16" "bytes (seBuf s)"
  obtains n v u where "NF_MarkBadBlock block s = Some (1, u)" "linked m b u"
    "frame u = frame (s\<lparr>seBuf := bad_mark (seBuf s)\<rparr>)"
    "trace m b u = trace m b s @ mark_cycles (to_U32 (push_bit 5 block)) (bad_mark (seBuf s)) @ status 0x10 n v"
proof -
  define bp where "bp = to_U32 (push_bit 5 block)"
  define s0 where "s0 = s\<lparr>seBuf := bad_mark (seBuf s)\<rparr>"
  define s1 where "s1 = NF_ADDR 0 (NF_CMD 0x80 (NF_CMD 0x50 (NF_nFCE_L s0)))"
  define s2 where "s2 = fold NF_ADDR (page_bytes bp) s1"
  define s3 where "s3 = fold NF_WRDATA (take 16 (bad_mark (seBuf s))) s2"
  have "linked m b s0" using assms(1) by (simp add: s0_def)
  then have s1: "linked m b s1 \<and> chip_on s1" "frame s1 = frame s0"
    "trace m b s1 = trace m b s @ [Cmd 0x50, Cmd 0x80, Addr 0]"
    using nf_enable(1) [of m b s0]
    by (simp_all add: s1_def nand.cmd [where m = m and b = b] nand.addr [where m = m and b = b])
      (simp add: s0_def)
  have s2: "linked m b s2 \<and> chip_on s2" "frame s2 = frame s0"
    "trace m b s2 = trace m b s1 @ map Addr (page_bytes bp)"
    using nand.addrs [OF s1(1) bytes_page] s1(2) by (simp_all add: s2_def)
  have "\<forall>v\<in>set (take 16 (bad_mark (seBuf s))). 0 \<le> v \<and> v < 256"
    using bytes_take [OF bytes_bad_mark [OF assms(3)]] by (simp add: bytes_def)
  from nand.puts [OF s2(1) this] have s3: "linked m b s3 \<and> chip_on s3" "frame s3 = frame s2"
    "trace m b s3 = trace m b s2 @ map Din (take 16 (bad_mark (seBuf s)))"
    by (simp_all add: s3_def)
  obtain n v t u where u: "NF_WAITRB (NF_CMD 0x10 s3) = Some t" "NF_RDDATA (NF_CMD 0x70 t) = (v, u)"
    "linked m b u \<and> chip_on u" "frame u = frame s3"
    "trace m b u = trace m b s3 @ [Cmd 0x10] @ waited n @ [Cmd 0x70, Dout v]" "0 \<le> v" "v < 256"
    by (rule nand.confirm [OF s3(1) confirm_codes(1,2)])
  have "map (\<lambda>i. seBuf s2 ! i) [0..<16] = take 16 (bad_mark (seBuf s))"
    using frame_fields(2) [OF s2(2)] assms(2)
    by (simp add: s0_def copy_prefix bad_mark_def del: upt_rec_numeral)
  then have run: "NF_MarkBadBlock block s = Some (1, NF_nFCE_H u)"
    using u(1,2) by (simp add: NF_MarkBadBlock_def Let_def bp_def [symmetric]
        s0_def [symmetric] s1_def [symmetric] NF_ADDR_page_eq s2_def [symmetric] s3_def del: upt_rec_numeral)
  show thesis
    using that [OF run] nf_enable(2) [of m b u] u(3-5) s1 s2 s3
    by (simp add: s0_def bp_def mark_cycles_def status_def)
qed


text \<open>
  The common end of erasing and writing: confirm, wait, read the status; on an error disable the
  chip, mark the block and return 0.
\<close>

definition finish :: "int \<Rightarrow> int \<Rightarrow> flash \<Rightarrow> (int \<times> flash) option" where
  "finish block c s = do {
     s \<leftarrow> NF_WAITRB (NF_CMD c s);
     let (v, s) = NF_RDDATA (NF_CMD 0x70 s);
     if v AND 0x1 \<noteq> 0 then do {
       (_, s) \<leftarrow> NF_MarkBadBlock block (NF_nFCE_H s);
       Some (0, s)
     } else Some (1, NF_nFCE_H s)
   }"

lemma status_bit: "(v :: int) AND 1 = 0 \<longleftrightarrow> even v"
  by (simp add: and_one_eq mod_2_eq_odd)

lemma finish_cases:
  fixes s :: flash and block :: int
  assumes "linked m b s \<and> chip_on s" "0 \<le> c" "c < 256" "length (seBuf s) = 16" "bytes (seBuf s)"
  obtains n v u where "finish block c s = Some (1, u)" "even v" "linked m b u" "frame u = frame s"
      "trace m b u = trace m b s @ status c n v"
  | n v n' v' u where "finish block c s = Some (0, u)" "odd v" "linked m b u"
      "frame u = frame (s\<lparr>seBuf := bad_mark (seBuf s)\<rparr>)"
      "trace m b u = trace m b s @ status c n v @
        mark_cycles (to_U32 (push_bit 5 block)) (bad_mark (seBuf s)) @ status 0x10 n' v'"
proof -
  obtain n v t u where u: "NF_WAITRB (NF_CMD c s) = Some t" "NF_RDDATA (NF_CMD 0x70 t) = (v, u)"
    "linked m b u \<and> chip_on u" "frame u = frame s"
    "trace m b u = trace m b s @ [Cmd c] @ waited n @ [Cmd 0x70, Dout v]" "0 \<le> v" "v < 256"
    by (rule nand.confirm [OF assms(1-3)])
  have run: "finish block c s =
    (if odd v then do { (_, s) \<leftarrow> NF_MarkBadBlock block (NF_nFCE_H u); Some (0, s) } else Some (1, NF_nFCE_H u))"
    using u(1,2) by (simp add: finish_def status_bit)
  have h: "linked m b (NF_nFCE_H u)" "frame (NF_nFCE_H u) = frame s"
    "trace m b (NF_nFCE_H u) = trace m b s @ status c n v"
    using nf_enable(2) [of m b u] u(3-5) by (simp_all add: status_def)
  show thesis
  proof (cases "odd v")
    case False
    then show thesis using that(1) [OF _ _ h] run by simp
  next
    case True
    have se: "seBuf (NF_nFCE_H u) = seBuf s" by (rule frame_fields [OF h(2)])
    then obtain n' v' w where w: "NF_MarkBadBlock block (NF_nFCE_H u) = Some (1, w)" "linked m b w"
      "frame w = frame ((NF_nFCE_H u)\<lparr>seBuf := bad_mark (seBuf s)\<rparr>)"
      "trace m b w = trace m b (NF_nFCE_H u) @
        mark_cycles (to_U32 (push_bit 5 block)) (bad_mark (seBuf s)) @ status 0x10 n' v'"
      using mark_bad_block [OF h(1), of block] assms(4,5) by metis
    have "frame w = frame (s\<lparr>seBuf := bad_mark (seBuf s)\<rparr>)"
      using h(2) unfolding w(3) by (cases "NF_nFCE_H u", cases s) (simp add: frame_def)
    then show thesis using that(2) [of w v n n' v'] run w True h(3) by simp
  qed
qed

lemma erase_start:
  fixes s :: flash
  assumes "linked m b s"
  obtains t where "NF_EraseBlock block s = finish block 0xd0 t" "linked m b t \<and> chip_on t"
    "frame t = frame s" "trace m b t = trace m b s @ erase_cycles (to_U32 (push_bit 5 block))"
proof -
  define bp where "bp = to_U32 (push_bit 5 block)"
  define s1 where "s1 = NF_CMD 0x60 (NF_nFCE_L s)"
  have s1: "linked m b s1 \<and> chip_on s1" "frame s1 = frame s" "trace m b s1 = trace m b s @ [Cmd 0x60]"
    using nf_enable(1) [OF assms(1)] by (simp_all add: s1_def nand.cmd [where m = m and b = b])
  show thesis
    using that [of "fold NF_ADDR (page_bytes bp) s1"] nand.addrs [OF s1(1) bytes_page] s1(2,3)
    by (simp add: erase_cycles_def NF_EraseBlock_def finish_def Let_def bp_def NF_ADDR_page_eq s1_def)
qed

definition spare_bytes :: "int list option \<Rightarrow> int list" where
  "spare_bytes sp = (case sp of None \<Rightarrow> [] | Some b \<Rightarrow> take 16 b)"

definition good_spare :: "int list option \<Rightarrow> bool" where
  "good_spare sp \<longleftrightarrow> (case sp of None \<Rightarrow> True | Some b \<Rightarrow> bytes b \<and> 16 \<le> length b)"

lemma write_start:
  fixes s :: flash
  assumes "linked m b s" "bytes buf" "512 \<le> length buf" "good_spare sp"
  obtains t where "NF_WritePage block page buf sp s = finish block 0x10 t" "linked m b t \<and> chip_on t"
    "frame t = frame s" "trace m b t = trace m b s @
      write_cycles (to_U32 (push_bit 5 block + page)) (take 512 buf @ spare_bytes sp)"
proof -
  define bp where "bp = to_U32 (push_bit 5 block + page)"
  define s1 where "s1 = NF_ADDR 0 (NF_CMD 0x80 (NF_CMD 0 (NF_nFCE_L s)))"
  define s2 where "s2 = fold NF_ADDR (page_bytes bp) s1"
  define s3 where "s3 = fold NF_WRDATA (take 512 buf) s2"
  define s4 where "s4 = fold NF_WRDATA (spare_bytes sp) s3"
  have s1: "linked m b s1 \<and> chip_on s1" "frame s1 = frame s"
    "trace m b s1 = trace m b s @ [Cmd 0, Cmd 0x80, Addr 0]"
    using nf_enable(1) [OF assms(1)]
    by (simp_all add: s1_def nand.cmd [where m = m and b = b] nand.addr [where m = m and b = b])
  have s2: "linked m b s2 \<and> chip_on s2" "frame s2 = frame s"
    "trace m b s2 = trace m b s1 @ map Addr (page_bytes bp)"
    using nand.addrs [OF s1(1) bytes_page] s1(2) by (simp_all add: s2_def)
  have "\<forall>v\<in>set (take 512 buf). 0 \<le> v \<and> v < 256" using bytes_take [OF assms(2)] by (simp add: bytes_def)
  from nand.puts [OF s2(1) this] have s3: "linked m b s3 \<and> chip_on s3" "frame s3 = frame s"
    "trace m b s3 = trace m b s2 @ map Din (take 512 buf)"
    using s2(2) by (simp_all add: s3_def)
  have "bytes (spare_bytes sp)"
    using assms(4) by (cases sp) (auto simp: spare_bytes_def good_spare_def bytes_take, simp add: bytes_def)
  then have "\<forall>v\<in>set (spare_bytes sp). 0 \<le> v \<and> v < 256" by (simp add: bytes_def)
  from nand.puts [OF s3(1) this] have s4: "linked m b s4 \<and> chip_on s4" "frame s4 = frame s"
    "trace m b s4 = trace m b s3 @ map Din (spare_bytes sp)"
    using s3(2) by (simp_all add: s4_def)
  have "(case sp of None \<Rightarrow> s3 | Some b \<Rightarrow> fold NF_WRDATA (map (\<lambda>i. b ! i) [0..<16]) s3) = s4"
    using assms(4) by (simp add: s4_def spare_bytes_def good_spare_def copy_prefix del: upt_rec_numeral split: option.splits)
  then have "NF_WritePage block page buf sp s = finish block 0x10 s4"
    using assms(3) by (simp add: NF_WritePage_def finish_def Let_def bp_def [symmetric] NF_ADDR_page_eq
        s1_def [symmetric] s2_def [symmetric] copy_prefix s3_def [symmetric] del: upt_rec_numeral cong: option.case_cong)
  then show thesis using that s4 s3(3) s2(3) s1(3) by (simp add: write_cycles_def bp_def)
qed


subsection \<open>What the cycles do to the chip\<close>

lemma chip_after_append [simp]: "chip_after (xs @ ys) c = chip_after ys (chip_after xs c)"
  by (simp add: chip_after_def)

lemma chip_after_Nil [simp]: "chip_after [] c = c"
  by (simp add: chip_after_def)

lemma chip_after_Cons [simp]: "chip_after (x # xs) c = chip_after xs (chip_step x c)"
  by (simp add: chip_after_def)

lemma chip_after_waited [simp]: "chip_after (waited n) c = c"
  by (induction n) (simp_all add: waited_def)

lemma chip_after_addrs [simp]: "chip_after (map Addr vs) c = c\<lparr>row_col := row_col c @ vs\<rparr>"
  by (induction vs arbitrary: c) simp_all

lemma chip_after_dins [simp]: "chip_after (map Din vs) c = c\<lparr>loaded := loaded c @ vs\<rparr>"
  by (induction vs arbitrary: c) simp_all

lemma chip_effects:
  "mem (chip_after (status 0x10 n v) (chip_after (write_cycles bp bs) c)) = programmed (mem c) (bp mod 131072) 0 bs"
  "mem (chip_after (status 0xd0 n v) (chip_after (erase_cycles bp) c)) = erased (mem c) (bp mod 131072)"
  "mem (chip_after (status 0x10 n v) (chip_after (mark_cycles bp se) c)) = programmed (mem c) (bp mod 131072) 512 (take 16 se)"
  by (simp_all add: write_cycles_def erase_cycles_def mark_cycles_def status_def row_of_page)

subsection \<open>Properties of the commands\<close>

definition spare_ok :: "flash \<Rightarrow> bool" where
  "spare_ok s \<longleftrightarrow> length (seBuf s) = 16 \<and> bytes (seBuf s)"

lemma erase_block:
  assumes "linked m b s" "spare_ok s" "NF_EraseBlock block s = Some (ok, t)"
  defines "bp \<equiv> to_U32 (push_bit 5 block)"
  obtains n v where "ok = 1" "even v" "linked m b t" "frame t = frame s"
      "trace m b t = trace m b s @ erase_cycles bp @ status 0xd0 n v"
  | n v n' v' where "ok = 0" "odd v" "linked m b t" "frame t = frame (s\<lparr>seBuf := bad_mark (seBuf s)\<rparr>)"
      "trace m b t = trace m b s @ erase_cycles bp @ status 0xd0 n v @
        mark_cycles bp (bad_mark (seBuf s)) @ status 0x10 n' v'"
proof -
  obtain u where u: "NF_EraseBlock block s = finish block 0xd0 u" "linked m b u \<and> chip_on u"
    "frame u = frame s" "trace m b u = trace m b s @ erase_cycles (to_U32 (push_bit 5 block))"
    by (rule erase_start [OF assms(1)])
  have se: "length (seBuf u) = 16" "bytes (seBuf u)" "seBuf u = seBuf s"
    using assms(2) frame_fields(2) [OF u(3)] by (simp_all add: spare_ok_def)
  show thesis
  proof (rule finish_cases [OF u(2) confirm_codes(3,4) se(1,2), of block])
    fix n v w
    assume w: "finish block 0xd0 u = Some (1, w)" "even v" "linked m b w" "frame w = frame u"
      "trace m b w = trace m b u @ status 0xd0 n v"
    then show thesis using that(1) [of v n] assms(3) u by (simp add: bp_def)
  next
    fix n v n' v' w
    assume w: "finish block 0xd0 u = Some (0, w)" "odd v" "linked m b w"
      "frame w = frame (u\<lparr>seBuf := bad_mark (seBuf u)\<rparr>)"
      "trace m b w = trace m b u @ status 0xd0 n v @
        mark_cycles (to_U32 (push_bit 5 block)) (bad_mark (seBuf u)) @ status 0x10 n' v'"
    have "frame w = frame (s\<lparr>seBuf := bad_mark (seBuf s)\<rparr>)"
      using u(3) unfolding w(4) se(3) by (cases u, cases s) (simp add: frame_def)
    then show thesis using that(2) [of v n n' v'] assms(3) u w se(3) by (simp add: bp_def)
  qed
qed

lemma write_page:
  assumes "linked m b s" "spare_ok s" "bytes buf" "512 \<le> length buf" "good_spare sp"
    and "NF_WritePage block page buf sp s = Some (ok, t)"
  defines "bp \<equiv> to_U32 (push_bit 5 block + page)"
  obtains n v where "ok = 1" "even v" "linked m b t" "frame t = frame s"
      "trace m b t = trace m b s @ write_cycles bp (take 512 buf @ spare_bytes sp) @ status 0x10 n v"
  | n v n' v' where "ok = 0" "odd v" "linked m b t" "frame t = frame (s\<lparr>seBuf := bad_mark (seBuf s)\<rparr>)"
      "trace m b t = trace m b s @ write_cycles bp (take 512 buf @ spare_bytes sp) @ status 0x10 n v @
        mark_cycles (to_U32 (push_bit 5 block)) (bad_mark (seBuf s)) @ status 0x10 n' v'"
proof -
  obtain u where u: "NF_WritePage block page buf sp s = finish block 0x10 u" "linked m b u \<and> chip_on u"
    "frame u = frame s" "trace m b u = trace m b s @
      write_cycles (to_U32 (push_bit 5 block + page)) (take 512 buf @ spare_bytes sp)"
    by (rule write_start [OF assms(1,3-5)])
  have se: "length (seBuf u) = 16" "bytes (seBuf u)" "seBuf u = seBuf s"
    using assms(2) frame_fields(2) [OF u(3)] by (simp_all add: spare_ok_def)
  show thesis
  proof (rule finish_cases [OF u(2) confirm_codes(1,2) se(1,2), of block])
    fix n v w
    assume w: "finish block 0x10 u = Some (1, w)" "even v" "linked m b w" "frame w = frame u"
      "trace m b w = trace m b u @ status 0x10 n v"
    then show thesis using that(1) [of v n] assms(6) u by (simp add: bp_def)
  next
    fix n v n' v' w
    assume w: "finish block 0x10 u = Some (0, w)" "odd v" "linked m b w"
      "frame w = frame (u\<lparr>seBuf := bad_mark (seBuf u)\<rparr>)"
      "trace m b w = trace m b u @ status 0x10 n v @
        mark_cycles (to_U32 (push_bit 5 block)) (bad_mark (seBuf u)) @ status 0x10 n' v'"
    have "frame w = frame (s\<lparr>seBuf := bad_mark (seBuf s)\<rparr>)"
      using u(3) unfolding w(4) se(3) by (cases u, cases s) (simp add: frame_def)
    then show thesis using that(2) [of v n n' v'] assms(6) u w se(3) by (simp add: bp_def)
  qed
qed

text \<open>Both commands return whenever the flash does not stay busy for ever.\<close>

lemma finish_returns:
  assumes "linked m b s \<and> chip_on s" "0 \<le> c" "c < 256" "spare_ok s"
  shows "finish block c s \<noteq> None"
  using assms finish_cases [of m b s c block] unfolding spare_ok_def by (metis option.distinct(1))

lemma commands_return:
  assumes "linked m b s" "spare_ok s"
  shows "NF_EraseBlock block s \<noteq> None"
    and "bytes buf \<Longrightarrow> 512 \<le> length buf \<Longrightarrow> good_spare sp \<Longrightarrow> NF_WritePage block page buf sp s \<noteq> None"
proof -
  obtain u where u: "NF_EraseBlock block s = finish block 0xd0 u" "linked m b u \<and> chip_on u" "frame u = frame s"
    by (rule erase_start [OF assms(1)])
  then have "spare_ok u" using assms(2) frame_fields(2) [OF u(3)] by (simp add: spare_ok_def)
  from finish_returns [OF u(2) confirm_codes(3,4) this] show "NF_EraseBlock block s \<noteq> None"
    unfolding u(1) .
  assume buf: "bytes buf" "512 \<le> length buf" "good_spare sp"
  obtain w where w: "NF_WritePage block page buf sp s = finish block 0x10 w" "linked m b w \<and> chip_on w" "frame w = frame s"
    by (rule write_start [OF assms(1) buf])
  then have "spare_ok w" using assms(2) frame_fields(2) [OF w(3)] by (simp add: spare_ok_def)
  from finish_returns [OF w(2) confirm_codes(1,2) this] show "NF_WritePage block page buf sp s \<noteq> None"
    unfolding w(1) .
qed


lemma nf_select:
  fixes s :: flash and bp :: int
  assumes "linked m b s" "0 \<le> c" "c < 256" "0 \<le> v" "v < 256"
  defines "t \<equiv> NF_ADDR_page bp (NF_ADDR v (NF_CMD c (NF_nFCE_L s)))"
  shows "linked m b t \<and> chip_on t" "frame t = frame s"
    "trace m b t = trace m b s @ [Cmd c, Addr v] @ map Addr (page_bytes bp)"
proof -
  define u where "u = NF_ADDR v (NF_CMD c (NF_nFCE_L s))"
  have u: "linked m b u \<and> chip_on u" "frame u = frame s" "trace m b u = trace m b s @ [Cmd c, Addr v]"
    using nf_enable(1) [OF assms(1)] assms(2-5)
    by (simp_all add: u_def nand.cmd [where m = m and b = b] nand.addr [where m = m and b = b])
  show "linked m b t \<and> chip_on t" "frame t = frame s"
    "trace m b t = trace m b s @ [Cmd c, Addr v] @ map Addr (page_bytes bp)"
    using nand.addrs [OF u(1) bytes_page] u(2,3)
    by (simp_all add: t_def u_def [symmetric] NF_ADDR_page_eq)
qed

lemma read_data_reads:
  assumes "linked m b s \<and> chip_on s" "n \<le> length buf" "read_data n (buf, s) = (b', t)"
  obtains vs where "length vs = n" "b' = vs @ drop n buf" "linked m b t \<and> chip_on t" "frame t = frame s"
    "trace m b t = trace m b s @ map Dout vs" "\<forall>v\<in>set vs. 0 \<le> v \<and> v < 256"
  by (rule nand.gets [OF assms(1,2) assms(3) [unfolded read_data_def]])

lemma read_page:
  assumes "linked m b s" "length buf = 512" "length sp = 16"
  obtains n vs ws t where "NF_ReadPage block page buf (Some sp) s = Some (1, vs, Some ws, t)"
    "length vs = 512" "length ws = 16" "linked m b t" "frame t = frame s"
    "trace m b t = trace m b s @ [Cmd 0, Addr 0] @ map Addr (page_bytes (to_U32 (push_bit 5 block + page mod 32))) @
      waited n @ map Dout (vs @ ws)"
proof -
  define bp where "bp = to_U32 (push_bit 5 block + page mod 32)"
  define u where "u = NF_ADDR_page bp (NF_ADDR 0 (NF_CMD 0 (NF_nFCE_L s)))"
  have u: "linked m b u \<and> chip_on u" "frame u = frame s"
    "trace m b u = trace m b s @ [Cmd 0, Addr 0] @ map Addr (page_bytes bp)"
    using nf_select [OF assms(1), of 0 0 bp] by (simp_all add: u_def)
  obtain n w where w: "NF_WAITRB u = Some w" "linked m b w \<and> chip_on w" "frame w = frame u"
    "trace m b w = trace m b u @ waited n"
    using nand.wait [OF u(1)] by blast
  obtain b1 x where x: "read_data 512 (buf, w) = (b1, x)" by fastforce
  have "512 \<le> length buf" "16 \<le> length sp" using assms(2,3) by simp_all
  then obtain vs where vs: "length vs = 512" "b1 = vs @ drop 512 buf" "linked m b x \<and> chip_on x"
    "frame x = frame w" "trace m b x = trace m b w @ map Dout vs"
    using read_data_reads [OF w(2) _ x] by metis
  obtain b2 y where y: "read_data 16 (sp, x) = (b2, y)" by fastforce
  obtain ws where ws: "length ws = 16" "b2 = ws @ drop 16 sp" "linked m b y \<and> chip_on y"
    "frame y = frame x" "trace m b y = trace m b x @ map Dout ws"
    using read_data_reads [OF vs(3) \<open>16 \<le> length sp\<close> y] by metis
  have h: "linked m b (NF_nFCE_H y) \<and> frame (NF_nFCE_H y) = frame y \<and> trace m b (NF_nFCE_H y) = trace m b y"
    using ws(3) nf_enable(2) by blast
  have "page AND 0x1f = page mod 32" by (metis and_mask_int)
  then have "NF_ReadPage block page buf (Some sp) s = Some (1, vs, Some ws, NF_nFCE_H y)"
    using w(1) x y vs(1,2) ws(1,2) assms(2,3)
    by (simp add: NF_ReadPage_def Let_def bp_def [symmetric] u_def [symmetric])
  then show thesis using that vs ws h u w by (simp add: bp_def)
qed

lemma check_id:
  fixes s :: flash
  assumes "linked m b s" "NF_CheckId s = (i, t)"
  obtains v w where "i = 256 * v + w" "0 \<le> v" "v < 256" "0 \<le> w" "w < 256" "linked m b t" "frame t = frame s"
    "trace m b t = trace m b s @ [Cmd 0x90, Addr 0, Dout v, Dout w]"
proof -
  define u where "u = NF_ADDR 0 (NF_CMD 0x90 (NF_nFCE_L s))"
  have u: "linked m b u \<and> chip_on u" "frame u = frame s" "trace m b u = trace m b s @ [Cmd 0x90, Addr 0]"
    using nf_enable(1) [OF assms(1)]
    by (simp_all add: u_def nand.cmd [where m = m and b = b] nand.addr [where m = m and b = b])
  obtain v x where x: "NF_RDDATA u = (v, x)" by fastforce
  note x1 = nand.get [OF u(1) x]
  obtain w y where y: "NF_RDDATA x = (w, y)" by fastforce
  have "linked m b x \<and> chip_on x" using x1 by blast
  note y1 = nand.get [OF this y]
  have h: "linked m b (NF_nFCE_H y) \<and> frame (NF_nFCE_H y) = frame y \<and> trace m b (NF_nFCE_H y) = trace m b y"
    using y1 nf_enable(2) by blast
  have "push_bit 8 v = 256 * v" by (simp add: push_bit_eq_mult)
  moreover have "take_bit 16 (256 * v) = 256 * v" using x1 by (intro take_bit_int_eq_self) auto
  moreover have "push_bit 8 v OR w = v * 256 + w" using push_bit_or [of w 8 v] y1 by simp
  moreover have "take_bit 16 (256 * v + w) = 256 * v + w"
    using x1 y1 by (intro take_bit_int_eq_self) auto
  ultimately have "to_U16 (to_U16 (push_bit 8 v) OR w) = 256 * v + w"
    by (simp add: to_U16_def mult.commute)
  then have "i = 256 * v + w" "t = NF_nFCE_H y"
    using assms(2) x y by (simp_all add: NF_CheckId_def Let_def u_def)
  then show thesis using that [of v w] x1 y1 h u by simp
qed

lemma init_chip:
  fixes s :: flash
  assumes "linked m b s"
  obtains n t where "NF_Init s = Some t" "linked m b t" "frame t = frame s"
    "trace m b t = trace m b s @ [Cmd 0xff] @ waited n @ [Cmd 0]"
proof -
  have u: "linked m b (NF_CMD 0xff (NF_nFCE_L s)) \<and> chip_on (NF_CMD 0xff (NF_nFCE_L s))"
    "frame (NF_CMD 0xff (NF_nFCE_L s)) = frame s" "trace m b (NF_CMD 0xff (NF_nFCE_L s)) = trace m b s @ [Cmd 0xff]"
    using nf_enable(1) [OF assms(1)] by (simp_all add: nand.cmd [where m = m and b = b])
  obtain n w where w: "NF_WAITRB (NF_CMD 0xff (NF_nFCE_L s)) = Some w" "linked m b w \<and> chip_on w" "frame w = frame s"
    "trace m b w = trace m b s @ [Cmd 0xff] @ waited n"
    using nand.wait [OF u(1)] u(2,3) by auto
  have h: "linked m b (NF_nFCE_H w) \<and> frame (NF_nFCE_H w) = frame w \<and> trace m b (NF_nFCE_H w) = trace m b w"
    using w(2) nf_enable(2) by blast
  then have "linked m b (NF_nFCE_H w)" by blast
  from nf_cmd [OF this, of 0] h show thesis
    using that [of "NF_CMD 0 (NF_nFCE_H w)" n] w by (simp add: NF_Init_def NF_Reset_def)
qed

lemma is_bad_block:
  fixes s :: flash
  assumes "linked m b s"
  obtains n v t where "NF_IsBadBlock block s = Some (if v = 0xff then 0 else 1, t)" "linked m b t" "frame t = frame s"
    "trace m b t = trace m b s @ [Cmd 0x50, Addr 5] @ map Addr (page_bytes (to_U32 (push_bit 5 block))) @ waited n @ [Dout v]"
proof -
  define bp where "bp = to_U32 (push_bit 5 block)"
  define u where "u = NF_ADDR_page bp (NF_ADDR 5 (NF_CMD 0x50 (NF_nFCE_L s)))"
  have u: "linked m b u \<and> chip_on u" "frame u = frame s"
    "trace m b u = trace m b s @ [Cmd 0x50, Addr 5] @ map Addr (page_bytes bp)"
    using nf_select [OF assms(1), of "0x50" 5 bp] by (simp_all add: u_def)
  obtain n w where w: "NF_WAITRB u = Some w" "linked m b w \<and> chip_on w" "frame w = frame u"
    "trace m b w = trace m b u @ waited n"
    using nand.wait [OF u(1)] by blast
  obtain v x where x: "NF_RDDATA w = (v, x)" by fastforce
  note x1 = nand.get [OF w(2) x]
  have h: "linked m b (NF_nFCE_H x) \<and> frame (NF_nFCE_H x) = frame x \<and> trace m b (NF_nFCE_H x) = trace m b x"
    using x1 nf_enable(2) by blast
  have "NF_IsBadBlock block s = Some (if v = 0xff then 0 else 1, NF_nFCE_H x)"
    using w(1) x by (simp add: NF_IsBadBlock_def Let_def bp_def [symmetric] u_def [symmetric])
  then show thesis using that h x1 u w by (simp add: bp_def)
qed


text \<open>The page number of a page of the chip.\<close>

lemma page_number:
  assumes "0 \<le> block" "block < 4096" "0 \<le> page" "page < 32"
  shows "to_U32 (push_bit 5 block + page) = 32 * block + page" "to_U32 (push_bit 5 block) = 32 * block"
    "(32 * block + page) mod 131072 = 32 * block + page" "32 * block mod 131072 = 32 * block"
  using assms by (simp_all add: to_U32_def push_bit_eq_mult take_bit_int_eq_self)

text \<open>
  C14: On a flash that is not busy for ever \<open>NF_EraseBlock\<close> and \<open>NF_WritePage\<close> return. The cycles of
  an erase set the 32 pages of the block to ones and nothing else, those of a write clear
  exactly the bits that are 0 in the buffer; when 0 is returned, the spare area of the first page
  of the block, and nothing else, is marked in addition.
\<close>

theorem commands_change_chip:
  assumes "linked m b s" "spare_ok s" "bytes buf" "512 \<le> length buf"
    and "0 \<le> block" "block < 4096" "0 \<le> page" "page < 32"
  shows "(\<exists>ok t es. NF_EraseBlock block s = Some (ok, t) \<and> linked m b t \<and> trace m b t = trace m b s @ es \<and>
      (ok = 1 \<and> mem (chip_after es c) = erased (mem c) (32 * block) \<or>
       ok = 0 \<and> mem (chip_after es c) = programmed (erased (mem c) (32 * block)) (32 * block) 512 (bad_mark (seBuf s)))) \<and>
    (\<exists>ok t es. NF_WritePage block page buf None s = Some (ok, t) \<and> linked m b t \<and> trace m b t = trace m b s @ es \<and>
      (ok = 1 \<and> mem (chip_after es c) = programmed (mem c) (32 * block + page) 0 (take 512 buf) \<or>
       ok = 0 \<and> mem (chip_after es c) = programmed (programmed (mem c) (32 * block + page) 0 (take 512 buf))
         (32 * block) 512 (bad_mark (seBuf s))))"
proof -
  have se: "take 16 (bad_mark (seBuf s)) = bad_mark (seBuf s)"
    using assms(2) by (simp add: spare_ok_def bad_mark_def)
  note pn = page_number [OF assms(5-8)]
  obtain ok t where t: "NF_EraseBlock block s = Some (ok, t)"
    using commands_return(1) [OF assms(1,2), of block] by auto
  have r1: "\<exists>ok t es. NF_EraseBlock block s = Some (ok, t) \<and> linked m b t \<and> trace m b t = trace m b s @ es \<and>
      (ok = 1 \<and> mem (chip_after es c) = erased (mem c) (32 * block) \<or>
       ok = 0 \<and> mem (chip_after es c) = programmed (erased (mem c) (32 * block)) (32 * block) 512 (bad_mark (seBuf s)))"
    using t by (rule erase_block [OF assms(1,2)])
      (simp_all add: t pn chip_effects se)
  obtain ok t where t: "NF_WritePage block page buf None s = Some (ok, t)"
    using commands_return(2) [OF assms(1-4), of None block page] by (auto simp: good_spare_def)
  have sp: "good_spare None" "spare_bytes None = []" by (simp_all add: good_spare_def spare_bytes_def)
  have r2: "\<exists>ok t es. NF_WritePage block page buf None s = Some (ok, t) \<and> linked m b t \<and> trace m b t = trace m b s @ es \<and>
      (ok = 1 \<and> mem (chip_after es c) = programmed (mem c) (32 * block + page) 0 (take 512 buf) \<or>
       ok = 0 \<and> mem (chip_after es c) = programmed (programmed (mem c) (32 * block + page) 0 (take 512 buf))
         (32 * block) 512 (bad_mark (seBuf s)))"
    using t by (rule write_page [OF assms(1-4) sp(1)])
      (simp_all add: t pn sp chip_effects se)
  show ?thesis using r1 r2 by blast
qed


definition blank_flash :: flash where
  "blank_flash = \<lparr>hist = [], port = \<lambda>h. 0, outCellValue = [], inCellValue = [], dataOutCellIndex = [],
     dataInCellIndex = [], addrCellIndex = [], seBuf = replicate 16 0xff, blockBuf = replicate 0x4000 0,
     image = [], file_pos = 0, at_eof = False, imageSize = 0, targetBlock = 0, targetSize = 0,
     console = [], printed = []\<rparr>"

definition blank_chip :: chip where
  "blank_chip = \<lparr>area = 0, mode = Idle, row_col = [], loaded = [], mem = \<lambda>r i. 255\<rparr>"

definition linked_flash_state :: flash where
  "linked_flash_state = K9S1208_JtagInit (S2410_InitCell blank_flash)"

lemma linked_flash_state_ok:
  "linked demo_tap cold_board linked_flash_state" "frame linked_flash_state = frame blank_flash"
  "spare_ok linked_flash_state"
proof -
  have "never_stuck demo_tap cold_board (port blank_flash)"
    by (simp add: blank_flash_def always_high)
  note i = init_linked_lemma [OF this, folded linked_flash_state_def]
  show "linked demo_tap cold_board linked_flash_state" "frame linked_flash_state = frame blank_flash" by (rule i)+
  have "seBuf linked_flash_state = replicate 16 0xff"
    using frame_fields(2) [OF i(2)] by (simp add: blank_flash_def)
  then show "spare_ok linked_flash_state" by (simp add: spare_ok_def bytes_def)
qed

theorem commands_change_chip_witness:
  "\<exists>ok t. NF_WritePage 7 3 (replicate 512 0xa5) None linked_flash_state = Some (ok, t)"
  using commands_change_chip [OF linked_flash_state_ok(1,3), of "replicate 512 0xa5" 7 3 blank_chip]
  by (auto simp: bytes_def)

text \<open>
  The reading commands follow the protocol of the data sheet and return what they read:
  \<open>NF_ReadPage\<close> all 528 bytes of the page, \<open>NF_CheckId\<close> maker and device code, \<open>NF_IsBadBlock\<close>
  whether the sixth spare byte of the first page is not \<open>0xff\<close>. Data are read only after the
  flash was seen ready.
\<close>

theorem reads_follow_protocol:
  assumes "linked m b s" "length buf = 512" "length sp = 16"
  shows "(\<exists>n vs ws t. NF_ReadPage block page buf (Some sp) s = Some (1, vs, Some ws, t) \<and> linked m b t \<and>
      length vs = 512 \<and> length ws = 16 \<and> trace m b t = trace m b s @ [Cmd 0, Addr 0] @
        map Addr (page_bytes (to_U32 (push_bit 5 block + page mod 32))) @ waited n @ map Dout (vs @ ws)) \<and>
    (\<exists>v w t. NF_CheckId s = (256 * v + w, t) \<and> linked m b t \<and>
      trace m b t = trace m b s @ [Cmd 0x90, Addr 0, Dout v, Dout w]) \<and>
    (\<exists>n v t. NF_IsBadBlock block s = Some (if v = 0xff then 0 else 1, t) \<and> linked m b t \<and>
      trace m b t = trace m b s @ [Cmd 0x50, Addr 5] @
        map Addr (page_bytes (to_U32 (push_bit 5 block))) @ waited n @ [Dout v])"
proof -
  obtain n vs ws t where "NF_ReadPage block page buf (Some sp) s = Some (1, vs, Some ws, t)"
    "length vs = 512" "length ws = 16" "linked m b t" "frame t = frame s"
    "trace m b t = trace m b s @ [Cmd 0, Addr 0] @ map Addr (page_bytes (to_U32 (push_bit 5 block + page mod 32))) @
      waited n @ map Dout (vs @ ws)"
    by (rule read_page [OF assms])
  then have r1: "\<exists>n vs ws t. NF_ReadPage block page buf (Some sp) s = Some (1, vs, Some ws, t) \<and> linked m b t \<and>
      length vs = 512 \<and> length ws = 16 \<and> trace m b t = trace m b s @ [Cmd 0, Addr 0] @
        map Addr (page_bytes (to_U32 (push_bit 5 block + page mod 32))) @ waited n @ map Dout (vs @ ws)"
    by blast
  obtain i t where "NF_CheckId s = (i, t)" by fastforce
  with check_id [OF assms(1) this] have r2: "\<exists>v w t. NF_CheckId s = (256 * v + w, t) \<and> linked m b t \<and>
      trace m b t = trace m b s @ [Cmd 0x90, Addr 0, Dout v, Dout w]" by metis
  obtain n v t where "NF_IsBadBlock block s = Some (if v = 0xff then 0 else 1, t)" "linked m b t" "frame t = frame s"
    "trace m b t = trace m b s @ [Cmd 0x50, Addr 5] @ map Addr (page_bytes (to_U32 (push_bit 5 block))) @ waited n @ [Dout v]"
    by (rule is_bad_block [OF assms(1)])
  then have r3: "\<exists>n v t. NF_IsBadBlock block s = Some (if v = 0xff then 0 else 1, t) \<and> linked m b t \<and>
      trace m b t = trace m b s @ [Cmd 0x50, Addr 5] @
        map Addr (page_bytes (to_U32 (push_bit 5 block))) @ waited n @ [Dout v]"
    by blast
  show ?thesis using r1 r2 r3 by blast
qed

theorem reads_follow_protocol_witness:
  "\<exists>n vs ws t. NF_ReadPage 7 35 (replicate 512 0) (Some (replicate 16 0)) linked_flash_state = Some (1, vs, Some ws, t)"
  using reads_follow_protocol [OF linked_flash_state_ok(1), of "replicate 512 0" "replicate 16 0" 7 35] by auto

end
