(* ===== verification/Sjf.thy ===== *)
theory Sjf
  imports K9S1208
begin

text \<open>
  The flash programmer as a program: \<open>sjf.c\<close> (\<open>main\<close>, the image file), the parallel port search
  of \<open>ppt.c\<close>, and \<open>K9S1208_Program\<close>, \<open>K9S1208_PrintBlock\<close> and \<open>K9S1208_Menu\<close> of \<open>k9s1208.c\<close>.

  \<open>scanf\<close> takes the next number of \<open>console\<close> and leaves its variable alone at the end of the
  input. The image file is the list \<open>image\<close>; \<open>feof\<close> becomes true when a read fails, not before.
  The file system, the answers of the port probe and what lies in uninitialised variables are
  parameters. The progress counters that are only printed are left out. The port probe writes
  \<open>0x55\<close> to the data port, which the history records for the port that is used.
\<close>

subsection \<open>The image file\<close>

definition fgetc :: "flash \<Rightarrow> int \<times> flash" where
  "fgetc s =
     (if file_pos s < length (image s) then (image s ! file_pos s, s\<lparr>file_pos := Suc (file_pos s)\<rparr>)
      else (- 1, s\<lparr>at_eof := True\<rparr>))"

fun load_bytes :: "nat list \<Rightarrow> nat \<Rightarrow> int list \<Rightarrow> flash \<Rightarrow> int \<times> int list \<times> flash" where
  "load_bytes [] n buf s = (int n, buf, s)"
| "load_bytes (i # is) n buf s =
     (if at_eof s then (int i, fold (\<lambda>j b. b[j := 0]) (i # is) buf, s)
      else case fgetc s of (c, s) \<Rightarrow> load_bytes is n (buf[i := c mod 256]) s)"

definition LoadImageFile :: "int list \<Rightarrow> nat \<Rightarrow> flash \<Rightarrow> int \<times> int list \<times> flash" where
  "LoadImageFile buf n s = load_bytes [0..<n] n buf s"

definition OpenImageFile :: "(string \<Rightarrow> int list option) \<Rightarrow> string \<Rightarrow> flash \<Rightarrow> flash option" where
  "OpenImageFile files filename s =
     (case files filename of None \<Rightarrow> None
      | Some bs \<Rightarrow> Some (s\<lparr>image := bs, file_pos := 0, at_eof := False, imageSize := to_U32 (int (length bs))\<rparr>))"

definition scanf_int :: "int \<Rightarrow> flash \<Rightarrow> int \<times> flash" where
  "scanf_int old s = (case console s of [] \<Rightarrow> (old, s) | v # vs \<Rightarrow> (v, s\<lparr>console := vs\<rparr>))"

subsection \<open>Programming\<close>

text \<open>The loop over the pages of a block; True when a write failed.\<close>

fun write_pages :: "int \<Rightarrow> nat list \<Rightarrow> flash \<Rightarrow> (bool \<times> flash) option" where
  "write_pages blockIndex [] s = Some (False, s)"
| "write_pages blockIndex (i # is) s = do {
     (ok, s) \<leftarrow> NF_WritePage blockIndex (int i) (drop (512 * i) (blockBuf s)) None s;
     if ok = 0 then Some (True, s) else write_pages blockIndex is s
   }"

definition load_block :: "int \<Rightarrow> flash \<Rightarrow> flash" where
  "load_block noLoad s =
     (if noLoad = 0 then (case LoadImageFile (blockBuf s) 0x4000 s of (n, buf, s) \<Rightarrow> s\<lparr>blockBuf := buf\<rparr>) else s)"

partial_function (option) program_loop :: "int \<Rightarrow> int \<Rightarrow> int \<Rightarrow> flash \<Rightarrow> flash option" where
  "program_loop blockIndex noLoad progSize s = do {
     (ok, s) \<leftarrow> NF_EraseBlock blockIndex (load_block noLoad s);
     if ok = 0 then program_loop (to_U32 (blockIndex + 1)) 1 progSize s
     else do {
       (programError, s) \<leftarrow> write_pages blockIndex [0..<32] s;
       if programError then program_loop (to_U32 (blockIndex + 1)) 1 progSize s
       else if to_U32 (progSize + 0x4000) \<ge> imageSize s then Some s
       else program_loop (to_U32 (blockIndex + 1)) 0 (to_U32 (progSize + 0x4000)) s
     }
   }"

definition K9S1208_Program :: "flash \<Rightarrow> flash option" where
  "K9S1208_Program s =
     (case scanf_int (targetBlock s) s of (n, s) \<Rightarrow>
        let s = s\<lparr>targetBlock := to_U32 n\<rparr>;
            s = s\<lparr>targetSize := to_U32 (to_U32 (imageSize s + 0x4000 - 1) div 0x4000 * 0x4000)\<rparr>
        in program_loop (targetBlock s) 0 0 s)"

text \<open>\<open>block0\<close>, \<open>page0\<close> and \<open>buffer\<close> are the uninitialised locals.\<close>

definition K9S1208_PrintBlock :: "int \<Rightarrow> int \<Rightarrow> int list \<Rightarrow> flash \<Rightarrow> flash option" where
  "K9S1208_PrintBlock block0 page0 buffer s = do {
     s \<leftarrow> NF_Init s;
     let (i, s) = NF_CheckId s;
     if i \<noteq> 0xec76 then Some s
     else do {
       let (block, s) = scanf_int block0 s;
       let (page, s) = scanf_int page0 s;
       (_, data, spare, s) \<leftarrow> NF_ReadPage block page (take 512 buffer) (Some (drop 512 buffer)) s;
       Some (s\<lparr>printed := printed s @ [data @ the spare]\<rparr>)
     }
   }"

subsection \<open>The menu\<close>

text \<open>
  \<open>ptr_size\<close> is the size of a pointer: \<open>sizeof(function)\<close> is that of 4 rows of 2 pointers. The
  rows hold the two functions, the constant 1, and null; a choice that reaches another value
  ends in a call of it (\<open>Bad_call\<close>). The display loop leaves 3 in \<open>i\<close>.
\<close>

datatype menu_end = No_chip | Left_menu | Bad_call int

definition menu_bound :: "int \<Rightarrow> int" where
  "menu_bound ptr_size = 4 * 2 * ptr_size div 8 - 2"

partial_function (option) menu_loop ::
  "int \<Rightarrow> int \<Rightarrow> int \<Rightarrow> int list \<Rightarrow> flash \<Rightarrow> (menu_end \<times> flash) option" where
  "menu_loop ptr_size block0 page0 buffer s = do {
     let (i, s) = scanf_int 3 s;
     if i \<ge> 0 \<and> i < menu_bound ptr_size then
       if i = 0 then do { s \<leftarrow> K9S1208_Program s; menu_loop ptr_size block0 page0 buffer s }
       else if i = 1 then do {
         s \<leftarrow> K9S1208_PrintBlock block0 page0 buffer s; menu_loop ptr_size block0 page0 buffer s }
       else Some (Bad_call i, s)
     else Some (Left_menu, s)
   }"

definition K9S1208_Menu ::
  "int \<Rightarrow> int \<Rightarrow> int \<Rightarrow> int list \<Rightarrow> flash \<Rightarrow> (menu_end \<times> flash) option" where
  "K9S1208_Menu ptr_size block0 page0 buffer s = do {
     s \<leftarrow> NF_Init (K9S1208_JtagInit s);
     let (i, s) = NF_CheckId s;
     if i \<noteq> 0xec76 then Some (No_chip, s) else menu_loop ptr_size block0 page0 buffer s
   }"

subsection \<open>The command line\<close>

definition LPT1 :: int where "LPT1 = 0x378"
definition LPT2 :: int where "LPT2 = 0x278"
definition LPT3 :: int where "LPT3 = 0x3bc"

text \<open>\<open>access p\<close>: the kernel grants the port; \<open>echo p\<close>: what it reads after \<open>0x55\<close> was written.\<close>

definition GetValidPpt :: "(int \<Rightarrow> bool) \<Rightarrow> (int \<Rightarrow> int) \<Rightarrow> int" where
  "GetValidPpt access echo =
     (if access LPT1 \<and> echo LPT1 = 0x55 then LPT1
      else if access LPT2 \<and> echo LPT2 = 0x55 then LPT2
      else if access LPT3 \<and> echo LPT3 = 0x55 then LPT3
      else 0)"

fun atoi_digits :: "int \<Rightarrow> string \<Rightarrow> int" where
  "atoi_digits v [] = v"
| "atoi_digits v (c # cs) =
     (let d = int (of_char c) - 48 in if 0 \<le> d \<and> d \<le> 9 then atoi_digits (10 * v + d) cs else v)"

definition is_space :: "char \<Rightarrow> bool" where
  "is_space c \<longleftrightarrow> (let n = of_char c :: nat in n = 32 \<or> 9 \<le> n \<and> n \<le> 13)"

definition atoi :: "string \<Rightarrow> int" where
  "atoi str =
     (case dropWhile is_space str of
        [] \<Rightarrow> 0
      | c # cs \<Rightarrow> if c = CHR ''-'' then - atoi_digits 0 cs
                  else if c = CHR ''+'' then atoi_digits 0 cs
                  else atoi_digits 0 (c # cs))"

text \<open>
  Memory behind an argument: \<open>beyond\<close> is what follows the terminator, for arguments that are
  shorter than the offsets the code reads at.
\<close>

definition arg_at :: "string \<Rightarrow> string \<Rightarrow> nat \<Rightarrow> char" where
  "arg_at beyond a i = (a @ [NUL] @ beyond) ! i"

definition arg_from :: "string \<Rightarrow> string \<Rightarrow> nat \<Rightarrow> string" where
  "arg_from beyond a i = takeWhile (\<lambda>c. c \<noteq> NUL) (drop i (a @ [NUL] @ beyond))"

datatype sjf_end = Usage | No_port | No_file | Unsupported | Menu_ended menu_end

definition sjf_main ::
  "string list \<Rightarrow> string \<Rightarrow> (string \<Rightarrow> int list option) \<Rightarrow> (int \<Rightarrow> bool) \<Rightarrow> (int \<Rightarrow> int) \<Rightarrow>
   int \<Rightarrow> int \<Rightarrow> int \<Rightarrow> int list \<Rightarrow> char list \<Rightarrow> flash \<Rightarrow> (sjf_end \<times> flash) option" where
  "sjf_main argv beyond files access echo ptr_size block0 page0 buffer id0 s =
     (if length argv < 3 then Some (Usage, s)
      else if arg_at beyond (argv ! 2) 1 \<noteq> CHR ''t'' then Some (Usage, s)
      else
        let flashType = to_U32 (atoi (arg_from beyond (argv ! 2) 3)) in
        if length argv \<noteq> 3 \<and> arg_at beyond (argv ! 3) 1 \<noteq> CHR ''d'' then Some (Usage, s)
        else if GetValidPpt access echo = 0 then Some (No_port, s)
        else (case OpenImageFile files (argv ! 1) (OutputPpt 0x55 s) of
                None \<Rightarrow> Some (No_file, s)
              | Some s \<Rightarrow>
                  let s = S2410_InitCell (snd (JTAG_ReadId id0 s)) in
                  if flashType \<in> {1, 2, 3, 4, 5} then do {
                    (e, s) \<leftarrow> K9S1208_Menu ptr_size block0 page0 buffer s;
                    Some (Menu_ended e, s)
                  } else Some (Unsupported, s)))"


subsection \<open>Loading\<close>

text \<open>What is left of the file, followed by the byte of the failing read and zeros.\<close>

definition padded :: "int list \<Rightarrow> nat \<Rightarrow> nat \<Rightarrow> int list" where
  "padded bs p n = take n (drop p bs @ 255 # replicate n 0)"

lemma length_padded [simp]: "length (padded bs p n) = n"
  by (simp add: padded_def)

lemma padded_Cons:
  assumes "p < length bs"
  shows "padded bs p (Suc n) = bs ! p # padded bs (Suc p) n"
proof -
  have "take k ((255 :: int) # replicate (Suc n) 0) = take k (255 # replicate n 0)" if "k \<le> n" for k
    using that by (cases k) (simp_all add: min_def del: replicate_Suc)
  then show ?thesis
    using assms by (simp add: padded_def Cons_nth_drop_Suc [symmetric] del: replicate_Suc)
qed

lemma fold_zeros:
  "k \<le> n \<Longrightarrow> n \<le> length buf \<Longrightarrow>
    fold (\<lambda>j b. b[j := 0]) [k..<n] buf = take k buf @ replicate (n - k) 0 @ drop n buf"
proof (induction n)
  case (Suc n)
  show ?case
  proof (cases "k = Suc n")
    case False
    then have "k \<le> n" using Suc.prems(1) by simp
    then have step: "fold (\<lambda>j b. b[j := 0]) [k..<Suc n] buf =
        (take k buf @ replicate (n - k) 0 @ drop n buf)[n := 0]"
      using Suc by simp
    have "(take k buf @ replicate (n - k) 0 @ drop n buf)[n := 0] =
        take k buf @ replicate (n - k) 0 @ 0 # drop (Suc n) buf"
      using Suc.prems(2) \<open>k \<le> n\<close>
      by (simp add: list_update_append Cons_nth_drop_Suc [symmetric])
    also have "replicate (n - k) 0 @ 0 # drop (Suc n) buf = replicate (Suc n - k) 0 @ drop (Suc n) buf"
      using \<open>k \<le> n\<close> by (simp add: Suc_diff_le replicate_app_Cons_same)
    finally show ?thesis using step by simp
  qed simp
qed simp

lemma load_at_eof:
  assumes "at_eof s" "k \<le> n" "length buf = n"
  shows "\<exists>r. load_bytes [k..<n] n buf s = (r, take k buf @ replicate (n - k) 0, s) \<and> r = int k"
proof (cases "k < n")
  case True
  then have "load_bytes [k..<n] n buf s = (int k, fold (\<lambda>j b. b[j := 0]) [k..<n] buf, s)"
    using assms(1) by (simp add: upt_conv_Cons)
  then show ?thesis using fold_zeros [of k n buf] assms(2,3) by simp
next
  case False
  then show ?thesis using assms(2,3) by simp
qed

lemma load_bytes_result:
  assumes "\<not> at_eof s" "k \<le> n" "length buf = n" "bytes (image s)" "file_pos s \<le> length (image s)"
  shows "\<exists>r u. load_bytes [k..<n] n buf s = (r, take k buf @ padded (image s) (file_pos s) (n - k), u) \<and>
    r = min (int n) (int k + int (length (image s) - file_pos s) + 1) \<and>
    u = s\<lparr>file_pos := min (length (image s)) (file_pos s + (n - k)),
          at_eof := (length (image s) < file_pos s + (n - k))\<rparr>"
  using assms
proof (induction "n - k" arbitrary: k buf s)
  case 0
  then show ?case by (cases s) (simp add: padded_def min_def)
next
  case (Suc j)
  then have k: "k < n" by simp
  have upt: "[k..<n] = k # [Suc k..<n]" using k by (rule upt_conv_Cons)
  show ?case
  proof (cases "file_pos s < length (image s)")
    case True
    let ?c = "image s ! file_pos s" and ?s = "s\<lparr>file_pos := Suc (file_pos s)\<rparr>"
    have "?c \<in> set (image s)" using True by simp
    then have c: "?c mod 256 = ?c" using Suc.prems(4) by (simp add: bytes_def)
    have pad: "padded (image s) (file_pos s) (n - k) = ?c # padded (image s) (Suc (file_pos s)) (n - Suc k)"
      using padded_Cons [OF True, of "n - Suc k"] k by (simp add: Suc_diff_Suc)
    have run: "load_bytes [k..<n] n buf s = load_bytes [Suc k..<n] n (buf[k := ?c]) ?s"
      using Suc.prems(1) True c by (simp add: upt fgetc_def)
    have j: "j = n - Suc k" using Suc.hyps(2) by simp
    have tk: "take (Suc k) (buf[k := ?c]) = take k buf @ [?c]"
      using k Suc.prems(3) by (simp add: take_Suc_conv_app_nth)
    have "\<not> at_eof ?s" "Suc k \<le> n" "length (buf[k := ?c]) = n" "bytes (image ?s)"
      "file_pos ?s \<le> length (image ?s)"
      using Suc.prems True k by simp_all
    from Suc.hyps(1) [OF j this] obtain r u where ih:
      "load_bytes [Suc k..<n] n (buf[k := ?c]) ?s = (r, (take k buf @ [?c]) @ padded (image s) (Suc (file_pos s)) (n - Suc k), u)"
      "r = min (int n) (int (Suc k) + int (length (image s) - Suc (file_pos s)) + 1)"
      "u = s\<lparr>file_pos := min (length (image s)) (Suc (file_pos s) + (n - Suc k)),
          at_eof := length (image s) < Suc (file_pos s) + (n - Suc k)\<rparr>"
      by (auto simp: tk)
    have pos: "Suc (file_pos s) + (n - Suc k) = file_pos s + (n - k)" using k by simp
    have "int (Suc k) + int (length (image s) - Suc (file_pos s)) = int k + int (length (image s) - file_pos s)"
      using True by simp
    then show ?thesis using ih unfolding run pad pos by simp
  next
    case False
    let ?s = "s\<lparr>at_eof := True\<rparr>"
    have run: "load_bytes [k..<n] n buf s = load_bytes [Suc k..<n] n (buf[k := 255]) ?s"
      using Suc.prems(1) False by (simp add: upt fgetc_def)
    have len: "file_pos s = length (image s)" using False Suc.prems(5) by simp
    have tk: "take (Suc k) (buf[k := 255]) = take k buf @ [255]"
      using k Suc.prems(3) by (simp add: take_Suc_conv_app_nth)
    have "padded (image s) (file_pos s) (n - k) = 255 # replicate (n - Suc k) 0"
      using k len by (simp add: padded_def take_Cons' min_def)
    then show ?thesis
      using load_at_eof [of ?s "Suc k" n "buf[k := 255]"] k Suc.prems(3) len tk
      unfolding run by (cases s) (auto simp: min_def)
  qed
qed


text \<open>
  \<open>LoadImageFile\<close> fills the whole buffer: with the next bytes of the file, then, when the
  file ends before the buffer, the byte 255 of the read that failed and zeros. The result counts
  that byte too, so it is one more than the number of bytes loaded.
\<close>

theorem load_image_file_pads:
  assumes "\<not> at_eof s" "length buf = n" "bytes (image s)" "file_pos s \<le> length (image s)"
  shows "\<exists>u. LoadImageFile buf n s =
      (min (int n) (int (length (image s) - file_pos s) + 1),
       take n (drop (file_pos s) (image s) @ 255 # replicate n 0), u) \<and>
      file_pos u = min (length (image s)) (file_pos s + n) \<and>
      (at_eof u \<longleftrightarrow> length (image s) < file_pos s + n)"
  using load_bytes_result [OF assms(1) _ assms(2-4), of 0]
  by (auto simp: LoadImageFile_def padded_def)

theorem load_image_file_pads_witness:
  "\<exists>u. LoadImageFile [7, 7, 7, 7, 7] 5 (blank_flash\<lparr>image := [1, 2, 3]\<rparr>) = (4, [1, 2, 3, 255, 0], u)"
  using load_image_file_pads [of "blank_flash\<lparr>image := [1, 2, 3]\<rparr>" "[7, 7, 7, 7, 7]" 5]
  by (auto simp: blank_flash_def bytes_def)

end
