(* ===== verification/Flashing.thy ===== *)
theory Flashing
  imports Sjf
begin

text \<open>
  What programming the flash does. The cycles of \<open>K9S1208_Program\<close> are described by \<open>burns\<close>: which
  blocks were tried, which failed and were marked, and which chunk of the image went into which
  block; \<open>chip_step\<close> turns that into the contents of the flash. A flash in which only finitely
  many status reads report an error (\<open>few_failures\<close>) is programmed completely; one that always
  reports an error keeps the loop going for ever. The menu and the command line follow.
\<close>

subsection \<open>What programming does\<close>

text \<open>
  The cycles of a block: all pages written (\<open>pages_burnt\<close>), or some written and then one that
  failed, after which the block is marked (\<open>pages_failed\<close>).
\<close>

definition page_cycles :: "int \<Rightarrow> int list \<Rightarrow> nat \<Rightarrow> nat \<Rightarrow> int \<Rightarrow> cycle list" where
  "page_cycles blk d i n v =
     write_cycles (to_U32 (push_bit 5 blk + int i)) (take 512 (drop (512 * i) d)) @ status 0x10 n v"

definition mark_ok :: "int list \<Rightarrow> bool" where
  "mark_ok se \<longleftrightarrow> length se = 16 \<and> bytes se \<and> se ! 0 = 0xff \<and> se ! 1 = 0xff \<and> se ! 2 = 0xff \<and> se ! 5 = 0x44"

definition marked :: "int \<Rightarrow> cycle list \<Rightarrow> bool" where
  "marked blk cs \<longleftrightarrow>
     (\<exists>se n v. mark_ok se \<and> cs = mark_cycles (to_U32 (push_bit 5 blk)) se @ status 0x10 n v)"

lemma mark_ok_bad: "spare_ok s \<Longrightarrow> mark_ok (bad_mark (seBuf s))"
  using bytes_bad_mark [of "seBuf s"]
  by (simp add: spare_ok_def mark_ok_def bad_mark_def)

inductive pages_burnt :: "int \<Rightarrow> int list \<Rightarrow> nat list \<Rightarrow> cycle list \<Rightarrow> bool" for blk d where
  none: "pages_burnt blk d [] []"
| page: "even v \<Longrightarrow> pages_burnt blk d is cs \<Longrightarrow> pages_burnt blk d (i # is) (page_cycles blk d i n v @ cs)"

inductive pages_failed :: "int \<Rightarrow> int list \<Rightarrow> nat list \<Rightarrow> cycle list \<Rightarrow> bool" for blk d where
  fails: "odd v \<Longrightarrow> marked blk ms \<Longrightarrow> pages_failed blk d (i # is) (page_cycles blk d i n v @ ms)"
| later: "even v \<Longrightarrow> pages_failed blk d is cs \<Longrightarrow> pages_failed blk d (i # is) (page_cycles blk d i n v @ cs)"

definition erase_status :: "int \<Rightarrow> nat \<Rightarrow> int \<Rightarrow> cycle list" where
  "erase_status blk n v = erase_cycles (to_U32 (push_bit 5 blk)) @ status 0xd0 n v"

inductive block_burnt :: "int \<Rightarrow> int list \<Rightarrow> cycle list \<Rightarrow> bool" for blk d where
  "even v \<Longrightarrow> pages_burnt blk d [0..<32] cs \<Longrightarrow> block_burnt blk d (erase_status blk n v @ cs)"

inductive block_failed :: "int \<Rightarrow> int list \<Rightarrow> cycle list \<Rightarrow> bool" for blk d where
  erase: "odd v \<Longrightarrow> marked blk ms \<Longrightarrow> block_failed blk d (erase_status blk n v @ ms)"
| pages: "even v \<Longrightarrow> pages_failed blk d [0..<32] cs \<Longrightarrow> block_failed blk d (erase_status blk n v @ cs)"

text \<open>
  \<open>burns d blk k K vs cs\<close>: from block \<open>blk\<close> on, the chunks \<open>d k\<close>, ..., \<open>d (K - 1)\<close> are burnt
  by \<open>cs\<close>, each into the next block that does not fail; \<open>vs\<close> lists the blocks tried, with
  True for those that were burnt.
\<close>

inductive burns :: "(nat \<Rightarrow> int list) \<Rightarrow> nat \<Rightarrow> int \<Rightarrow> nat \<Rightarrow> (int \<times> bool) list \<Rightarrow> cycle list \<Rightarrow> bool" for d K where
  last: "block_burnt blk (d k) cs \<Longrightarrow> Suc k = K \<Longrightarrow> burns d K blk k [(blk, True)] cs"
| good: "block_burnt blk (d k) cs \<Longrightarrow> Suc k < K \<Longrightarrow> burns d K (to_U32 (blk + 1)) (Suc k) vs es \<Longrightarrow>
    burns d K blk k ((blk, True) # vs) (cs @ es)"
| skip: "block_failed blk (d k) cs \<Longrightarrow> burns d K (to_U32 (blk + 1)) k vs es \<Longrightarrow>
    burns d K blk k ((blk, False) # vs) (cs @ es)"

text \<open>While a block is programmed only the pattern of the spare area changes.\<close>

definition same_job :: "flash \<Rightarrow> flash \<Rightarrow> bool" where
  "same_job s t \<longleftrightarrow> frame t = frame (s\<lparr>seBuf := seBuf t\<rparr>) \<and> spare_ok t"

lemma frame_ext: "frame (t :: flash) = frame s \<longleftrightarrow> port t = port s \<and> seBuf t = seBuf s \<and> blockBuf t = blockBuf s \<and>
   image t = image s \<and> file_pos t = file_pos s \<and> at_eof t = at_eof s \<and> imageSize t = imageSize s \<and>
   targetBlock t = targetBlock s \<and> targetSize t = targetSize s \<and> console t = console s \<and> printed t = printed s"
  by (cases t, cases s) (auto simp: frame_def)

lemma same_job_simps:
  assumes "same_job s t"
  shows "blockBuf t = blockBuf s" "image t = image s" "file_pos t = file_pos s" "at_eof t = at_eof s"
    "imageSize t = imageSize s" "spare_ok t"
  using assms by (simp_all add: same_job_def frame_ext)

lemma same_job_trans: "same_job s t \<Longrightarrow> same_job t u \<Longrightarrow> same_job s u"
  by (simp add: same_job_def frame_ext)

lemma same_job_good: "frame t = frame s \<Longrightarrow> spare_ok s \<Longrightarrow> same_job s t"
  by (simp add: same_job_def frame_ext spare_ok_def)

lemma same_job_bad: "frame t = frame (s\<lparr>seBuf := bad_mark (seBuf s)\<rparr>) \<Longrightarrow> spare_ok s \<Longrightarrow> same_job s t"
  by (simp add: same_job_def frame_ext spare_ok_def bytes_bad_mark) (simp add: bad_mark_def)

lemma write_pages_run:
  assumes "linked m b s" "spare_ok s" "bytes (blockBuf s)" "length (blockBuf s) = 0x4000" "set is \<subseteq> {..<32}"
    and "write_pages blk is s = Some (e, t)"
  shows "linked m b t \<and> same_job s t \<and> (\<exists>cs. trace m b t = trace m b s @ cs \<and>
    (if e then pages_failed blk (blockBuf s) is cs else pages_burnt blk (blockBuf s) is cs))"
  using assms
proof (induction "is" arbitrary: s)
  case Nil
  then show ?case by (auto intro: same_job_good pages_burnt.none)
next
  case (Cons i "is")
  let ?d = "blockBuf s"
  obtain ok u where u: "NF_WritePage blk (int i) (drop (512 * i) ?d) None s = Some (ok, u)"
    "(if ok = 0 then Some (True, u) else write_pages blk is u) = Some (e, t)"
    using Cons.prems(6) by (auto split: bind_splits)
  have buf: "bytes (drop (512 * i) ?d)" "512 \<le> length (drop (512 * i) ?d)" "good_spare None" "spare_bytes None = []"
    using Cons.prems(3-5) by (auto simp: bytes_def good_spare_def spare_bytes_def dest: in_set_dropD)
  show ?case
  proof (rule write_page [OF Cons.prems(1,2) buf(1-3) u(1)])
    fix n v
    assume w: "ok = 1" "even v" "linked m b u" "frame u = frame s"
      "trace m b u = trace m b s @ write_cycles (to_U32 (push_bit 5 blk + int i))
        (take 512 (drop (512 * i) ?d) @ spare_bytes None) @ status 0x10 n v"
    have job: "same_job s u" using w(4) Cons.prems(2) by (rule same_job_good)
    note same = same_job_simps [OF job]
    have "linked m b t \<and> same_job u t \<and> (\<exists>cs. trace m b t = trace m b u @ cs \<and>
      (if e then pages_failed blk (blockBuf u) is cs else pages_burnt blk (blockBuf u) is cs))"
      using Cons.IH [OF w(3)] Cons.prems(3-5) u(2) w(1) same by simp
    moreover have "trace m b u = trace m b s @ page_cycles blk ?d i n v"
      by (simp add: w(5) page_cycles_def buf(4))
    ultimately show ?thesis
      using same_job_trans [OF job] same(1) w(2)
      by (auto split: if_splits intro: pages_burnt.page pages_failed.later)
  next
    fix n v n' v'
    assume w: "ok = 0" "odd v" "linked m b u" "frame u = frame (s\<lparr>seBuf := bad_mark (seBuf s)\<rparr>)"
      "trace m b u = trace m b s @ write_cycles (to_U32 (push_bit 5 blk + int i))
        (take 512 (drop (512 * i) ?d) @ spare_bytes None) @ status 0x10 n v @
        mark_cycles (to_U32 (push_bit 5 blk)) (bad_mark (seBuf s)) @ status 0x10 n' v'"
    have "marked blk (mark_cycles (to_U32 (push_bit 5 blk)) (bad_mark (seBuf s)) @ status 0x10 n' v')"
      using mark_ok_bad [OF Cons.prems(2)] by (auto simp: marked_def)
    from pages_failed.fails [OF w(2) this, of ?d i "is" n] show ?thesis
      using u(2) w same_job_bad [OF w(4) Cons.prems(2)] by (simp add: page_cycles_def buf(4))
  qed
qed


text \<open>One round of the loop: erase and write a block; True when it failed.\<close>

definition try_block :: "int \<Rightarrow> flash \<Rightarrow> (bool \<times> flash) option" where
  "try_block blk s = do {
     (ok, s) \<leftarrow> NF_EraseBlock blk s;
     if ok = 0 then Some (True, s) else write_pages blk [0..<32] s
   }"

lemma loop_body:
  "do {
     (ok, s) \<leftarrow> NF_EraseBlock blk (load_block noLoad s);
     if ok = 0 then f (to_U32 (blk + 1)) 1 progSize s
     else do {
       (programError, s) \<leftarrow> write_pages blk [0..<32] s;
       if programError then f (to_U32 (blk + 1)) 1 progSize s
       else if to_U32 (progSize + 0x4000) \<ge> imageSize s then Some s
       else f (to_U32 (blk + 1)) 0 (to_U32 (progSize + 0x4000)) s
     }
   } = do {
     (failed, s) \<leftarrow> try_block blk (load_block noLoad s);
     if failed then f (to_U32 (blk + 1)) 1 progSize s
     else if to_U32 (progSize + 0x4000) \<ge> imageSize s then Some s
     else f (to_U32 (blk + 1)) 0 (to_U32 (progSize + 0x4000)) s
   }"
proof (cases "NF_EraseBlock blk (load_block noLoad s)")
  case None
  then show ?thesis by (simp add: try_block_def)
next
  case (Some r)
  obtain ok u where r: "r = (ok, u)" by fastforce
  show ?thesis
    by (cases "ok = 0") (simp_all add: try_block_def Some r del: upt_rec_numeral)
qed

lemmas program_loop_rounds = program_loop.simps [unfolded loop_body]

definition ready_buf :: "flash \<Rightarrow> bool" where
  "ready_buf s \<longleftrightarrow> spare_ok s \<and> bytes (blockBuf s) \<and> length (blockBuf s) = 0x4000"

lemma same_job_ready: "same_job s t \<Longrightarrow> ready_buf s \<Longrightarrow> ready_buf t"
  by (simp add: ready_buf_def same_job_simps)

lemma all_pages: "set [0..<32] \<subseteq> {..<32 :: nat}"
  by auto

lemma try_block_run:
  assumes "linked m b s" "ready_buf s" "try_block blk s = Some (e, t)"
  shows "linked m b t \<and> same_job s t \<and> (\<exists>cs. trace m b t = trace m b s @ cs \<and>
    (if e then block_failed blk (blockBuf s) cs else block_burnt blk (blockBuf s) cs))"
proof -
  have sp: "spare_ok s" using assms(2) by (simp add: ready_buf_def)
  obtain ok u where u: "NF_EraseBlock blk s = Some (ok, u)"
    "(if ok = 0 then Some (True, u) else write_pages blk [0..<32] u) = Some (e, t)"
    using assms(3) by (auto simp: try_block_def split: bind_splits)
  show ?thesis
  proof (rule erase_block [OF assms(1) sp u(1)])
    fix n v
    assume w: "ok = 1" "even v" "linked m b u" "frame u = frame s"
      "trace m b u = trace m b s @ erase_cycles (to_U32 (push_bit 5 blk)) @ status 0xd0 n v"
    have job: "same_job s u" using w(4) sp by (rule same_job_good)
    have pages: "write_pages blk [0..<32] u = Some (e, t)" using u(2) w(1) by simp
    have "ready_buf u" using same_job_ready [OF job assms(2)] .
    then have "linked m b t \<and> same_job u t \<and> (\<exists>cs. trace m b t = trace m b u @ cs \<and>
        (if e then pages_failed blk (blockBuf u) [0..<32] cs else pages_burnt blk (blockBuf u) [0..<32] cs))"
      using write_pages_run [OF w(3) _ _ _ all_pages pages] unfolding ready_buf_def by blast
    moreover have "trace m b u = trace m b s @ erase_status blk n v" by (simp add: w(5) erase_status_def)
    ultimately show ?thesis
      using same_job_trans [OF job] same_job_simps(1) [OF job] w(2)
      by (auto split: if_splits intro: block_burnt.intros block_failed.pages)
  next
    fix n v n' v'
    assume w: "ok = 0" "odd v" "linked m b u" "frame u = frame (s\<lparr>seBuf := bad_mark (seBuf s)\<rparr>)"
      "trace m b u = trace m b s @ erase_cycles (to_U32 (push_bit 5 blk)) @ status 0xd0 n v @
        mark_cycles (to_U32 (push_bit 5 blk)) (bad_mark (seBuf s)) @ status 0x10 n' v'"
    have "marked blk (mark_cycles (to_U32 (push_bit 5 blk)) (bad_mark (seBuf s)) @ status 0x10 n' v')"
      using mark_ok_bad [OF sp] by (auto simp: marked_def)
    from block_failed.erase [OF w(2) this, of "blockBuf s" n] show ?thesis
      using u(2) w same_job_bad [OF w(4) sp] by (simp add: erase_status_def)
  qed
qed

lemma write_pages_return:
  assumes "linked m b s" "ready_buf s" "set is \<subseteq> {..<32}"
  shows "write_pages blk is s \<noteq> None"
  using assms
proof (induction "is" arbitrary: s)
  case (Cons i "is")
  have s: "spare_ok s" "bytes (blockBuf s)" "length (blockBuf s) = 0x4000"
    using Cons.prems(2) by (simp_all add: ready_buf_def)
  have buf: "bytes (drop (512 * i) (blockBuf s))" "512 \<le> length (drop (512 * i) (blockBuf s))" "good_spare None"
    using s Cons.prems(3) by (auto simp: bytes_def good_spare_def dest: in_set_dropD)
  obtain ok u where u: "NF_WritePage blk (int i) (drop (512 * i) (blockBuf s)) None s = Some (ok, u)"
    using commands_return(2) [OF Cons.prems(1) s(1) buf, of blk "int i"] by (auto simp only: not_None_eq split_paired_Ex)
  show ?case
  proof (cases "ok = 0")
    case True
    then show ?thesis by (simp add: u)
  next
    case False
    then have pages: "write_pages blk [i] s = Some (False, u)" by (simp add: u)
    have "set [i] \<subseteq> {..<32}" using Cons.prems(3) by simp
    from write_pages_run [OF Cons.prems(1) s this pages]
    have "linked m b u" "same_job s u" by simp_all
    then have "write_pages blk is u \<noteq> None"
      using Cons.IH [of u] same_job_ready Cons.prems(2,3) by auto
    then show ?thesis using False by (simp add: u)
  qed
qed simp

lemma try_block_returns:
  assumes "linked m b s" "ready_buf s"
  shows "try_block blk s \<noteq> None"
proof -
  have sp: "spare_ok s" using assms(2) by (simp add: ready_buf_def)
  obtain ok u where u: "NF_EraseBlock blk s = Some (ok, u)"
    using commands_return(1) [OF assms(1) sp, of blk] by auto
  show ?thesis
  proof (cases "ok = 0")
    case True
    then show ?thesis by (simp add: try_block_def u)
  next
    case False
    then have "linked m b u \<and> same_job s u"
      using u sp by (auto elim!: erase_block [OF assms(1) sp] intro: same_job_good)
    then have "write_pages blk [0..<32] u \<noteq> None"
      using same_job_ready [OF _ assms(2)] by (intro write_pages_return [of m b]) auto
    then show ?thesis using False by (simp add: try_block_def u del: upt_rec_numeral)
  qed
qed

subsection \<open>Flashes that fail a bounded number of times\<close>

text \<open>Status reads of a trace that report an error.\<close>

fun failures :: "cycle list \<Rightarrow> nat" where
  "failures [] = 0"
| "failures (c # cs) =
     (case cs of Dout v # _ \<Rightarrow> if c = Cmd 0x70 \<and> odd v then 1 else 0 | _ \<Rightarrow> 0) + failures cs"

text \<open>
  \<open>few_failures N\<close>: after \<open>N\<close> errors the flash reports no more: when a status read is under way,
  the answer sampled for data line 0 is low. \<open>always_fails\<close> is the opposite.
\<close>

definition status_asked :: "monitor \<Rightarrow> nand_board \<Rightarrow> port_act list \<Rightarrow> cycle list \<Rightarrow> bool" where
  "status_asked m b h es \<longleftrightarrow> tap (fold observe h m) \<in> {Shift_DR, Exit1_DR} \<and>
     length (bits_in (fold observe h m)) = Suc (DATA_IN ! 0) \<and>
     bus (fold drive (scans (fold observe h m)) b) = es @ [Cmd 0x70]"

definition few_failures :: "nat \<Rightarrow> monitor \<Rightarrow> nand_board \<Rightarrow> (port_act list \<Rightarrow> int) \<Rightarrow> bool" where
  "few_failures N m b wires \<longleftrightarrow>
     (\<forall>h es. status_asked m b h es \<longrightarrow> N \<le> failures es \<longrightarrow> wires h AND push_bit 7 1 \<noteq> 0)"

definition always_fails :: "monitor \<Rightarrow> nand_board \<Rightarrow> (port_act list \<Rightarrow> int) \<Rightarrow> bool" where
  "always_fails m b wires \<longleftrightarrow> (\<forall>h es. status_asked m b h es \<longrightarrow> wires h AND push_bit 7 1 = 0)"

lemma failures_append: "failures xs + failures ys \<le> failures (xs @ ys)"
proof (induction xs)
  case (Cons x xs)
  then show ?case by (cases xs) (auto split: list.split cycle.split)
qed simp

lemma failures_status: "odd v \<Longrightarrow> 1 \<le> failures (xs @ status c n v @ ys)"
  using failures_append [of xs "status c n v @ ys"] failures_append [of "[Cmd c] @ waited n" "[Cmd 0x70, Dout v] @ ys"]
  by (simp add: status_def)

lemma status_read:
  assumes "linked m b s" "chip_on s" "trace m b s = es @ [Cmd 0x70]" "NF_RDDATA s = (v, t)"
  shows "few_failures N m b (port s) \<Longrightarrow> N \<le> failures es \<Longrightarrow> even v"
    and "always_fails m b (port s) \<Longrightarrow> odd v"
proof -
  obtain h where h: "odd v \<longleftrightarrow> port s h AND push_bit 7 1 = 0" "status_asked m b h es"
    using nf_read [OF assms(1,2)] assms(3,4) unfolding status_asked_def by (metis prod.inject)
  then show "few_failures N m b (port s) \<Longrightarrow> N \<le> failures es \<Longrightarrow> even v"
    "always_fails m b (port s) \<Longrightarrow> odd v"
    by (auto simp: few_failures_def always_fails_def)
qed

lemma finish_result:
  assumes "linked m b s \<and> chip_on s" "0 \<le> c" "c < 256" "finish blk c s = Some (ok, t)"
  shows "few_failures N m b (port s) \<Longrightarrow> N \<le> failures (trace m b s) \<Longrightarrow> ok = 1"
    and "always_fails m b (port s) \<Longrightarrow> ok = 0"
proof -
  obtain n v u w where u: "NF_WAITRB (NF_CMD c s) = Some u" "NF_RDDATA (NF_CMD 0x70 u) = (v, w)"
    by (rule nand.confirm [OF assms(1-3)])
  have "linked m b (NF_CMD c s)" using nf_cmd [of m b s c] assms(1-3) by simp
  from nf_waitrb [OF this] obtain n where n: "linked m b u" "frame u = frame (NF_CMD c s)"
    "trace m b u = trace m b (NF_CMD c s) @ waited n"
    using u(1) by auto
  let ?x = "NF_CMD 0x70 u"
  have x: "linked m b ?x" "chip_on ?x" "trace m b ?x = (trace m b s @ [Cmd c] @ waited n) @ [Cmd 0x70]"
    "port ?x = port s"
    using nf_cmd [OF n(1), of "0x70"] nf_cmd [of m b s c] n assms(1-3) by (auto simp: frame_def)
  note read = status_read [OF x(1-3) u(2), unfolded x(4)]
  have "failures (trace m b s) \<le> failures (trace m b s @ [Cmd c] @ waited n)"
    using failures_append [of "trace m b s" "[Cmd c] @ waited n"] by simp
  then show "few_failures N m b (port s) \<Longrightarrow> N \<le> failures (trace m b s) \<Longrightarrow> ok = 1"
    "always_fails m b (port s) \<Longrightarrow> ok = 0"
    using assms(4) read by (auto simp: finish_def u status_bit split: bind_splits)
qed

lemma erase_result:
  assumes "linked m b s" "NF_EraseBlock blk s = Some (ok, t)"
  shows "few_failures N m b (port s) \<Longrightarrow> N \<le> failures (trace m b s) \<Longrightarrow> ok = 1"
    and "always_fails m b (port s) \<Longrightarrow> ok = 0"
proof -
  obtain u where u: "NF_EraseBlock blk s = finish blk 0xd0 u" "linked m b u \<and> chip_on u"
    "frame u = frame s" "trace m b u = trace m b s @ erase_cycles (to_U32 (push_bit 5 blk))"
    by (rule erase_start [OF assms(1)])
  have "port u = port s" using u(3) by (simp add: frame_def)
  moreover have "failures (trace m b s) \<le> failures (trace m b u)"
    using failures_append [of "trace m b s"] by (simp add: u(4)) (meson add_leE)
  ultimately show "few_failures N m b (port s) \<Longrightarrow> N \<le> failures (trace m b s) \<Longrightarrow> ok = 1"
    "always_fails m b (port s) \<Longrightarrow> ok = 0"
    using finish_result [OF u(2) confirm_codes(3,4) assms(2) [unfolded u(1)]] by auto
qed

lemma write_result:
  assumes "linked m b s" "bytes buf" "512 \<le> length buf" "good_spare sp"
    and "NF_WritePage blk page buf sp s = Some (ok, t)"
    and "few_failures N m b (port s)" "N \<le> failures (trace m b s)"
  shows "ok = 1"
proof -
  obtain u where u: "NF_WritePage blk page buf sp s = finish blk 0x10 u" "linked m b u \<and> chip_on u"
    "frame u = frame s" "trace m b u = trace m b s @
      write_cycles (to_U32 (push_bit 5 blk + page)) (take 512 buf @ spare_bytes sp)"
    by (rule write_start [OF assms(1-4)])
  have "port u = port s" using u(3) by (simp add: frame_def)
  moreover have "failures (trace m b s) \<le> failures (trace m b u)"
    using failures_append [of "trace m b s"] by (simp add: u(4)) (meson add_leE)
  ultimately show ?thesis
    using finish_result(1) [OF u(2) confirm_codes(1,2) assms(5) [unfolded u(1)]] assms(6,7) by auto
qed

lemma failures_trace: "trace m b t = trace m b s @ cs \<Longrightarrow> failures (trace m b s) \<le> failures (trace m b t)"
  using failures_append [of "trace m b s" cs] by simp

lemma same_job_port: "same_job s t \<Longrightarrow> port t = port s"
  by (simp add: same_job_def frame_ext)

lemma write_pages_result:
  assumes "linked m b s" "ready_buf s" "set is \<subseteq> {..<32}" "write_pages blk is s = Some (e, t)"
    and "few_failures N m b (port s)" "N \<le> failures (trace m b s)"
  shows "\<not> e"
  using assms
proof (induction "is" arbitrary: s)
  case (Cons i "is")
  have s: "spare_ok s" "bytes (blockBuf s)" "length (blockBuf s) = 0x4000"
    using Cons.prems(2) by (simp_all add: ready_buf_def)
  have buf: "bytes (drop (512 * i) (blockBuf s))" "512 \<le> length (drop (512 * i) (blockBuf s))" "good_spare None"
    using s Cons.prems(3) by (auto simp: bytes_def good_spare_def dest: in_set_dropD)
  obtain ok u where u: "NF_WritePage blk (int i) (drop (512 * i) (blockBuf s)) None s = Some (ok, u)"
    "(if ok = 0 then Some (True, u) else write_pages blk is u) = Some (e, t)"
    using Cons.prems(4) by (auto split: bind_splits)
  have ok: "ok = 1" by (rule write_result [OF Cons.prems(1) buf u(1) Cons.prems(5,6)])
  then have pages: "write_pages blk [i] s = Some (False, u)" by (simp add: u(1))
  have "set [i] \<subseteq> {..<32}" using Cons.prems(3) by simp
  from write_pages_run [OF Cons.prems(1) s this pages]
  obtain cs where cs: "linked m b u" "same_job s u" "trace m b u = trace m b s @ cs" by auto
  have "few_failures N m b (port u)" "N \<le> failures (trace m b u)"
    using Cons.prems(5,6) same_job_port [OF cs(2)] failures_trace [OF cs(3)] by auto
  moreover have "write_pages blk is u = Some (e, t)" using u(2) ok by simp
  ultimately show ?case
    using Cons.IH [OF cs(1) same_job_ready [OF cs(2) Cons.prems(2)]] Cons.prems(3) by simp
qed simp

lemma try_block_result:
  assumes "linked m b s" "ready_buf s" "try_block blk s = Some (e, t)"
  shows "few_failures N m b (port s) \<Longrightarrow> N \<le> failures (trace m b s) \<Longrightarrow> \<not> e"
    and "always_fails m b (port s) \<Longrightarrow> e"
proof -
  have sp: "spare_ok s" using assms(2) by (simp add: ready_buf_def)
  obtain ok u where u: "NF_EraseBlock blk s = Some (ok, u)"
    "(if ok = 0 then Some (True, u) else write_pages blk [0..<32] u) = Some (e, t)"
    using assms(3) by (auto simp: try_block_def split: bind_splits)
  show "always_fails m b (port s) \<Longrightarrow> e"
    using erase_result(2) [OF assms(1) u(1)] u(2) by simp
  assume few: "few_failures N m b (port s)" "N \<le> failures (trace m b s)"
  then have ok: "ok = 1" by (rule erase_result(1) [OF assms(1) u(1)])
  obtain n v where w: "linked m b u" "frame u = frame s"
    "trace m b u = trace m b s @ erase_cycles (to_U32 (push_bit 5 blk)) @ status 0xd0 n v"
    by (rule erase_block [OF assms(1) sp u(1)]) (use ok in auto)
  have job: "same_job s u" using w(2) sp by (rule same_job_good)
  have "write_pages blk [0..<32] u = Some (e, t)" using u(2) ok by simp
  from write_pages_result [OF w(1) same_job_ready [OF job assms(2)] all_pages this]
  show "\<not> e" using few same_job_port [OF job] failures_trace [OF w(3)] by auto
qed

subsection \<open>The chunks of the image\<close>

text \<open>
  What the loads put into the buffer when the file \<open>bs\<close> is at position \<open>p\<close>, with the end-of-file
  flag \<open>e\<close>, before the first of them; \<open>file_at\<close> is the state of the file after \<open>k\<close> loads.
\<close>

definition loads :: "int list \<Rightarrow> nat \<Rightarrow> bool \<Rightarrow> nat \<Rightarrow> int list" where
  "loads bs p e k =
     (if e \<or> length bs < p + 0x4000 * k then replicate 0x4000 0 else padded bs (p + 0x4000 * k) 0x4000)"

definition file_at :: "int list \<Rightarrow> nat \<Rightarrow> bool \<Rightarrow> nat \<Rightarrow> flash \<Rightarrow> bool" where
  "file_at bs p e k s \<longleftrightarrow> image s = bs \<and> file_pos s = min (length bs) (p + 0x4000 * k) \<and>
     (at_eof s \<longleftrightarrow> e \<or> length bs < p + 0x4000 * k)"

definition good_file :: "int list \<Rightarrow> nat \<Rightarrow> bool \<Rightarrow> bool" where
  "good_file bs p e \<longleftrightarrow> bytes bs \<and> p \<le> length bs \<and> (e \<longrightarrow> p = length bs)"

text \<open>What the loop does not change.\<close>

definition settings :: "flash \<Rightarrow> (port_act list \<Rightarrow> int) \<times> int list \<times> int \<times> int list" where
  "settings s = (port s, image s, imageSize s, console s)"

lemma settings_job: "same_job s t \<Longrightarrow> settings t = settings s"
  by (simp add: settings_def same_job_def frame_ext)

lemma bytes_padded: "bytes bs \<Longrightarrow> bytes (padded bs p n)"
  by (auto simp: padded_def bytes_def dest!: in_set_takeD in_set_dropD)

lemma load_block_step:
  assumes "file_at bs p e k s" "ready_buf s" "good_file bs p e"
  shows "file_at bs p e (Suc k) (load_block 0 s) \<and> blockBuf (load_block 0 s) = loads bs p e k \<and>
    ready_buf (load_block 0 s) \<and> settings (load_block 0 s) = settings s \<and>
    linked m b (load_block 0 s) = linked m b s \<and> trace m b (load_block 0 s) = trace m b s"
proof (cases "at_eof s")
  case True
  have len: "length (blockBuf s) = 0x4000" using assms(2) by (simp add: ready_buf_def)
  from load_at_eof [OF True _ len, of 0]
  have "load_block 0 s = s\<lparr>blockBuf := replicate 0x4000 0\<rparr>"
    by (auto simp: load_block_def LoadImageFile_def simp del: upt_rec_numeral)
  then show ?thesis
    using True assms
    by (auto simp: file_at_def loads_def ready_buf_def spare_ok_def bytes_def settings_def good_file_def)
next
  case False
  have len: "length (blockBuf s) = 0x4000" using assms(2) by (simp add: ready_buf_def)
  have f: "image s = bs" "file_pos s = p + 0x4000 * k" "\<not> e" "p + 0x4000 * k \<le> length bs"
    using False assms(1) by (auto simp: file_at_def)
  have "bytes (image s)" "file_pos s \<le> length (image s)"
    using assms(3) f by (simp_all add: good_file_def)
  from load_bytes_result [OF False _ len this, of 0] f
  have "load_block 0 s = s\<lparr>file_pos := min (length bs) (p + 0x4000 * Suc k),
      at_eof := length bs < p + 0x4000 * Suc k, blockBuf := padded bs (p + 0x4000 * k) 0x4000\<rparr>"
    by (auto simp: load_block_def LoadImageFile_def algebra_simps simp del: upt_rec_numeral)
  then show ?thesis
    using f assms(2) bytes_padded [of bs] assms(3)
    by (simp add: file_at_def loads_def ready_buf_def spare_ok_def settings_def good_file_def)
qed

subsection \<open>The loop returns\<close>

text \<open>The number of chunks of an image of \<open>n\<close> bytes.\<close>

definition chunk_count :: "nat \<Rightarrow> nat" where
  "chunk_count n = max 1 ((n + 0x3fff) div 0x4000)"

lemma rounds_end:
  assumes "k = 0 \<or> 0x4000 * k < n"
  shows "n \<le> 0x4000 * Suc k \<longleftrightarrow> Suc k = chunk_count n" "k < chunk_count n"
proof -
  define q where "q = (n + 0x3fff) div 0x4000"
  have q: "0x4000 * q \<le> n + 0x3fff" "n + 0x3fff < 0x4000 * q + 0x4000"
    unfolding q_def using times_div_less_eq_dividend [of "0x4000" "n + 0x3fff"] dividend_less_times_div [of "0x4000" "n + 0x3fff"] by simp_all
  show "n \<le> 0x4000 * Suc k \<longleftrightarrow> Suc k = chunk_count n" "k < chunk_count n"
    unfolding chunk_count_def q_def [symmetric] using q assms by (simp_all add: max_def) linarith+
qed

lemma pages_failed_counts: "pages_failed blk d is cs \<Longrightarrow> 1 \<le> failures cs"
proof (induction rule: pages_failed.induct)
  case (fails v ms i "is" n)
  then show ?case
    using failures_status [OF fails(1), of "write_cycles (to_U32 (push_bit 5 blk + int i)) (take 512 (drop (512 * i) d))" "0x10" n ms]
    by (simp add: page_cycles_def)
next
  case (later v "is" cs i n)
  then show ?case using failures_append [of "page_cycles blk d i n v" cs] by simp
qed

lemma block_failed_counts:
  assumes "block_failed blk d cs"
  shows "1 \<le> failures cs"
  using assms
proof cases
  case (erase v ms n)
  then show ?thesis
    using failures_status [OF erase(2), of "erase_cycles (to_U32 (push_bit 5 blk))" "0xd0" n ms]
    by (simp add: erase_status_def)
next
  case (pages v cs' n)
  then show ?thesis
    using failures_append [of "erase_status blk n v" cs'] pages_failed_counts [OF pages(3)] by simp
qed

text \<open>
  The state at the start of a round in which chunk \<open>k\<close> is next: it is still to be loaded, or it is
  in the buffer already because a block failed.
\<close>

definition at_round :: "int list \<Rightarrow> nat \<Rightarrow> bool \<Rightarrow> nat \<Rightarrow> int \<Rightarrow> flash \<Rightarrow> bool" where
  "at_round bs p e k noLoad s \<longleftrightarrow> ready_buf s \<and>
     (if noLoad = 0 then file_at bs p e k s else file_at bs p e (Suc k) s \<and> blockBuf s = loads bs p e k)"

lemma round_loaded:
  assumes "at_round bs p e k noLoad s" "good_file bs p e" "linked m b s"
  obtains u where "load_block noLoad s = u" "file_at bs p e (Suc k) u" "blockBuf u = loads bs p e k"
    "ready_buf u" "settings u = settings s" "linked m b u" "trace m b u = trace m b s"
proof (cases "noLoad = 0")
  case True
  then show thesis
    using that [OF refl] load_block_step [of bs p e k s m b] assms by (simp add: at_round_def)
next
  case False
  then have "load_block noLoad s = s" by (simp add: load_block_def)
  then show thesis using that [of s] False assms by (simp add: at_round_def)
qed

lemma file_at_job: "same_job s t \<Longrightarrow> file_at bs p e k t = file_at bs p e k s"
  by (simp add: file_at_def same_job_simps)

definition bad_blocks :: "(int \<times> bool) list \<Rightarrow> nat" where
  "bad_blocks vs = length (filter (\<lambda>v. \<not> snd v) vs)"

lemma bad_blocks_simps [simp]:
  "bad_blocks [] = 0" "bad_blocks ((i, True) # vs) = bad_blocks vs" "bad_blocks ((i, False) # vs) = Suc (bad_blocks vs)"
  by (simp_all add: bad_blocks_def)

text \<open>What a run of the loop over the chunks from \<open>k\<close> on must achieve.\<close>

definition burnt :: "monitor \<Rightarrow> nand_board \<Rightarrow> nat \<Rightarrow> int list \<Rightarrow> nat \<Rightarrow> bool \<Rightarrow> int \<Rightarrow> nat \<Rightarrow> flash \<Rightarrow> flash \<Rightarrow> bool" where
  "burnt m b N bs p e blk k s t \<longleftrightarrow> linked m b t \<and> ready_buf t \<and> settings t = settings s \<and>
     file_at bs p e (chunk_count (nat (imageSize s))) t \<and>
     (\<exists>vs cs. trace m b t = trace m b s @ cs \<and>
       burns (loads bs p e) (chunk_count (nat (imageSize s))) blk k vs cs \<and> bad_blocks vs \<le> N - failures (trace m b s))"

lemma burntD:
  assumes "burnt m b N bs p e blk k s t" "imageSize s = int n"
  obtains vs cs where "linked m b t" "ready_buf t" "settings t = settings s" "file_at bs p e (chunk_count n) t"
    "trace m b t = trace m b s @ cs" "burns (loads bs p e) (chunk_count n) blk k vs cs"
    "bad_blocks vs \<le> N - failures (trace m b s)"
  using assms by (auto simp: burnt_def)

lemma burntI:
  assumes "imageSize s = int n" "linked m b t" "ready_buf t" "settings t = settings s" "file_at bs p e (chunk_count n) t"
    "trace m b t = trace m b s @ cs" "burns (loads bs p e) (chunk_count n) blk k vs cs"
    "bad_blocks vs \<le> N - failures (trace m b s)"
  shows "burnt m b N bs p e blk k s t"
  using assms by (auto simp: burnt_def)

lemma program_loop_total:
  assumes "linked m b s" "at_round bs p e k noLoad s" "good_file bs p e" "few_failures N m b (port s)"
    and "imageSize s = int n" "n < 2 ^ 31" "k = 0 \<or> 0x4000 * k < n"
  shows "\<exists>t. program_loop blk noLoad (int (0x4000 * k)) s = Some t \<and> burnt m b N bs p e blk k s t"
  using assms(1,2,4,5,7)
proof (induction "(chunk_count n - k) + (N - failures (trace m b s))" arbitrary: blk k noLoad s rule: less_induct)
  case (less k s blk noLoad)
  note rec = less.hyps and prems = less.prems
  obtain u where u: "load_block noLoad s = u" "file_at bs p e (Suc k) u" "blockBuf u = loads bs p e k"
    "ready_buf u" "settings u = settings s" "linked m b u" "trace m b u = trace m b s"
    by (rule round_loaded [OF prems(2) assms(3) prems(1)])
  have keep: "port u = port s" "imageSize u = int n" using u(5) prems(4) by (simp_all add: settings_def)
  obtain f t where t: "try_block blk u = Some (f, t)"
    using try_block_returns [OF u(6,4), of blk] by auto
  obtain cs where cs: "linked m b t" "same_job u t" "trace m b t = trace m b u @ cs"
    "if f then block_failed blk (loads bs p e k) cs else block_burnt blk (loads bs p e k) cs"
    using try_block_run [OF u(6,4) t, unfolded u(3)] by blast
  have t1: "ready_buf t" "file_at bs p e (Suc k) t" "blockBuf t = loads bs p e k" "settings t = settings s"
    using same_job_ready [OF cs(2) u(4)] file_at_job [OF cs(2)] u(2,3,5) same_job_simps(1) [OF cs(2)] settings_job [OF cs(2)]
    by simp_all
  have t2: "port t = port s" "imageSize t = int n" using t1(4) prems(4) by (simp_all add: settings_def)
  have fails: "failures (trace m b s) + failures cs \<le> failures (trace m b t)"
    using failures_append [of "trace m b s" cs] cs(3) u(7) by simp
  have sz: "to_U32 (int (0x4000 * k) + 0x4000) = int (0x4000 * Suc k)"
  proof -
    have "16384 * k < 2 ^ 31" using prems(5) assms(6) by auto
    then have "int (0x4000 * Suc k) < 2 ^ 32" by simp
    then have "take_bit 32 (int (0x4000 * Suc k)) = int (0x4000 * Suc k)"
      by (intro take_bit_int_eq_self) simp_all
    then show ?thesis by (simp add: to_U32_def algebra_simps)
  qed
  have chunk_end: "int n \<le> int (0x4000 * Suc k) \<longleftrightarrow> Suc k = chunk_count n" and k: "k < chunk_count n"
    using rounds_end [OF prems(5)] by (simp_all only: of_nat_le_iff)
  have few: "few_failures N m b (port t)" using prems(3) by (simp add: t2(1))
  note run = program_loop_rounds [of blk noLoad _ s, unfolded u(1) t]
  consider (failed) "f" | (last) "\<not> f" "Suc k = chunk_count n" | (next_one) "\<not> f" "Suc k \<noteq> chunk_count n" by blast
  then show ?case
  proof cases
    case failed
    have one: "1 \<le> failures cs" using block_failed_counts cs(4) failed by simp
    have "failures (trace m b s) < N"
      using try_block_result(1) [OF u(6,4) t, of N] failed prems(3) keep(1) u(7) by (cases "N \<le> failures (trace m b s)") auto
    then have "(chunk_count n - k) + (N - failures (trace m b t)) < (chunk_count n - k) + (N - failures (trace m b s))"
      using one fails by linarith
    moreover have "at_round bs p e k 1 t" using t1 by (simp add: at_round_def)
    ultimately have "\<exists>w. program_loop (to_U32 (blk + 1)) 1 (int (0x4000 * k)) t = Some w \<and>
        burnt m b N bs p e (to_U32 (blk + 1)) k t w"
      using rec cs(1) few t2(2) prems(5) by blast
    then obtain w where w: "program_loop (to_U32 (blk + 1)) 1 (int (0x4000 * k)) t = Some w"
      "burnt m b N bs p e (to_U32 (blk + 1)) k t w" by blast
    obtain vs es where vs: "trace m b w = trace m b t @ es"
      "burns (loads bs p e) (chunk_count n) (to_U32 (blk + 1)) k vs es" "bad_blocks vs \<le> N - failures (trace m b t)"
      "linked m b w" "ready_buf w" "settings w = settings t" "file_at bs p e (chunk_count n) w"
      by (rule burntD [OF w(2) t2(2)])
    have "burns (loads bs p e) (chunk_count n) blk k ((blk, False) # vs) (cs @ es)"
      using cs(4) failed vs(2) by (auto intro: burns.skip)
    moreover have "bad_blocks ((blk, False) # vs) \<le> N - failures (trace m b s)"
      using vs(3) one fails \<open>failures (trace m b s) < N\<close> by simp
    ultimately have "burnt m b N bs p e blk k s w"
      using vs(1,4-7) cs(3) u(7) t1(4) by (intro burntI [OF prems(4), where cs = "cs @ es" and vs = "(blk, False) # vs"]) simp_all
    then show ?thesis using run w(1) failed by simp
  next
    case last
    then have "burns (loads bs p e) (chunk_count n) blk k [(blk, True)] cs"
      using cs(4) by (auto intro: burns.last)
    moreover have "file_at bs p e (chunk_count n) t" using t1(2) last(2) by simp
    ultimately have "burnt m b N bs p e blk k s t"
      using cs(1,3) t1(1,4) u(7) by (intro burntI [OF prems(4), where cs = cs and vs = "[(blk, True)]"]) simp_all
    then show ?thesis using run last sz t2(2) chunk_end by simp
  next
    case next_one
    have more: "0x4000 * Suc k < n" using next_one(2) chunk_end by simp
    have "(chunk_count n - Suc k) + (N - failures (trace m b t)) < (chunk_count n - k) + (N - failures (trace m b s))"
      using k fails by linarith
    moreover have "at_round bs p e (Suc k) 0 t" using t1 by (simp add: at_round_def)
    moreover have "Suc k = 0 \<or> 0x4000 * Suc k < n" using more by simp
    ultimately have "\<exists>w. program_loop (to_U32 (blk + 1)) 0 (int (0x4000 * Suc k)) t = Some w \<and>
        burnt m b N bs p e (to_U32 (blk + 1)) (Suc k) t w"
      using rec cs(1) few t2(2) by blast
    then obtain w where w: "program_loop (to_U32 (blk + 1)) 0 (int (0x4000 * Suc k)) t = Some w"
      "burnt m b N bs p e (to_U32 (blk + 1)) (Suc k) t w" by blast
    obtain vs es where vs: "trace m b w = trace m b t @ es"
      "burns (loads bs p e) (chunk_count n) (to_U32 (blk + 1)) (Suc k) vs es" "bad_blocks vs \<le> N - failures (trace m b t)"
      "linked m b w" "ready_buf w" "settings w = settings t" "file_at bs p e (chunk_count n) w"
      by (rule burntD [OF w(2) t2(2)])
    have "burns (loads bs p e) (chunk_count n) blk k ((blk, True) # vs) (cs @ es)"
      using cs(4) next_one vs(2) k by (auto intro: burns.good)
    moreover have "bad_blocks ((blk, True) # vs) \<le> N - failures (trace m b s)"
      using vs(3) fails by simp
    ultimately have "burnt m b N bs p e blk k s w"
      using vs(1,4-7) cs(3) u(7) t1(4) by (intro burntI [OF prems(4), where cs = "cs @ es" and vs = "(blk, True) # vs"]) simp_all
    then show ?thesis using run w(1) next_one sz t2(2) chunk_end by simp
  qed
qed

subsection \<open>What is in the flash afterwards\<close>

definition holds :: "(int \<Rightarrow> int \<Rightarrow> int) \<Rightarrow> int \<Rightarrow> int list \<Rightarrow> bool" where
  "holds f blk d \<longleftrightarrow> (\<forall>i<32. \<forall>j<512. f (32 * blk + int i) (int j) = d ! (512 * i + j))"

definition same_but :: "(int \<Rightarrow> int \<Rightarrow> int) \<Rightarrow> int \<Rightarrow> (int \<Rightarrow> int \<Rightarrow> int) \<Rightarrow> bool" where
  "same_but f blk g \<longleftrightarrow> (\<forall>r. r div 32 \<noteq> blk \<longrightarrow> g r = f r)"

lemma same_but_trans: "same_but f blk g \<Longrightarrow> same_but g blk h \<Longrightarrow> same_but f blk h"
  by (simp add: same_but_def)

lemma page_effect:
  assumes "0 \<le> blk" "blk < 4096" "i < 32"
  shows "mem (chip_after (page_cycles blk d i n v) c) =
    programmed (mem c) (32 * blk + int i) 0 (take 512 (drop (512 * i) d))"
proof -
  have "0 \<le> int i" "int i < 32" using assms(3) by simp_all
  note pn = page_number [OF assms(1,2) this]
  show ?thesis by (simp add: page_cycles_def chip_effects pn)
qed

lemma marked_effect:
  assumes "marked blk cs" "0 \<le> blk" "blk < 4096"
  shows "same_but (mem c) blk (mem (chip_after cs c))"
    and "mem c (32 * blk) 517 = 255 \<Longrightarrow> mem (chip_after cs c) (32 * blk) 517 = 0x44"
proof -
  obtain se n v where se: "mark_ok se" "cs = mark_cycles (to_U32 (push_bit 5 blk)) se @ status 0x10 n v"
    using assms(1) by (auto simp: marked_def)
  then have e: "mem (chip_after cs c) = programmed (mem c) (32 * blk) 512 se"
    using page_number(2,4) [OF assms(2,3), of 0] by (simp add: chip_effects mark_ok_def)
  show "same_but (mem c) blk (mem (chip_after cs c))" by (auto simp: e same_but_def programmed_def)
  show "mem c (32 * blk) 517 = 255 \<Longrightarrow> mem (chip_after cs c) (32 * blk) 517 = 0x44"
    using se(1) by (simp add: e programmed_def mark_ok_def)
qed

lemma erase_effect:
  assumes "0 \<le> blk" "blk < 4096"
  shows "mem (chip_after (erase_status blk n v) c) = erased (mem c) (32 * blk)"
  using page_number(2,4) [OF assms, of 0] by (simp add: erase_status_def chip_effects)

lemma programmed_other: "r \<noteq> row \<Longrightarrow> programmed f row col bs r = f r"
  by (simp add: programmed_def)

lemma page_same:
  assumes "0 \<le> blk" "blk < 4096" "i < 32"
  shows "same_but (mem c) blk (mem (chip_after (page_cycles blk d i n v) c))"
  using assms(3) by (auto simp: page_effect [OF assms] same_but_def programmed_def)

lemma pages_failed_effect:
  assumes "pages_failed blk d is cs" "0 \<le> blk" "blk < 4096" "set is \<subseteq> {..<32}"
  shows "same_but (mem c) blk (mem (chip_after cs c))"
  using assms(1,4)
proof (induction arbitrary: c rule: pages_failed.induct)
  case (fails v ms i "is" n)
  then have "i < 32" by simp
  from same_but_trans [OF page_same [OF assms(2,3) this] marked_effect(1) [OF fails(2) assms(2,3)]]
  show ?case by simp
next
  case (later v "is" cs i n)
  then have "i < 32" "set is \<subseteq> {..<32}" by simp_all
  from same_but_trans [OF page_same [OF assms(2,3) this(1)] later.IH [OF this(2)]]
  show ?case by simp
qed

lemma and_255_byte: "0 \<le> v \<Longrightarrow> v < 256 \<Longrightarrow> 255 AND v = (v :: int)"
  by (simp add: and_255 and.commute [of 255])

lemma pages_burnt_other:
  assumes "pages_burnt blk d is cs" "0 \<le> blk" "blk < 4096" "set is \<subseteq> {..<32}"
    and "r \<notin> (\<lambda>i. 32 * blk + int i) ` set is"
  shows "mem (chip_after cs c) r = mem c r"
  using assms(1,4,5)
proof (induction arbitrary: c rule: pages_burnt.induct)
  case (page v "is" cs i n)
  then have i: "i < 32" "r \<noteq> 32 * blk + int i" by auto
  then show ?case
    using page.IH page.prems by (simp add: page_effect [OF assms(2,3) i(1)] programmed_other)
qed simp

lemma pages_burnt_effect:
  assumes "pages_burnt blk d is cs" "0 \<le> blk" "blk < 4096" "set is \<subseteq> {..<32}" "distinct is"
    and "bytes d" "length d = 0x4000"
    and "\<forall>i\<in>set is. \<forall>j<512. mem c (32 * blk + int i) (int j) = 255"
  shows "\<forall>i\<in>set is. \<forall>j<512. mem (chip_after cs c) (32 * blk + int i) (int j) = d ! (512 * i + j)"
  using assms(1,4,5,8)
proof (induction arbitrary: c rule: pages_burnt.induct)
  case (page v "is" cs i n)
  then have i: "i < 32" "i \<notin> set is" "set is \<subseteq> {..<32}" "distinct is" by simp_all
  let ?c = "chip_after (page_cycles blk d i n v) c"
  note eff = page_effect [OF assms(2,3) i(1), of d n v c]
  have other: "mem ?c (32 * blk + int k) = mem c (32 * blk + int k)" if "k \<in> set is" for k
  proof -
    have "k \<noteq> i" using that i(2) by blast
    then show ?thesis by (simp add: eff programmed_other)
  qed
  have rest: "\<forall>k\<in>set is. \<forall>j<512. mem (chip_after cs ?c) (32 * blk + int k) (int j) = d ! (512 * k + j)"
    by (rule page.IH [OF i(3,4)]) (use page.prems(3) in \<open>simp add: other\<close>)
  have "32 * blk + int i \<notin> (\<lambda>i. 32 * blk + int i) ` set is" using i(2) by auto
  from pages_burnt_other [OF page.hyps(2) assms(2,3) i(3) this]
  have row: "mem (chip_after cs ?c) (32 * blk + int i) = mem ?c (32 * blk + int i)" .
  have "mem ?c (32 * blk + int i) (int j) = d ! (512 * i + j)" if "j < 512" for j
  proof -
    have "512 * i + j < length d" using i(1) that assms(7) by simp
    then have "0 \<le> d ! (512 * i + j) \<and> d ! (512 * i + j) < 256" using assms(6) by (simp add: bytes_def)
    then show ?thesis
      using page.prems(3) that i(1) assms(7) by (simp add: eff programmed_def and_255_byte)
  qed
  then show ?case using rest row by simp
qed simp

text \<open>The two outcomes of a block.\<close>

lemma block_burnt_effect:
  assumes "block_burnt blk d cs" "0 \<le> blk" "blk < 4096" "bytes d" "length d = 0x4000"
  shows "holds (mem (chip_after cs c)) blk d" "same_but (mem c) blk (mem (chip_after cs c))"
proof -
  obtain v es n where 1: "cs = erase_status blk n v @ es" "even v" "pages_burnt blk d [0..<32] es"
    using assms(1) by (rule block_burnt.cases)
  let ?c = "chip_after (erase_status blk n v) c"
  note erase = erase_effect [OF assms(2,3), of n v c]
  have "\<forall>i\<in>set [0..<32]. \<forall>j<512. mem ?c (32 * blk + int i) (int j) = 255"
    by (simp add: erase erased_def)
  from pages_burnt_effect [OF 1(3) assms(2,3) all_pages distinct_upt assms(4,5) this]
  show "holds (mem (chip_after cs c)) blk d" by (simp add: holds_def 1(1) atLeastLessThan_iff)
  have "mem (chip_after es ?c) r = mem c r" if "r div 32 \<noteq> blk" for r
  proof -
    have "r \<notin> (\<lambda>i. 32 * blk + int i) ` set [0..<32]" using that by auto
    from pages_burnt_other [OF 1(3) assms(2,3) all_pages this] show ?thesis
      using that by (simp add: erase erased_def)
  qed
  then show "same_but (mem c) blk (mem (chip_after cs c))" by (simp add: same_but_def 1(1))
qed

lemma block_failed_effect:
  assumes "block_failed blk d cs" "0 \<le> blk" "blk < 4096"
  shows "same_but (mem c) blk (mem (chip_after cs c))"
proof -
  have er: "same_but (mem c) blk (mem (chip_after (erase_status blk n v) c))" for n v
    by (simp add: erase_effect [OF assms(2,3)] same_but_def erased_def)
  show ?thesis
    using assms(1)
  proof cases
    case (erase v ms n)
    from same_but_trans [OF er marked_effect(1) [OF erase(3) assms(2,3)]] show ?thesis by (simp add: erase(1))
  next
    case (pages v es n)
    from same_but_trans [OF er pages_failed_effect [OF pages(3) assms(2,3) all_pages]] show ?thesis
      by (simp add: pages(1))
  qed
qed

text \<open>Writing pages leaves the spare areas alone, so the mark byte tells the outcomes apart.\<close>

lemma page_spare:
  assumes "0 \<le> blk" "blk < 4096" "i < 32"
  shows "mem (chip_after (page_cycles blk d i n v) c) r 517 = mem c r 517"
  by (simp add: page_effect [OF assms] programmed_def)

lemma pages_burnt_spare:
  assumes "pages_burnt blk d is cs" "0 \<le> blk" "blk < 4096" "set is \<subseteq> {..<32}"
  shows "mem (chip_after cs c) r 517 = mem c r 517"
  using assms(1,4)
  by (induction arbitrary: c rule: pages_burnt.induct) (simp_all add: page_spare [OF assms(2,3)])

lemma pages_failed_mark:
  assumes "pages_failed blk d is cs" "0 \<le> blk" "blk < 4096" "set is \<subseteq> {..<32}" "mem c (32 * blk) 517 = 255"
  shows "mem (chip_after cs c) (32 * blk) 517 = 0x44"
  using assms(1,4,5)
proof (induction arbitrary: c rule: pages_failed.induct)
  case (fails v ms i "is" n)
  then show ?case using marked_effect(2) [OF fails(2) assms(2,3)] by (simp add: page_spare [OF assms(2,3)])
next
  case (later v "is" cs i n)
  then show ?case by (simp add: page_spare [OF assms(2,3)])
qed

lemma block_mark:
  assumes "0 \<le> blk" "blk < 4096"
  shows "block_burnt blk d cs \<Longrightarrow> mem (chip_after cs c) (32 * blk) 517 = 0xff"
    and "block_failed blk d cs \<Longrightarrow> mem (chip_after cs c) (32 * blk) 517 = 0x44"
proof -
  have er: "mem (chip_after (erase_status blk n v) c) (32 * blk) 517 = 255" for n v
    by (simp add: erase_effect [OF assms] erased_def)
  show "mem (chip_after cs c) (32 * blk) 517 = 0xff" if "block_burnt blk d cs"
    using that
  proof cases
    case (1 v es n)
    then show ?thesis using pages_burnt_spare [OF 1(3) assms all_pages] by (simp add: er)
  qed
  show "mem (chip_after cs c) (32 * blk) 517 = 0x44" if "block_failed blk d cs"
    using that
  proof cases
    case (erase v ms n)
    then show ?thesis using marked_effect(2) [OF erase(3) assms er] by simp
  next
    case (pages v es n)
    then show ?thesis using pages_failed_mark [OF pages(3) assms all_pages er] by simp
  qed
qed

text \<open>
  All rounds: the blocks tried are consecutive, as many succeeded as there are chunks, each of them
  holds its chunk in the end, and no block that was not tried has changed. \<open>used\<close> are the blocks
  that succeeded.
\<close>

definition used :: "(int \<times> bool) list \<Rightarrow> int list" where
  "used vs = map fst (filter snd vs)"

lemma used_simps [simp]:
  "used [] = []" "used ((i, True) # vs) = i # used vs" "used ((i, False) # vs) = used vs"
  by (simp_all add: used_def)

lemma holds_cong: "(\<forall>r. r div 32 = blk \<longrightarrow> g r = f r) \<Longrightarrow> holds f blk d \<Longrightarrow> holds g blk d"
  by (simp add: holds_def)

lemma burns_used:
  assumes "burns d K blk k vs cs"
  shows "length (used vs) + k = K"
  using assms by (induction rule: burns.induct) simp_all

lemma burns_blocks:
  assumes "burns d K blk k vs cs" "0 \<le> blk" "blk + int (length vs) \<le> 4096"
  shows "map fst vs = map (\<lambda>i. blk + int i) [0..<length vs]"
proof -
  have shift: "map (\<lambda>i. blk + int i) [0..<Suc n] = blk # map (\<lambda>i. (blk + 1) + int i) [0..<n]" for blk n
    by (simp add: map_upt_Suc upt_conv_Cons del: upt_Suc) (simp add: map_Suc_upt [symmetric] del: map_Suc_upt upt_Suc)
  have next_blk: "to_U32 (blk + 1) = blk + 1" if "0 \<le> blk" "blk < 4096" for blk
    using that by (simp add: to_U32_def take_bit_int_eq_self)
  show ?thesis
    using assms
  proof (induction rule: burns.induct)
    case (good blk k cs vs es)
    then show ?case using next_blk [of blk] by (simp add: shift del: upt_Suc)
  next
    case (skip blk k cs vs es)
    then show ?case using next_blk [of blk] by (simp add: shift del: upt_Suc)
  qed simp
qed

lemma burns_later:
  assumes "burns d K blk k vs cs" "0 \<le> blk" "blk + int (length vs) \<le> 4096"
  shows "fst ` set vs = {blk ..< blk + int (length vs)}"
proof -
  have "fst ` set vs = set (map fst vs)" by simp
  also have "\<dots> = (\<lambda>i. blk + int i) ` {0..<length vs}" by (simp add: burns_blocks [OF assms])
  also have "\<dots> = {blk ..< blk + int (length vs)}"
  proof (intro equalityI subsetI)
    fix x assume "x \<in> {blk ..< blk + int (length vs)}"
    then have "x = blk + int (nat (x - blk))" "nat (x - blk) \<in> {0..<length vs}" by auto
    then show "x \<in> (\<lambda>i. blk + int i) ` {0..<length vs}" by (rule image_eqI)
  qed auto
  finally show ?thesis .
qed

definition burns_ok :: "(nat \<Rightarrow> int list) \<Rightarrow> nat \<Rightarrow> (int \<times> bool) list \<Rightarrow> (int \<Rightarrow> int \<Rightarrow> int) \<Rightarrow> (int \<Rightarrow> int \<Rightarrow> int) \<Rightarrow> bool" where
  "burns_ok d k vs f g \<longleftrightarrow> (\<forall>j<length (used vs). holds g (used vs ! j) (d (k + j))) \<and>
     (\<forall>r. r div 32 \<notin> fst ` set vs \<longrightarrow> g r = f r) \<and>
     (\<forall>(blk, ok)\<in>set vs. g (32 * blk) 517 = (if ok then 0xff else 0x44))"

lemma burns_ok_good:
  assumes "holds f' blk (d k)" "same_but f blk f'" "burns_ok d (Suc k) vs f' g" "blk \<notin> fst ` set vs"
    and "f' (32 * blk) 517 = 0xff"
  shows "burns_ok d k ((blk, True) # vs) f g"
proof -
  have "holds g blk (d k)" using assms(1,3,4) by (intro holds_cong [of blk g f']) (auto simp: burns_ok_def)
  moreover have "holds g (used vs ! j) (d (k + Suc j))" if "j < length (used vs)" for j
    using assms(3) that by (simp add: burns_ok_def)
  moreover have "g (32 * blk) 517 = 0xff" using assms(3-5) by (simp add: burns_ok_def)
  ultimately show ?thesis
    using assms(2,3) by (auto simp: burns_ok_def same_but_def nth_Cons split: nat.split)
qed

lemma burns_ok_skip:
  "same_but f blk f' \<Longrightarrow> burns_ok d k vs f' g \<Longrightarrow> blk \<notin> fst ` set vs \<Longrightarrow> f' (32 * blk) 517 = 0x44 \<Longrightarrow>
    burns_ok d k ((blk, False) # vs) f g"
  by (simp add: burns_ok_def same_but_def)

lemma burns_effect:
  assumes "burns d K blk k vs cs" "0 \<le> blk" "blk + int (length vs) \<le> 4096"
    and "\<And>k. bytes (d k)" "\<And>k. length (d k) = 0x4000"
  shows "burns_ok d k vs (mem c) (mem (chip_after cs c))"
  using assms(1-3)
proof (induction arbitrary: c rule: burns.induct)
  case (last blk k cs)
  then have "0 \<le> blk" "blk < 4096" by simp_all
  from block_burnt_effect [OF last(1) this assms(4,5)]
  have "holds (mem (chip_after cs c)) blk (d k)" "same_but (mem c) blk (mem (chip_after cs c))" .
  moreover have "mem (chip_after cs c) (32 * blk) 517 = 0xff"
    using block_mark(1) [OF _ _ last(1)] last.prems by simp
  ultimately show ?case by (simp add: burns_ok_def same_but_def)
next
  case (good blk k cs vs es)
  then have blk: "0 \<le> blk" "blk < 4096" "to_U32 (blk + 1) = blk + 1" "blk + 1 + int (length vs) \<le> 4096"
    by (simp_all add: to_U32_def take_bit_int_eq_self)
  have "blk \<notin> fst ` set vs" using burns_later [OF good(3)] blk by simp
  with burns_ok_good [OF block_burnt_effect [OF good(1) blk(1,2) assms(4,5)] good.IH _ block_mark(1) [OF blk(1,2) good(1)]] blk
  show ?case by simp
next
  case (skip blk k cs vs es)
  then have blk: "0 \<le> blk" "blk < 4096" "to_U32 (blk + 1) = blk + 1" "blk + 1 + int (length vs) \<le> 4096"
    by (simp_all add: to_U32_def take_bit_int_eq_self)
  have "blk \<notin> fst ` set vs" using burns_later [OF skip(2)] blk by simp
  with burns_ok_skip [OF block_failed_effect [OF skip(1) blk(1,2)] skip.IH _ block_mark(2) [OF blk(1,2) skip(1)]] blk
  show ?case by simp
qed

text \<open>
  What the bus shows of the attempt at a block: it starts with the erase command for the block; the block counts
  as burnt when every status that was read is without error, and as failed when one reports an error, after
  which there is nothing but the marking of the block. (A status is the only thing that is read.)
\<close>

definition attempt :: "int \<Rightarrow> bool \<Rightarrow> cycle list \<Rightarrow> bool" where
  "attempt blk ok cs \<longleftrightarrow> (\<exists>rest. cs = erase_cycles (to_U32 (push_bit 5 blk)) @ rest) \<and>
     (if ok then \<forall>v. Dout v \<in> set cs \<longrightarrow> even v
      else \<exists>ys v ms. cs = ys @ Dout v # ms \<and> odd v \<and> (\<forall>w. Dout w \<in> set ys \<longrightarrow> even w) \<and> marked blk ms)"

lemma dout_cycles [simp]:
  "Dout w \<in> set (status c n v) \<longleftrightarrow> w = v" "Dout w \<notin> set (erase_cycles bp)"
  "Dout w \<notin> set (write_cycles bp bs)" "Dout w \<notin> set (waited n)"
  by (auto simp: status_def waited_def erase_cycles_def write_cycles_def)

lemma pages_burnt_even: "pages_burnt blk d is cs \<Longrightarrow> Dout w \<in> set cs \<Longrightarrow> even w"
  by (induction rule: pages_burnt.induct) (auto simp: page_cycles_def)

definition first_error :: "int \<Rightarrow> cycle list \<Rightarrow> bool" where
  "first_error blk cs \<longleftrightarrow>
     (\<exists>ys v ms. cs = ys @ Dout v # ms \<and> odd v \<and> (\<forall>w. Dout w \<in> set ys \<longrightarrow> even w) \<and> marked blk ms)"

lemma first_error_status:
  assumes "odd v" "marked blk ms" "\<forall>w. Dout w \<notin> set xs"
  shows "first_error blk (xs @ status c n v @ ms)"
proof -
  have "xs @ status c n v @ ms = (xs @ [Cmd c] @ waited n @ [Cmd 0x70]) @ Dout v # ms"
    by (simp add: status_def)
  moreover have "\<forall>w. Dout w \<in> set (xs @ [Cmd c] @ waited n @ [Cmd 0x70]) \<longrightarrow> even w" using assms(3) by simp
  ultimately show ?thesis using assms(1,2) unfolding first_error_def by blast
qed

lemma first_error_append:
  assumes "first_error blk cs" "\<forall>w. Dout w \<in> set xs \<longrightarrow> even w"
  shows "first_error blk (xs @ cs)"
proof -
  obtain ys v ms where cs: "cs = ys @ Dout v # ms" "odd v" "\<forall>w. Dout w \<in> set ys \<longrightarrow> even w" "marked blk ms"
    using assms(1) by (auto simp: first_error_def)
  have "xs @ cs = (xs @ ys) @ Dout v # ms" "\<forall>w. Dout w \<in> set (xs @ ys) \<longrightarrow> even w"
    using cs(1,3) assms(2) by auto
  then show ?thesis using cs(2,4) unfolding first_error_def by blast
qed

lemma pages_failed_error: "pages_failed blk d is cs \<Longrightarrow> first_error blk cs"
proof (induction rule: pages_failed.induct)
  case (fails v ms i "is" n)
  then show ?case unfolding page_cycles_def append_assoc by (intro first_error_status) simp_all
next
  case (later v "is" cs i n)
  then show ?case by (intro first_error_append) (simp_all add: page_cycles_def)
qed

lemma block_burnt_attempt:
  assumes "block_burnt blk d cs"
  shows "attempt blk True cs"
  using assms
proof cases
  case (1 v es n)
  then show ?thesis using pages_burnt_even [OF 1(3)] by (auto simp: attempt_def erase_status_def)
qed

lemma block_failed_attempt:
  assumes "block_failed blk d cs"
  shows "attempt blk False cs"
  using assms
proof cases
  case (erase v ms n)
  from first_error_status [OF erase(2,3), of "erase_cycles (to_U32 (push_bit 5 blk))" "0xd0" n] show ?thesis
    by (simp add: attempt_def first_error_def erase(1) erase_status_def)
next
  case (pages v es n)
  from first_error_append [OF pages_failed_error [OF pages(3)], of "erase_status blk n v"] pages(2) show ?thesis
    by (simp add: attempt_def first_error_def pages(1) erase_status_def)
qed

lemma burns_attempts:
  "burns d K blk k vs cs \<Longrightarrow> \<exists>css. cs = concat css \<and> list_all2 (\<lambda>(i, ok). attempt i ok) vs css"
proof (induction rule: burns.induct)
  case (last blk k cs)
  then show ?case using block_burnt_attempt by (intro exI [of _ "[cs]"]) auto
next
  case (good blk k cs vs es)
  then obtain css where "es = concat css" "list_all2 (\<lambda>(i, ok). attempt i ok) vs css" by blast
  then show ?case using block_burnt_attempt [OF good(1)] by (intro exI [of _ "cs # css"]) simp
next
  case (skip blk k cs vs es)
  then obtain css where "es = concat css" "list_all2 (\<lambda>(i, ok). attempt i ok) vs css" by blast
  then show ?case using block_failed_attempt [OF skip(1)] by (intro exI [of _ "cs # css"]) simp
qed

subsection \<open>Programming\<close>

definition first_block :: "flash \<Rightarrow> int" where
  "first_block s = to_U32 (fst (scanf_int (targetBlock s) s))"

lemma scanf_int_state: "scanf_int old s = (v, u) \<Longrightarrow> u = s\<lparr>console := tl (console s)\<rparr>"
  by (cases s) (auto simp: scanf_int_def split: list.splits)

lemma program_total:
  assumes "linked m b s" "ready_buf s" "file_at bs p e 0 s" "good_file bs p e" "few_failures N m b (port s)"
    and "imageSize s = int n" "n < 2 ^ 31"
  obtains t vs cs where "K9S1208_Program s = Some t" "linked m b t" "ready_buf t"
    "file_at bs p e (chunk_count n) t" "settings t = settings (s\<lparr>console := tl (console s)\<rparr>)"
    "trace m b t = trace m b s @ cs" "burns (loads bs p e) (chunk_count n) (first_block s) 0 vs cs" "bad_blocks vs \<le> N"
proof -
  obtain v u where u: "scanf_int (targetBlock s) s = (v, u)" by fastforce
  have u1: "u = s\<lparr>console := tl (console s)\<rparr>" using u by (rule scanf_int_state)
  define w where "w = u\<lparr>targetBlock := to_U32 v,
    targetSize := to_U32 (to_U32 (imageSize u + 0x4000 - 1) div 0x4000 * 0x4000)\<rparr>"
  have run: "K9S1208_Program s = program_loop (first_block s) 0 0 w"
    by (simp add: K9S1208_Program_def u Let_def w_def first_block_def)
  have w: "linked m b w" "at_round bs p e 0 0 w" "few_failures N m b (port w)" "imageSize w = int n"
    "settings w = settings (s\<lparr>console := tl (console s)\<rparr>)" "trace m b w = trace m b s"
    using assms by (simp_all add: w_def u1 at_round_def ready_buf_def spare_ok_def file_at_def settings_def)
  obtain t where t: "program_loop (first_block s) 0 (int (0x4000 * 0)) w = Some t"
    "burnt m b N bs p e (first_block s) 0 w t"
    using program_loop_total [OF w(1,2) assms(4) w(3,4) assms(7), of "first_block s"] by blast
  obtain vs cs where v: "linked m b t" "ready_buf t" "settings t = settings w" "file_at bs p e (chunk_count n) t"
    "trace m b t = trace m b w @ cs" "burns (loads bs p e) (chunk_count n) (first_block s) 0 vs cs"
    "bad_blocks vs \<le> N - failures (trace m b w)"
    by (rule burntD [OF t(2) w(4)])
  have "K9S1208_Program s = Some t" using run t(1) by simp
  moreover have "settings t = settings (s\<lparr>console := tl (console s)\<rparr>)" using v(3) w(5) by simp
  moreover have "trace m b t = trace m b s @ cs" using v(5) w(6) by simp
  moreover have "bad_blocks vs \<le> N" using v(7) by simp
  ultimately show thesis using that v(1,2,4,6) by blast
qed

lemma good_loads:
  assumes "good_file bs p e"
  shows "bytes (loads bs p e k)" "length (loads bs p e k) = 0x4000"
proof -
  have "bytes (replicate n 0)" for n by (simp add: bytes_def)
  then show "bytes (loads bs p e k)" "length (loads bs p e k) = 0x4000"
    using assms bytes_padded [of bs] by (simp_all add: loads_def good_file_def)
qed

text \<open>
  C4: On a flash that reports at most \<open>N\<close> errors \<open>K9S1208_Program\<close> returns, after at most \<open>N\<close> blocks
  that failed. The cycles are those of one attempt after the other: each erases its block first; it counts as
  burnt only when no status reported an error; when one did, the driver at once writes the bad block mark
  into the spare area of the block and goes on to the next (\<open>attempt\<close>). If the blocks from the one that was typed in
  to the last one tried are blocks of the chip (\<open>first_block + length vs \<le> 4096\<close>), they are consecutive, the successive
  16 KB of the image, the last one filled up with \<open>0xff\<close> and zeros, are in the successive blocks that
  did not fail, the mark byte of the first page is 0x44 in the blocks that failed and 0xff in the others, and blocks
  that were not tried are unchanged.
\<close>

theorem program_burns_image:
  assumes "linked m b s" "ready_buf s" "few_failures N m b (port s)"
    and "bytes (image s)" "file_pos s = 0" "\<not> at_eof s"
    and "imageSize s = int (length (image s))" "length (image s) < 2 ^ 31"
  shows "\<exists>t vs cs css. K9S1208_Program s = Some t \<and> linked m b t \<and> trace m b t = trace m b s @ cs \<and>
    cs = concat css \<and> list_all2 (\<lambda>(i, ok). attempt i ok) vs css \<and>
    bad_blocks vs \<le> N \<and> length (used vs) = max 1 ((length (image s) + 0x3fff) div 0x4000) \<and>
    (first_block s + int (length vs) \<le> 4096 \<longrightarrow>
       map fst vs = map (\<lambda>i. first_block s + int i) [0..<length vs] \<and>
       (\<forall>j<length (used vs). holds (mem (chip_after cs c)) (used vs ! j)
          (take 0x4000 (drop (0x4000 * j) (image s) @ 255 # replicate 0x4000 0))) \<and>
       (\<forall>r. r div 32 \<notin> fst ` set vs \<longrightarrow> mem (chip_after cs c) r = mem c r) \<and>
       (\<forall>(i, ok)\<in>set vs. mem (chip_after cs c) (32 * i) 517 = (if ok then 0xff else 0x44)))"
proof -
  let ?bs = "image s" and ?n = "length (image s)"
  have f: "file_at ?bs 0 False 0 s" "good_file ?bs 0 False"
    using assms(4-6) by (simp_all add: file_at_def good_file_def)
  obtain t vs cs where t: "K9S1208_Program s = Some t" "linked m b t" "trace m b t = trace m b s @ cs"
    "burns (loads ?bs 0 False) (chunk_count ?n) (first_block s) 0 vs cs" "bad_blocks vs \<le> N"
    by (rule program_total [OF assms(1,2) f assms(3,7,8)])
  have len: "length (used vs) = chunk_count ?n" using burns_used [OF t(4)] by simp
  have "loads ?bs 0 False j = take 0x4000 (drop (0x4000 * j) ?bs @ 255 # replicate 0x4000 0)"
    if "j < chunk_count ?n" for j
  proof -
    have "0x4000 * j \<le> ?n"
      using that dividend_less_times_div [of "0x4000" "?n + 0x3fff"] times_div_less_eq_dividend [of "0x4000" "?n + 0x3fff"]
      by (simp add: chunk_count_def max_def split: if_splits)
    then show ?thesis by (simp add: loads_def padded_def del: replicate_Suc)
  qed
  moreover have "0 \<le> first_block s" by (simp add: first_block_def to_U32_def)
  ultimately have reach: "first_block s + int (length vs) \<le> 4096 \<longrightarrow>
       map fst vs = map (\<lambda>i. first_block s + int i) [0..<length vs] \<and>
       (\<forall>j<length (used vs). holds (mem (chip_after cs c)) (used vs ! j)
          (take 0x4000 (drop (0x4000 * j) ?bs @ 255 # replicate 0x4000 0))) \<and>
       (\<forall>r. r div 32 \<notin> fst ` set vs \<longrightarrow> mem (chip_after cs c) r = mem c r) \<and>
       (\<forall>(i, ok)\<in>set vs. mem (chip_after cs c) (32 * i) 517 = (if ok then 0xff else 0x44))"
    using burns_blocks [OF t(4)] burns_effect [OF t(4) _ _ good_loads [OF f(2)], of c] len
    by (simp add: burns_ok_def)
  obtain css where css: "cs = concat css" "list_all2 (\<lambda>(i, ok). attempt i ok) vs css"
    using burns_attempts [OF t(4)] by (elim exE conjE)
  show ?thesis
    by (rule exI [of _ t], rule exI [of _ vs], rule exI [of _ cs], rule exI [of _ css], intro conjI)
      (rule t(1-3,5) css reach len [unfolded chunk_count_def])+
qed

text \<open>A flash that works: data line 0 is low whenever it is sampled, everything else is high.\<close>

definition sound_port :: "port_act list \<Rightarrow> int" where
  "sound_port h = (if length (bits_in (fold observe h demo_tap)) = Suc (DATA_IN ! 0) then 128 else 0)"

lemma sound_port_ok: "never_stuck demo_tap cold_board sound_port" "few_failures N demo_tap cold_board sound_port"
  by (simp_all add: never_stuck_def few_failures_def status_asked_def sound_port_def DATA_IN_def pin_numbers)

definition sound_flash :: "int list \<Rightarrow> flash" where
  "sound_flash bs = K9S1208_JtagInit (S2410_InitCell
     (blank_flash\<lparr>port := sound_port, image := bs, imageSize := int (length bs), console := [5]\<rparr>))"

lemma sound_flash_ok:
  "linked demo_tap cold_board (sound_flash bs)" "ready_buf (sound_flash bs)" "port (sound_flash bs) = sound_port"
  "image (sound_flash bs) = bs" "file_pos (sound_flash bs) = 0" "\<not> at_eof (sound_flash bs)"
  "imageSize (sound_flash bs) = int (length bs)" "console (sound_flash bs) = [5]"
proof -
  let ?s = "blank_flash\<lparr>port := sound_port, image := bs, imageSize := int (length bs), console := [5]\<rparr>"
  have "never_stuck demo_tap cold_board (port ?s)" by (simp add: sound_port_ok)
  note i = init_linked_lemma [OF this, folded sound_flash_def]
  show "linked demo_tap cold_board (sound_flash bs)" by (rule i)
  note f = i(2) [unfolded frame_ext]
  show "port (sound_flash bs) = sound_port"
    "image (sound_flash bs) = bs" "file_pos (sound_flash bs) = 0" "\<not> at_eof (sound_flash bs)"
    "imageSize (sound_flash bs) = int (length bs)" "console (sound_flash bs) = [5]"
    using f by (simp_all add: blank_flash_def)
  have "seBuf (sound_flash bs) = replicate 16 0xff" "blockBuf (sound_flash bs) = replicate 0x4000 0"
    using f by (simp_all add: blank_flash_def)
  then show "ready_buf (sound_flash bs)" by (simp add: ready_buf_def spare_ok_def) (simp add: bytes_def)
qed

lemma used_or_bad: "length vs = length (used vs) + bad_blocks vs"
  by (induction vs) (auto simp: used_def bad_blocks_def)

theorem program_burns_image_witness:
  "\<exists>t cs. K9S1208_Program (sound_flash [1, 2, 3]) = Some t \<and>
     trace demo_tap cold_board t = trace demo_tap cold_board (sound_flash [1, 2, 3]) @ cs \<and>
     mem (chip_after cs blank_chip) 160 2 = 3 \<and> mem (chip_after cs blank_chip) 160 3 = 255"
proof -
  let ?s = "sound_flash [1, 2, 3]"
  have few: "few_failures 0 demo_tap cold_board (port ?s)" by (simp add: sound_flash_ok sound_port_ok)
  have im: "bytes (image ?s)" "imageSize ?s = int (length (image ?s))" "length (image ?s) < 2 ^ 31"
    by (simp_all add: sound_flash_ok) (simp add: bytes_def)
  have "max 1 ((length (image ?s) + 0x3fff) div 0x4000) = (1 :: nat)" by (simp add: sound_flash_ok)
  with program_burns_image [OF sound_flash_ok(1,2) few im(1) sound_flash_ok(5,6) im(2,3), of blank_chip]
  obtain t vs cs where t: "K9S1208_Program ?s = Some t"
    "trace demo_tap cold_board t = trace demo_tap cold_board ?s @ cs"
    "bad_blocks vs \<le> 0" "length (used vs) = 1"
    "first_block ?s + int (length vs) \<le> 4096 \<longrightarrow> map fst vs = map (\<lambda>i. first_block ?s + int i) [0..<length vs] \<and>
       (\<forall>j<length (used vs). holds (mem (chip_after cs blank_chip)) (used vs ! j)
          (take 0x4000 (drop (0x4000 * j) (image ?s) @ 255 # replicate 0x4000 0)))"
    by (elim exE conjE, intro that) (assumption+, simp only:, blast)
  have vs: "length vs = 1" "first_block ?s = 5"
    using used_or_bad [of vs] t(3,4) by (simp_all add: first_block_def scanf_int_def sound_flash_ok to_U32_def)
  then have "map fst vs = [5]" "holds (mem (chip_after cs blank_chip)) (used vs ! 0) (take 0x4000 ([1, 2, 3] @ 255 # replicate 0x4000 0))"
    using t(4,5) by (simp_all add: sound_flash_ok del: replicate_Suc)
  moreover from this(1) t(4) have "used vs = [5]" by (cases vs; cases "snd (hd vs)") (auto simp: used_def)
  ultimately have h: "holds (mem (chip_after cs blank_chip)) 5 (take 0x4000 ([1, 2, 3] @ 255 # replicate 0x4000 0))"
    by simp
  have "mem (chip_after cs blank_chip) 160 2 = 3" "mem (chip_after cs blank_chip) 160 3 = 255"
    using h [unfolded holds_def, rule_format, of 0 2] h [unfolded holds_def, rule_format, of 0 3]
    by (simp_all add: nth_append)
  then show ?thesis using t(1,2) by blast
qed

lemma rebase: "file_at bs p e k s \<Longrightarrow> good_file bs p e \<Longrightarrow>
    file_at bs (file_pos s) (at_eof s) 0 s \<and> good_file bs (file_pos s) (at_eof s)"
  by (auto simp: file_at_def good_file_def)

text \<open>
  The image file is not rewound. When \<open>K9S1208_Program\<close> is chosen a second time, and the file
  did not end exactly at the end of a chunk, as many blocks are written again, all of them with
  zeros.
\<close>

theorem programming_again_writes_zeros:
  assumes "linked m b s" "ready_buf s" "few_failures N m b (port s)"
    and "bytes (image s)" "file_pos s = 0" "\<not> at_eof s"
    and "imageSize s = int (length (image s))" "length (image s) < 2 ^ 31" "length (image s) mod 0x4000 \<noteq> 0"
  shows "\<exists>t u vs cs. K9S1208_Program s = Some t \<and> K9S1208_Program t = Some u \<and> trace m b u = trace m b t @ cs \<and>
    length (used vs) = (length (image s) + 0x3fff) div 0x4000 \<and>
    (first_block t + int (length vs) \<le> 4096 \<longrightarrow>
       (\<forall>j<length (used vs). holds (mem (chip_after cs c)) (used vs ! j) (replicate 0x4000 0)))"
proof -
  let ?bs = "image s" and ?n = "length (image s)"
  have f: "file_at ?bs 0 False 0 s" "good_file ?bs 0 False"
    using assms(4-6) by (simp_all add: file_at_def good_file_def)
  obtain t where t: "K9S1208_Program s = Some t" "linked m b t" "ready_buf t" "file_at ?bs 0 False (chunk_count ?n) t"
    "settings t = settings (s\<lparr>console := tl (console s)\<rparr>)"
    by (rule program_total [OF assms(1,2) f assms(3,7,8)])
  have q: "chunk_count ?n = (?n + 0x3fff) div 0x4000" "?n < 0x4000 * chunk_count ?n"
  proof -
    let ?q = "(?n + 0x3fff) div 0x4000"
    have b: "?n \<le> 0x4000 * ?q" using dividend_less_times_div [of "0x4000" "?n + 0x3fff"] by simp
    have "?n \<noteq> 0x4000 * ?q" using assms(9) by (metis mod_mult_self1_is_0)
    then have "?n < 0x4000 * ?q" using b by (rule le_neq_implies_less [OF _ _, rotated])
    moreover from this have "1 \<le> ?q" by (cases "?q") simp_all
    ultimately show "chunk_count ?n = ?q" "?n < 0x4000 * chunk_count ?n" by (simp_all add: chunk_count_def max_def)
  qed
  then have eof: "at_eof t" using t(4) by (simp add: file_at_def)
  from rebase [OF t(4) f(2)] eof have g: "file_at ?bs (file_pos t) True 0 t" "good_file ?bs (file_pos t) True"
    by simp_all
  have "few_failures N m b (port t)" "imageSize t = int ?n"
    using t(5) assms(3,7) by (simp_all add: settings_def)
  from program_total [OF t(2,3) g this assms(8)]
  obtain u vs cs where u: "K9S1208_Program t = Some u" "trace m b u = trace m b t @ cs"
    "burns (loads ?bs (file_pos t) True) (chunk_count ?n) (first_block t) 0 vs cs" by metis
  have "length (used vs) = chunk_count ?n" using burns_used [OF u(3)] by simp
  moreover have "loads ?bs (file_pos t) True j = replicate 0x4000 0" for j by (simp add: loads_def)
  moreover have "0 \<le> first_block t" by (simp add: first_block_def to_U32_def)
  ultimately show ?thesis
    using t(1) u(1,2) burns_effect [OF u(3) _ _ good_loads [OF g(2)], of c] q(1) unfolding burns_ok_def by auto
qed

theorem programming_again_writes_zeros_witness:
  "\<exists>t u. K9S1208_Program (sound_flash [1, 2, 3]) = Some t \<and> K9S1208_Program t = Some u"
proof -
  let ?s = "sound_flash [1, 2, 3]"
  have "few_failures 0 demo_tap cold_board (port ?s)" by (simp add: sound_flash_ok sound_port_ok)
  moreover have "bytes (image ?s)" "imageSize ?s = int (length (image ?s))" "length (image ?s) < 2 ^ 31"
    "length (image ?s) mod 0x4000 \<noteq> 0"
    by (simp_all add: sound_flash_ok) (simp add: bytes_def)
  ultimately show ?thesis
    using programming_again_writes_zeros [OF sound_flash_ok(1,2), of 0 "[1, 2, 3]"] sound_flash_ok(5,6) [of "[1, 2, 3]"] by blast
qed

text \<open>The loop has no bound: on a flash that reports only errors it goes on for ever.\<close>

lemma program_loop_stuck:
  assumes "good_file bs p e" "program_loop blk noLoad progSize s = Some t"
  shows "\<forall>k. \<not> (linked m b s \<and> at_round bs p e k noLoad s \<and> always_fails m b (port s))"
proof (rule program_loop.raw_induct
    [where P = "\<lambda>blk noLoad progSize s t. \<forall>k. \<not> (linked m b s \<and> at_round bs p e k noLoad s \<and> always_fails m b (port s))",
      OF _ assms(2)], intro allI notI)
  fix rec :: "int \<Rightarrow> int \<Rightarrow> int \<Rightarrow> flash \<Rightarrow> flash option" and blk noLoad progSize s t k
  assume later: "\<And>blk noLoad progSize s t. rec blk noLoad progSize s = Some t \<Longrightarrow>
      \<forall>k. \<not> (linked m b s \<and> at_round bs p e k noLoad s \<and> always_fails m b (port s))"
    and body: "do {
     (ok, s) \<leftarrow> NF_EraseBlock blk (load_block noLoad s);
     if ok = 0 then rec (to_U32 (blk + 1)) 1 progSize s
     else do {
       (programError, s) \<leftarrow> write_pages blk [0..<32] s;
       if programError then rec (to_U32 (blk + 1)) 1 progSize s
       else if to_U32 (progSize + 0x4000) \<ge> imageSize s then Some s
       else rec (to_U32 (blk + 1)) 0 (to_U32 (progSize + 0x4000)) s
     }
   } = Some t"
    and st: "linked m b s \<and> at_round bs p e k noLoad s \<and> always_fails m b (port s)"
  have st1: "linked m b s" "at_round bs p e k noLoad s" "always_fails m b (port s)" using st by blast+
  obtain u where u: "load_block noLoad s = u" "file_at bs p e (Suc k) u" "blockBuf u = loads bs p e k"
    "ready_buf u" "settings u = settings s" "linked m b u"
    by (rule round_loaded [OF st1(2) assms(1) st1(1)])
  obtain f v where v: "try_block blk u = Some (f, v)" using try_block_returns [OF u(6,4), of blk] by auto
  have "port u = port s" using u(5) by (simp add: settings_def)
  then have f: "f" using try_block_result(2) [OF u(6,4) v] st1(3) by simp
  have v1: "linked m b v" "same_job u v" using try_block_run [OF u(6,4) v] by blast+
  have "at_round bs p e k 1 v" "always_fails m b (port v)"
    using same_job_ready [OF v1(2) u(4)] file_at_job [OF v1(2)] u(2,3) same_job_simps(1) [OF v1(2)]
      same_job_port [OF v1(2)] \<open>port u = port s\<close> st1(3)
    by (simp_all add: at_round_def)
  moreover have "rec (to_U32 (blk + 1)) 1 progSize v = Some t"
    using body unfolding loop_body [where f = rec] by (simp add: u(1) v f)
  ultimately show False using later v1(1) by blast
qed

text \<open>
  There is no bound on the number of blocks that are tried: on a flash that reports an error
  for every erase, \<open>K9S1208_Program\<close> does not return.
\<close>

theorem program_never_gives_up:
  assumes "linked m b s" "ready_buf s" "always_fails m b (port s)"
    and "bytes (image s)" "file_pos s \<le> length (image s)" "at_eof s \<longrightarrow> file_pos s = length (image s)"
  shows "K9S1208_Program s = None"
proof (cases "K9S1208_Program s")
  case (Some t)
  obtain v u where u: "scanf_int (targetBlock s) s = (v, u)" by fastforce
  define w where "w = u\<lparr>targetBlock := to_U32 v,
    targetSize := to_U32 (to_U32 (imageSize u + 0x4000 - 1) div 0x4000 * 0x4000)\<rparr>"
  have run: "program_loop (to_U32 v) 0 0 w = Some t"
    using Some by (simp add: K9S1208_Program_def u Let_def w_def)
  have "good_file (image s) (file_pos s) (at_eof s)" using assms(4-6) by (simp add: good_file_def)
  from program_loop_stuck [OF this run]
  have "\<not> (linked m b w \<and> at_round (image s) (file_pos s) (at_eof s) 0 0 w \<and> always_fails m b (port w))"
    by blast
  moreover have "linked m b w" "at_round (image s) (file_pos s) (at_eof s) 0 0 w" "always_fails m b (port w)"
    using assms scanf_int_state [OF u]
    by (auto simp: w_def at_round_def ready_buf_def spare_ok_def file_at_def)
  ultimately show ?thesis by blast
qed

lemma worn_flash:
  defines "s \<equiv> linked_flash_state"
  shows "linked demo_tap cold_board s" "ready_buf s" "always_fails demo_tap cold_board (port s)"
    "image s = []" "file_pos s = 0" "\<not> at_eof s"
proof -
  note f = linked_flash_state_ok(2) [unfolded frame_ext, folded s_def]
  show "linked demo_tap cold_board s" using linked_flash_state_ok(1) by (simp add: s_def)
  have "blockBuf s = replicate 0x4000 0" using f by (simp add: blank_flash_def)
  then show "ready_buf s" using linked_flash_state_ok(3) by (simp add: ready_buf_def s_def) (simp add: bytes_def)
  show "always_fails demo_tap cold_board (port s)" "image s = []" "file_pos s = 0" "\<not> at_eof s"
    using f by (simp_all add: always_fails_def blank_flash_def)
qed

theorem program_never_gives_up_witness: "K9S1208_Program linked_flash_state = None"
  by (rule program_never_gives_up [OF worn_flash(1-3)]) (simp_all add: worn_flash bytes_def)

text \<open>
  Block numbers are not checked against the size of the chip: erasing block \<open>4096 + i\<close> erases
  block \<open>i\<close>.
\<close>

theorem block_numbers_wrap:
  assumes "linked m b s" "spare_ok s" "0 \<le> i" "i < 4096" "NF_EraseBlock (4096 + i) s = Some (1, t)"
  shows "\<exists>cs. trace m b t = trace m b s @ cs \<and> mem (chip_after cs c) = erased (mem c) (32 * i)"
proof -
  have "to_U32 (push_bit 5 (4096 + i)) = 32 * i + 131072"
    using assms(3,4) by (simp add: to_U32_def push_bit_eq_mult take_bit_int_eq_self)
  then have bp: "to_U32 (push_bit 5 (4096 + i)) mod 131072 = 32 * i"
    using assms(3,4) by simp
  show ?thesis
    using assms(5) by (rule erase_block [OF assms(1,2)]) (auto simp: chip_effects bp)
qed

theorem block_numbers_wrap_witness:
  "\<exists>t cs. NF_EraseBlock 4101 (sound_flash []) = Some (1, t) \<and>
     trace demo_tap cold_board t = trace demo_tap cold_board (sound_flash []) @ cs \<and>
     mem (chip_after cs blank_chip) = erased (mem blank_chip) 160"
proof -
  let ?s = "sound_flash []"
  have sp: "spare_ok ?s" using sound_flash_ok(2) by (simp add: ready_buf_def)
  obtain ok t where t: "NF_EraseBlock (4096 + 5) ?s = Some (ok, t)"
    using commands_return(1) [OF sound_flash_ok(1) sp] by fastforce
  have "ok = 1"
    using erase_result(1) [OF sound_flash_ok(1) t, of 0] by (simp add: sound_flash_ok sound_port_ok)
  then show ?thesis
    using t block_numbers_wrap [OF sound_flash_ok(1) sp, of 5 t blank_chip] by auto
qed

end
