(* ===== verification/Menu.thy ===== *)
theory Menu
  imports Flashing
begin

text \<open>
  The flash programmer from its command line on. The menu and \<open>main\<close> are shown to end on a machine
  with 32-bit pointers, whatever is typed, when the flash is neither busy nor failing for ever;
  with 64-bit pointers the Exit entry is called as a function. Also here: what
  \<open>K9S1208_PrintBlock\<close> shows.
\<close>

subsection \<open>Showing a page\<close>

lemma print_block:
  assumes "linked m b s" "length buffer = 528"
  obtains t where "K9S1208_PrintBlock block0 page0 buffer s = Some t" "linked m b t"
    "frame t = frame (s\<lparr>console := console t, printed := printed t\<rparr>)" "length (console t) \<le> length (console s)"
proof -
  obtain n u where u: "NF_Init s = Some u" "linked m b u" "frame u = frame s"
    by (rule init_chip [OF assms(1)])
  obtain i v where v: "NF_CheckId u = (i, v)" by fastforce
  have v1: "linked m b v" "frame v = frame u" by (rule check_id [OF u(2) v]; simp)+
  show thesis
  proof (cases "i = 0xec76")
    case False
    then show thesis using that [of v] u v v1 by (simp add: K9S1208_PrintBlock_def frame_ext)
  next
    case True
    obtain block w where w: "scanf_int block0 v = (block, w)" by fastforce
    obtain page x where x: "scanf_int page0 w = (page, x)" by fastforce
    have x1: "x = v\<lparr>console := tl (tl (console v))\<rparr>"
      using scanf_int_state [OF w] scanf_int_state [OF x] by simp
    then have "linked m b x" using v1(1) by simp
    moreover have "length (take 512 buffer) = 512" "length (drop 512 buffer) = 16" using assms(2) by simp_all
    ultimately obtain vs ws y where y: "NF_ReadPage block page (take 512 buffer) (Some (drop 512 buffer)) x = Some (1, vs, Some ws, y)"
      "linked m b y" "frame y = frame x"
      by (rule read_page)
    have "K9S1208_PrintBlock block0 page0 buffer s = Some (y\<lparr>printed := printed y @ [vs @ ws]\<rparr>)"
      by (simp add: K9S1208_PrintBlock_def u(1) v True w x y(1))
    then show thesis
      using that y(2,3) x1 v1(2) u(3) by (simp add: frame_ext)
  qed
qed

subsection \<open>The menu\<close>

definition menu_ok :: "monitor \<Rightarrow> nand_board \<Rightarrow> nat \<Rightarrow> flash \<Rightarrow> bool" where
  "menu_ok m b N s \<longleftrightarrow> linked m b s \<and> ready_buf s \<and> few_failures N m b (port s) \<and>
     good_file (image s) (file_pos s) (at_eof s) \<and> (\<exists>n < 2 ^ 31. imageSize s = int n)"

lemma menu_ok_program:
  assumes "menu_ok m b N s"
  obtains t where "K9S1208_Program s = Some t" "menu_ok m b N t" "console t = tl (console s)"
proof -
  let ?bs = "image s" and ?p = "file_pos s" and ?e = "at_eof s"
  obtain n where s: "linked m b s" "ready_buf s" "few_failures N m b (port s)" "good_file ?bs ?p ?e"
    "imageSize s = int n" "n < 2 ^ 31"
    using assms by (auto simp: menu_ok_def)
  have "file_at ?bs ?p ?e 0 s" using s(4) by (auto simp: file_at_def good_file_def)
  from program_total [OF s(1,2) this s(4,3,5,6)]
  obtain t where t: "K9S1208_Program s = Some t" "linked m b t" "ready_buf t" "file_at ?bs ?p ?e (chunk_count n) t"
    "settings t = settings (s\<lparr>console := tl (console s)\<rparr>)" by metis
  have "image t = ?bs" using t(4) by (simp add: file_at_def)
  then have "good_file (image t) (file_pos t) (at_eof t)" using rebase [OF t(4) s(4)] by simp
  then show thesis
    using that t(1-3,5) s(3,5,6) by (auto simp: menu_ok_def settings_def)
qed

lemma menu_ok_frame:
  assumes "menu_ok m b N s" "linked m b t" "frame t = frame (s\<lparr>console := cs, printed := ps\<rparr>)"
  shows "menu_ok m b N t"
  using assms by (auto simp: menu_ok_def frame_ext ready_buf_def spare_ok_def)

lemma menu_loop_returns:
  assumes "menu_ok m b N s" "length buffer = 528"
  shows "\<exists>t. menu_loop 4 block0 page0 buffer s = Some (Left_menu, t) \<and> menu_ok m b N t"
  using assms(1)
proof (induction "length (console s)" arbitrary: s rule: less_induct)
  case less
  obtain i u where u: "scanf_int 3 s = (i, u)" by fastforce
  have u1: "u = s\<lparr>console := tl (console s)\<rparr>" by (rule scanf_int_state [OF u])
  have ok: "menu_ok m b N u"
    using less.prems u1 by (simp add: menu_ok_def ready_buf_def spare_ok_def)
  have bound: "menu_bound 4 = 2" by (simp add: menu_bound_def)
  show ?case
  proof (cases "i = 0 \<or> i = 1")
    case False
    then have "\<not> (0 \<le> i \<and> i < menu_bound 4)" unfolding bound by linarith
    then show ?thesis using ok False by (subst menu_loop.simps) (auto simp: u)
  next
    case True
    then have ne: "console s \<noteq> []" using u by (auto simp: scanf_int_def)
    then have len: "length (console u) < length (console s)" by (simp add: u1)
    obtain t where t: "(if i = 0 then K9S1208_Program u else K9S1208_PrintBlock block0 page0 buffer u) = Some t"
      "menu_ok m b N t" "length (console t) \<le> length (console u)"
    proof (cases "i = 0")
      case True
      then show thesis using menu_ok_program [OF ok] that by (metis diff_le_self length_tl)
    next
      case False
      have "linked m b u" using ok by (simp add: menu_ok_def)
      from print_block [OF this assms(2)] obtain t where
        "K9S1208_PrintBlock block0 page0 buffer u = Some t" "linked m b t"
        "frame t = frame (u\<lparr>console := console t, printed := printed t\<rparr>)" "length (console t) \<le> length (console u)"
        by metis
      then show thesis using that False menu_ok_frame [OF ok] by simp
    qed
    have "length (console t) < length (console s)" using t(3) len by simp
    from less.hyps [OF this t(2)]
    show ?thesis using True t(1) by (subst menu_loop.simps) (auto simp: u bound)
  qed
qed

subsection \<open>The program\<close>

lemma read_id_bit_apply:
  "read_id_bit i (ids, s) = (case JTAG_GET_TDO (tick (TDI_H OR TMS_L) s) of (c, t) \<Rightarrow> (array_set ids i c, t))"
  by (simp add: read_id_bit_def)

lemma read_id_bits_talk: "fold read_id_bit is (ids, s) = (ids', t) \<Longrightarrow> talks s t"
proof (induction "is" arbitrary: ids s)
  case (Cons i "is")
  obtain c u where u: "JTAG_GET_TDO (tick (TDI_H OR TMS_L) s) = (c, u)" by fastforce
  then have "fold read_id_bit is (array_set ids i c, u) = (ids', t)" using Cons.prems by (simp add: read_id_bit_apply)
  then have "talks u t" by (rule Cons.IH)
  then show ?case using talks_trans [OF talks_trans [OF talks_tick tdo_talks [OF u]]] by blast
qed simp

lemma read_id_talks: "talks s (snd (JTAG_ReadId id0 s))"
proof -
  obtain a where a: "JTAG_ReadId id0 s = read_id_register id0 a" "talks s a"
    using read_id_start [where m = demo_tap and s = s and ?id0.0 = id0] by metis
  obtain ids b where b: "fold read_id_bit [0..<31] (id0, a) = (ids, b)" by fastforce
  obtain c d where d: "JTAG_GET_TDO (tick (TDI_H OR TMS_H) b) = (c, d)" by fastforce
  have "talks s d"
    using talks_trans [OF talks_trans [OF a(2) read_id_bits_talk [OF b]] talks_trans [OF talks_tick tdo_talks [OF d]]] .
  then show ?thesis
    by (simp add: a(1) read_id_register_def b d Let_def talks_more del: upt_rec_numeral)
qed

lemma talks_frame: "talks s t \<Longrightarrow> frame t = frame (s :: flash)"
  by (simp add: frame_def talks_keeps talks_cells)

lemma menu_ends:
  assumes "linked m b (K9S1208_JtagInit s)" "frame (K9S1208_JtagInit s) = frame s" "ready_buf s"
    and "few_failures N m b (port s)" "good_file (image s) (file_pos s) (at_eof s)"
    and "imageSize s = int n" "n < 2 ^ 31" "length buffer = 528"
  shows "\<exists>e t. K9S1208_Menu 4 block0 page0 buffer s = Some (e, t) \<and> e \<in> {No_chip, Left_menu}"
proof -
  let ?s = "K9S1208_JtagInit s"
  obtain k u where u: "NF_Init ?s = Some u" "linked m b u" "frame u = frame ?s"
    by (rule init_chip [OF assms(1)])
  obtain i v where v: "NF_CheckId u = (i, v)" by fastforce
  have v1: "linked m b v" "frame v = frame u" by (rule check_id [OF u(2) v]; simp)+
  have "menu_ok m b N v"
    using assms(2-7) u(3) v1 by (auto simp: menu_ok_def frame_ext ready_buf_def spare_ok_def)
  from menu_loop_returns [OF this assms(8), of block0 page0]
  show ?thesis by (auto simp: K9S1208_Menu_def u(1) v)
qed

text \<open>
  C10: With pointers of 32 bits the program always ends, and never calls anything but its own
  functions: whatever the arguments, the file and the numbers typed, when the flash is neither busy
  nor failing for ever and the file is smaller than 2 GB.
\<close>

theorem sjf_main_ends:
  assumes "never_stuck m b (port s)" "few_failures N m b (port s)" "ready_buf s" "length buffer = 528"
    and "\<forall>name bs. files name = Some bs \<longrightarrow> bytes bs \<and> length bs < 2 ^ 31"
  shows "\<exists>e t. sjf_main argv beyond files access echo 4 block0 page0 buffer id0 s = Some (e, t) \<and>
    (\<forall>i. e \<noteq> Menu_ended (Bad_call i))"
proof (cases "OpenImageFile files (argv ! 1) (OutputPpt 0x55 s)")
  case None
  then show ?thesis by (simp add: sjf_main_def Let_def)
next
  case (Some u)
  obtain bs where bs: "files (argv ! 1) = Some bs" "u = (OutputPpt 0x55 s)\<lparr>image := bs, file_pos := 0,
      at_eof := False, imageSize := to_U32 (int (length bs))\<rparr>"
    using Some by (auto simp: OpenImageFile_def split: option.splits)
  have size: "bytes bs" "length bs < 2 ^ 31" using assms(5) bs(1) by blast+
  then have "to_U32 (int (length bs)) = int (length bs)" by (simp add: to_U32_def take_bit_int_eq_self)
  then have u: "port u = port s" "image u = bs" "file_pos u = 0" "\<not> at_eof u" "imageSize u = int (length bs)"
    "seBuf u = seBuf s" "blockBuf u = blockBuf s"
    by (simp_all add: bs(2) OutputPpt_def)
  define v where "v = S2410_InitCell (snd (JTAG_ReadId id0 u))"
  have f: "frame (snd (JTAG_ReadId id0 u)) = frame u" by (rule talks_frame [OF read_id_talks])
  have "never_stuck m b (port (snd (JTAG_ReadId id0 u)))"
    using assms(1) u(1) f by (simp add: frame_ext)
  note i = init_linked_lemma [OF this, folded v_def]
  obtain a r xs where "S2410_InitCell (snd (JTAG_ReadId id0 u)) = a\<lparr>inCellValue := chars_of r @ [NUL],
      outCellValue := put_pins init_pins (chars_of r @ [NUL])\<rparr>"
    "port a = port (snd (JTAG_ReadId id0 u))" "cells.more a = cells.more (snd (JTAG_ReadId id0 u))"
    by (rule init_cell_lemma [where s = "snd (JTAG_ReadId id0 u)" and m = m])
  then have "frame v = frame (snd (JTAG_ReadId id0 u))" by (simp add: v_def frame_def)
  then have v: "frame v = frame u" using f by simp
  have "\<exists>e t. K9S1208_Menu 4 block0 page0 buffer v = Some (e, t) \<and> e \<in> {No_chip, Left_menu}"
  proof (rule menu_ends [OF i(1) _ _ _ _ _ size(2) assms(4)])
    show "frame (K9S1208_JtagInit v) = frame v" using i(2) v f by simp
    show "ready_buf v" "few_failures N m b (port v)" "good_file (image v) (file_pos v) (at_eof v)"
      "imageSize v = int (length bs)"
      using v u assms(2,3) size(1) by (auto simp: frame_ext ready_buf_def spare_ok_def good_file_def)
  qed
  then obtain e t where e: "K9S1208_Menu 4 block0 page0 buffer v = Some (e, t)" "e \<in> {No_chip, Left_menu}"
    by blast
  show ?thesis
    using e(2) by (auto simp: sjf_main_def Let_def Some [unfolded One_nat_def] v_def [symmetric] e(1))
qed

theorem sjf_main_ends_witness:
  "\<exists>e t. sjf_main [''sjf'', ''boot.bin'', ''/t=5''] [] (\<lambda>n. Some [1, 2, 3]) (\<lambda>p. True) (\<lambda>p. 0x55) 4 0 0
     (replicate 528 0) (replicate 32 NUL) (blank_flash\<lparr>port := sound_port, console := [0, 7, 1, 7, 0, 2]\<rparr>) = Some (e, t)"
proof -
  let ?s = "blank_flash\<lparr>port := sound_port, console := [0, 7, 1, 7, 0, 2]\<rparr>"
  have s: "never_stuck demo_tap cold_board (port ?s)" "few_failures 0 demo_tap cold_board (port ?s)"
    by (simp_all add: sound_port_ok)
  have rb: "ready_buf ?s" by (simp add: ready_buf_def spare_ok_def blank_flash_def) (simp add: bytes_def)
  have len: "length (replicate 528 (0 :: int)) = 528" by simp
  have "\<forall>name bs. (\<lambda>n :: string. Some [1, 2, 3 :: int]) name = Some bs \<longrightarrow> bytes bs \<and> length bs < 2 ^ 31"
    by (simp add: bytes_def)
  from sjf_main_ends [OF s rb len this] show ?thesis by blast
qed

text \<open>
  \<open>sizeof(function)/8 - 2\<close> counts the functions only where a pointer has 4 bytes. Typing 2 for
  the Exit entry leaves the menu there; with pointers of 8 bytes it calls the constant 1 as a function.
\<close>

theorem exit_entry_is_called:
  assumes "console s = 2 # vs"
  shows "menu_loop 4 block0 page0 buffer s = Some (Left_menu, s\<lparr>console := vs\<rparr>) \<and>
    menu_loop 8 block0 page0 buffer s = Some (Bad_call 2, s\<lparr>console := vs\<rparr>)"
  using assms by (simp add: menu_loop.simps scanf_int_def menu_bound_def)

theorem exit_entry_is_called_witness:
  "menu_loop 8 0 0 [] (blank_flash\<lparr>console := [2, 9]\<rparr>) = Some (Bad_call 2, blank_flash\<lparr>console := [9]\<rparr>)"
  using exit_entry_is_called [of "blank_flash\<lparr>console := [2, 9]\<rparr>" "[9]" 0 0 "[]"] by simp

end
