(* ===== verification/Weblinks.thy ===== *)
theory Weblinks
  imports Prelude
begin

text \<open>
  The state of the web crawler (\<open>src/search/search\<close>) and its database operations
  (\<open>sqlite_op.c\<close>).

  \<^item> \<open>crawler\<close> holds the globals of the program: \<open>use_db\<close>, \<open>use_domain\<close>, \<open>use_page\<close>
    (\<open>main.c\<close>), \<open>timeout\<close> and \<open>buf\<close> (\<open>http_get.c\<close>), the line buffer and the open file
    (\<open>read_file.c\<close>), \<open>alink\<close> (\<open>sqlite_op.c\<close>), the rows of the table \<open>weblink\<close>, what
    the program prints, the pages it connected for and the counters by which the
    environment is consulted.
  \<^item> \<open>world\<close> is the environment: whether a call of \<open>malloc\<close> succeeds, what the bytes it
    returns hold, the result code of each SQL statement, the files and the network.
  \<^item> A run that reads a null pointer, writes past an array or ends in \<open>exit\<close> is a
    \<open>fault\<close>; every operation returns a fault or its result.

  The four SQL statements the program sends are functions on the rows.  The lemmas say
  what a statement does to the pairs (domain, page) the table knows; no pair is ever
  stored twice while the statements succeed.
\<close>

subsection \<open>State and environment\<close>

datatype fault = Null_pointer | Uninitialised | Overflow | Out_of_bounds | Use_after_free | Exit int

text \<open>A row of the table \<open>weblink\<close>; \<open>None\<close> is an SQL NULL.\<close>

record weblink_row =
  row_id :: int
  row_domain :: "string option"
  row_page :: "string option"
  row_from :: "string option"
  row_status :: int

text \<open>A row of the table \<open>email\<close>.\<close>

record email_row =
  email_name :: string
  email_from :: string
  email_page :: string

text \<open>\<open>struct weblink\<close>; \<open>page\<close> is a null pointer when \<open>malloc\<close> failed.\<close>

record weblink =
  domain :: string
  page :: "string option"
  page_len :: int
  id_of :: int

datatype message = Link_is string | Email_is string | Image_is string | Name_is string string

datatype web_buffer = No_buffer | Freed | Live "char list"

text \<open>
  What arrives at a connection: pieces, as \<open>recv\<close> returns them, until the other side closes
  it, or falls silent and leaves \<open>recv\<close> waiting for ever. It need not end: a server may send
  piece after piece without ever closing.
\<close>

codatatype (chunks: 'a) delivery = Closed | Silent | Chunk 'a "'a delivery"

primrec delivered :: "'a list \<Rightarrow> 'a delivery" where
  "delivered [] = Closed"
| "delivered (c # cs) = Chunk c (delivered cs)"

text \<open>The connection is closed after finitely many pieces.\<close>

inductive ends :: "'a delivery \<Rightarrow> bool" where
  ends_Closed [intro, simp]: "ends Closed"
| ends_Chunk [intro]: "ends d \<Longrightarrow> ends (Chunk c d)"

inductive_simps ends_simps [simp]: "ends Silent" "ends (Chunk c d)"

lemma ends_delivered [simp]: "ends (delivered cs)"
  by (induction cs) auto

lemma chunks_delivered [simp]: "chunks (delivered cs) = set cs"
  by (induction cs) auto

lemma ends_iff: "ends d \<longleftrightarrow> (\<exists>cs. d = delivered cs)"
proof
  show "ends d \<Longrightarrow> \<exists>cs. d = delivered cs"
    by (induction rule: ends.induct) (metis delivered.simps)+
qed auto

record crawler =
  use_db :: bool
  use_domain :: "string option"
  use_page :: "string option"
  timeout :: bool
  alink :: weblink
  rows :: "weblink_row list"
  line :: "char list"
  fp :: "string option"
  buf :: web_buffer
  incoming :: "string delivery"
  printed :: "message list"
  visited :: "(string \<times> string option) list"
  execs :: nat
  mallocs :: nat
  emails :: "email_row list"

datatype statement = Select_page | Insert_page | Update_status | Select_next | Select_email | Insert_email

datatype dialled = No_socket | Unknown_host | Refused | Timed_out | Connected

record world =
  grants :: "nat \<Rightarrow> nat \<Rightarrow> bool"
  fresh :: "nat \<Rightarrow> nat \<Rightarrow> char"
  pointer_size :: nat
  bufsiz :: nat
  sql_rc :: "statement \<Rightarrow> nat \<Rightarrow> int"
  db_opens :: "string \<Rightarrow> bool"
  disk :: "string \<Rightarrow> string option"
  dial :: "nat \<Rightarrow> string \<Rightarrow> dialled"
  answer :: "nat \<Rightarrow> string \<Rightarrow> string delivery option"

definition malloc :: "world \<Rightarrow> nat \<Rightarrow> crawler \<Rightarrow> bool \<times> crawler" where
  "malloc w n s = (grants w (mallocs s) n, s\<lparr>mallocs := Suc (mallocs s)\<rparr>)"

definition emit :: "message \<Rightarrow> crawler \<Rightarrow> crawler" where
  "emit out s = s\<lparr>printed := printed s @ [out]\<rparr>"

subsection \<open>The SQL statements\<close>

text \<open>\<open>sqlite3_exec\<close>: the result code, and one more statement run.\<close>

definition sqlite_exec :: "world \<Rightarrow> statement \<Rightarrow> crawler \<Rightarrow> int \<times> crawler" where
  "sqlite_exec w st s = (sql_rc w st (execs s), s\<lparr>execs := Suc (execs s)\<rparr>)"

text \<open>\<open>where page = p and domain = d\<close>: a comparison with NULL selects nothing.\<close>

definition rows_with :: "string option \<Rightarrow> string option \<Rightarrow> weblink_row list \<Rightarrow> weblink_row list" where
  "rows_with d p rs =
     filter (\<lambda>r. d \<noteq> None \<and> p \<noteq> None \<and> row_page r = p \<and> row_domain r = d) rs"

text \<open>\<open>integer primary key\<close>: a new row gets the number after the largest one.\<close>

definition next_id :: "weblink_row list \<Rightarrow> int" where
  "next_id rs = (if rs = [] then 1 else Max (set (map row_id rs)) + 1)"

definition insert_row ::
    "string option \<Rightarrow> string option \<Rightarrow> string option \<Rightarrow> int \<Rightarrow> weblink_row list \<Rightarrow> weblink_row list" where
  "insert_row d p from status rs =
     rs @ [\<lparr>row_id = next_id rs, row_domain = d, row_page = p, row_from = from, row_status = status\<rparr>]"

definition update_rows :: "int \<Rightarrow> int \<Rightarrow> weblink_row list \<Rightarrow> weblink_row list" where
  "update_rows status i rs =
     map (\<lambda>r. if row_id r = i then r\<lparr>row_status := status\<rparr> else r) rs"

text \<open>\<open>where status=1 order by id asc limit 0,1\<close>\<close>

definition first_open :: "weblink_row list \<Rightarrow> weblink_row option" where
  "first_open rs =
     (case sort_key row_id (filter (\<lambda>r. row_status r = 1) rs) of
        [] \<Rightarrow> None
      | r # _ \<Rightarrow> Some r)"

subsection \<open>The operations of sqlite\_op.c\<close>

definition search_record :: "world \<Rightarrow> string option \<Rightarrow> string option \<Rightarrow> crawler \<Rightarrow> bool \<times> crawler" where
  "search_record w d p s =
     (let (ret, s) = sqlite_exec w Select_page s;
          empty = (if ret = 0 \<and> rows_with d p (rows s) \<noteq> [] then False else True)
      in (\<not> empty, s))"

definition insert_db ::
    "world \<Rightarrow> string option \<Rightarrow> string option \<Rightarrow> string option \<Rightarrow> int \<Rightarrow> crawler \<Rightarrow> int \<times> crawler" where
  "insert_db w d p from status s =
     (let (ret, s) = search_record w d p s in
      if ret then (0, s)
      else let (ret, s) = sqlite_exec w Insert_page s in
        (ret, if ret = 0 then s\<lparr>rows := insert_row d p from status (rows s)\<rparr> else s))"

text \<open>The same for the table of addresses, which no other routine calls.\<close>

definition search_email_record :: "world \<Rightarrow> string \<Rightarrow> crawler \<Rightarrow> bool \<times> crawler" where
  "search_email_record w name s =
     (let (ret, s) = sqlite_exec w Select_email s;
          empty = (if ret = 0 \<and> filter (\<lambda>r. email_name r = name) (emails s) \<noteq> [] then False else True)
      in (\<not> empty, s))"

definition insert_email :: "world \<Rightarrow> string \<Rightarrow> string \<Rightarrow> string \<Rightarrow> crawler \<Rightarrow> int \<times> crawler" where
  "insert_email w name path fromdomain s =
     (let (ret, s) = search_email_record w name s in
      if ret then (0, s)
      else let (ret, s) = sqlite_exec w Insert_email s in
        (ret, if ret = 0
              then s\<lparr>emails := emails s @ [\<lparr>email_name = name, email_from = fromdomain, email_page = path\<rparr>]\<rparr>
              else s))"

text \<open>The address of a link: \<open>domain2[64]\<close> must hold the host and its terminator.\<close>

definition insert_link :: "world \<Rightarrow> string \<Rightarrow> crawler \<Rightarrow> fault + crawler" where
  "insert_link w link s =
     (if take 7 link = ''http://'' then
        (let domain2 = takeWhile (\<lambda>c. c \<noteq> CHR ''/'') (drop 7 link);
             page = dropWhile (\<lambda>c. c \<noteq> CHR ''/'') (drop 7 link)
         in if page = [] then
              (if 64 \<le> length domain2 then Inl Overflow
               else Inr (snd (insert_db w (Some domain2) (Some ''/'') (use_domain s) 1 s)))
            else if 64 < length domain2 then Inl Overflow
            else if length domain2 = 64 then Inl Out_of_bounds
            else Inr (snd (insert_db w (Some domain2) (Some page) (use_domain s) 1 s)))
      else Inr (snd (insert_db w (use_domain s) (Some link) (use_domain s) 1 s)))"

definition update_db :: "world \<Rightarrow> int \<Rightarrow> int \<Rightarrow> crawler \<Rightarrow> int \<times> crawler" where
  "update_db w i status s =
     (let (ret, s) = sqlite_exec w Update_status s
      in (ret, if ret = 0 then s\<lparr>rows := update_rows status i (rows s)\<rparr> else s))"

text \<open>\<open>record_callback\<close> copies the columns of the row into \<open>alink\<close>.\<close>

definition record_callback :: "world \<Rightarrow> weblink_row \<Rightarrow> crawler \<Rightarrow> fault + crawler" where
  "record_callback w r s =
     (case (row_domain r, row_page r) of
        (Some d, Some p) \<Rightarrow>
          (if 64 \<le> length d then Inl Overflow
           else let (got, s) = malloc w (length p + 1) s in
             Inr (s\<lparr>alink := \<lparr>domain = d, page = (if got then Some p else None),
                             page_len = int (length p), id_of = row_id r\<rparr>\<rparr>))
      | _ \<Rightarrow> Inl Null_pointer)"

definition get_a_record :: "world \<Rightarrow> crawler \<Rightarrow> fault + (weblink option \<times> crawler)" where
  "get_a_record w s =
     (let (ret, s) = sqlite_exec w Select_next s in
      if ret \<noteq> 0 then Inr (None, s)
      else case first_open (rows s) of
        None \<Rightarrow> Inr (None, s)
      | Some r \<Rightarrow>
          (case record_callback w r s of
             Inl f \<Rightarrow> Inl f
           | Inr s \<Rightarrow> Inr (Some (alink s), s)))"

definition init_sqlite :: "world \<Rightarrow> string \<Rightarrow> crawler \<Rightarrow> fault + crawler" where
  "init_sqlite w dataname s = (if db_opens w dataname then Inr s else Inl (Exit 1))"

subsection \<open>What the statements do to the table\<close>

definition sql_works :: "world \<Rightarrow> bool" where
  "sql_works w \<longleftrightarrow> (\<forall>st n. sql_rc w st n = 0)"

definition key :: "weblink_row \<Rightarrow> string option \<times> string option" where
  "key r = (row_domain r, row_page r)"

text \<open>No pair and no number occurs twice, and no column is NULL.\<close>

definition table_ok :: "weblink_row list \<Rightarrow> bool" where
  "table_ok rs \<longleftrightarrow> distinct (map key rs) \<and> distinct (map row_id rs) \<and>
     (\<forall>r\<in>set rs. row_domain r \<noteq> None \<and> row_page r \<noteq> None)"

lemma rows_with_empty: "rows_with (Some d) (Some p) rs = [] \<longleftrightarrow> (Some d, Some p) \<notin> key ` set rs"
  by (auto simp: rows_with_def key_def filter_empty_conv image_iff)

lemma next_id_new: "r \<in> set rs \<Longrightarrow> row_id r < next_id rs"
  by (auto simp: next_id_def less_eq_Suc_le intro!: Max_ge zle_add1_eq_le [THEN iffD2])

text \<open>Adding a pair: what a successful \<open>insert_db\<close> does.\<close>

definition add_page ::
    "string option \<times> string option \<Rightarrow> string option \<Rightarrow> int \<Rightarrow> weblink_row list \<Rightarrow> weblink_row list" where
  "add_page k from status rs =
     (if k \<in> key ` set rs then rs else insert_row (fst k) (snd k) from status rs)"

lemma add_page_ok:
  assumes "table_ok rs" and "fst k \<noteq> None" and "snd k \<noteq> None"
  shows "table_ok (add_page k from status rs)"
proof -
  have "next_id rs \<notin> row_id ` set rs" using next_id_new [of _ rs] by force
  then show ?thesis using assms by (cases k) (auto simp: table_ok_def add_page_def insert_row_def key_def)
qed

lemma add_page_keys: "key ` set (add_page k from status rs) = insert k (key ` set rs)"
  by (auto simp: add_page_def insert_row_def key_def)

lemma add_page_keeps: "set rs \<subseteq> set (add_page k from status rs)"
  by (auto simp: add_page_def insert_row_def)

lemma add_page_new:
  "r \<in> set (add_page k from status rs) \<Longrightarrow> r \<notin> set rs \<Longrightarrow>
   key r = k \<and> k \<notin> key ` set rs \<and> row_status r = status"
  by (auto simp: add_page_def insert_row_def key_def split: if_splits)

lemma insert_db_effect:
  assumes "sql_works w"
  shows "\<exists>n. snd (insert_db w (Some d) (Some p) from st s) =
    s\<lparr>rows := add_page (Some d, Some p) from st (rows s), execs := n\<rparr>"
proof -
  have rc: "sql_rc w st n = 0" for st n using assms by (simp add: sql_works_def)
  show ?thesis
    by (cases s) (auto simp: insert_db_def search_record_def sqlite_exec_def rc rows_with_empty add_page_def)
qed

lemma insert_email_distinct:
  assumes "sql_works w" and "distinct (map email_name (emails s))"
  shows "distinct (map email_name (emails (snd (insert_email w name p d s))))"
  using assms
  by (auto simp: insert_email_def search_email_record_def sqlite_exec_def sql_works_def filter_empty_conv)

lemma first_open_None: "first_open rs = None \<longleftrightarrow> (\<forall>r\<in>set rs. row_status r \<noteq> 1)"
proof -
  have "first_open rs = None \<longleftrightarrow> sort_key row_id (filter (\<lambda>r. row_status r = 1) rs) = []"
    by (simp add: first_open_def split: list.split)
  also have "\<dots> \<longleftrightarrow> filter (\<lambda>r. row_status r = 1) rs = []"
    by (metis length_0_conv length_sort)
  finally show ?thesis by (simp add: filter_empty_conv)
qed

lemma first_open_Some:
  assumes "first_open rs = Some r"
  shows "r \<in> set rs" and "row_status r = 1"
    and "\<forall>q\<in>set rs. row_status q = 1 \<longrightarrow> row_id r \<le> row_id q"
proof -
  let ?o = "filter (\<lambda>r. row_status r = 1) rs"
  obtain t where t: "sort_key row_id ?o = r # t"
    using assms by (auto simp: first_open_def split: list.splits)
  have "set (sort_key row_id ?o) = insert r (set t)" by (simp add: t)
  then have mem: "set ?o = insert r (set t)" by simp
  then show "r \<in> set rs" "row_status r = 1" by auto
  have "sorted (map row_id (r # t))" using sorted_sort_key [of row_id ?o] by (simp add: t)
  then have "\<forall>q\<in>set ?o. row_id r \<le> row_id q" using mem by auto
  then show "\<forall>q\<in>set rs. row_status q = 1 \<longrightarrow> row_id r \<le> row_id q" by auto
qed

lemma update_rows_keys [simp]:
  "map key (update_rows st i rs) = map key rs" "map row_id (update_rows st i rs) = map row_id rs"
  by (auto simp: update_rows_def key_def)

lemma update_rows_ok [simp]: "table_ok (update_rows st i rs) = table_ok rs"
proof -
  have "(\<forall>r\<in>set rs. row_domain r \<noteq> None \<and> row_page r \<noteq> None) \<longleftrightarrow>
      (\<forall>k\<in>set (map key rs). fst k \<noteq> None \<and> snd k \<noteq> None)" for rs
    by (simp add: key_def)
  then show ?thesis unfolding table_ok_def by (metis update_rows_keys)
qed

subsection \<open>Where a link points to\<close>

definition absolute :: "string \<Rightarrow> bool" where
  "absolute link \<longleftrightarrow> take 7 link = ''http://''"

definition host_of :: "string \<Rightarrow> string" where
  "host_of link = takeWhile (\<lambda>c. c \<noteq> CHR ''/'') (drop 7 link)"

text \<open>The pair \<open>insert_link\<close> stores for a link found on a page of the domain \<open>base\<close>.\<close>

definition target :: "string \<Rightarrow> string \<Rightarrow> string option \<times> string option" where
  "target base link =
     (if absolute link then
        (Some (host_of link),
         Some (if CHR ''/'' \<in> set (drop 7 link) then dropWhile (\<lambda>c. c \<noteq> CHR ''/'') (drop 7 link) else ''/''))
      else (Some base, Some link))"

lemma no_slash: "dropWhile (\<lambda>c. c \<noteq> CHR ''/'') t = [] \<longleftrightarrow> CHR ''/'' \<notin> set t"
  by auto

lemma insert_link_faults:
  "(\<exists>f. insert_link w link s = Inl f) \<longleftrightarrow> absolute link \<and> 64 \<le> length (host_of link)"
  by (auto simp: insert_link_def absolute_def host_of_def Let_def)

lemma insert_link_effect:
  assumes "sql_works w" and "use_domain s = Some base" and "insert_link w link s = Inr s'"
  shows "\<exists>n. s' = s\<lparr>rows := add_page (target base link) (Some base) 1 (rows s), execs := n\<rparr>"
proof -
  let ?t = "target base link"
  obtain d p where t: "?t = (Some d, Some p)"
    by (cases "absolute link") (simp_all add: target_def)
  have "s' = snd (insert_db w (Some d) (Some p) (Some base) 1 s)"
    using assms(2,3) t no_slash [of "drop 7 link"]
    by (auto simp: insert_link_def absolute_def host_of_def target_def Let_def split: if_splits)
  then show ?thesis using insert_db_effect [OF assms(1), of d p "Some base" 1 s] t by simp
qed

end
