(* ===== verification/Html.thy ===== *)
theory Html
  imports Weblinks
begin

text \<open>
  The HTML scanner of the crawler: \<open>common.c\<close>, \<open>get_link.c\<close>, \<open>get_image.c\<close> and
  \<open>loop\<close> of \<open>main.c\<close>.

  A \<open>char *\<close> into the text is the string of the characters from it up to the
  terminator; reading the empty string gives the terminator.  The pointers of a
  \<open>struct parse_result\<close> can be unset (\<open>Unset\<close>), null or a string.

  The reference definition \<open>tags\<close> looks at every suffix of the text that follows a
  \<open><\<close>, independently of the others.  The lemmas show that \<open>loop\<close> does exactly what it
  lists, in order, and that \<open>tags\<close> lists exactly the attributes
  \<open><a  href  = "address\<close> and \<open><img  src = "name\<close> of the text.
\<close>

subsection \<open>common.c\<close>

definition get_char :: "string \<Rightarrow> char" where
  "get_char data = (case data of [] \<Rightarrow> NUL | c # _ \<Rightarrow> c)"

fun skip_spaces :: "string \<Rightarrow> string" where
  "skip_spaces [] = []"
| "skip_spaces (c # data) = (if c = CHR '' '' then skip_spaces data else c # data)"

fun compare :: "string \<Rightarrow> string \<Rightarrow> string option" where
  "compare data [] = Some data"
| "compare data (t # dst) =
     (if get_char data = NUL then None
      else if get_char data \<noteq> t then None
      else compare (tl data) dst)"

definition is_string :: "string option \<Rightarrow> string \<Rightarrow> string option" where
  "is_string data dst =
     (case data of None \<Rightarrow> None | Some data \<Rightarrow> compare (skip_spaces data) dst)"

fun get_start :: "string \<Rightarrow> string" where
  "get_start [] = []"
| "get_start (c # data) = (if c = CHR '' '' \<or> c = CHR 0x22 then get_start data else c # data)"

fun get_end :: "string \<Rightarrow> nat" where
  "get_end [] = 0"
| "get_end (c # data) =
     (if c = NUL then 0
      else if c = CHR '' '' \<or> c = CHR 0x22 \<or> c = CHR ''>'' then 0
      else Suc (get_end data))"

subsection \<open>get\_link.c\<close>

datatype cptr = Unset | Null | At string

text \<open>A pointer handed to \<open>is_string\<close>; reading through an unset one is undefined.\<close>

fun string_at :: "cptr \<Rightarrow> fault + string option" where
  "string_at Unset = Inl Uninitialised"
| "string_at Null = Inr None"
| "string_at (At d) = Inr (Some d)"

record parse_result =
  ret :: int
  data_of :: cptr

definition get_link_address :: "world \<Rightarrow> string \<Rightarrow> crawler \<Rightarrow> cptr \<times> crawler" where
  "get_link_address w data s =
     (let data = get_start data;
          i = get_end data;
          (got, s) = malloc w (i + 1) s
      in (if got then At (take i data) else Null, s))"

definition get_one_link :: "world \<Rightarrow> string \<Rightarrow> crawler \<Rightarrow> fault + (parse_result option \<times> crawler)" where
  "get_one_link w data s =
     (case is_string (Some data) ''href'' of
        None \<Rightarrow> Inr (None, s)
      | Some data \<Rightarrow>
          (let value = is_string (Some data) ''='';
               (got, s) = malloc w (2 * pointer_size w) s
           in if \<not> got then Inr (None, s)
              else let (addr, s) = (case value of
                       Some data \<Rightarrow> get_link_address w data s
                     | None \<Rightarrow> (Unset, s))
                in (case string_at addr of
                      Inl f \<Rightarrow> Inl f
                    | Inr link \<Rightarrow>
                        (case is_string link ''mailto:'' of
                           Some mail \<Rightarrow> Inr (Some \<lparr>ret = 2, data_of = At mail\<rparr>, s)
                         | None \<Rightarrow> Inr (Some \<lparr>ret = 1, data_of = addr\<rparr>, s)))))"

text \<open>\<open>printf\<close> with \<open>%s\<close> reads the string it is given.\<close>

definition print_string :: "(string \<Rightarrow> message) \<Rightarrow> cptr \<Rightarrow> crawler \<Rightarrow> fault + crawler" where
  "print_string message p s =
     (case string_at p of
        Inl f \<Rightarrow> Inl f
      | Inr None \<Rightarrow> Inl Null_pointer
      | Inr (Some d) \<Rightarrow> Inr (emit (message d) s))"

definition get_link :: "world \<Rightarrow> string \<Rightarrow> crawler \<Rightarrow> fault + crawler" where
  "get_link w data s =
     (case get_one_link w data s of
        Inl f \<Rightarrow> Inl f
      | Inr (None, s) \<Rightarrow> Inr s
      | Inr (Some one_link, s) \<Rightarrow>
          if ret one_link = 1 then
            if use_db s then
              (case string_at (data_of one_link) of
                 Inl f \<Rightarrow> Inl f
               | Inr None \<Rightarrow> Inl Null_pointer
               | Inr (Some link) \<Rightarrow>
                   if get_char link = CHR ''#'' then Inr s else insert_link w link s)
            else print_string Link_is (data_of one_link) s
          else if ret one_link = 2 then print_string Email_is (data_of one_link) s
          else Inr s)"

subsection \<open>get\_image.c\<close>

definition get_image_name :: "world \<Rightarrow> string \<Rightarrow> crawler \<Rightarrow> cptr \<times> crawler" where
  "get_image_name w data s =
     (let data = get_start data;
          i = get_end data;
          (got, s) = malloc w (i + 1) s
      in (if got then At (take i data) else Null, s))"

definition get_one_image :: "world \<Rightarrow> string \<Rightarrow> crawler \<Rightarrow> parse_result option \<times> crawler" where
  "get_one_image w data s =
     (case is_string (Some data) ''src'' of
        None \<Rightarrow> (None, s)
      | Some data \<Rightarrow>
          (let value = is_string (Some data) ''='';
               (got, s) = malloc w (2 * pointer_size w) s
           in if \<not> got then (None, s)
              else let (name, s) = (case value of
                       Some data \<Rightarrow> get_image_name w data s
                     | None \<Rightarrow> (Unset, s))
                in (Some \<lparr>ret = 1, data_of = name\<rparr>, s)))"

definition get_image :: "world \<Rightarrow> string \<Rightarrow> crawler \<Rightarrow> fault + crawler" where
  "get_image w data s =
     (case get_one_image w data s of
        (None, s) \<Rightarrow> Inr s
      | (Some one_image, s) \<Rightarrow>
          if ret one_image \<noteq> 0 then print_string Image_is (data_of one_image) s else Inr s)"

subsection \<open>The loop over the text (main.c)\<close>

fun loop :: "world \<Rightarrow> string \<Rightarrow> crawler \<Rightarrow> fault + crawler" where
  "loop w [] s = Inr s"
| "loop w (c # data) s =
     (if c = NUL then Inr s
      else if c = CHR ''<'' then
        if take 2 data = ''a '' then
          (case get_link w (drop 2 data) s of
             Inl f \<Rightarrow> Inl f
           | Inr s \<Rightarrow> loop w (drop 2 data) s)
        else if take 4 data = ''img '' then
          (case get_image w (drop 4 data) s of
             Inl f \<Rightarrow> Inl f
           | Inr s \<Rightarrow> loop w (drop 4 data) s)
        else loop w data s
      else loop w data s)"

subsection \<open>The tags of a text\<close>

datatype tag = A_href string | Img_src string | No_value

abbreviation blank :: "string \<Rightarrow> bool" where "blank b \<equiv> set b \<subseteq> {CHR '' ''}"

definition stops :: "char \<Rightarrow> bool" where
  "stops c \<longleftrightarrow> c = CHR '' '' \<or> c = CHR 0x22 \<or> c = CHR ''>''"

definition value_of :: "string \<Rightarrow> string" where
  "value_of rest =
     takeWhile (\<lambda>c. \<not> stops c) (dropWhile (\<lambda>c. c = CHR '' '' \<or> c = CHR 0x22) rest)"

definition attribute :: "string \<Rightarrow> (string \<Rightarrow> tag) \<Rightarrow> string \<Rightarrow> tag list" where
  "attribute name mk data =
     (case is_string (Some data) name of
        None \<Rightarrow> []
      | Some d \<Rightarrow> (case is_string (Some d) ''='' of None \<Rightarrow> [No_value] | Some r \<Rightarrow> [mk (value_of r)]))"

definition tag_after :: "string \<Rightarrow> tag list" where
  "tag_after data =
     (if take 2 data = ''a '' then attribute ''href'' A_href (drop 2 data)
      else if take 4 data = ''img '' then attribute ''src'' Img_src (drop 4 data)
      else [])"

fun tags :: "string \<Rightarrow> tag list" where
  "tags [] = []"
| "tags (c # data) = (if c = CHR ''<'' then tag_after data else []) @ tags data"

text \<open>What the program makes of a tag.\<close>

definition mail_prefix :: "string \<Rightarrow> bool" where
  "mail_prefix v \<longleftrightarrow> take 7 v = ''mailto:''"

definition do_tag :: "world \<Rightarrow> tag \<Rightarrow> crawler \<Rightarrow> fault + crawler" where
  "do_tag w t s =
     (let s = s\<lparr>mallocs := mallocs s + 2\<rparr> in
      case t of
        No_value \<Rightarrow> Inl Uninitialised
      | Img_src v \<Rightarrow> Inr (emit (Image_is v) s)
      | A_href v \<Rightarrow>
          if mail_prefix v then Inr (emit (Email_is (drop 7 v)) s)
          else if \<not> use_db s then Inr (emit (Link_is v) s)
          else if take 1 v = ''#'' then Inr s else insert_link w v s)"

fun do_tags :: "world \<Rightarrow> tag list \<Rightarrow> crawler \<Rightarrow> fault + crawler" where
  "do_tags w [] s = Inr s"
| "do_tags w (t # ts) s = (case do_tag w t s of Inl f \<Rightarrow> Inl f | Inr s \<Rightarrow> do_tags w ts s)"

lemma do_tags_append:
  "do_tags w (ts @ us) s = (case do_tags w ts s of Inl f \<Rightarrow> Inl f | Inr s \<Rightarrow> do_tags w us s)"
  by (induction ts arbitrary: s) (auto split: sum.split)

definition memory_ok :: "world \<Rightarrow> bool" where
  "memory_ok w \<longleftrightarrow> (\<forall>n k. grants w n k)"

lemma malloc_ok: "memory_ok w \<Longrightarrow> malloc w n s = (True, s\<lparr>mallocs := Suc (mallocs s)\<rparr>)"
  by (simp add: malloc_def memory_ok_def)

lemma get_start_eq: "get_start d = dropWhile (\<lambda>c. c = CHR '' '' \<or> c = CHR 0x22) d"
  by (induction d) auto

lemma get_end_eq: "NUL \<notin> set d \<Longrightarrow> take (get_end d) d = takeWhile (\<lambda>c. \<not> stops c) d"
  by (induction d) (auto simp: stops_def)

lemma skip_spaces_eq: "skip_spaces d = dropWhile (\<lambda>c. c = CHR '' '') d"
  by (induction d) auto

lemma compare_eq:
  "NUL \<notin> set dst \<Longrightarrow> compare d dst = (if take (length dst) d = dst then Some (drop (length dst) d) else None)"
proof (induction dst arbitrary: d)
  case (Cons t dst)
  then show ?case by (cases d) (auto simp: get_char_def)
qed simp

lemma is_string_eq:
  "NUL \<notin> set dst \<Longrightarrow> is_string (Some d) dst =
    (let e = dropWhile (\<lambda>c. c = CHR '' '') d in
     if take (length dst) e = dst then Some (drop (length dst) e) else None)"
  by (simp add: is_string_def compare_eq skip_spaces_eq Let_def)

lemma set_drop_dropWhile:
  "set (drop n d) \<subseteq> set d" "set (dropWhile P d) \<subseteq> set d"
  using set_drop_subset set_dropWhileD by fast+

lemma is_string_part:
  assumes "is_string (Some d) dst = Some r" and "NUL \<notin> set dst" and "NUL \<notin> set d"
  shows "NUL \<notin> set r"
  using assms set_drop_dropWhile by (fastforce simp: is_string_eq Let_def split: if_splits)

lemma value_of_eq:
  assumes "NUL \<notin> set r"
  shows "take (get_end (get_start r)) (get_start r) = value_of r"
proof -
  have "NUL \<notin> set (get_start r)"
    using assms set_drop_dropWhile(2) [of _ r] by (auto simp: get_start_eq)
  then show ?thesis by (simp add: get_end_eq value_of_def get_start_eq)
qed

lemma value_of_no_stop: "c \<in> set (value_of r) \<Longrightarrow> \<not> stops c"
  by (auto simp: value_of_def dest: set_takeWhileD)

lemma mailto_eq:
  "is_string (Some (value_of r)) ''mailto:'' =
    (if mail_prefix (value_of r) then Some (drop 7 (value_of r)) else None)"
proof -
  have "dropWhile (\<lambda>c. c = CHR '' '') (value_of r) = value_of r"
    using value_of_no_stop [of _ r] by (cases "value_of r") (auto simp: stops_def)
  then show ?thesis by (simp add: is_string_eq mail_prefix_def NUL_def Let_def eval_nat_numeral)
qed

subsection \<open>The routines do what the reference lists\<close>

lemma get_link_does_tag:
  assumes mem: "memory_ok w" and nul: "NUL \<notin> set d"
  shows "get_link w d s = do_tags w (attribute ''href'' A_href d) s"
proof (cases "is_string (Some d) ''href''")
  case None
  then show ?thesis by (simp add: get_link_def get_one_link_def attribute_def)
next
  case (Some e)
  have nule: "NUL \<notin> set e" using is_string_part [OF Some _ nul] by (simp add: NUL_def)
  note [simp] = malloc_ok [OF mem]
  show ?thesis
  proof (cases "is_string (Some e) ''=''")
    case None
    then show ?thesis
      using Some by (simp add: get_link_def get_one_link_def attribute_def do_tag_def Let_def)
  next
    case (Some r)
    have v: "take (get_end (get_start r)) (get_start r) = value_of r"
      using value_of_eq is_string_part [OF Some _ nule] by (simp add: NUL_def)
    have hash: "get_char (value_of r) = CHR ''#'' \<longleftrightarrow> take 1 (value_of r) = ''#''"
      by (cases "value_of r") (auto simp: get_char_def NUL_def)
    show ?thesis
      using \<open>is_string (Some d) ''href'' = Some e\<close> Some
      by (simp add: get_link_def get_one_link_def attribute_def get_link_address_def v mailto_eq
          print_string_def do_tag_def Let_def hash split: sum.split)
  qed
qed

lemma get_image_does_tag:
  assumes mem: "memory_ok w" and nul: "NUL \<notin> set d"
  shows "get_image w d s = do_tags w (attribute ''src'' Img_src d) s"
proof (cases "is_string (Some d) ''src''")
  case None
  then show ?thesis by (simp add: get_image_def get_one_image_def attribute_def)
next
  case (Some e)
  have nule: "NUL \<notin> set e" using is_string_part [OF Some _ nul] by (simp add: NUL_def)
  note [simp] = malloc_ok [OF mem]
  show ?thesis
  proof (cases "is_string (Some e) ''=''")
    case None
    then show ?thesis
      using Some by (simp add: get_image_def get_one_image_def attribute_def print_string_def do_tag_def Let_def)
  next
    case (Some r)
    have "take (get_end (get_start r)) (get_start r) = value_of r"
      using value_of_eq is_string_part [OF Some _ nule] by (simp add: NUL_def)
    then show ?thesis
      using \<open>is_string (Some d) ''src'' = Some e\<close> Some
      by (simp add: get_image_def get_one_image_def attribute_def get_image_name_def
          print_string_def do_tag_def Let_def)
  qed
qed

text \<open>The characters the loop jumps over hold no \<open><\<close>.\<close>

lemma tags_skip:
  assumes "CHR ''<'' \<notin> set (take n data)"
  shows "tags (drop n data) = tags data"
  using assms
proof (induction n arbitrary: data)
  case (Suc n)
  then show ?case by (cases data) auto
qed simp

lemma loop_does_tags:
  assumes "memory_ok w" and "NUL \<notin> set data"
  shows "loop w data s = do_tags w (tags data) s"
  using assms
proof (induction w data s rule: loop.induct)
  case (2 w c data s)
  note mem = \<open>memory_ok w\<close>
  have nul: "NUL \<notin> set (drop n data)" for n using 2(6) set_drop_subset [of n data] by auto
  consider "c \<noteq> CHR ''<''" | "c = CHR ''<''" "take 2 data = ''a ''"
    | "c = CHR ''<''" "take 2 data \<noteq> ''a ''" "take 4 data = ''img ''"
    | "c = CHR ''<''" "take 2 data \<noteq> ''a ''" "take 4 data \<noteq> ''img ''" by blast
  then show ?case
  proof cases
    case 1
    then show ?thesis using 2 by auto
  next
    case c: 2
    then have "tags (c # data) = attribute ''href'' A_href (drop 2 data) @ tags (drop 2 data)"
      by (simp add: tag_after_def tags_skip)
    then show ?thesis
      using 2 c nul get_link_does_tag [OF mem nul, of 2 s] by (auto simp: do_tags_append NUL_def split: sum.split)
  next
    case c: 3
    then have "tags (c # data) = attribute ''src'' Img_src (drop 4 data) @ tags (drop 4 data)"
      by (simp add: tag_after_def tags_skip)
    then show ?thesis
      using 2 c nul get_image_does_tag [OF mem nul, of 4 s] by (auto simp: do_tags_append NUL_def split: sum.split)
  next
    case c: 4
    then show ?thesis using 2 by (auto simp: tag_after_def NUL_def)
  qed
qed simp

subsection \<open>The reference lists the attributes of the text\<close>

text \<open>
  \<open><el  name  = "v\<close> stands in the text: blanks between the parts, blanks and quotes
  before the value, which ends at a blank, a quote, \<open>>\<close> or the end of the text.
\<close>

definition has_tag :: "string \<Rightarrow> string \<Rightarrow> string \<Rightarrow> string \<Rightarrow> bool" where
  "has_tag el name data v \<longleftrightarrow>
     (\<exists>u b1 b2 q rest. data = u @ ''<'' @ el @ b1 @ name @ b2 @ ''='' @ q @ v @ rest \<and>
        blank b1 \<and> blank b2 \<and> set q \<subseteq> {CHR '' '', CHR 0x22} \<and> (\<forall>c\<in>set v. \<not> stops c) \<and>
        (rest = [] \<or> stops (hd rest)) \<and> (v = [] \<longrightarrow> rest = [] \<or> hd rest = CHR ''>''))"

text \<open>A tag whose attribute is not followed by an equals sign.\<close>

definition has_bare_tag :: "string \<Rightarrow> string \<Rightarrow> string \<Rightarrow> bool" where
  "has_bare_tag el name data \<longleftrightarrow>
     (\<exists>u b d. data = u @ ''<'' @ el @ b @ name @ d \<and> blank b \<and> \<not> (\<exists>b2 r. blank b2 \<and> d = b2 @ ''='' @ r))"

lemma dropWhile_split:
  assumes "set b \<subseteq> Collect P" and "r = [] \<or> \<not> P (hd r)"
  shows "dropWhile P (b @ r) = r"
proof -
  have "dropWhile P (b @ r) = dropWhile P r"
    using assms(1) by (induction b) auto
  then show ?thesis using assms(2) by (cases r) auto
qed

lemma is_string_iff:
  assumes "NUL \<notin> set dst" and "dst \<noteq> []" and "hd dst \<noteq> CHR '' ''"
  shows "is_string (Some d) dst = Some r \<longleftrightarrow> (\<exists>b. blank b \<and> d = b @ dst @ r)"
proof
  let ?e = "dropWhile (\<lambda>c. c = CHR '' '') d"
  assume "is_string (Some d) dst = Some r"
  then have "take (length dst) ?e = dst" "r = drop (length dst) ?e"
    by (auto simp: is_string_eq [OF assms(1)] Let_def split: if_splits)
  then have "?e = dst @ r" using append_take_drop_id [of "length dst" ?e] by simp
  then have "d = takeWhile (\<lambda>c. c = CHR '' '') d @ dst @ r"
    using takeWhile_dropWhile_id [of "\<lambda>c. c = CHR '' ''" d] by simp
  moreover have "blank (takeWhile (\<lambda>c. c = CHR '' '') d)" by (auto dest: set_takeWhileD)
  ultimately show "\<exists>b. blank b \<and> d = b @ dst @ r" by blast
next
  assume "\<exists>b. blank b \<and> d = b @ dst @ r"
  then obtain b where b: "blank b" "d = b @ dst @ r" by blast
  have "dropWhile (\<lambda>c. c = CHR '' '') d = dst @ r"
    unfolding b(2) by (rule dropWhile_split) (use b(1) assms(2,3) in \<open>auto simp: hd_append\<close>)
  then show "is_string (Some d) dst = Some r" by (simp add: is_string_eq [OF assms(1)] Let_def)
qed

lemma takeWhile_split:
  assumes "\<forall>c\<in>set v. P c" and "rest = [] \<or> \<not> P (hd rest)"
  shows "takeWhile P (v @ rest) = v"
proof -
  have "takeWhile P (v @ rest) = v @ takeWhile P rest" using assms(1) by simp
  then show ?thesis using assms(2) by (cases rest) auto
qed

lemma value_of_iff:
  "value_of r = v \<longleftrightarrow>
    (\<exists>q rest. r = q @ v @ rest \<and> set q \<subseteq> {CHR '' '', CHR 0x22} \<and> (\<forall>c\<in>set v. \<not> stops c) \<and>
       (rest = [] \<or> stops (hd rest)) \<and> (v = [] \<longrightarrow> rest = [] \<or> hd rest = CHR ''>''))"
  (is "_ \<longleftrightarrow> (\<exists>q rest. ?split q rest)")
proof
  let ?Q = "\<lambda>c. c = CHR '' '' \<or> c = CHR 0x22"
  let ?q = "takeWhile ?Q r" and ?d = "dropWhile ?Q r"
  let ?rest = "dropWhile (\<lambda>c. \<not> stops c) ?d"
  assume v: "value_of r = v"
  have "r = ?q @ takeWhile (\<lambda>c. \<not> stops c) ?d @ ?rest" by simp
  then have s: "r = ?q @ v @ ?rest" unfolding v [symmetric] value_of_def .
  have q: "set ?q \<subseteq> {CHR '' '', CHR 0x22}" by (auto dest: set_takeWhileD)
  have stop: "?rest = [] \<or> stops (hd ?rest)" using hd_dropWhile [of "\<lambda>c. \<not> stops c" ?d] by blast
  have "?rest = [] \<or> hd ?rest = CHR ''>''" if "v = []"
  proof -
    have "takeWhile (\<lambda>c. \<not> stops c) ?d = []" using that v by (simp add: value_of_def)
    then have "?rest = ?d" by (metis append_Nil takeWhile_dropWhile_id)
    moreover have "?d = [] \<or> \<not> ?Q (hd ?d)" using hd_dropWhile [of ?Q r] by blast
    ultimately show ?thesis using stop unfolding stops_def by metis
  qed
  then show "\<exists>q rest. ?split q rest"
    using s q stop value_of_no_stop v by (intro exI [of _ ?q] exI [of _ ?rest] conjI) blast+
next
  let ?Q = "\<lambda>c. c = CHR '' '' \<or> c = CHR 0x22"
  assume "\<exists>q rest. ?split q rest"
  then obtain q rest where s: "?split q rest" by blast
  have "v @ rest = [] \<or> \<not> ?Q (hd (v @ rest))"
    using s by (cases v) (auto simp: stops_def)
  then have "dropWhile ?Q (q @ v @ rest) = v @ rest"
    by (intro dropWhile_split) (use s in auto)
  then show "value_of r = v"
    using s takeWhile_split [of v "\<lambda>c. \<not> stops c" rest] by (auto simp: value_of_def)
qed

lemma in_tags: "t \<in> set (tags data) \<longleftrightarrow> (\<exists>u d. data = u @ CHR ''<'' # d \<and> t \<in> set (tag_after d))"
proof (induction data)
  case (Cons c data)
  have "(\<exists>u d. c # data = u @ CHR ''<'' # d \<and> t \<in> set (tag_after d)) \<longleftrightarrow>
      c = CHR ''<'' \<and> t \<in> set (tag_after data) \<or> (\<exists>u d. data = u @ CHR ''<'' # d \<and> t \<in> set (tag_after d))"
    by (subst ex_comm) (auto simp: Cons_eq_append_conv)
  then show ?case unfolding tags.simps set_append Un_iff using Cons.IH by simp
qed simp

lemma in_attribute:
  assumes name: "NUL \<notin> set name" "name \<noteq> []" "hd name \<noteq> CHR '' ''" and mk: "inj mk" "\<And>v. mk v \<noteq> No_value"
  shows "mk v \<in> set (attribute name mk d) \<longleftrightarrow>
      (\<exists>b1 b2 r. d = b1 @ name @ b2 @ ''='' @ r \<and> blank b1 \<and> blank b2 \<and> value_of r = v)"
    and "No_value \<in> set (attribute name mk d) \<longleftrightarrow>
      (\<exists>b e. d = b @ name @ e \<and> blank b \<and> \<not> (\<exists>b2 r. blank b2 \<and> e = b2 @ ''='' @ r))"
proof -
  note n = is_string_iff [OF name]
  have e: "is_string (Some e) ''='' = Some r \<longleftrightarrow> (\<exists>b. blank b \<and> e = b @ ''='' @ r)" for e r
    by (rule is_string_iff) (simp_all add: NUL_def)
  have "mk v \<in> set (attribute name mk d) \<longleftrightarrow>
      (\<exists>e r. is_string (Some d) name = Some e \<and> is_string (Some e) ''='' = Some r \<and> value_of r = v)"
    using mk by (cases "is_string (Some d) name") (auto simp: attribute_def inj_eq split: option.split)
  then show "mk v \<in> set (attribute name mk d) \<longleftrightarrow>
      (\<exists>b1 b2 r. d = b1 @ name @ b2 @ ''='' @ r \<and> blank b1 \<and> blank b2 \<and> value_of r = v)"
    unfolding n e by blast
  have "No_value \<in> set (attribute name mk d) \<longleftrightarrow>
      (\<exists>e. is_string (Some d) name = Some e \<and> \<not> (\<exists>r. is_string (Some e) ''='' = Some r))"
    using mk(2) [symmetric] by (cases "is_string (Some d) name") (auto simp: attribute_def split: option.split)
  then show "No_value \<in> set (attribute name mk d) \<longleftrightarrow>
      (\<exists>b e. d = b @ name @ e \<and> blank b \<and> \<not> (\<exists>b2 r. blank b2 \<and> e = b2 @ ''='' @ r))"
    unfolding n e by blast
qed

lemma take_is: "take (length p) d = p \<longleftrightarrow> (\<exists>e. d = p @ e)"
  by (metis append_eq_conv_conj append_take_drop_id)

lemma tag_after_cases:
  "t \<in> set (tag_after d) \<longleftrightarrow>
    (\<exists>e. d = ''a '' @ e \<and> t \<in> set (attribute ''href'' A_href e)) \<or>
    (\<exists>e. d = ''img '' @ e \<and> t \<in> set (attribute ''src'' Img_src e))"
proof -
  have a: "take 2 d = ''a '' \<longleftrightarrow> (\<exists>e. d = ''a '' @ e)" and i: "take 4 d = ''img '' \<longleftrightarrow> (\<exists>e. d = ''img '' @ e)"
    using take_is [of "''a ''" d] take_is [of "''img ''" d] by (simp_all add: eval_nat_numeral)
  show ?thesis
    unfolding tag_after_def using a i by auto
qed

lemma no_blank_attributes:
  "NUL \<notin> set ''href''" "NUL \<notin> set ''src''" by (simp_all add: NUL_def)

lemma tags_exactly:
  shows "A_href v \<in> set (tags data) \<longleftrightarrow> has_tag ''a '' ''href'' data v"
    and "Img_src v \<in> set (tags data) \<longleftrightarrow> has_tag ''img '' ''src'' data v"
    and "No_value \<in> set (tags data) \<longleftrightarrow>
      has_bare_tag ''a '' ''href'' data \<or> has_bare_tag ''img '' ''src'' data"
proof -
  note h = in_attribute [of "''href''" A_href, OF no_blank_attributes(1)]
    and m = in_attribute [of "''src''" Img_src, OF no_blank_attributes(2)]
  have h': "A_href v \<notin> set (attribute ''src'' Img_src e)" "Img_src v \<notin> set (attribute ''href'' A_href e)" for e
    by (auto simp: attribute_def split: option.splits)
  have inj: "inj A_href" "inj Img_src" by (auto simp: inj_def)
  show "A_href v \<in> set (tags data) \<longleftrightarrow> has_tag ''a '' ''href'' data v"
    unfolding in_tags tag_after_cases has_tag_def by (simp add: h h' inj value_of_iff) blast
  show "Img_src v \<in> set (tags data) \<longleftrightarrow> has_tag ''img '' ''src'' data v"
    unfolding in_tags tag_after_cases has_tag_def by (simp add: m h' inj value_of_iff) blast
  show "No_value \<in> set (tags data) \<longleftrightarrow>
      has_bare_tag ''a '' ''href'' data \<or> has_bare_tag ''img '' ''src'' data"
    unfolding in_tags tag_after_cases has_bare_tag_def by (simp add: m h inj) blast
qed

subsection \<open>Scanning a text\<close>

fun report :: "tag \<Rightarrow> message" where
  "report (A_href v) = (if mail_prefix v then Email_is (drop 7 v) else Link_is v)"
| "report (Img_src v) = Image_is v"
| "report No_value = Link_is []"

lemma do_tags_reports:
  assumes "\<not> use_db s"
  shows "do_tags w ts s = (if No_value \<in> set ts then Inl Uninitialised
    else Inr (s\<lparr>printed := printed s @ map report ts, mallocs := mallocs s + 2 * length ts\<rparr>))"
  using assms
proof (induction ts arbitrary: s)
  case (Cons t ts)
  show ?case
  proof (cases t)
    case (A_href v)
    then show ?thesis using Cons.prems by (simp add: Cons.IH do_tag_def emit_def Let_def)
  next
    case (Img_src v)
    then show ?thesis using Cons.prems by (simp add: Cons.IH do_tag_def emit_def Let_def)
  qed (simp add: do_tag_def Let_def)
qed simp

text \<open>A link is stored unless it is a mail address or points into the same page.\<close>

definition stored :: "string \<Rightarrow> bool" where
  "stored v \<longleftrightarrow> \<not> mail_prefix v \<and> take 1 v \<noteq> ''#''"

text \<open>Only the table, the output and the counters change.\<close>

definition same_rest :: "crawler \<Rightarrow> crawler \<Rightarrow> bool" where
  "same_rest s s' \<longleftrightarrow>
     s' = s\<lparr>rows := rows s', printed := printed s', execs := execs s', mallocs := mallocs s'\<rparr>"

lemma same_rest_refl [simp]: "same_rest s s"
  by (simp add: same_rest_def)

lemma same_rest_trans: "same_rest s t \<Longrightarrow> same_rest t u \<Longrightarrow> same_rest s u"
  unfolding same_rest_def by (cases s; cases t; cases u) simp

lemma same_rest_fields:
  assumes "same_rest s s'"
  shows "use_db s' = use_db s" "use_domain s' = use_domain s" "use_page s' = use_page s"
    "timeout s' = timeout s" "alink s' = alink s" "line s' = line s" "fp s' = fp s" "buf s' = buf s"
    "incoming s' = incoming s" "visited s' = visited s"
  using assms unfolding same_rest_def by (cases s; cases s'; simp)+

lemma insert_db_keeps: "same_rest s (snd (insert_db w d p f st s))"
  by (cases s) (simp add: insert_db_def search_record_def sqlite_exec_def same_rest_def Let_def)

lemma insert_link_keeps:
  assumes "insert_link w v s = Inr s'"
  shows "same_rest s s'"
proof -
  obtain d p f st where "s' = snd (insert_db w d p f st s)"
    using assms unfolding insert_link_def Let_def by (auto simp del: snd_conv split: if_splits)
  then show ?thesis using insert_db_keeps by simp
qed

lemma do_tag_keeps:
  assumes "do_tag w t s = Inr s'"
  shows "same_rest s s'"
proof -
  have same: "same_rest s (s\<lparr>mallocs := mallocs s + 2\<rparr>)" by (cases s) (simp add: same_rest_def)
  have "s' = s\<lparr>mallocs := mallocs s + 2, printed := printed s'\<rparr> \<or>
      (\<exists>v. insert_link w v (s\<lparr>mallocs := mallocs s + 2\<rparr>) = Inr s')"
    using assms by (cases s; cases t) (auto simp: do_tag_def emit_def Let_def split: if_splits)
  then show ?thesis
  proof
    assume "s' = s\<lparr>mallocs := mallocs s + 2, printed := printed s'\<rparr>"
    then show ?thesis unfolding same_rest_def by (cases s; cases s'; simp)
  next
    assume "\<exists>v. insert_link w v (s\<lparr>mallocs := mallocs s + 2\<rparr>) = Inr s'"
    then show ?thesis using insert_link_keeps same same_rest_trans by blast
  qed
qed

lemma do_tags_keeps: "do_tags w ts s = Inr s' \<Longrightarrow> same_rest s s'"
proof (induction ts arbitrary: s)
  case (Cons t ts)
  then obtain u where u: "do_tag w t s = Inr u" "do_tags w ts u = Inr s'" by (auto split: sum.splits)
  then show ?case using do_tag_keeps [OF u(1)] Cons.IH [OF u(2)] same_rest_trans by blast
qed simp

lemma do_tag_stores:
  assumes "sql_works w" and "use_db s" and "use_domain s = Some base" and "do_tag w t s = Inr s'"
  shows "rows s' = (case t of A_href v \<Rightarrow> if stored v then add_page (target base v) (Some base) 1 (rows s) else rows s
    | _ \<Rightarrow> rows s)"
proof (cases t)
  case (A_href v)
  let ?s = "s\<lparr>mallocs := mallocs s + 2\<rparr>"
  show ?thesis
  proof (cases "stored v")
    case True
    then have "insert_link w v ?s = Inr s'"
      using assms A_href by (auto simp: do_tag_def stored_def Let_def)
    then show ?thesis
      using insert_link_effect [OF assms(1), of ?s base v s'] assms(3) A_href True by auto
  next
    case False
    then show ?thesis using assms A_href by (auto simp: do_tag_def stored_def emit_def Let_def split: if_splits)
  qed
qed (use assms in \<open>auto simp: do_tag_def emit_def Let_def\<close>)

lemma do_tags_stores:
  assumes "sql_works w" and "use_db s" and "use_domain s = Some base" and "do_tags w ts s = Inr s'"
  shows "rows s' = fold (\<lambda>v. add_page (target base v) (Some base) 1) [v. A_href v \<leftarrow> ts, stored v] (rows s)"
  using assms(2-)
proof (induction ts arbitrary: s)
  case (Cons t ts)
  from Cons.prems(3) obtain u where u: "do_tag w t s = Inr u" "do_tags w ts u = Inr s'"
    by (auto split: sum.splits)
  have "use_db u" "use_domain u = Some base"
    using same_rest_fields [OF do_tag_keeps [OF u(1)]] Cons.prems by auto
  then show ?case
    using Cons.IH [OF _ _ u(2)] do_tag_stores [OF assms(1) Cons.prems(1,2) u(1)] by (cases t) auto
qed simp

text \<open>What adding several pairs does to the table.\<close>

lemma fold_add_page:
  fixes base :: string and vs :: "string list" and rs :: "weblink_row list"
  defines "after \<equiv> fold (\<lambda>v. add_page (target base v) (Some base) 1) vs rs"
  shows "key ` set after = key ` set rs \<union> target base ` set vs"
    and "table_ok rs \<Longrightarrow> table_ok after"
    and "set rs \<subseteq> set after"
    and "r \<in> set after \<Longrightarrow> r \<notin> set rs \<Longrightarrow> row_status r = 1 \<and> key r \<notin> key ` set rs"
  unfolding after_def
proof (induction vs arbitrary: rs)
  case (Cons v vs)
  let ?k = "target base v"
  have k: "fst ?k \<noteq> None" "snd ?k \<noteq> None" by (simp_all add: target_def)
  {
    case 1
    then show ?case using Cons(1) by (simp add: add_page_keys)
  next
    case 2
    then show ?case using Cons(2) add_page_ok [OF 2 k] by simp
  next
    case 3
    show ?case using Cons(3) add_page_keeps [of rs ?k] by fastforce
  next
    case 4
    then show ?case
      using Cons(4) [of "add_page ?k (Some base) 1 rs"] add_page_new [of r ?k "Some base" 1 rs]
        add_page_keys [of ?k "Some base" 1 rs]
      by (cases "r \<in> set (add_page ?k (Some base) 1 rs)") auto
  }
qed simp_all

lemma loop_result_keeps:
  assumes "memory_ok w" and "NUL \<notin> set data" and "loop w data s = Inr s'"
  shows "same_rest s s'"
  using assms loop_does_tags do_tags_keeps by metis

text \<open>A world where everything works, and the program as it starts.\<close>

definition calm_world :: world where
  "calm_world = \<lparr>grants = \<lambda>n k. True, fresh = \<lambda>n i. NUL, pointer_size = 8, bufsiz = 256,
     sql_rc = \<lambda>st n. 0, db_opens = \<lambda>f. True, disk = \<lambda>f. None, dial = \<lambda>n h. Connected,
     answer = \<lambda>n q. Some Closed\<rparr>"

definition crawler_init :: crawler where
  "crawler_init = \<lparr>use_db = False, use_domain = None, use_page = None, timeout = False,
     alink = \<lparr>domain = [], page = None, page_len = 0, id_of = 0\<rparr>, rows = [], line = replicate 1024 NUL,
     fp = None, buf = No_buffer, incoming = Closed, printed = [], visited = [], execs = 0, mallocs = 0, emails = []\<rparr>"

lemma calm_world_ok [simp]: "memory_ok calm_world" "sql_works calm_world"
  by (simp_all add: memory_ok_def sql_works_def calm_world_def)

definition demo_html :: string where
  "demo_html = ''<a  href = x><img src=b><a href=mailto:m>''"

lemma demo_html [simp]:
  "tags demo_html = [A_href ''x'', Img_src ''b'', A_href ''mailto:m'']" "NUL \<notin> set demo_html"
  by code_simp+

lemma demo_html_tags:
  "\<not> (has_bare_tag ''a '' ''href'' demo_html \<or> has_bare_tag ''img '' ''src'' demo_html)"
  unfolding tags_exactly(3) [symmetric] by simp

lemma crawler_init_fields [simp]:
  "\<not> use_db crawler_init" "use_domain crawler_init = None" "printed crawler_init = []"
  "mallocs crawler_init = 0" "rows crawler_init = []" "execs crawler_init = 0"
  by (simp_all add: crawler_init_def)

subsection \<open>Properties of the scanner\<close>

text \<open>
  Without a database the loop reports the tags of the text in their order and
  changes nothing else; it reads an unset pointer exactly when some \<open><a  href\<close> or
  \<open><img  src\<close> is not followed by an equals sign.
\<close>

theorem loop_reports_tags:
  assumes "memory_ok w" and "\<not> use_db s" and "NUL \<notin> set data"
  shows "loop w data s =
    (if has_bare_tag ''a '' ''href'' data \<or> has_bare_tag ''img '' ''src'' data then Inl Uninitialised
     else Inr (s\<lparr>printed := printed s @ map report (tags data), mallocs := mallocs s + 2 * length (tags data)\<rparr>))"
  by (simp only: loop_does_tags [OF assms(1,3)] do_tags_reports [OF assms(2)] tags_exactly(3) set_map)

theorem loop_reports_tags_witness:
  "loop calm_world demo_html crawler_init =
    Inr (crawler_init\<lparr>printed := [Link_is ''x'', Image_is ''b'', Email_is ''m''], mallocs := 6\<rparr>)"
  using loop_reports_tags [of calm_world crawler_init demo_html] demo_html_tags
  by (simp add: mail_prefix_def)

text \<open>
  C11: What a text makes the program print are exactly its links, its mail addresses and
  its images.
\<close>

theorem loop_finds_every_tag:
  assumes "memory_ok w" and "\<not> use_db s" and "NUL \<notin> set data" and "printed s = []"
    and "loop w data s = Inr s'"
  shows "(Link_is v \<in> set (printed s') \<longleftrightarrow> has_tag ''a '' ''href'' data v \<and> \<not> mail_prefix v)
    \<and> (Email_is v \<in> set (printed s') \<longleftrightarrow> has_tag ''a '' ''href'' data (''mailto:'' @ v))
    \<and> (Image_is v \<in> set (printed s') \<longleftrightarrow> has_tag ''img '' ''src'' data v)"
proof -
  have "Inr s' = (if No_value \<in> set (tags data) then Inl Uninitialised
      else Inr (s\<lparr>printed := printed s @ map report (tags data), mallocs := mallocs s + 2 * length (tags data)\<rparr>))"
    using assms loop_does_tags do_tags_reports by metis
  then have out: "No_value \<notin> set (tags data)" "printed s' = map report (tags data)"
    using assms(4) by (auto split: if_splits)
  define m where "m = ''mailto:'' @ v"
  have mail: "mail_prefix u \<and> v = drop 7 u \<longleftrightarrow> u = m" for u
    using take_is [of "''mailto:''" u] by (auto simp: mail_prefix_def m_def eval_nat_numeral)
  have l: "Link_is v = report t \<longleftrightarrow> t = A_href v \<and> \<not> mail_prefix v \<or> t = No_value \<and> v = []"
    and e: "Email_is v = report t \<longleftrightarrow> t = A_href m"
    and i: "Image_is v = report t \<longleftrightarrow> t = Img_src v" for t
  proof -
    have "Email_is v = report (A_href u) \<longleftrightarrow> u = m" for u
      using mail [of u] by (cases "mail_prefix u"; simp)
    then show "Email_is v = report t \<longleftrightarrow> t = A_href m" by (cases t; simp)
  qed (cases t; force)+
  have "Link_is v \<in> set (printed s') \<longleftrightarrow> A_href v \<in> set (tags data) \<and> \<not> mail_prefix v"
    "Email_is v \<in> set (printed s') \<longleftrightarrow> A_href m \<in> set (tags data)"
    "Image_is v \<in> set (printed s') \<longleftrightarrow> Img_src v \<in> set (tags data)"
    unfolding out(2) set_map image_iff l e i using out(1) by blast+
  then show ?thesis unfolding tags_exactly m_def by blast
qed

theorem loop_finds_every_tag_witness:
  "\<exists>s'. loop calm_world demo_html crawler_init = Inr s' \<and> Link_is ''x'' \<in> set (printed s')
    \<and> has_tag ''a '' ''href'' demo_html ''x''"
proof -
  have l: "loop calm_world demo_html crawler_init =
      Inr (crawler_init\<lparr>printed := [Link_is ''x'', Image_is ''b'', Email_is ''m''], mallocs := 6\<rparr>)"
    by (simp add: loop_does_tags do_tags_reports mail_prefix_def del: do_tags.simps)
  show ?thesis
    using loop_finds_every_tag [OF _ _ _ _ l, of "''x''"] l by simp
qed

text \<open>The links of a text that are put into the database.\<close>

definition linked :: "string \<Rightarrow> string set" where
  "linked data = {v. has_tag ''a '' ''href'' data v \<and> stored v}"

lemma linked_eq: "linked data = set [v. A_href v \<leftarrow> tags data, stored v]"
proof -
  have "set [v. A_href v \<leftarrow> ts, stored v] = {v. A_href v \<in> set ts \<and> stored v}" for ts
    by (auto split: tag.splits)
  then show ?thesis by (simp add: linked_def tags_exactly)
qed

lemma loop_table:
  assumes "memory_ok w" and "sql_works w" and "use_db s" and "use_domain s = Some base"
    and "NUL \<notin> set data" and "loop w data s = Inr s'"
  shows "key ` set (rows s') = key ` set (rows s) \<union> target base ` linked data"
    and "table_ok (rows s) \<Longrightarrow> table_ok (rows s')"
    and "set (rows s) \<subseteq> set (rows s')"
    and "\<forall>r\<in>set (rows s') - set (rows s). row_status r = 1 \<and> key r \<notin> key ` set (rows s)"
proof -
  have "do_tags w (tags data) s = Inr s'" using assms loop_does_tags by metis
  then have e: "rows s' = fold (\<lambda>v. add_page (target base v) (Some base) 1)
      [v. A_href v \<leftarrow> tags data, stored v] (rows s)"
    by (rule do_tags_stores [OF assms(2-4)])
  show "key ` set (rows s') = key ` set (rows s) \<union> target base ` linked data"
    unfolding e linked_eq by (rule fold_add_page(1))
  show "table_ok (rows s) \<Longrightarrow> table_ok (rows s')" unfolding e by (rule fold_add_page(2))
  show "set (rows s) \<subseteq> set (rows s')" unfolding e by (rule fold_add_page(3))
  show "\<forall>r\<in>set (rows s') - set (rows s). row_status r = 1 \<and> key r \<notin> key ` set (rows s)"
    unfolding e using fold_add_page(4) by blast
qed

text \<open>
  C12: With a database the loop adds exactly the pages the links of the text lead to, each
  once and to be visited; the rows that were there stay as they are.
\<close>

theorem loop_stores_links:
  assumes "memory_ok w" and "sql_works w" and "use_db s" and "use_domain s = Some base"
    and "NUL \<notin> set data" and "table_ok (rows s)" and "loop w data s = Inr s'"
  shows "table_ok (rows s')
    \<and> key ` set (rows s') = key ` set (rows s) \<union> target base ` linked data
    \<and> set (rows s) \<subseteq> set (rows s')
    \<and> (\<forall>r\<in>set (rows s') - set (rows s). row_status r = 1)"
  using loop_table [OF assms(1-5,7)] assms(6) by blast

lemma do_tag_faults:
  "(\<exists>f. do_tag w t s = Inl f) \<longleftrightarrow> t = No_value \<or>
    (\<exists>v. t = A_href v \<and> use_db s \<and> stored v \<and> absolute v \<and> 64 \<le> length (host_of v))"
  using insert_link_faults [of w _ "s\<lparr>mallocs := mallocs s + 2\<rparr>"]
  by (cases t) (auto simp: do_tag_def stored_def Let_def)

lemma do_tags_faults:
  "use_db s \<Longrightarrow> (\<exists>f. do_tags w ts s = Inl f) \<longleftrightarrow> No_value \<in> set ts \<or>
    (\<exists>v. A_href v \<in> set ts \<and> stored v \<and> absolute v \<and> 64 \<le> length (host_of v))"
proof (induction ts arbitrary: s)
  case (Cons t ts)
  show ?case
  proof (cases "do_tag w t s")
    case (Inl f)
    then show ?thesis using do_tag_faults [of w t s] Cons.prems by auto
  next
    case (Inr u)
    then have "use_db u" using same_rest_fields(1) [OF do_tag_keeps] Cons.prems by blast
    moreover have "\<not> (\<exists>f. do_tag w t s = Inl f)" using Inr by simp
    ultimately show ?thesis using Inr Cons.IH [of u] do_tag_faults [of w t s] Cons.prems by auto
  qed
qed simp

text \<open>
  C37: With a database the loop runs into undefined behaviour exactly when the text holds
  a tag without an equals sign or an absolute link whose host has 64 characters or more:
  \<open>insert_link\<close> copies the host into an array of 64.
\<close>

theorem loop_faults_exactly:
  assumes "memory_ok w" and "use_db s" and "NUL \<notin> set data"
  shows "(\<exists>f. loop w data s = Inl f) \<longleftrightarrow>
    has_bare_tag ''a '' ''href'' data \<or> has_bare_tag ''img '' ''src'' data
    \<or> (\<exists>v\<in>linked data. absolute v \<and> 64 \<le> length (host_of v))"
  unfolding loop_does_tags [OF assms(1,3)] do_tags_faults [OF assms(2)] tags_exactly linked_def by blast

text \<open>The program at work on a page of the domain \<open>d\<close>.\<close>

definition crawling :: crawler where
  "crawling = crawler_init\<lparr>use_db := True, use_domain := Some ''d'',
     rows := [\<lparr>row_id = 1, row_domain = Some ''d'', row_page = Some ''/'', row_from = None, row_status = 1\<rparr>]\<rparr>"

lemma crawling [simp]:
  "use_db crawling" "use_domain crawling = Some ''d''"
  "key ` set (rows crawling) = {(Some ''d'', Some ''/'')}" "table_ok (rows crawling)"
  by (simp_all add: crawling_def table_ok_def key_def)

theorem loop_stores_links_witness:
  "\<exists>s'. loop calm_world demo_html crawling = Inr s' \<and>
    key ` set (rows s') = {(Some ''d'', Some ''/''), (Some ''d'', Some ''x'')}"
proof -
  have linked: "linked demo_html = {''x''}" by (simp add: linked_eq stored_def mail_prefix_def)
  have "\<not> (\<exists>f. do_tags calm_world (tags demo_html) crawling = Inl f)"
    unfolding do_tags_faults [OF crawling(1)] by (auto simp: stored_def absolute_def mail_prefix_def)
  then obtain s' where s': "loop calm_world demo_html crawling = Inr s'"
    by (cases "do_tags calm_world (tags demo_html) crawling") (auto simp: loop_does_tags simp del: demo_html(1))
  then show ?thesis
    using loop_stores_links [OF _ _ _ _ _ _ s', of "''d''"] linked
    by (intro exI [of _ s'] conjI) (simp_all add: target_def absolute_def insert_commute)
qed

theorem loop_faults_exactly_witness:
  "\<exists>f. loop calm_world (''<a href=http://'' @ replicate 64 CHR ''h'') crawling = Inl f"
proof -
  let ?h = "replicate 64 CHR ''h''"
  have v: "has_tag ''a '' ''href'' (''<a href=http://'' @ ?h) (''http://'' @ ?h)"
    unfolding has_tag_def
    by (rule exI [of _ "[]"], rule exI [of _ "[]"], rule exI [of _ "[]"], rule exI [of _ "[]"], rule exI [of _ "[]"])
      (auto simp: stops_def)
  have "''http://'' @ ?h \<in> linked (''<a href=http://'' @ ?h)"
    using v by (simp add: linked_def stored_def mail_prefix_def)
  moreover have "absolute (''http://'' @ ?h)" "64 \<le> length (host_of (''http://'' @ ?h))"
    by (simp_all add: absolute_def host_of_def)
  ultimately show ?thesis
    using loop_faults_exactly [of calm_world crawling "''<a href=http://'' @ ?h"]
    by (auto simp: NUL_def)
qed

end
