(* ===== verification/Mail.thy ===== *)
theory Mail
  imports Weblinks
begin

text \<open>
  The search for mail addresses of the crawler (\<open>search_email.c\<close>).

  The routines move pointers over the buffer they are given, so here a \<open>char *\<close> is an
  index into the whole array; reading at an index outside of it is the fault
  \<open>Out_of_bounds\<close>.  \<open>struct email_info\<close> is local to \<open>search_one_email\<close>: its two arrays
  are the strings that are copied into them.

  The reference \<open>mails\<close> cuts the text at every \<open>@\<close> and looks at each pair of
  neighbouring parts.  For a text that neither begins nor ends with \<open>@\<close> and holds no
  \<open>@@\<close> the search prints exactly these addresses, whatever the array holds behind the
  terminator; the other texts make it read outside of the text.
\<close>

subsection \<open>Characters\<close>

definition is_digital :: "char \<Rightarrow> bool" where
  "is_digital c \<longleftrightarrow> of_char c \<le> (57 :: nat) \<and> 48 \<le> (of_char c :: nat)"

definition is_char :: "char \<Rightarrow> bool" where
  "is_char c =
     (if 97 \<le> (of_char c :: nat) \<and> of_char c \<le> (122 :: nat) then True
      else if 65 \<le> (of_char c :: nat) \<and> of_char c \<le> (90 :: nat) then True
      else False)"

definition is_underline :: "char \<Rightarrow> bool" where "is_underline c \<longleftrightarrow> c = CHR ''_''"

definition is_dot :: "char \<Rightarrow> bool" where "is_dot c \<longleftrightarrow> c = CHR ''.''"

definition is_hyphen :: "char \<Rightarrow> bool" where "is_hyphen c \<longleftrightarrow> c = CHR ''-''"

text \<open>The characters over which \<open>search_name\<close> and \<open>search_domain\<close> continue.\<close>

definition name_char :: "char \<Rightarrow> bool" where
  "name_char c \<longleftrightarrow> is_char c \<or> is_digital c \<or> is_underline c \<or> is_dot c"

definition domain_char :: "char \<Rightarrow> bool" where
  "domain_char c \<longleftrightarrow> is_char c \<or> is_digital c \<or> is_hyphen c \<or> is_dot c"

subsection \<open>The search\<close>

definition peek :: "char list \<Rightarrow> int \<Rightarrow> fault + char" where
  "peek b p = (if 0 \<le> p \<and> p < int (length b) then Inr (b ! nat p) else Inl Out_of_bounds)"

text \<open>\<open>*tmp != '\0', tmp != buffer\<close>: the character is read, only the pointer decides.\<close>

function search_name_loop :: "char list \<Rightarrow> int \<Rightarrow> int \<Rightarrow> fault + int" where
  "search_name_loop b buffer tmp =
     (case peek b tmp of
        Inl f \<Rightarrow> Inl f
      | Inr c \<Rightarrow>
          if tmp = buffer then Inr tmp
          else if name_char c then search_name_loop b buffer (tmp - 1)
          else Inr (tmp + 1))"
  by auto
termination
  by (relation "measure (\<lambda>(b, buffer, tmp). nat (tmp + 1))") (auto simp: peek_def split: if_splits)

definition search_name :: "char list \<Rightarrow> int \<Rightarrow> int \<Rightarrow> fault + int" where
  "search_name b at buffer = search_name_loop b buffer (at - 1)"

function search_domain_loop :: "char list \<Rightarrow> int \<Rightarrow> fault + int" where
  "search_domain_loop b tmp =
     (case peek b tmp of
        Inl f \<Rightarrow> Inl f
      | Inr c \<Rightarrow>
          if c = NUL then Inr tmp
          else if domain_char c then search_domain_loop b (tmp + 1)
          else Inr tmp)"
  by auto
termination
  by (relation "measure (\<lambda>(b, tmp). nat (int (length b) - tmp))") (auto simp: peek_def split: if_splits)

definition search_domain :: "char list \<Rightarrow> int \<Rightarrow> fault + int" where
  "search_domain b at = search_domain_loop b (at + 1)"

definition check_name :: "string \<Rightarrow> bool \<Rightarrow> bool" where
  "check_name name check =
     (if name = [] \<or> \<not> is_char (hd name) then False
      else if check then length name \<le> 32
      else if \<not> list_all name_char (tl name) then False
      else length name \<le> 32)"

definition check_domain :: "string \<Rightarrow> bool \<Rightarrow> bool" where
  "check_domain d check =
     (if \<not> list_all domain_char d then False
      else if \<not> list_ex is_dot d then False
      else if length d > 64 \<or> length d < 3 then False
      else True)"

text \<open>\<open>strncpy(dst, b + p, n); dst[n] = 0\<close>: the string it leaves in \<open>dst\<close>.\<close>

definition copied :: "char list \<Rightarrow> int \<Rightarrow> int \<Rightarrow> string" where
  "copied b p n = takeWhile (\<lambda>c. c \<noteq> NUL) (take (nat n) (drop (nat p) b))"

text \<open>The first \<open>@\<close> of the text from \<open>tmp\<close> on.\<close>

function find_at :: "char list \<Rightarrow> int \<Rightarrow> fault + int option" where
  "find_at b tmp =
     (case peek b tmp of
        Inl f \<Rightarrow> Inl f
      | Inr c \<Rightarrow> if c = NUL then Inr None else if c = CHR ''@'' then Inr (Some tmp) else find_at b (tmp + 1))"
  by auto
termination
  by (relation "measure (\<lambda>(b, tmp). nat (int (length b) - tmp))") (auto simp: peek_def split: if_splits)

definition search_one_email :: "char list \<Rightarrow> int \<Rightarrow> crawler \<Rightarrow> fault + crawler" where
  "search_one_email b data s =
     (case find_at b data of
        Inl f \<Rightarrow> Inl f
      | Inr None \<Rightarrow> Inr s
      | Inr (Some at) \<Rightarrow>
          (case search_name b at data of
             Inl f \<Rightarrow> Inl f
           | Inr name \<Rightarrow>
               if at - name > 32 then Inr s
               else if \<not> check_name (copied b name (at - name)) True then Inr s
               else (case search_domain b at of
                  Inl f \<Rightarrow> Inl f
                | Inr end_of \<Rightarrow>
                    let count = end_of - at - 1 in
                    if count > 64 then Inr s
                    else if count = 64 then Inl Overflow
                    else if \<not> check_domain (copied b (at + 1) count) True then Inr s
                    else Inr (emit (Name_is (copied b name (at - name)) (copied b (at + 1) count)) s))))"

function search_email_loop :: "char list \<Rightarrow> int \<Rightarrow> int \<Rightarrow> crawler \<Rightarrow> fault + crawler" where
  "search_email_loop b data tmp s =
     (case peek b tmp of
        Inl f \<Rightarrow> Inl f
      | Inr c \<Rightarrow>
          if c = NUL then Inr s
          else if c = CHR ''@'' then
            (case search_one_email b data s of
               Inl f \<Rightarrow> Inl f
             | Inr s \<Rightarrow> search_email_loop b (tmp + 1) (tmp + 1 + 1) s)
          else search_email_loop b data (tmp + 1) s)"
  by auto
termination
  by (relation "measure (\<lambda>(b, data, tmp, s). nat (int (length b) - tmp))") (auto simp: peek_def split: if_splits)

definition search_email :: "char list \<Rightarrow> crawler \<Rightarrow> fault + crawler" where
  "search_email b s = search_email_loop b 0 0 s"

declare search_name_loop.simps [simp del] search_domain_loop.simps [simp del]
  find_at.simps [simp del] search_email_loop.simps [simp del]

subsection \<open>The reference\<close>

text \<open>The parts of a text between its \<open>@\<close> characters.\<close>

fun parts :: "string \<Rightarrow> string list" where
  "parts [] = [[]]"
| "parts (c # t) = (if c = CHR ''@'' then [] # parts t else case parts t of [] \<Rightarrow> [[c]] | a # ps \<Rightarrow> (c # a) # ps)"

text \<open>
  The name before an \<open>@\<close>: the name characters at the end of the part; the first
  character of the part is taken unseen when the search reaches it.
\<close>

definition name_part :: "string \<Rightarrow> string" where
  "name_part a =
     (if list_all name_char (tl a) then a else rev (takeWhile name_char (rev a)))"

definition domain_part :: "string \<Rightarrow> string" where
  "domain_part b = takeWhile domain_char b"

definition good_name :: "string \<Rightarrow> bool" where
  "good_name n \<longleftrightarrow> n \<noteq> [] \<and> is_char (hd n) \<and> length n \<le> 32"

definition mail_of :: "string \<Rightarrow> string \<Rightarrow> message list" where
  "mail_of a b =
     (let n = name_part a; d = domain_part b in
      if good_name n \<and> list_ex is_dot d \<and> 3 \<le> length d \<and> length d < 64 then [Name_is n d] else [])"

text \<open>A domain of exactly 64 characters overruns the array it is copied to.\<close>

definition overruns :: "string \<Rightarrow> string \<Rightarrow> bool" where
  "overruns a b \<longleftrightarrow> good_name (name_part a) \<and> length (domain_part b) = 64"

fun mails :: "string list \<Rightarrow> message list" where
  "mails (a # b # ps) = mail_of a b @ mails (b # ps)"
| "mails _ = []"

fun some_overrun :: "string list \<Rightarrow> bool" where
  "some_overrun (a # b # ps) \<longleftrightarrow> overruns a b \<or> some_overrun (b # ps)"
| "some_overrun _ \<longleftrightarrow> False"

subsection \<open>The routines on a text that is cut into its parts\<close>

lemma peek_at [simp]: "peek (p @ c # r) (int (length p)) = Inr c"
  by (simp add: peek_def)

lemma NUL_not_name [simp]: "\<not> name_char NUL" "\<not> domain_char NUL" "\<not> name_char CHR ''@''" "\<not> domain_char CHR ''@''"
  "NUL \<noteq> CHR ''@''" "CHR ''@'' \<noteq> NUL"
  by code_simp+

lemma find_at_part:
  assumes "b = p @ a @ x # r" and "NUL \<notin> set a" and "CHR ''@'' \<notin> set a" and "x = CHR ''@'' \<or> x = NUL"
  shows "find_at b (int (length p)) = Inr (if x = NUL then None else Some (int (length (p @ a))))"
  using assms
proof (induction a arbitrary: p)
  case Nil
  then show ?case by (subst find_at.simps) auto
next
  case (Cons c a)
  have "find_at b (int (length (p @ [c]))) = Inr (if x = NUL then None else Some (int (length ((p @ [c]) @ a))))"
    using Cons.prems by (intro Cons.IH) auto
  then show ?case using Cons.prems by (subst find_at.simps) (auto simp: algebra_simps)
qed

lemma search_domain_part:
  assumes "b = p @ d @ x # r" and "list_all domain_char d" and "x = NUL \<or> \<not> domain_char x"
  shows "search_domain_loop b (int (length p)) = Inr (int (length (p @ d)))"
  using assms
proof (induction d arbitrary: p)
  case Nil
  then show ?case by (subst search_domain_loop.simps) auto
next
  case (Cons c d)
  have "search_domain_loop b (int (length (p @ [c]))) = Inr (int (length ((p @ [c]) @ d)))"
    using Cons.prems by (intro Cons.IH) auto
  moreover have "c \<noteq> NUL" using Cons.prems(2) by auto
  ultimately show ?case using Cons.prems by (subst search_domain_loop.simps) (auto simp: algebra_simps)
qed

lemma search_name_part:
  assumes "b = p @ h # t @ r"
  shows "search_name_loop b (int (length p)) (int (length (p @ t))) =
    Inr (if list_all name_char t then int (length p)
         else int (length (p @ h # t)) - int (length (takeWhile name_char (rev t))))"
  using assms
proof (induction t arbitrary: r rule: rev_induct)
  case Nil
  then show ?case by (subst search_name_loop.simps) simp
next
  case (snoc c t)
  have "peek b (int (length (p @ t @ [c]))) = Inr c"
    using peek_at [of "p @ h # t" c r] snoc.prems by simp
  then show ?case
    using snoc.IH [of "c # r"] snoc.prems
    by (subst search_name_loop.simps) (auto simp: algebra_simps)
qed

lemma name_part_length:
  assumes "a = h # t"
  shows "int (length (name_part a)) = (if list_all name_char t then 1 + int (length t)
    else int (length (takeWhile name_char (rev t))))"
proof (cases "list_all name_char t")
  case False
  then have "\<exists>c\<in>set (rev t). \<not> name_char c" by (auto simp: list_all_iff)
  then have "takeWhile name_char (rev t @ [h]) = takeWhile name_char (rev t)" by (meson takeWhile_append1)
  then show ?thesis using False assms by (simp add: name_part_def)
qed (simp add: name_part_def assms)

lemma name_part_suffix: "drop (length a - length (name_part a)) a = name_part a"
proof (cases "list_all name_char (tl a)")
  case False
  let ?t = "takeWhile name_char (rev a)" and ?d = "dropWhile name_char (rev a)"
  have n: "name_part a = rev ?t" using False by (simp add: name_part_def)
  have a: "a = rev ?d @ rev ?t" unfolding rev_append [symmetric] by simp
  have "length a - length (rev ?t) = length (rev ?d)"
    using length_append [of ?t ?d] by simp
  then show ?thesis unfolding n by (subst (2) a) simp
qed (simp add: name_part_def)

lemma search_name_finds:
  assumes "b = p @ a @ CHR ''@'' # r" and "a \<noteq> []" and "NUL \<notin> set a"
  defines "at \<equiv> int (length (p @ a))"
  shows "search_name b at (int (length p)) = Inr (at - int (length (name_part a)))"
    and "copied b (at - int (length (name_part a))) (int (length (name_part a))) = name_part a"
proof -
  obtain h t where a: "a = h # t" using assms(2) by (cases a) auto
  have "at - 1 = int (length (p @ t))" by (simp add: at_def a)
  then show "search_name b at (int (length p)) = Inr (at - int (length (name_part a)))"
    using search_name_part [of b p h t "CHR ''@'' # r"] name_part_length [OF a] assms(1) a
    by (simp add: search_name_def at_def)
  have le: "length (name_part a) \<le> length a"
    by (metis diff_le_self length_drop length_rev name_part_def name_part_suffix length_takeWhile_le order_refl)
  have "nat (at - int (length (name_part a))) = length p + (length a - length (name_part a))"
    using le by (simp add: at_def nat_diff_distrib nat_add_distrib)
  then have "drop (nat (at - int (length (name_part a)))) b = name_part a @ CHR ''@'' # r"
    using assms(1) le name_part_suffix [of a] by simp
  moreover have "set (name_part a) \<subseteq> set a" using name_part_suffix [of a] set_drop_subset by metis
  ultimately show "copied b (at - int (length (name_part a))) (int (length (name_part a))) = name_part a"
    using assms(3) by (auto simp: copied_def takeWhile_eq_all_conv)
qed

lemma domain_part_split:
  assumes "x = NUL \<or> x = CHR ''@''"
  shows "\<exists>y r'. c @ x # r = domain_part c @ y # r' \<and> (y = NUL \<or> \<not> domain_char y)"
proof (cases "list_all domain_char c")
  case True
  then have "domain_part c = c" by (simp add: domain_part_def takeWhile_eq_all_conv list_all_iff)
  then show ?thesis using assms by auto
next
  case False
  let ?e = "dropWhile domain_char c"
  have "?e \<noteq> []" using False by (auto simp: list_all_iff)
  moreover have "\<not> domain_char (hd ?e)" by (rule hd_dropWhile) (rule \<open>?e \<noteq> []\<close>)
  moreover have "c @ x # r = domain_part c @ ?e @ x # r" by (simp add: domain_part_def)
  ultimately obtain y l where "\<not> domain_char y" "c @ x # r = domain_part c @ y # l @ x # r"
    by (cases ?e) auto
  then show ?thesis by blast
qed

lemma search_domain_finds:
  assumes "b = p @ CHR ''@'' # c @ x # r" and "NUL \<notin> set c" and "x = NUL \<or> x = CHR ''@''"
  defines "at \<equiv> int (length p)"
  shows "search_domain b at = Inr (at + 1 + int (length (domain_part c)))"
    and "copied b (at + 1) (int (length (domain_part c))) = domain_part c"
proof -
  obtain y r' where y: "c @ x # r = domain_part c @ y # r'" "y = NUL \<or> \<not> domain_char y"
    using domain_part_split [OF assms(3), of c r] by blast
  have b: "b = (p @ [CHR ''@'']) @ domain_part c @ y # r'" using assms(1) y(1) by simp
  have "list_all domain_char (domain_part c)" by (auto simp: list_all_iff domain_part_def dest: set_takeWhileD)
  then show "search_domain b at = Inr (at + 1 + int (length (domain_part c)))"
    using search_domain_part [OF b _ y(2)] by (simp add: search_domain_def at_def algebra_simps)
  have "nat (at + 1) = length (p @ [CHR ''@''])" by (simp add: at_def)
  then have "drop (nat (at + 1)) b = domain_part c @ y # r'" unfolding b by simp
  moreover have "NUL \<notin> set (domain_part c)" using assms(2) by (auto simp: domain_part_def dest: set_takeWhileD)
  ultimately show "copied b (at + 1) (int (length (domain_part c))) = domain_part c"
    by (auto simp: copied_def takeWhile_eq_all_conv)
qed

lemma check_domain_part:
  "check_domain (domain_part c) True \<longleftrightarrow>
    list_ex is_dot (domain_part c) \<and> 3 \<le> length (domain_part c) \<and> length (domain_part c) \<le> 64"
proof -
  have "list_all domain_char (domain_part c)" by (auto simp: list_all_iff domain_part_def dest: set_takeWhileD)
  then show ?thesis by (auto simp: check_domain_def)
qed

text \<open>One address: the part before the \<open>@\<close> and the part behind it.\<close>

lemma search_one_email_part:
  assumes "b = p @ a @ CHR ''@'' # c @ x # r" and "a \<noteq> []"
    and "NUL \<notin> set a" and "CHR ''@'' \<notin> set a" and "NUL \<notin> set c" and "x = NUL \<or> x = CHR ''@''"
  shows "search_one_email b (int (length p)) s =
    (if overruns a c then Inl Overflow else Inr (s\<lparr>printed := printed s @ mail_of a c\<rparr>))"
proof -
  let ?at = "int (length (p @ a))" and ?n = "int (length (name_part a))" and ?d = "int (length (domain_part c))"
  have at: "find_at b (int (length p)) = Inr (Some ?at)"
    using find_at_part [OF assms(1,3,4)] by simp
  note n = search_name_finds [OF assms(1-3)]
  have b: "b = (p @ a) @ CHR ''@'' # c @ x # r" using assms(1) by simp
  note d = search_domain_finds [OF b assms(5,6)]
  have name: "\<not> ?n > 32 \<and> check_name (name_part a) True \<longleftrightarrow> good_name (name_part a)"
    by (auto simp: check_name_def good_name_def)
  have count: "?at - (?at - ?n) = ?n" "?at + 1 + ?d - ?at - 1 = ?d" by simp_all
  have eq: "search_one_email b (int (length p)) s =
     (if \<not> good_name (name_part a) then Inr s
      else if ?d > 64 then Inr s else if ?d = 64 then Inl Overflow
      else if \<not> check_domain (domain_part c) True then Inr s
      else Inr (emit (Name_is (name_part a) (domain_part c)) s))"
    unfolding search_one_email_def at sum.case option.case n(1) d(1) Let_def count n(2) d(2)
    using name by (auto simp: count n(2))
  have same: "s\<lparr>printed := printed s @ []\<rparr> = s" by simp
  show ?thesis
    unfolding eq overruns_def mail_of_def Let_def check_domain_part emit_def
    using same by auto
qed

lemma parts_append: "CHR ''@'' \<notin> set a \<Longrightarrow> parts (a @ CHR ''@'' # t) = a # parts t"
  by (induction a) auto

lemma parts_single: "CHR ''@'' \<notin> set a \<Longrightarrow> parts a = [a]"
  by (induction a) auto

lemma parts_nonempty [simp]: "parts t \<noteq> []"
  by (cases t) (auto split: list.split)

text \<open>Between two \<open>@\<close> the loop only moves on.\<close>

lemma search_email_skips:
  assumes "b = p @ a @ r" and "NUL \<notin> set a" and "CHR ''@'' \<notin> set a"
  shows "search_email_loop b data (int (length p)) s = search_email_loop b data (int (length (p @ a))) s"
  using assms
proof (induction a arbitrary: p)
  case (Cons c a)
  have "search_email_loop b data (int (length (p @ [c]))) s = search_email_loop b data (int (length ((p @ [c]) @ a))) s"
    using Cons.prems by (intro Cons.IH) auto
  then show ?case using Cons.prems by (subst search_email_loop.simps) (auto simp: algebra_simps)
qed simp

lemma take_drop_append: "take k t @ drop k t @ z = t @ z"
  by (simp flip: append_assoc)

lemma first_part:
  obtains "CHR ''@'' \<notin> set t" | a u where "t = a @ CHR ''@'' # u" "CHR ''@'' \<notin> set a"
  by (meson split_list_first)

lemma search_email_parts:
  assumes "b = p @ t @ NUL # junk" and "NUL \<notin> set t" and "[] \<notin> set (parts t)" and "k \<le> 1"
  shows "search_email_loop b (int (length p)) (int (length p + k)) s =
    (if some_overrun (parts t) then Inl Overflow
     else Inr (s\<lparr>printed := printed s @ mails (parts t)\<rparr>))"
  using assms
proof (induction t arbitrary: p k s rule: length_induct)
  case (1 t)
  note b = 1(2) and nul = 1(3) and ne = 1(4)
  show ?case
  proof (cases rule: first_part [of t])
    case 1
    then have "parts t = [t]" by (rule parts_single)
    moreover from this have "t \<noteq> []" using ne by auto
    then have "t = take k t @ drop k t" "length (p @ take k t) = length p + k" using \<open>k \<le> 1\<close> by (cases t; auto simp: min_def)+
    moreover have "search_email_loop b (int (length p)) (int (length (p @ take k t))) s =
        search_email_loop b (int (length p)) (int (length ((p @ take k t) @ drop k t))) s"
      using b nul 1 set_drop_subset [of k t]
      by (intro search_email_skips [where r = "NUL # junk"]) (auto simp: take_drop_append)
    moreover have "search_email_loop b (int (length p)) (int (length (p @ t))) s = Inr s"
      using peek_at [of "p @ t" NUL junk] b by (subst search_email_loop.simps) simp
    ultimately show ?thesis by simp
  next
    case (2 a u)
    note t = \<open>t = a @ CHR ''@'' # u\<close>
    have pt: "parts t = a # parts u" unfolding t by (rule parts_append) (rule 2(2))
    then have "a \<noteq> []" "[] \<notin> set (parts u)" using ne by auto
    obtain c x r where c: "u @ NUL # junk = c @ x # r" "NUL \<notin> set c" "x = NUL \<or> x = CHR ''@''"
        "\<exists>cs. parts u = c # cs"
    proof (cases rule: first_part [of u])
      case 1
      then show thesis using that [of u NUL junk] nul t parts_single [OF 1] by auto
    next
      case u: (2 c v)
      then show thesis using that [of c "CHR ''@''" "v @ NUL # junk"] nul t parts_append [OF u(2), of v] by auto
    qed
    have one: "search_one_email b (int (length p)) s =
        (if overruns a c then Inl Overflow else Inr (s\<lparr>printed := printed s @ mail_of a c\<rparr>))"
      using b t c nul 2(2) \<open>a \<noteq> []\<close> by (intro search_one_email_part) auto
    have "search_email_loop b (int (length p)) (int (length (p @ take k a))) s =
        search_email_loop b (int (length p)) (int (length ((p @ take k a) @ drop k a))) s"
      using b t nul 2(2) set_drop_subset [of k a]
      by (intro search_email_skips [where r = "CHR ''@'' # u @ NUL # junk"]) (auto simp: take_drop_append)
    moreover have "length (p @ take k a) = length p + k" using \<open>a \<noteq> []\<close> \<open>k \<le> 1\<close> by (cases a) (auto simp: min_def)
    ultimately have "search_email_loop b (int (length p)) (int (length p + k)) s =
        search_email_loop b (int (length p)) (int (length (p @ a))) s" by simp
    also have "\<dots> = (case search_one_email b (int (length p)) s of Inl f \<Rightarrow> Inl f
        | Inr s \<Rightarrow> search_email_loop b (int (length (p @ a @ [CHR ''@'']))) (int (length (p @ a @ [CHR ''@'']) + 1)) s)"
      using peek_at [of "p @ a" "CHR ''@''" "u @ NUL # junk"] b t
      by (subst search_email_loop.simps) (simp add: algebra_simps split: sum.split)
    also have "\<dots> = (if some_overrun (parts t) then Inl Overflow
        else Inr (s\<lparr>printed := printed s @ mails (parts t)\<rparr>))"
    proof -
      have "search_email_loop b (int (length (p @ a @ [CHR ''@'']))) (int (length (p @ a @ [CHR ''@'']) + 1)) s1 =
          (if some_overrun (parts u) then Inl Overflow else Inr (s1\<lparr>printed := printed s1 @ mails (parts u)\<rparr>))" for s1
        using 1(1) [rule_format, of u "p @ a @ [CHR ''@'']" 1 s1] b t nul \<open>[] \<notin> set (parts u)\<close> by simp
      then show ?thesis using one pt c(4) by auto
    qed
    finally show ?thesis .
  qed
qed

subsection \<open>The search only prints\<close>

definition only_prints :: "crawler \<Rightarrow> crawler \<Rightarrow> bool" where
  "only_prints s s' \<longleftrightarrow> s' = s\<lparr>printed := printed s'\<rparr>"

lemma only_prints_refl [simp]: "only_prints s s" by (simp add: only_prints_def)

lemma only_prints_trans: "only_prints s t \<Longrightarrow> only_prints t u \<Longrightarrow> only_prints s u"
  unfolding only_prints_def by (cases s; cases t; cases u) simp

lemma emit_only_prints: "only_prints s (emit m s)"
  by (cases s) (simp add: only_prints_def emit_def)

lemma search_one_email_prints: "search_one_email b data s = Inr t \<Longrightarrow> only_prints s t"
  using emit_only_prints
  by (auto simp: search_one_email_def Let_def split: sum.splits option.splits if_splits)

lemma search_email_loop_prints: "search_email_loop b data tmp s = Inr t \<Longrightarrow> only_prints s t"
proof (induction b data tmp s rule: search_email_loop.induct)
  case (1 b data tmp s)
  note run = 1(3) [unfolded search_email_loop.simps [of b data tmp s]]
  show ?case
  proof (cases "peek b tmp")
    case (Inr c)
    show ?thesis
    proof (cases "c = CHR ''@''")
      case True
      then obtain u where u: "search_one_email b data s = Inr u" "search_email_loop b (tmp + 1) (tmp + 1 + 1) u = Inr t"
        using run Inr by (auto split: sum.splits)
      show ?thesis
        by (rule only_prints_trans [OF search_one_email_prints [OF u(1)]], rule 1(1) [OF Inr _ _ u]) (use True in auto)
    next
      case False
      then show ?thesis using run Inr 1(2) [OF Inr] by (auto split: if_splits)
    qed
  qed (use run in simp)
qed

lemma search_email_prints: "search_email b s = Inr t \<Longrightarrow> only_prints s t"
  by (simp add: search_email_def search_email_loop_prints)

subsection \<open>Properties of the search\<close>

text \<open>
  C7: In a text that neither begins nor ends with \<open>@\<close> and holds no \<open>@@\<close> the search
  prints exactly the addresses between neighbouring parts, in their order, whatever
  stands in the array behind the terminator; it overruns \<open>domain\<close> exactly when the domain
  behind an acceptable name has 64 characters.
\<close>

theorem search_email_prints_mails:
  assumes "NUL \<notin> set t" and "[] \<notin> set (parts t)"
  shows "search_email (t @ NUL # junk) s =
    (if some_overrun (parts t) then Inl Overflow
     else Inr (s\<lparr>printed := printed s @ mails (parts t)\<rparr>))"
  using search_email_parts [of "t @ NUL # junk" "[]" t junk 0 s] assms by (simp add: search_email_def)

definition demo_line :: string where
  "demo_line = ''to: tom@akaedu.org, or a_1@x-y.cn <''"

lemma demo_line:
  "NUL \<notin> set demo_line" "[] \<notin> set (parts demo_line)" "\<not> some_overrun (parts demo_line)"
  "mails (parts demo_line) = [Name_is ''tom'' ''akaedu.org'', Name_is ''a_1'' ''x-y.cn'']"
  by code_simp+

theorem search_email_prints_mails_witness:
  "\<forall>s. search_email (demo_line @ NUL # ''@'') s =
    Inr (s\<lparr>printed := printed s @ [Name_is ''tom'' ''akaedu.org'', Name_is ''a_1'' ''x-y.cn'']\<rparr>)"
  using search_email_prints_mails [of demo_line "''@''"] by (simp add: demo_line)

text \<open>The boundary cases, as findings.\<close>

lemma first_character_hides_name: "mails (parts ''<tom@akaedu.org>'') = []"
  by code_simp

lemma double_at_hides_next: "search_email (''a@@tom@akaedu.org'' @ [NUL]) s = Inr s"
  by code_simp

lemma trailing_at_reads_behind:
  "search_email (''a@'' @ NUL # ''b@c tom@akaedu.org'' @ [NUL]) s = Inr (emit (Name_is ''tom'' ''akaedu.org'') s)"
  by code_simp

text \<open>
  A text that begins with \<open>@\<close> makes \<open>search_name\<close> read in front of the buffer.
\<close>

theorem leading_at_reads_before: "search_email (CHR ''@'' # t @ [NUL]) s = Inl Out_of_bounds"
proof -
  have "peek (CHR ''@'' # u) 0 = Inr CHR ''@''" "peek (CHR ''@'' # u) (- 1) = Inl Out_of_bounds" for u
    by (simp_all add: peek_def)
  then show ?thesis
    by (simp add: search_email_def search_email_loop.simps [of _ _ 0] search_one_email_def
        find_at.simps [of _ 0] search_name_def search_name_loop.simps [of _ _ "- 1"])
qed

end
