(* ===== verification/Crawl.thy ===== *)
theory Crawl
  imports Html Mail
begin

text \<open>
  The crawler: reading a file (\<open>read_file.c\<close>), fetching a page (\<open>http_get.c\<close>) and the
  three ways \<open>main.c\<close> runs the scanner, on a file, on a page and on the database.

  What \<open>connect\<close>, \<open>send\<close> and \<open>recv\<close> do is a parameter: \<open>dial\<close> says how the n-th
  connection ends, \<open>answer\<close> what then arrives for a query: the pieces \<open>recv\<close> returns, which
  may go on for ever, so that \<open>web_loop\<close> is a partial function and \<open>None\<close> means that the
  program does not return. \<open>BUFSIZ\<close> and the size
  of a pointer are parameters too.  The heap object of the socket address is not part of
  the state, only whether its fields fit into the memory asked for.
\<close>

subsection \<open>read\_file.c\<close>

definition MAX_LINE :: nat where "MAX_LINE = 1024"

definition init_file :: "world \<Rightarrow> string \<Rightarrow> crawler \<Rightarrow> int \<times> crawler" where
  "init_file w filename s =
     (case disk w filename of
        None \<Rightarrow> (- 1, s\<lparr>fp := None\<rparr>)
      | Some text \<Rightarrow> (0, s\<lparr>fp := Some text\<rparr>))"

text \<open>What \<open>fgets\<close> takes from a file: at most \<open>n\<close> characters, up to the end of the line.\<close>

fun fgets :: "nat \<Rightarrow> string \<Rightarrow> string" where
  "fgets 0 text = []"
| "fgets (Suc n) [] = []"
| "fgets (Suc n) (c # text) = (if c = CHR 0x0A then [c] else c # fgets n text)"

definition get_line :: "crawler \<Rightarrow> fault + (char list option \<times> crawler)" where
  "get_line s =
     (case fp s of
        None \<Rightarrow> Inl Null_pointer
      | Some text \<Rightarrow>
          (let l = fgets (MAX_LINE - 1) text;
               b = l @ NUL # drop (length l + 1) (line s)
           in if l = [] then Inr (None, s)
              else Inr (Some b, s\<lparr>line := b, fp := Some (drop (length l) text)\<rparr>)))"

subsection \<open>http\_get.c\<close>

definition USERAGENT :: string where "USERAGENT = ''HTMLGET 1.0''"

definition CRLF :: string where "CRLF = [CHR 0x0D, CHR 0x0A]"

definition tpl :: string where
  "tpl = ''GET /%s HTTP/1.0'' @ CRLF @ ''Host: %s'' @ CRLF @ ''User-Agent: %s'' @ CRLF @ CRLF"

text \<open>\<open>sprintf\<close> with \<open>%s\<close> only.\<close>

fun sprintf_s :: "string \<Rightarrow> string list \<Rightarrow> string" where
  "sprintf_s [] args = []"
| "sprintf_s [c] args = [c]"
| "sprintf_s (c # d # f) args =
     (if c = CHR ''%'' \<and> d = CHR ''s'' then
        (case args of [] \<Rightarrow> [] | a # rest \<Rightarrow> a @ sprintf_s f rest)
      else c # sprintf_s (d # f) args)"

definition build_get_query :: "world \<Rightarrow> string \<Rightarrow> string \<Rightarrow> crawler \<Rightarrow> fault + (string \<times> crawler)" where
  "build_get_query w host path s =
     (let getpage = (if get_char path = CHR ''/'' then tl path else path);
          size = int (length host) + int (length getpage) + int (length USERAGENT) + int (length tpl) - 5;
          (got, s) = malloc w (nat size) s;
          query = sprintf_s tpl [getpage, host, USERAGENT]
      in if \<not> got then Inl Null_pointer
         else if size < int (length query) + 1 then Inl Overflow
         else Inr (query, s))"

text \<open>The n-th connection: \<open>exit\<close> without a socket; the alarm only notes that it went off.\<close>

definition create_tcp_socket :: "world \<Rightarrow> nat \<Rightarrow> string \<Rightarrow> crawler \<Rightarrow> fault + crawler" where
  "create_tcp_socket w n host s = (if dial w n host = No_socket then Inl (Exit 1) else Inr s)"

definition sig_timeout :: "crawler \<Rightarrow> crawler" where
  "sig_timeout s = s\<lparr>timeout := True\<rparr>"

text \<open>The dotted address in 16 bytes that are cleared unseen; \<open>False\<close> for a host nobody knows.\<close>

definition get_ip :: "world \<Rightarrow> nat \<Rightarrow> string \<Rightarrow> crawler \<Rightarrow> fault + (bool \<times> crawler)" where
  "get_ip w n host s =
     (let (got, s) = malloc w 16 s in
      if \<not> got then Inl Null_pointer
      else if dial w n host = Unknown_host then Inr (False, s)
      else Inr (True, s))"

text \<open>The socket address gets as many bytes as a pointer has; 8 bytes of it are set.\<close>

definition init_http_get :: "world \<Rightarrow> string \<Rightarrow> string option \<Rightarrow> crawler \<Rightarrow> fault + (int \<times> crawler)" where
  "init_http_get w host path s =
     (let n = length (visited s);
          s = s\<lparr>timeout := False, visited := visited s @ [(host, path)]\<rparr>
      in case create_tcp_socket w n host s of Inl f \<Rightarrow> Inl f | Inr s \<Rightarrow>
      (case get_ip w n host s of Inl f \<Rightarrow> Inl f | Inr (ip, s) \<Rightarrow>
      if \<not> ip then Inr (1, s)
      else (case path of None \<Rightarrow> Inl Null_pointer | Some path \<Rightarrow>
        let (got, s) = malloc w (pointer_size w) s in
        if \<not> got then Inl Null_pointer
        else if pointer_size w < 8 then Inl Overflow
        else if dial w n host = Timed_out then Inr (0, sig_timeout s)
        else if dial w n host = Refused then Inr (0, s)
        else (case build_get_query w host path s of
            Inl f \<Rightarrow> Inl f
          | Inr (query, s) \<Rightarrow>
              (case answer w n query of
                 None \<Rightarrow> Inl (Exit 1)
               | Some pieces \<Rightarrow>
                   let k = mallocs s; (got, s) = malloc w (bufsiz w + 1) s in
                   Inr (0, s\<lparr>incoming := pieces,
                     buf := (if got then Live (map (fresh w k) [0..<bufsiz w + 1]) else No_buffer)\<rparr>))))))"

lemmas init_http_get_defs = init_http_get_def create_tcp_socket_def get_ip_def sig_timeout_def

text \<open>
  \<open>memset (buf, 0, sizeof (buf))\<close> clears as many bytes as a pointer has. \<open>None\<close>: \<open>recv\<close> does
  not return.
\<close>

definition get_web_buf :: "world \<Rightarrow> crawler \<Rightarrow> (fault + (char list option \<times> crawler)) option" where
  "get_web_buf w s =
     (case buf s of
        No_buffer \<Rightarrow> Some (Inl Null_pointer)
      | Freed \<Rightarrow> Some (Inl Use_after_free)
      | Live b \<Rightarrow>
          (let b = replicate (min (pointer_size w) (length b)) NUL @ drop (pointer_size w) b in
           case incoming s of
             Closed \<Rightarrow> Some (Inr (None, s\<lparr>buf := Freed\<rparr>))
           | Silent \<Rightarrow> None
           | Chunk chunk more_chunks \<Rightarrow>
               (let b = chunk @ drop (length chunk) b
                in Some (Inr (Some b, s\<lparr>buf := Live b, incoming := more_chunks\<rparr>)))))"

subsection \<open>main.c\<close>

text \<open>The text a scan of the buffer sees; without a terminator it leaves the buffer.\<close>

definition text_of :: "char list \<Rightarrow> fault + string" where
  "text_of b = (if NUL \<in> set b then Inr (takeWhile (\<lambda>c. c \<noteq> NUL) b) else Inl Out_of_bounds)"

text \<open>\<open>loop(data); search_email(data);\<close>\<close>

definition scan_buffer :: "world \<Rightarrow> char list \<Rightarrow> crawler \<Rightarrow> fault + crawler" where
  "scan_buffer w b s =
     (case text_of b of
        Inl f \<Rightarrow> Inl f
      | Inr data \<Rightarrow> (case loop w data s of Inl f \<Rightarrow> Inl f | Inr s \<Rightarrow> search_email b s))"

text \<open>The scan changes neither the file nor the connection.\<close>

lemma print_string_keeps: "print_string m p s = Inr s' \<Longrightarrow> same_rest s s'"
  by (cases s) (auto simp: print_string_def emit_def same_rest_def split: sum.splits option.splits)

lemma malloc_keeps: "malloc w n s = (got, s') \<Longrightarrow> same_rest s s'"
  by (cases s) (auto simp: malloc_def same_rest_def)

lemma get_one_link_keeps: "get_one_link w d s = Inr (p, s') \<Longrightarrow> same_rest s s'"
  by (cases s) (auto simp: get_one_link_def get_link_address_def malloc_def Let_def same_rest_def
      split: option.splits sum.splits if_splits)

lemma get_link_keeps: 
  assumes "get_link w d s = Inr s'"
  shows "same_rest s s'"
proof -
  obtain p s1 where s1: "get_one_link w d s = Inr (p, s1)"
    using assms by (auto simp: get_link_def split: sum.splits)
  have "same_rest s1 s'"
    using assms s1 print_string_keeps insert_link_keeps
    by (auto simp: get_link_def split: option.splits sum.splits if_splits)
  then show ?thesis using get_one_link_keeps [OF s1] same_rest_trans by blast
qed

lemma get_image_keeps: 
  assumes "get_image w d s = Inr s'"
  shows "same_rest s s'"
proof -
  obtain p s1 where s1: "get_one_image w d s = (p, s1)" by (cases "get_one_image w d s")
  then have "same_rest s s1"
    by (cases s) (auto simp: get_one_image_def get_image_name_def malloc_def Let_def same_rest_def
        split: option.splits if_splits)
  moreover have "same_rest s1 s'"
    using assms s1 print_string_keeps by (auto simp: get_image_def split: option.splits if_splits)
  ultimately show ?thesis using same_rest_trans by blast
qed

text \<open>What every handled tag keeps, the loop keeps.\<close>

lemma loop_relates:
  assumes "loop w data s = Inr s'" and refl: "\<And>s. R s s"
    and trans: "\<And>s t u. R s t \<Longrightarrow> R t u \<Longrightarrow> R s u"
    and link: "\<And>d s t. length d \<le> length data \<Longrightarrow> get_link w d s = Inr t \<Longrightarrow> R s t"
    and image: "\<And>d s t. get_image w d s = Inr t \<Longrightarrow> R s t"
  shows "R s s'"
  using assms(1,4,5)
proof (induction w data s rule: loop.induct)
  case (1 w s)
  then show ?case using refl by simp
next
  case (2 w c data s)
  note run = 2(5) [unfolded loop.simps] and link = 2(6) and image = 2(7)
  have link': "R s t" if "length d \<le> length data - n" "get_link w d s = Inr t" for d s t n
    by (rule link [OF _ that(2)]) (use that(1) in simp)
  consider "c = NUL" | "c \<noteq> NUL" "c \<noteq> CHR ''<''" | "c = CHR ''<''" "take 2 data = ''a ''"
    | "c = CHR ''<''" "take 2 data \<noteq> ''a ''" "take 4 data = ''img ''"
    | "c = CHR ''<''" "take 2 data \<noteq> ''a ''" "take 4 data \<noteq> ''img ''" by blast
  then show ?case
  proof cases
    case 1
    then show ?thesis using run refl by simp
  next
    case c: 2
    have "R s s'" by (rule 2(4) [OF c]) (use run c link' [of _ 0] image in auto)
    then show ?thesis .
  next
    case c: 3
    then obtain u where u: "get_link w (drop 2 data) s = Inr u" "loop w (drop 2 data) u = Inr s'"
      using run by (auto simp: NUL_def split: sum.splits)
    have "R u s'" by (rule 2(1) [OF _ c u(1)]) (use c u(2) link' image in \<open>auto simp: NUL_def\<close>)
    moreover have "R s u" by (rule link [OF _ u(1)]) simp
    ultimately show ?thesis using trans by blast
  next
    case c: 4
    then obtain u where u: "get_image w (drop 4 data) s = Inr u" "loop w (drop 4 data) u = Inr s'"
      using run by (auto simp: NUL_def split: sum.splits)
    have "R u s'" by (rule 2(2) [OF _ c u(1)]) (use c u(2) link' image in \<open>auto simp: NUL_def\<close>)
    then show ?thesis using trans image u(1) by blast
  next
    case c: 5
    show ?thesis by (rule 2(3) [OF _ c]) (use run c link' [of _ 0] image in \<open>auto simp: NUL_def\<close>)
  qed
qed

lemma loop_keeps: "loop w data s = Inr s' \<Longrightarrow> same_rest s s'"
  by (erule loop_relates) (auto intro: get_link_keeps get_image_keeps same_rest_trans)

lemma scan_buffer_keeps:
  assumes "scan_buffer w b s = Inr s'"
  shows "same_rest s s'"
proof -
  obtain data t where "loop w data s = Inr t" "search_email b t = Inr s'"
    using assms by (auto simp: scan_buffer_def split: sum.splits)
  moreover have "only_prints t s' \<Longrightarrow> same_rest t s'"
    unfolding only_prints_def same_rest_def by (cases t; cases s'; simp)
  ultimately show ?thesis using loop_keeps search_email_prints same_rest_trans by blast
qed

text \<open>The loop over a file ends: each line uses up some of it.\<close>

lemma fgets_le: "length (fgets n t) \<le> length t"
  by (induction n t rule: fgets.induct) auto

lemma get_line_shorter:
  assumes "get_line s = Inr (Some b, s1)"
  shows "\<exists>t u. fp s = Some t \<and> fp s1 = Some u \<and> length u < length t"
proof -
  obtain t where t: "fp s = Some t" using assms by (auto simp: get_line_def split: option.splits)
  define l where "l = fgets (MAX_LINE - 1) t"
  have l: "l \<noteq> []" "fp s1 = Some (drop (length l) t)"
    using assms t by (auto simp: get_line_def l_def Let_def split: if_splits)
  moreover have "length l \<le> length t" unfolding l_def by (rule fgets_le)
  ultimately have "length (drop (length l) t) < length t" by (cases l) auto
  then show ?thesis using t l(2) by blast
qed

function file_loop :: "world \<Rightarrow> crawler \<Rightarrow> fault + crawler" where
  "file_loop w s =
     (case get_line s of
        Inl f \<Rightarrow> Inl f
      | Inr (None, s) \<Rightarrow> Inr s
      | Inr (Some b, s) \<Rightarrow>
          (case scan_buffer w b s of
             Inl f \<Rightarrow> Inl f
           | Inr s \<Rightarrow> file_loop w s))"
  by auto
termination
proof (relation "measure (\<lambda>(w, s). case fp s of None \<Rightarrow> 0 | Some text \<Rightarrow> length text)", goal_cases)
  case (2 w s x p s1 b s2)
  have "(case fp s1 of None \<Rightarrow> 0 | Some text \<Rightarrow> length text) < (case fp s of None \<Rightarrow> 0 | Some text \<Rightarrow> length text)"
    using get_line_shorter [of s b s1] 2(1-3) by auto
  then show ?case using same_rest_fields(7) [OF scan_buffer_keeps [OF 2(4)]] by simp
qed auto

definition data_from_file :: "world \<Rightarrow> string option \<Rightarrow> crawler \<Rightarrow> fault + crawler" where
  "data_from_file w file s =
     (let filename = (case file of None \<Rightarrow> ''1.html'' | Some f \<Rightarrow> f)
      in file_loop w (snd (init_file w filename s)))"

declare file_loop.simps [simp del]

text \<open>The loop over a page need not end: a server may never stop sending.\<close>

partial_function (option) web_loop :: "world \<Rightarrow> crawler \<Rightarrow> (fault + crawler) option" where
  "web_loop w s =
     (case get_web_buf w s of
        None \<Rightarrow> None
      | Some (Inl f) \<Rightarrow> Some (Inl f)
      | Some (Inr (None, s)) \<Rightarrow> Some (Inr s)
      | Some (Inr (Some b, s)) \<Rightarrow>
          (case scan_buffer w b s of
             Inl f \<Rightarrow> Some (Inl f)
           | Inr s \<Rightarrow> web_loop w s))"

definition data_from_web :: "world \<Rightarrow> string \<Rightarrow> string option \<Rightarrow> crawler \<Rightarrow> (fault + crawler) option" where
  "data_from_web w webaddress path s =
     (case init_http_get w webaddress path s of
        Inl f \<Rightarrow> Some (Inl f)
      | Inr (code, s) \<Rightarrow> if code \<noteq> 0 \<or> timeout s then Some (Inr s) else web_loop w s)"

definition data_one_from_db :: "world \<Rightarrow> string \<Rightarrow> crawler \<Rightarrow> (fault + (int \<times> crawler)) option" where
  "data_one_from_db w dataname s =
     (case init_sqlite w dataname s of
        Inl f \<Rightarrow> Some (Inl f)
      | Inr s \<Rightarrow>
          (case get_a_record w s of
             Inl f \<Rightarrow> Some (Inl f)
           | Inr (None, s) \<Rightarrow> Some (Inr (0, s))
           | Inr (Some link, s) \<Rightarrow>
               (case data_from_web w (domain link) (page link)
                     (s\<lparr>use_domain := Some (domain link), use_page := page link\<rparr>) of
                  None \<Rightarrow> None
                | Some (Inl f) \<Rightarrow> Some (Inl f)
                | Some (Inr s) \<Rightarrow> Some (Inr (1, snd (update_db w (id_of link) 2 s))))))"

text \<open>The loop over the database may not end either: \<open>None\<close>.\<close>

partial_function (option) db_loop :: "world \<Rightarrow> string \<Rightarrow> crawler \<Rightarrow> (fault + crawler) option" where
  "db_loop w dataname s =
     (case data_one_from_db w dataname s of
        None \<Rightarrow> None
      | Some (Inl f) \<Rightarrow> Some (Inl f)
      | Some (Inr (code, s)) \<Rightarrow> if code \<noteq> 0 then db_loop w dataname s else Some (Inr s))"

definition data_from_db :: "world \<Rightarrow> string \<Rightarrow> crawler \<Rightarrow> (fault + crawler) option" where
  "data_from_db w dataname s = db_loop w dataname (s\<lparr>use_db := True\<rparr>)"

definition usage :: "fault + crawler" where "usage = Inl (Exit 1)"

text \<open>\<open>main\<close> takes the number of arguments as a \<open>char\<close>.\<close>

definition main :: "world \<Rightarrow> string list \<Rightarrow> crawler \<Rightarrow> (fault + crawler) option" where
  "main w argv s =
     (let argc = signed_take_bit 7 (int (length argv)) in
      if argc < 3 then Some usage
      else if take 2 (argv ! 1) = ''-f'' then Some (data_from_file w (Some (argv ! 2)) s)
      else if take 2 (argv ! 1) = ''-w'' then data_from_web w (argv ! 2) (Some ''/'') s
      else if take 3 (argv ! 1) = ''-db'' then data_from_db w (argv ! 2) s
      else Some usage)"

subsection \<open>Scanning a file\<close>

text \<open>The pieces \<open>fgets\<close> cuts a text into.\<close>

function lines_of :: "string \<Rightarrow> string list" where
  "lines_of t =
     (if fgets (MAX_LINE - 1) t = [] then []
      else fgets (MAX_LINE - 1) t # lines_of (drop (length (fgets (MAX_LINE - 1) t)) t))"
  by auto
termination
proof (relation "measure length", goal_cases)
  case (2 t)
  then show ?case using fgets_le [of "MAX_LINE - 1" t] by (cases t) auto
qed simp

declare lines_of.simps [simp del]

definition line_output :: "string \<Rightarrow> message list" where
  "line_output l = map report (tags l) @ mails (parts l)"

text \<open>A line on which both scans stay inside of the buffer.\<close>

definition plain_line :: "string \<Rightarrow> bool" where
  "plain_line l \<longleftrightarrow> NUL \<notin> set l \<and> No_value \<notin> set (tags l) \<and> [] \<notin> set (parts l) \<and> \<not> some_overrun (parts l)"

lemma text_of_string: "NUL \<notin> set l \<Longrightarrow> text_of (l @ NUL # junk) = Inr l"
  by (auto simp: text_of_def takeWhile_append takeWhile_eq_all_conv)

lemma scan_plain_line:
  assumes "memory_ok w" and "\<not> use_db s" and "plain_line l"
  shows "scan_buffer w (l @ NUL # junk) s =
    Inr (s\<lparr>printed := printed s @ line_output l, mallocs := mallocs s + 2 * length (tags l)\<rparr>)"
proof -
  have nul: "NUL \<notin> set l" using assms(3) by (simp add: plain_line_def)
  have "loop w l s = Inr (s\<lparr>printed := printed s @ map report (tags l), mallocs := mallocs s + 2 * length (tags l)\<rparr>)"
    using assms by (simp add: loop_does_tags nul do_tags_reports plain_line_def)
  moreover have "search_email (l @ NUL # junk) u = Inr (u\<lparr>printed := printed u @ mails (parts l)\<rparr>)" for u
    using search_email_parts [of "l @ NUL # junk" "[]" l junk 0 u] assms(3)
    by (simp add: search_email_def plain_line_def)
  ultimately show ?thesis
    by (simp add: scan_buffer_def text_of_string nul line_output_def)
qed

lemma file_loop_prints:
  assumes "memory_ok w" and "\<not> use_db s" and "fp s = Some t" and "\<forall>l\<in>set (lines_of t). plain_line l"
  shows "\<exists>s'. file_loop w s = Inr s' \<and> printed s' = printed s @ concat (map line_output (lines_of t))"
  using assms(2-)
proof (induction t arbitrary: s rule: lines_of.induct)
  case (1 t)
  let ?l = "fgets (MAX_LINE - 1) t"
  show ?case
  proof (cases "?l = []")
    case True
    then have "lines_of t = []" by (subst lines_of.simps) simp
    moreover have "get_line s = Inr (None, s)" using True 1(3) by (simp add: get_line_def)
    ultimately show ?thesis by (subst file_loop.simps) simp
  next
    case False
    let ?u = "drop (length ?l) t"
    let ?b = "?l @ NUL # drop (length ?l + 1) (line s)"
    have lines: "lines_of t = ?l # lines_of ?u" using False by (subst lines_of.simps) simp
    let ?s1 = "s\<lparr>line := ?b, fp := Some ?u\<rparr>"
    let ?s2 = "?s1\<lparr>printed := printed s @ line_output ?l, mallocs := mallocs s + 2 * length (tags ?l)\<rparr>"
    have "get_line s = Inr (Some ?b, ?s1)" using False 1(3) by (simp add: get_line_def Let_def)
    moreover have "scan_buffer w ?b ?s1 = Inr ?s2"
      using scan_plain_line [OF assms(1), of ?s1 ?l] 1(2,4) lines by simp
    ultimately have "file_loop w s = file_loop w ?s2" by (subst file_loop.simps) simp
    moreover have "\<exists>s'. file_loop w ?s2 = Inr s' \<and> printed s' = printed ?s2 @ concat (map line_output (lines_of ?u))"
      by (rule 1(1) [OF False]) (use 1(2,4) lines in simp_all)
    ultimately show ?thesis using lines by simp
  qed
qed

text \<open>
  C38: The crawler run on a file, when memory suffices, no database is in use, the file can be
  opened and no line of it is one the scans stumble over, prints for every line, in order, its
  links, mail addresses and images, then the addresses the mail search finds. A line is what
  \<open>fgets\<close> cuts off, at most 1023 characters, so a tag that is spread over two lines is not
  seen. The lines meant (\<open>plain_line\<close>) have no NUL, no link or image tag without a value after
  its attribute, no empty part before, between or after the at signs, and no address that
  would overrun the array it is copied to. On other lines the program can fault
  (\<open>loop_faults_exactly\<close> for the tags, \<open>search_email_parts\<close> for the addresses).
\<close>

theorem data_from_file_prints:
  assumes "memory_ok w" and "\<not> use_db s" and "disk w f = Some t" and "\<forall>l\<in>set (lines_of t). plain_line l"
  shows "\<exists>s'. data_from_file w (Some f) s = Inr s'
    \<and> printed s' = printed s @ concat (map line_output (lines_of t))"
proof -
  have "init_file w f s = (0, s\<lparr>fp := Some t\<rparr>)" using assms(3) by (simp add: init_file_def)
  then show ?thesis
    using file_loop_prints [OF assms(1), of "s\<lparr>fp := Some t\<rparr>" t] assms(2,4)
    by (simp add: data_from_file_def)
qed

definition demo_file :: string where
  "demo_file = ''<a href=x>'' @ CHR 0x0A # ''<img src=b> tom@akaedu.org''"

lemma demo_file:
  "lines_of demo_file = [''<a href=x>'' @ [CHR 0x0A], ''<img src=b> tom@akaedu.org'']"
  "\<forall>l\<in>set (lines_of demo_file). plain_line l"
  "concat (map line_output (lines_of demo_file)) = [Link_is ''x'', Image_is ''b'', Name_is ''tom'' ''akaedu.org'']"
  by code_simp+

theorem data_from_file_prints_witness:
  "\<exists>s'. data_from_file (calm_world\<lparr>disk := \<lambda>f. Some demo_file\<rparr>) (Some ''1.html'') crawler_init = Inr s'
    \<and> printed s' = [Link_is ''x'', Image_is ''b'', Name_is ''tom'' ''akaedu.org'']"
  using data_from_file_prints [of "calm_world\<lparr>disk := \<lambda>f. Some demo_file\<rparr>" crawler_init "''1.html''" demo_file]
    demo_file(2,3)
  by (simp add: memory_ok_def calm_world_def)

subsection \<open>Fetching a page\<close>

definition request :: "string \<Rightarrow> string \<Rightarrow> string" where
  "request host path =
     ''GET /'' @ (if take 1 path = ''/'' then drop 1 path else path) @ '' HTTP/1.0'' @ CRLF @
     ''Host: '' @ host @ CRLF @ ''User-Agent: HTMLGET 1.0'' @ CRLF @ CRLF"

lemma sprintf_tpl:
  "sprintf_s tpl [a, b, c] = ''GET /'' @ a @ '' HTTP/1.0'' @ CRLF @ ''Host: '' @ b @ CRLF @ ''User-Agent: '' @ c @ CRLF @ CRLF"
  by (simp add: tpl_def CRLF_def)

lemma build_get_query_result:
  "build_get_query w host path s =
    (if grants w (mallocs s) (length (request host path) + 1)
     then Inr (request host path, s\<lparr>mallocs := Suc (mallocs s)\<rparr>)
     else Inl Null_pointer)"
proof -
  define p where "p = (if take 1 path = ''/'' then drop 1 path else path)"
  have p: "(if get_char path = CHR ''/'' then tl path else path) = p"
    unfolding p_def by (cases path) (auto simp: get_char_def NUL_def)
  have q: "sprintf_s tpl [p, host, USERAGENT] = request host path"
    unfolding sprintf_tpl request_def USERAGENT_def CRLF_def p_def by simp
  have size: "int (length host) + int (length p) + int (length USERAGENT) + int (length tpl) - 5
      = int (length (request host path)) + 1"
    by (simp add: request_def USERAGENT_def tpl_def CRLF_def p_def)
  then show ?thesis
    unfolding build_get_query_def p Let_def q malloc_def prod.case size by (simp add: nat_add_distrib)
qed

text \<open>
  C39: The query is the request for the page at the host, and the memory asked for is
  exactly its length and the terminator: it is never overrun, whatever the strings.
\<close>

theorem build_get_query_fits:
  "build_get_query w host path s =
    (case malloc w (length (request host path) + 1) s of
       (got, s') \<Rightarrow> if got then Inr (request host path, s') else Inl Null_pointer)"
  by (simp add: build_get_query_result malloc_def)

text \<open>The page a connection asks for when nothing runs out.\<close>

lemma init_http_get_result:
  assumes "memory_ok w" and "8 \<le> pointer_size w"
  defines "n \<equiv> \<lambda>s. length (visited s)"
  shows "init_http_get w host (Some path) s =
    (let s' = s\<lparr>timeout := False, visited := visited s @ [(host, Some path)]\<rparr> in
     case dial w (length (visited s)) host of
       No_socket \<Rightarrow> Inl (Exit 1)
     | Unknown_host \<Rightarrow> Inr (1, s'\<lparr>mallocs := mallocs s + 1\<rparr>)
     | Timed_out \<Rightarrow> Inr (0, s'\<lparr>mallocs := mallocs s + 2, timeout := True\<rparr>)
     | Refused \<Rightarrow> Inr (0, s'\<lparr>mallocs := mallocs s + 2\<rparr>)
     | Connected \<Rightarrow>
         (case answer w (length (visited s)) (request host path) of
            None \<Rightarrow> Inl (Exit 1)
          | Some pieces \<Rightarrow> Inr (0, s'\<lparr>mallocs := mallocs s + 4, incoming := pieces,
              buf := Live (map (fresh w (mallocs s + 3)) [0..<bufsiz w + 1])\<rparr>)))"
proof -
  have g: "grants w k m" for k m using assms(1) by (simp add: memory_ok_def)
  show ?thesis
    using assms(2)
    by (simp add: init_http_get_defs build_get_query_result malloc_def g Let_def eval_nat_numeral
        split: dialled.split option.split del: upt_Suc)
qed

text \<open>With more than 127 arguments the count wraps around and the program only shows its usage.\<close>

lemma many_arguments_show_usage: "length argv = 130 \<Longrightarrow> main w argv s = Some (Inl (Exit 1))"
  by (simp add: main_def usage_def)

end
