(* ===== verification/Crawldb.thy ===== *)
theory Crawldb
  imports Crawl
begin

text \<open>
  The crawl over the database as a worklist algorithm: the rows with status 1 are the
  pages still to be visited.

  The locale \<open>worklist\<close> states what the loop of \<open>data_from_db\<close> relies on: a step moves one
  pending key to the finished ones, which never come back and stay in a finite universe.
  It is interpreted on \<open>data_one_from_db\<close>: a page that \<open>insert_link\<close> can store has at most
  63 characters of host and at most as many of path as the receive buffer holds, so only
  finitely many pages can ever be in the table, whatever the servers answer.

  A server need not close its connection: it may send for ever, or leave \<open>recv\<close> waiting. The
  loop over such a page does not return (\<open>web_loop_endless\<close>). That every server closes it after
  finitely many pieces is the hypothesis \<open>answers_end\<close> where the crawl is said to end.

  The properties: while the SQL statements work and the answers end, the crawl ends; it visits no page twice
  and leaves none unvisited; every link closed inside a received piece has been followed;
  no connection was refused.  When the table cannot be written it never ends.
\<close>

subsection \<open>Worklists\<close>

primrec run_steps :: "('s \<Rightarrow> 's option) \<Rightarrow> nat \<Rightarrow> 's \<Rightarrow> 's option" where
  "run_steps work 0 s = Some s"
| "run_steps work (Suc n) s = (case work s of None \<Rightarrow> None | Some t \<Rightarrow> run_steps work n t)"

lemma run_steps_last: "run_steps work n s = Some t \<Longrightarrow> run_steps work (Suc n) s = work t"
proof (induction n arbitrary: s)
  case 0
  then show ?case by (simp split: option.split)
next
  case (Suc n)
  then obtain u where u: "work s = Some u" "run_steps work n u = Some t" by (auto split: option.splits)
  then show ?case using Suc.IH [OF u(2)] by (simp only: run_steps.simps(2) [of work "Suc n"] option.case)
qed

locale worklist =
  fixes work :: "'s \<Rightarrow> 's option" and inv :: "'s \<Rightarrow> bool"
    and pending finished :: "'s \<Rightarrow> 'k set" and universe :: "'k set"
  assumes keeps: "\<lbrakk>inv s; work s = Some t\<rbrakk> \<Longrightarrow> inv t"
    and moves: "\<lbrakk>inv s; work s = Some t\<rbrakk> \<Longrightarrow> \<exists>k\<in>pending s. finished t = insert k (finished s)"
    and apart: "inv s \<Longrightarrow> pending s \<inter> finished s = {}"
    and bounded: "inv s \<Longrightarrow> finished s \<subseteq> universe"
    and finite_universe: "finite universe"
begin

lemma run_keeps: "\<lbrakk>inv s; run_steps work n s = Some t\<rbrakk> \<Longrightarrow> inv t"
  by (induction n arbitrary: s) (auto split: option.splits intro: keeps)

lemma run_finishes:
  "\<lbrakk>inv s; run_steps work n s = Some t\<rbrakk> \<Longrightarrow> card (finished t) = card (finished s) + n \<and> finished s \<subseteq> finished t"
proof (induction n arbitrary: s)
  case (Suc n)
  then obtain u where u: "work s = Some u" "run_steps work n u = Some t" by (auto split: option.splits)
  obtain k where k: "k \<in> pending s" "finished u = insert k (finished s)" using moves [OF Suc.prems(1) u(1)] by blast
  have "k \<notin> finished s" using apart [OF Suc.prems(1)] k(1) by blast
  moreover have "finite (finished s)" using bounded [OF Suc.prems(1)] finite_universe finite_subset by blast
  ultimately show ?case using Suc.IH [OF keeps [OF Suc.prems(1) u(1)] u(2)] k(2) by auto
qed simp

text \<open>The steps run out: there are at most as many as unfinished keys.\<close>

lemma runs_out:
  assumes "inv s"
  shows "\<exists>n t. n \<le> card universe \<and> run_steps work n s = Some t \<and> work t = None"
proof (rule ccontr)
  assume none: "\<not> ?thesis"
  have "\<exists>t. run_steps work n s = Some t" if "n \<le> card universe + 1" for n
    using that
  proof (induction n)
    case (Suc n)
    then obtain t where t: "run_steps work n s = Some t" by auto
    then have "work t \<noteq> None" using none Suc.prems by auto
    moreover have "run_steps work (Suc n) s = work t"
      by (rule run_steps_last [OF t])
    ultimately show ?case by auto
  qed simp
  then obtain t where t: "run_steps work (card universe + 1) s = Some t" by blast
  have "card (finished t) = card (finished s) + (card universe + 1)" using run_finishes [OF assms t] by simp
  moreover have "card (finished t) \<le> card universe"
    by (rule card_mono [OF finite_universe bounded [OF run_keeps [OF assms t]]])
  ultimately show False by simp
qed

end

subsection \<open>What scanning adds to the table\<close>

text \<open>The rows \<open>rs'\<close> come from \<open>rs\<close> by adding the targets of links of at most \<open>n\<close> characters.\<close>

definition grows :: "string \<Rightarrow> nat \<Rightarrow> weblink_row list \<Rightarrow> weblink_row list \<Rightarrow> bool" where
  "grows base n rs rs' \<longleftrightarrow>
     (\<exists>vs. rs' = fold (\<lambda>v. add_page (target base v) (Some base) 1) vs rs \<and>
        (\<forall>v\<in>set vs. length v \<le> n \<and> (absolute v \<longrightarrow> length (host_of v) < 64)))"

lemma grows_refl: "grows base n rs rs"
  by (auto simp: grows_def intro: exI [of _ "[]"])

lemma grows_trans:
  assumes "grows base n rs rs'" and "grows base n rs' rs''"
  shows "grows base n rs rs''"
proof -
  obtain vs us where
    "rs' = fold (\<lambda>v. add_page (target base v) (Some base) 1) vs rs" "rs'' = fold (\<lambda>v. add_page (target base v) (Some base) 1) us rs'"
    "\<forall>v\<in>set vs \<union> set us. length v \<le> n \<and> (absolute v \<longrightarrow> length (host_of v) < 64)"
    using assms unfolding grows_def by blast
  then show ?thesis unfolding grows_def by (intro exI [of _ "vs @ us"]) simp
qed

lemma grows_mono: "grows base n rs rs' \<Longrightarrow> n \<le> m \<Longrightarrow> grows base m rs rs'"
  unfolding grows_def by (elim exE, rule_tac x = vs in exI) auto

lemma grows_table:
  assumes "grows base n rs rs'"
  shows "key ` set rs \<subseteq> key ` set rs'" and "table_ok rs \<Longrightarrow> table_ok rs'" and "set rs \<subseteq> set rs'"
    and "\<forall>r\<in>set rs' - set rs. row_status r = 1 \<and> key r \<notin> key ` set rs"
    and "key ` set rs' \<subseteq> key ` set rs \<union>
      {target base v |v. length v \<le> n \<and> (absolute v \<longrightarrow> length (host_of v) < 64)}"
proof -
  obtain vs where e: "rs' = fold (\<lambda>v. add_page (target base v) (Some base) 1) vs rs"
    and vs: "\<forall>v\<in>set vs. length v \<le> n \<and> (absolute v \<longrightarrow> length (host_of v) < 64)"
    using assms by (auto simp: grows_def)
  show "key ` set rs \<subseteq> key ` set rs'" unfolding e fold_add_page(1) by blast
  show "table_ok rs \<Longrightarrow> table_ok rs'" unfolding e by (rule fold_add_page(2))
  show "set rs \<subseteq> set rs'" unfolding e by (rule fold_add_page(3))
  show "\<forall>r\<in>set rs' - set rs. row_status r = 1 \<and> key r \<notin> key ` set rs"
    unfolding e using fold_add_page(4) by blast
  show "key ` set rs' \<subseteq> key ` set rs \<union>
      {target base v |v. length v \<le> n \<and> (absolute v \<longrightarrow> length (host_of v) < 64)}"
    unfolding e fold_add_page(1) using vs by blast
qed

lemma insert_link_grows:
  assumes "sql_works w" and "use_domain s = Some base" and "insert_link w v s = Inr s'" and "length v \<le> n"
  shows "grows base n (rows s) (rows s')"
proof -
  have "\<not> (absolute v \<and> 64 \<le> length (host_of v))"
    using insert_link_faults [of w v s] assms(3) by auto
  then show ?thesis
    using insert_link_effect [OF assms(1-3)] assms(4) by (auto simp: grows_def intro!: exI [of _ "[v]"])
qed

lemma is_string_shorter: "is_string (Some d) dst = Some r \<Longrightarrow> NUL \<notin> set dst \<Longrightarrow> length r \<le> length d"
  using length_dropWhile_le [of "\<lambda>c. c = CHR '' ''" d]
  by (auto simp: is_string_eq Let_def split: if_splits)

lemma get_end_le: "get_end d \<le> length d"
  by (induction d) auto

lemma print_string_rows: "print_string m p s = Inr s' \<Longrightarrow> rows s' = rows s"
  by (auto simp: print_string_def emit_def split: sum.splits option.splits)

lemma get_one_link_data:
  assumes "get_one_link w d s = Inr (Some p, s1)"
  shows "ret p = 1 \<Longrightarrow> data_of p = At v \<Longrightarrow> length v \<le> length d" and "rows s1 = rows s" and "use_domain s1 = use_domain s"
proof -
  obtain e where e: "is_string (Some d) ''href'' = Some e"
    using assms by (auto simp: get_one_link_def split: option.splits)
  show "rows s1 = rows s" "use_domain s1 = use_domain s"
    using assms by (auto simp: get_one_link_def get_link_address_def malloc_def Let_def
        split: option.splits sum.splits if_splits)
  assume p: "ret p = 1" "data_of p = At v"
  then obtain r where r: "is_string (Some e) ''='' = Some r" "v = take (get_end (get_start r)) (get_start r)"
    using assms e by (auto simp: get_one_link_def get_link_address_def malloc_def Let_def
        split: option.splits sum.splits if_splits)
  have "length v \<le> length r"
    using r(2) length_dropWhile_le [of _ r] by (simp add: get_start_eq min.coboundedI1 min.coboundedI2)
  also have "\<dots> \<le> length e" by (rule is_string_shorter [OF r(1)]) (simp add: NUL_def)
  also have "\<dots> \<le> length d" by (rule is_string_shorter [OF e]) (simp add: NUL_def)
  finally show "length v \<le> length d" .
qed

lemma get_link_grows:
  assumes "sql_works w" and "use_domain s = Some base" and "get_link w d s = Inr s'" and "length d \<le> n"
  shows "grows base n (rows s) (rows s')"
proof -
  obtain p s1 where p: "get_one_link w d s = Inr (p, s1)" using assms(3) by (auto simp: get_link_def split: sum.splits)
  show ?thesis
  proof (cases p)
    case None
    then have "s' = s1" using assms(3) p by (simp add: get_link_def)
    moreover have "rows s1 = rows s"
      using p None by (auto simp: get_one_link_def get_link_address_def malloc_def Let_def
          split: option.splits sum.splits if_splits)
    ultimately show ?thesis using grows_refl by simp
  next
    case (Some q)
    note one = get_one_link_data [OF p [unfolded Some]]
    consider "rows s' = rows s1" | v where "ret q = 1" "data_of q = At v" "insert_link w v s1 = Inr s'"
      using assms(3) p Some
      by (cases "data_of q") (auto simp: get_link_def print_string_rows split: sum.splits option.splits if_splits)
    then show ?thesis
    proof cases
      case 1
      then show ?thesis using one(2) grows_refl by simp
    next
      case 2
      then show ?thesis
        using insert_link_grows [OF assms(1) _ 2(3), of base n] one assms(2,4) by simp
    qed
  qed
qed

lemma get_image_rows: "get_image w d s = Inr s' \<Longrightarrow> rows s' = rows s \<and> use_domain s' = use_domain s"
  by (auto simp: get_image_def get_one_image_def get_image_name_def malloc_def Let_def print_string_def emit_def
      split: option.splits sum.splits if_splits)

lemma loop_grows:
  assumes "sql_works w" and "use_domain s = Some base" and "loop w data s = Inr s'" and "length data \<le> n"
  shows "grows base n (rows s) (rows s')"
proof -
  have "use_domain s = Some base \<longrightarrow> use_domain s' = Some base \<and> grows base n (rows s) (rows s')"
  proof (rule loop_relates [OF assms(3)])
    fix d s t
    assume "length d \<le> length data" "get_link w d s = Inr t"
    then show "use_domain s = Some base \<longrightarrow> use_domain t = Some base \<and> grows base n (rows s) (rows t)"
      using get_link_grows [OF assms(1), of s base d t n] same_rest_fields(2) [OF get_link_keeps] assms(4) by force
  qed (use grows_refl grows_trans get_image_rows in \<open>blast | metis\<close>)+
  then show ?thesis using assms(2) by blast
qed

subsection \<open>What fetching a page adds\<close>

definition refill :: "world \<Rightarrow> char list \<Rightarrow> string \<Rightarrow> char list" where
  "refill w b c = c @ drop (length c) (replicate (min (pointer_size w) (length b)) NUL @ drop (pointer_size w) b)"

lemma length_refill: "length c \<le> length b \<Longrightarrow> length (refill w b c) = length b"
  by (simp add: refill_def)

lemma refill_fits:
  assumes "length b = bufsiz w + 1" and "\<forall>c\<in>chunks (incoming s). length c \<le> bufsiz w" and "Chunk c cs = incoming s"
  shows "length (refill w b c) = bufsiz w + 1"
proof -
  have "c \<in> chunks (incoming s)" unfolding assms(3) [symmetric] by simp
  then have "length c \<le> length b" using assms(1,2) by auto
  then show ?thesis using length_refill assms(1) by metis
qed

lemma web_loop_step:
  assumes "web_loop w s = Some (Inr s')" and "buf s = Live b"
  obtains "incoming s = Closed" and "s' = s\<lparr>buf := Freed\<rparr>"
  | c cs s1 where "incoming s = Chunk c cs"
      and "scan_buffer w (refill w b c) (s\<lparr>buf := Live (refill w b c), incoming := cs\<rparr>) = Inr s1"
      and "web_loop w s1 = Some (Inr s')"
proof (cases "incoming s")
  case Closed
  then have "s' = s\<lparr>buf := Freed\<rparr>"
    using assms by (subst (asm) web_loop.simps) (simp add: get_web_buf_def)
  then show thesis using that(1) Closed by blast
next
  case Silent
  then show thesis using assms by (subst (asm) web_loop.simps) (simp add: get_web_buf_def)
next
  case (Chunk c cs)
  then have "get_web_buf w s = Some (Inr (Some (refill w b c), s\<lparr>buf := Live (refill w b c), incoming := cs\<rparr>))"
    using assms(2) by (simp add: get_web_buf_def refill_def Let_def)
  then obtain s1 where "scan_buffer w (refill w b c) (s\<lparr>buf := Live (refill w b c), incoming := cs\<rparr>) = Inr s1"
      "web_loop w s1 = Some (Inr s')"
    using assms(1) by (subst (asm) web_loop.simps) (auto split: sum.splits)
  then show thesis using that(2) Chunk by blast
qed

text \<open>When the loop returns, the server has closed the connection.\<close>

lemma web_loop_closed:
  assumes "web_loop w s = Some (Inr s')"
  shows "ends (incoming s)"
proof -
  have "(\<exists>s'. r = Inr s') \<longrightarrow> ends (incoming s)" if "web_loop w s = Some r" for w s r
  proof (rule web_loop.raw_induct [where P = "\<lambda>w s r. (\<exists>s'. r = Inr s') \<longrightarrow> ends (incoming s)", OF _ that], intro impI)
    fix rec :: "world \<Rightarrow> crawler \<Rightarrow> (fault + crawler) option" and w s r
    assume later: "\<And>w s r. rec w s = Some r \<Longrightarrow> (\<exists>s'. r = Inr s') \<longrightarrow> ends (incoming s)"
      and body: "(case get_web_buf w s of None \<Rightarrow> None | Some (Inl f) \<Rightarrow> Some (Inl f)
        | Some (Inr (None, s)) \<Rightarrow> Some (Inr s)
        | Some (Inr (Some b, s)) \<Rightarrow> (case scan_buffer w b s of Inl f \<Rightarrow> Some (Inl f) | Inr s \<Rightarrow> rec w s)) = Some r"
      and r: "\<exists>s'. r = Inr s'"
    show "ends (incoming s)"
    proof (cases "incoming s")
      case (Chunk c cs)
      then obtain b t where t: "scan_buffer w b (s\<lparr>buf := Live b, incoming := cs\<rparr>) = Inr t" "rec w t = Some r"
        using body r by (auto simp: get_web_buf_def Let_def split: web_buffer.splits sum.splits)
      have "ends (incoming t)" using later [OF t(2)] r by blast
      then show ?thesis using Chunk same_rest_fields(9) [OF scan_buffer_keeps [OF t(1)]] by simp
    qed (use body r in \<open>auto simp: get_web_buf_def split: web_buffer.splits\<close>)
  qed
  then show ?thesis using assms by blast
qed

text \<open>A server that closes the connection lets the loop come to an end, in a fault if need be.\<close>

lemma web_loop_returns: "ends (incoming s) \<Longrightarrow> \<exists>r. web_loop w s = Some r"
proof (induction "incoming s" arbitrary: s rule: ends.induct)
  case ends_Closed
  then show ?case by (subst web_loop.simps) (auto simp: get_web_buf_def split: web_buffer.split)
next
  case (ends_Chunk cs c)
  show ?case
  proof (cases "\<exists>b t. buf s = Live b \<and>
      scan_buffer w (refill w b c) (s\<lparr>buf := Live (refill w b c), incoming := cs\<rparr>) = Inr t")
    case True
    then obtain b t where t: "buf s = Live b"
        "scan_buffer w (refill w b c) (s\<lparr>buf := Live (refill w b c), incoming := cs\<rparr>) = Inr t" by blast
    have "cs = incoming t" using same_rest_fields(9) [OF scan_buffer_keeps [OF t(2)]] by simp
    then have "\<exists>r. web_loop w t = Some r" by (rule ends_Chunk(2))
    moreover have "web_loop w s = web_loop w t"
      using t ends_Chunk(3) [symmetric] by (subst web_loop.simps) (simp add: get_web_buf_def refill_def Let_def)
    ultimately show ?thesis by simp
  next
    case False
    then show ?thesis
      using ends_Chunk(3) [symmetric]
      by (subst web_loop.simps)
        (auto simp: get_web_buf_def refill_def Let_def split: web_buffer.split sum.split)
  qed
qed

text \<open>A server that sends the same piece for ever.\<close>

primcorec streaming :: "'a \<Rightarrow> 'a delivery" where
  "streaming c = Chunk c (streaming c)"

lemma streaming_never_ends: "\<not> ends (streaming c)"
proof
  assume "ends (streaming c)"
  then show False
  proof (induction "streaming c" rule: ends.induct)
    case ends_Closed
    then show ?case using streaming.code [of c] by simp
  next
    case (ends_Chunk d e)
    have "Chunk e d = Chunk c (streaming c)" using ends_Chunk(3) streaming.code [of c] by (rule trans)
    then show ?case using ends_Chunk(2) by simp
  qed
qed

text \<open>
  The loop over a page does not return when the server sends a harmless piece for ever, here one
  of a single character: nothing in the program bounds the length of a page.
\<close>

lemma web_loop_stuck:
  assumes "web_loop w s = Some y"
    and again: "\<And>s. Q s \<Longrightarrow> \<exists>b t u. get_web_buf w s = Some (Inr (Some b, t)) \<and> scan_buffer w b t = Inr u \<and> Q u"
  shows "\<not> Q s"
proof -
  have "w' = w \<longrightarrow> \<not> Q s" if "web_loop w' s = Some y" for w' s y
  proof (rule web_loop.raw_induct [where P = "\<lambda>w' s y. w' = w \<longrightarrow> \<not> Q s", OF _ that], intro impI notI)
    fix rec :: "world \<Rightarrow> crawler \<Rightarrow> (fault + crawler) option" and w' s y
    assume later: "\<And>w' s y. rec w' s = Some y \<Longrightarrow> w' = w \<longrightarrow> \<not> Q s"
      and body: "(case get_web_buf w' s of None \<Rightarrow> None | Some (Inl f) \<Rightarrow> Some (Inl f)
        | Some (Inr (None, s)) \<Rightarrow> Some (Inr s)
        | Some (Inr (Some b, s)) \<Rightarrow> (case scan_buffer w' b s of Inl f \<Rightarrow> Some (Inl f) | Inr s \<Rightarrow> rec w' s)) = Some y"
      and here: "w' = w" "Q s"
    obtain b t u where t: "get_web_buf w s = Some (Inr (Some b, t))" "scan_buffer w b t = Inr u" "Q u"
      using again [OF here(2)] by blast
    then have "rec w u = Some y" using body here(1) by simp
    then show False using later t(3) by blast
  qed
  then show ?thesis using assms(1) by blast
qed

lemma web_loop_endless:
  assumes "memory_ok w" and "8 \<le> pointer_size w" and "\<not> use_db s" and "incoming s = streaming ''x''"
    and "buf s = Live b" and "2 \<le> length b"
  shows "web_loop w s = None"
proof (rule ccontr)
  let ?Q = "\<lambda>s. \<not> use_db s \<and> incoming s = streaming ''x'' \<and> (\<exists>b. buf s = Live b \<and> 2 \<le> length b)"
  have plain: "plain_line ''x''" by code_simp
  have again: "\<exists>b t u. get_web_buf w s = Some (Inr (Some b, t)) \<and> scan_buffer w b t = Inr u \<and> ?Q u" if Q: "?Q s" for s
  proof -
    obtain b where b: "buf s = Live b" "2 \<le> length b" using Q by blast
    have len: "length (refill w b ''x'') = length b" using b(2) by (simp add: length_refill)
    obtain n where n: "min (pointer_size w) (length b) = Suc (Suc n)"
      using assms(2) b(2) by (cases "min (pointer_size w) (length b)"; cases "min (pointer_size w) (length b) - 1") auto
    have r: "refill w b ''x'' = ''x'' @ NUL # replicate n NUL @ drop (pointer_size w) b"
      by (simp add: refill_def n)
    let ?t = "s\<lparr>buf := Live (refill w b ''x''), incoming := streaming ''x''\<rparr>"
    have "incoming s = Chunk ''x'' (streaming ''x'')" using Q streaming.code [of "''x''"] by (elim conjE) (rule trans)
    then have get: "get_web_buf w s = Some (Inr (Some (refill w b ''x''), ?t))"
      using b(1) by (simp add: get_web_buf_def refill_def Let_def)
    obtain u where u: "scan_buffer w (refill w b ''x'') ?t = Inr u"
      using scan_plain_line [OF assms(1) _ plain, of ?t] Q r by auto
    then have "?Q u" using same_rest_fields [OF scan_buffer_keeps [OF u]] Q b(2) len by simp
    then show ?thesis using get u by blast
  qed
  assume "web_loop w s \<noteq> None"
  then obtain y where "web_loop w s = Some y" by blast
  from web_loop_stuck [where Q = ?Q, OF this again] show False using assms(3-6) by blast
qed

lemma scan_buffer_runs:
  assumes "scan_buffer w b s = Inr s'"
  obtains data t where "text_of b = Inr data" "loop w data s = Inr t" "rows s' = rows t"
    and "NUL \<notin> set data" "length data < length b"
proof -
  obtain data t where t: "text_of b = Inr data" "loop w data s = Inr t" "search_email b t = Inr s'"
    using assms by (auto simp: scan_buffer_def split: sum.splits)
  have "s' = t\<lparr>printed := printed s'\<rparr>" using search_email_prints [OF t(3)] by (simp add: only_prints_def)
  then have "rows s' = rows t" by (cases t; cases s'; simp)
  moreover have d: "data = takeWhile (\<lambda>c. c \<noteq> NUL) b" "NUL \<in> set b"
    using t(1) by (auto simp: text_of_def split: if_splits)
  moreover have "NUL \<notin> set data" unfolding d(1) by (auto dest: set_takeWhileD)
  moreover have "length data < length b" unfolding d(1) using d(2) by (induction b) auto
  ultimately show thesis using that t by blast
qed

text \<open>What stays the same while a page is received.\<close>

definition same_run :: "crawler \<Rightarrow> crawler \<Rightarrow> bool" where
  "same_run s s' \<longleftrightarrow> use_db s' = use_db s \<and> use_domain s' = use_domain s \<and> visited s' = visited s \<and> alink s' = alink s"

lemma web_loop_effect:
  assumes "sql_works w" and "use_domain s = Some base" and "web_loop w s = Some (Inr s')"
    and "buf s = Live b" and "length b = bufsiz w + 1" and "\<forall>c\<in>chunks (incoming s). length c \<le> bufsiz w"
  shows "grows base (bufsiz w) (rows s) (rows s')" and "same_run s s'" and "buf s' = Freed"
proof -
  have "ends (incoming s)" using assms(3) by (rule web_loop_closed)
  then have "grows base (bufsiz w) (rows s) (rows s') \<and> same_run s s' \<and> buf s' = Freed"
    using assms(2-)
  proof (induction "incoming s" arbitrary: s b rule: ends.induct)
    case ends_Closed
    from ends_Closed(3,4) have "s' = s\<lparr>buf := Freed\<rparr>" by (rule web_loop_step) (use ends_Closed(1) in auto)
    then show ?case by (simp add: grows_refl same_run_def)
  next
    case (ends_Chunk cs c)
    let ?b = "refill w b c" and ?s = "s\<lparr>buf := Live (refill w b c), incoming := cs\<rparr>"
    note piece = ends_Chunk.hyps(3)
    obtain s1 where s1: "scan_buffer w ?b ?s = Inr s1" "web_loop w s1 = Some (Inr s')"
      using ends_Chunk.prems(2,3) by (rule web_loop_step) (use piece in auto)
    note same = same_rest_fields [OF scan_buffer_keeps [OF s1(1)]]
    have lb: "length ?b = bufsiz w + 1"
      by (rule refill_fits [OF ends_Chunk.prems(4,5) piece])
    have "grows base (bufsiz w) (rows s1) (rows s') \<and> same_run s1 s' \<and> buf s' = Freed"
    proof (rule ends_Chunk.hyps(2) [of s1 ?b])
      show "\<forall>c\<in>chunks (incoming s1). length c \<le> bufsiz w"
        using ends_Chunk.prems(5) piece [symmetric] same(9) by simp
    qed (use same s1(2) lb ends_Chunk.prems(1) in simp_all)
    moreover obtain data t where t: "text_of ?b = Inr data" "loop w data ?s = Inr t" "rows s1 = rows t"
        "NUL \<notin> set data" "length data < length ?b"
      using scan_buffer_runs [OF s1(1)] .
    have "grows base (bufsiz w) (rows ?s) (rows t)"
      by (rule loop_grows [OF assms(1) _ t(2)]) (use t(5) lb ends_Chunk.prems(1) in simp_all)
    ultimately show ?case
      using grows_trans t(3) same by (auto simp: same_run_def)
  qed
  then show "grows base (bufsiz w) (rows s) (rows s')" "same_run s s'" "buf s' = Freed" by blast+
qed

text \<open>A link whose value ends inside the piece: more text behind it does not change it.\<close>

definition closed_link :: "string \<Rightarrow> string \<Rightarrow> bool" where
  "closed_link c v \<longleftrightarrow>
     (\<exists>u b1 b2 q stop rest. c = u @ ''<a '' @ b1 @ ''href'' @ b2 @ ''='' @ q @ v @ stop # rest \<and>
        blank b1 \<and> blank b2 \<and> set q \<subseteq> {CHR '' '', CHR 0x22} \<and> (\<forall>c\<in>set v. \<not> stops c) \<and>
        stops stop \<and> (v = [] \<longrightarrow> stop = CHR ''>''))"

lemma closed_link_tag:
  assumes "closed_link c v"
  shows "has_tag ''a '' ''href'' (c @ z) v"
proof -
  obtain u b1 b2 q stop rest where l: "c = u @ ''<a '' @ b1 @ ''href'' @ b2 @ ''='' @ q @ v @ stop # rest"
      "blank b1" "blank b2" "set q \<subseteq> {CHR '' '', CHR 0x22}" "\<forall>c\<in>set v. \<not> stops c"
      "stops stop" "v = [] \<longrightarrow> stop = CHR ''>''"
    using assms unfolding closed_link_def by blast
  then show ?thesis unfolding has_tag_def
    by (intro exI [of _ u] exI [of _ b1] exI [of _ b2] exI [of _ q] exI [of _ "stop # rest @ z"]) simp
qed

lemma web_loop_follows:
  assumes "memory_ok w" "sql_works w" and "use_db s" "use_domain s = Some base" and "web_loop w s = Some (Inr s')"
    and "buf s = Live b" and "length b = bufsiz w + 1" and "\<forall>c\<in>chunks (incoming s). length c \<le> bufsiz w"
    and "c \<in> chunks (incoming s)" and "NUL \<notin> set c" and "closed_link c v" and "stored v"
  shows "target base v \<in> key ` set (rows s')"
  using web_loop_closed [OF assms(5)] assms(3-9)
proof (induction "incoming s" arbitrary: s b rule: ends.induct)
  case ends_Closed
  from ends_Closed(1) [symmetric] ends_Closed(8) show ?case by simp
next
  case (ends_Chunk cs e)
  let ?b = "refill w b e" and ?s = "s\<lparr>buf := Live (refill w b e), incoming := cs\<rparr>"
  note piece = ends_Chunk.hyps(3) and prems = ends_Chunk.prems
  obtain s1 where s1: "scan_buffer w ?b ?s = Inr s1" "web_loop w s1 = Some (Inr s')"
    using prems(3,4) by (rule web_loop_step) (use piece in auto)
  note same = same_rest_fields [OF scan_buffer_keeps [OF s1(1)]]
  have lb: "length ?b = bufsiz w + 1"
    by (rule refill_fits [OF prems(5,6) piece])
  have rest: "\<forall>c\<in>chunks (incoming s1). length c \<le> bufsiz w"
    using prems(6) piece [symmetric] same(9) by simp
  show ?case
  proof (cases "c \<in> chunks cs")
    case True
    show ?thesis by (rule ends_Chunk.hyps(2) [of s1 ?b]) (use same s1(2) lb rest True prems(1,2) in simp_all)
  next
    case False
    then have c: "c = e" using prems(7) piece [symmetric] by simp
    obtain data t where t: "text_of ?b = Inr data" "loop w data ?s = Inr t" "rows s1 = rows t"
        "NUL \<notin> set data" "length data < length ?b"
      using scan_buffer_runs [OF s1(1)] .
    have "takeWhile (\<lambda>c. c \<noteq> NUL) (c @ z) = c @ takeWhile (\<lambda>c. c \<noteq> NUL) z" for z
      using assms(10) by (intro takeWhile_append2) auto
    then have "\<exists>z. data = c @ z" using t(1) by (auto simp: text_of_def refill_def c split: if_splits)
    then have "v \<in> linked data" using closed_link_tag [OF assms(11)] assms(12) by (auto simp: linked_def)
    then have "target base v \<in> key ` set (rows t)"
      using loop_table(1) [OF assms(1,2) _ _ t(4,2), of base] prems(1,2) by auto
    moreover have "grows base (bufsiz w) (rows s1) (rows s')"
      by (rule web_loop_effect(1) [OF assms(2) _ s1(2), of _ ?b]) (use same lb rest prems(2) in simp_all)
    ultimately show ?thesis using grows_table(1) t(3) by fastforce
  qed
qed

subsection \<open>One page of the crawl\<close>

definition recv_ok :: "world \<Rightarrow> bool" where
  "recv_ok w \<longleftrightarrow> (\<forall>n q cs. answer w n q = Some cs \<longrightarrow> (\<forall>c\<in>chunks cs. length c \<le> bufsiz w))"

text \<open>Every server closes its connection after finitely many pieces.\<close>

definition answers_end :: "world \<Rightarrow> bool" where
  "answers_end w \<longleftrightarrow> (\<forall>n q cs. answer w n q = Some cs \<longrightarrow> ends cs)"

definition idle :: "crawler \<Rightarrow> bool" where
  "idle s \<longleftrightarrow> buf s = No_buffer \<or> buf s = Freed"

lemma web_loop_idle: "idle s \<Longrightarrow> \<exists>f. web_loop w s = Some (Inl f)"
  by (subst web_loop.simps) (auto simp: idle_def get_web_buf_def)

lemma init_http_get_leaves:
  assumes "init_http_get w host path s = Inr (code, t)" and "idle s"
  shows "rows t = rows s \<and> use_db t = use_db s \<and> use_domain t = use_domain s \<and> alink t = alink s
    \<and> visited t = visited s @ [(host, path)]"
    and "idle t \<and> (code \<noteq> 0 \<or> timeout t \<longrightarrow> dial w (length (visited s)) host \<noteq> Refused)
    \<or> code = 0 \<and> \<not> timeout t \<and> dial w (length (visited s)) host = Connected \<and>
      (\<exists>p cs b. path = Some p \<and> answer w (length (visited s)) (request host p) = Some cs \<and> incoming t = cs
        \<and> buf t = Live b \<and> length b = bufsiz w + 1)"
  using assms
  by (cases "dial w (length (visited s)) host"; auto simp: init_http_get_defs Let_def malloc_def
      build_get_query_result idle_def split: if_splits option.splits sum.splits)+

lemma data_from_web_returns:
  assumes "answers_end w" and "idle s"
  shows "data_from_web w host path s \<noteq> None"
proof (cases "init_http_get w host path s")
  case (Inr r)
  then obtain code t where t: "init_http_get w host path s = Inr (code, t)" by (cases r) simp
  have "web_loop w t \<noteq> None" if "\<not> (code \<noteq> 0 \<or> timeout t)"
  proof (cases "idle t")
    case True
    then show ?thesis using web_loop_idle [of t w] by auto
  next
    case False
    then have "ends (incoming t)"
      using init_http_get_leaves(2) [OF t assms(2)] assms(1) by (auto simp: answers_end_def)
    then show ?thesis using web_loop_returns [of t w] by auto
  qed
  then show ?thesis using t by (auto simp: data_from_web_def)
qed (simp add: data_from_web_def)

lemma data_from_web_effect:
  assumes "sql_works w" and "recv_ok w" and "use_domain s = Some base" and "idle s"
    and "data_from_web w host path s = Some (Inr s')"
  shows "grows base (bufsiz w) (rows s) (rows s')" and "idle s'" and "dial w (length (visited s)) host \<noteq> Refused"
    and "use_db s' = use_db s" and "use_domain s' = Some base" and "alink s' = alink s"
    and "visited s' = visited s @ [(host, path)]"
proof -
  obtain code t where t: "init_http_get w host path s = Inr (code, t)"
    using assms(5) by (auto simp: data_from_web_def split: sum.splits)
  note same = init_http_get_leaves(1) [OF t assms(4)]
  have "grows base (bufsiz w) (rows t) (rows s') \<and> idle s' \<and> dial w (length (visited s)) host \<noteq> Refused \<and> same_run t s'"
  proof (cases "code \<noteq> 0 \<or> timeout t")
    case True
    then have "s' = t" using assms(5) t by (simp add: data_from_web_def)
    then show ?thesis
      using True init_http_get_leaves(2) [OF t assms(4)] by (auto simp: grows_refl same_run_def)
  next
    case False
    then have loop: "web_loop w t = Some (Inr s')" using assms(5) t by (simp add: data_from_web_def)
    then have "\<not> idle t" using web_loop_idle [of t w] by auto
    then obtain p cs b where b: "answer w (length (visited s)) (request host p) = Some cs" "incoming t = cs"
        "buf t = Live b" "length b = bufsiz w + 1" "dial w (length (visited s)) host = Connected"
      using init_http_get_leaves(2) [OF t assms(4)] by blast
    have "\<forall>c\<in>chunks (incoming t). length c \<le> bufsiz w" using assms(2) b(1,2) by (auto simp: recv_ok_def)
    then show ?thesis
      using web_loop_effect [OF assms(1) _ loop b(3,4), of base] same assms(3) b(5) by (auto simp: idle_def)
  qed
  then show "grows base (bufsiz w) (rows s) (rows s')" "idle s'" "dial w (length (visited s)) host \<noteq> Refused"
    "use_db s' = use_db s" "use_domain s' = Some base" "alink s' = alink s" "visited s' = visited s @ [(host, path)]"
    using same assms(3) by (auto simp: same_run_def)
qed

definition open_of :: "weblink_row list \<Rightarrow> (string option \<times> string option) set" where
  "open_of rs = key ` {r \<in> set rs. row_status r = 1}"

definition closed_of :: "weblink_row list \<Rightarrow> (string option \<times> string option) set" where
  "closed_of rs = key ` {r \<in> set rs. row_status r \<noteq> 1}"

lemma open_closed: "key ` set rs = open_of rs \<union> closed_of rs"
  by (auto simp: open_of_def closed_of_def)

lemma open_apart:
  assumes "table_ok rs"
  shows "open_of rs \<inter> closed_of rs = {}"
proof -
  have "inj_on key (set rs)" using assms by (simp add: table_ok_def distinct_map)
  then show ?thesis by (auto simp: open_of_def closed_of_def inj_on_def)
qed

lemma grows_closed: "grows base n rs rs' \<Longrightarrow> closed_of rs' = closed_of rs"
  using grows_table(3,4) [of base n rs rs'] unfolding closed_of_def by (intro arg_cong [of _ _ "image key"]) auto

lemma visit_row:
  assumes "table_ok rs" and "r \<in> set rs"
  shows "closed_of (update_rows 2 (row_id r) rs) = insert (key r) (closed_of rs)"
    and "key ` set (update_rows 2 (row_id r) rs) = key ` set rs"
proof -
  define f where "f q = (if row_id q = row_id r then q\<lparr>row_status := 2\<rparr> else q)" for q :: weblink_row
  have upd: "set (update_rows 2 (row_id r) rs) = f ` set rs" by (simp add: update_rows_def f_def)
  have key: "key (f q) = key q" for q by (simp add: key_def f_def)
  have "inj_on row_id (set rs)" using assms(1) by (simp add: table_ok_def distinct_map)
  then have "row_id q = row_id r \<longleftrightarrow> q = r" if "q \<in> set rs" for q
    using that assms(2) by (auto simp: inj_on_def)
  then have status: "row_status (f q) \<noteq> 1 \<longleftrightarrow> q = r \<or> row_status q \<noteq> 1" if "q \<in> set rs" for q
    using that by (simp add: f_def)
  have "{q \<in> f ` set rs. row_status q \<noteq> 1} = f ` {q \<in> set rs. row_status (f q) \<noteq> 1}" by blast
  also have "{q \<in> set rs. row_status (f q) \<noteq> 1} = insert r {q \<in> set rs. row_status q \<noteq> 1}"
    using status assms(2) by blast
  finally show "closed_of (update_rows 2 (row_id r) rs) = insert (key r) (closed_of rs)"
    unfolding closed_of_def upd by (simp add: image_image key)
  show "key ` set (update_rows 2 (row_id r) rs) = key ` set rs"
    unfolding upd by (simp add: image_image key)
qed

text \<open>A step of the crawl that took a page.\<close>

definition crawl_step :: "world \<Rightarrow> string \<Rightarrow> crawler \<Rightarrow> crawler option" where
  "crawl_step w name s =
     (case data_one_from_db w name s of
        Some (Inr (code, t)) \<Rightarrow> if code \<noteq> 0 then Some t else None
      | _ \<Rightarrow> None)"

lemma crawl_step_effect:
  assumes "sql_works w" and "recv_ok w" and "use_db s" and "idle s" and "table_ok (rows s)"
    and "crawl_step w name s = Some t"
  obtains r d p rs u where "first_open (rows s) = Some r" and "row_domain r = Some d"
    and "length d < 64" and "p = row_page r \<or> p = None \<and> \<not> memory_ok w"
    and "grows d (bufsiz w) (rows s) rs" and "rows t = update_rows 2 (row_id r) rs"
    and "visited t = visited s @ [(d, p)]" and "dial w (length (visited s)) d \<noteq> Refused"
    and "use_db t" and "idle t"
    and "rows u = rows s" "use_db u" "use_domain u = Some d" "idle u" "visited u = visited s"
    and "\<exists>v. data_from_web w d p u = Some (Inr v) \<and> rows v = rs"
proof -
  have rc: "sql_rc w st n = 0" for st n using assms(1) by (simp add: sql_works_def)
  let ?s = "s\<lparr>execs := Suc (execs s)\<rparr>"
  obtain a s1 where a: "get_a_record w s = Inr (Some a, s1)"
    using assms(6) by (auto simp: crawl_step_def data_one_from_db_def init_sqlite_def
        split: if_splits sum.splits option.splits)
  then obtain r where r: "first_open (rows s) = Some r" "record_callback w r ?s = Inr s1" "a = alink s1"
    by (auto simp: get_a_record_def sqlite_exec_def rc split: option.splits sum.splits)
  obtain d p where dp: "row_domain r = Some d" "row_page r = Some p" "length d < 64"
    using r(2) by (auto simp: record_callback_def split: option.splits if_splits)
  define p' where "p' = (if grants w (mallocs s) (length p + 1) then Some p else None)"
  define u where "u = s1\<lparr>use_domain := Some d, use_page := p'\<rparr>"
  have s1: "s1 = ?s\<lparr>mallocs := Suc (mallocs s), alink := \<lparr>domain = d, page = p', page_len = int (length p), id_of = row_id r\<rparr>\<rparr>"
    using r(2) dp by (simp add: record_callback_def malloc_def Let_def p'_def)
  have u: "rows u = rows s" "use_db u" "use_domain u = Some d" "idle u" "visited u = visited s" "alink u = a"
    using assms(3,4) r(3) by (simp_all add: u_def s1 idle_def)
  have a': "domain a = d" "page a = p'" "id_of a = row_id r" by (simp_all add: r(3) s1)
  obtain v where v: "data_from_web w d p' u = Some (Inr v)" "t = snd (update_db w (row_id r) 2 v)"
    using assms(6) a a' by (auto simp: crawl_step_def data_one_from_db_def init_sqlite_def u_def
        split: if_splits sum.splits option.splits)
  note eff = data_from_web_effect [OF assms(1,2) u(3,4) v(1)]
  have t: "t = v\<lparr>execs := Suc (execs v), rows := update_rows 2 (row_id r) (rows v)\<rparr>"
    using v(2) by (simp add: update_db_def sqlite_exec_def rc)
  have p': "p' = row_page r \<or> p' = None \<and> \<not> memory_ok w"
    using dp(2) by (auto simp: p'_def memory_ok_def)
  show thesis
  proof (rule that [OF r(1) dp(1,3) p', of "rows v" u])
    show "rows t = update_rows 2 (row_id r) (rows v)" "use_db t" "idle t" "visited t = visited s @ [(d, p')]"
      using eff u by (simp_all add: t idle_def)
  qed (use eff u v(1) in auto)
qed

subsection \<open>The pages the crawl can ever reach\<close>

definition universe_of :: "world \<Rightarrow> weblink_row list \<Rightarrow> (string option \<times> string option) set" where
  "universe_of w rs =
     (row_domain ` set rs \<union> Some ` {d. length d < 64}) \<times> (row_page ` set rs \<union> Some ` {p. length p \<le> bufsiz w + 1})"

lemma finite_strings: "finite {s :: string. length s \<le> n}"
  using finite_lists_length_le [of "UNIV :: char set" n] by simp

lemma finite_universe_of: "finite (universe_of w rs)"
proof -
  have "{d :: string. length d < 64} \<subseteq> {d. length d \<le> 64}" by auto
  then have "finite {d :: string. length d < 64}" using finite_strings finite_subset by blast
  then show ?thesis using finite_strings by (simp add: universe_of_def)
qed

lemma target_in_universe:
  assumes "Some base \<in> row_domain ` set rs \<union> Some ` {d. length d < 64}" and "length v \<le> bufsiz w"
    and "absolute v \<longrightarrow> length (host_of v) < 64"
  shows "target base v \<in> universe_of w rs"
proof -
  have "length (dropWhile (\<lambda>c. c \<noteq> CHR ''/'') (drop 7 v)) \<le> bufsiz w"
    using assms(2) length_dropWhile_le [of "\<lambda>c. c \<noteq> CHR ''/''" "drop 7 v"] by simp
  then have page: "(if CHR ''/'' \<in> set (drop 7 v) then dropWhile (\<lambda>c. c \<noteq> CHR ''/'') (drop 7 v) else ''/'')
      \<in> {p. length p \<le> bufsiz w + 1}" by (cases "CHR ''/'' \<in> set (drop 7 v)") simp_all
  show ?thesis
  proof (cases "absolute v")
    case True
    then have "host_of v \<in> {d. length d < 64}" using assms(3) by simp
    then show ?thesis using page True unfolding target_def universe_of_def if_P [OF True]
      by (intro SigmaI UnI2 imageI)
  next
    case False
    have "v \<in> {p. length p \<le> bufsiz w + 1}" using assms(2) by simp
    then show ?thesis unfolding target_def universe_of_def if_not_P [OF False]
      by (intro SigmaI [OF assms(1)] UnI2 imageI)
  qed
qed

definition crawl_inv :: "world \<Rightarrow> weblink_row list \<Rightarrow> crawler \<Rightarrow> bool" where
  "crawl_inv w rs0 s \<longleftrightarrow> sql_works w \<and> recv_ok w \<and> use_db s \<and> idle s \<and> table_ok (rows s)
     \<and> key ` set (rows s) \<subseteq> universe_of w rs0"

lemma crawl_step_moves:
  assumes inv: "crawl_inv w rs0 s" and step: "crawl_step w name s = Some t"
  shows "crawl_inv w rs0 t" and "\<exists>k\<in>open_of (rows s). closed_of (rows t) = insert k (closed_of (rows s))"
proof -
  note i = inv [unfolded crawl_inv_def]
  obtain r d p rs u where e: "first_open (rows s) = Some r" "row_domain r = Some d" "length d < 64"
      "grows d (bufsiz w) (rows s) rs" "rows t = update_rows 2 (row_id r) rs" "use_db t" "idle t"
    by (rule crawl_step_effect [OF _ _ _ _ _ step]) (use i in auto)
  note r = first_open_Some [OF e(1)] and g = grows_table [OF e(4)]
  have rs: "table_ok rs" "r \<in> set rs" using g(2,3) i r(1) by auto
  have "Some d \<in> row_domain ` set rs0 \<union> Some ` {d. length d < 64}" using e(3) by simp
  then have "{target d v |v. length v \<le> bufsiz w \<and> (absolute v \<longrightarrow> length (host_of v) < 64)} \<subseteq> universe_of w rs0"
    using target_in_universe by auto
  moreover have "key ` set (rows s) \<subseteq> universe_of w rs0" using i by (elim conjE)
  ultimately have "key ` set rs \<subseteq> universe_of w rs0" using g(5) by (meson Un_least order_trans)
  then show "crawl_inv w rs0 t"
    using i e(5-7) rs(1) visit_row(2) [OF rs] by (simp add: crawl_inv_def)
  have "key r \<in> open_of (rows s)" using r by (auto simp: open_of_def)
  then show "\<exists>k\<in>open_of (rows s). closed_of (rows t) = insert k (closed_of (rows s))"
    using visit_row(1) [OF rs] grows_closed [OF e(4)] e(5) by auto
qed

interpretation db_crawl: worklist "crawl_step w name" "crawl_inv w rs0" "\<lambda>s. open_of (rows s)"
    "\<lambda>s. closed_of (rows s)" "universe_of w rs0"
proof unfold_locales
  show "finite (universe_of w rs0)" by (rule finite_universe_of)
  fix s
  assume "crawl_inv w rs0 s"
  then show "open_of (rows s) \<inter> closed_of (rows s) = {}" "closed_of (rows s) \<subseteq> universe_of w rs0"
    using open_apart open_closed by (auto simp: crawl_inv_def)
qed (auto intro: crawl_step_moves)

lemma crawl_inv_start:
  assumes "sql_works w" "recv_ok w" "use_db s" "idle s" "table_ok (rows s)"
  shows "crawl_inv w (rows s) s"
  using assms by (auto simp: crawl_inv_def universe_of_def key_def)

subsection \<open>The loop over the database\<close>

lemma db_loop_steps: "run_steps (crawl_step w name) n s = Some t \<Longrightarrow> db_loop w name s = db_loop w name t"
proof (induction n arbitrary: s)
  case (Suc n)
  then obtain u where u: "crawl_step w name s = Some u" "run_steps (crawl_step w name) n u = Some t"
    by (auto split: option.splits)
  have "db_loop w name s = db_loop w name u"
    using u(1) by (subst db_loop.simps) (auto simp: crawl_step_def split: option.splits sum.splits if_splits)
  then show ?case using Suc.IH [OF u(2)] by simp
qed simp

lemma db_loop_stops:
  "crawl_step w name t = None \<Longrightarrow>
   db_loop w name t = map_option (map_sum id snd) (data_one_from_db w name t)"
  by (subst db_loop.simps) (auto simp: crawl_step_def split: option.splits sum.splits if_splits)

lemma data_one_from_db_returns:
  assumes "answers_end w" and "idle s"
  shows "data_one_from_db w name s \<noteq> None"
proof -
  have "idle t" if "get_a_record w s = Inr (p, t)" for p t
    using that assms(2) by (auto simp: get_a_record_def sqlite_exec_def record_callback_def malloc_def Let_def
        idle_def split: option.splits sum.splits if_splits)
  then have "data_from_web w d q (t\<lparr>use_domain := x, use_page := y\<rparr>) \<noteq> None"
    if "get_a_record w s = Inr (p, t)" for p t d q x y
    using that data_from_web_returns [OF assms(1)] by (simp add: idle_def)
  then have web: "data_from_web w (domain l) (page l) (t\<lparr>use_domain := Some (domain l), use_page := page l\<rparr>) \<noteq> None"
    if "get_a_record w s = Inr (Some l, t)" for l t
    using that by blast
  show ?thesis
  proof (cases "\<exists>l t. get_a_record w s = Inr (Some l, t)")
    case True
    then obtain l t where l: "get_a_record w s = Inr (Some l, t)" by blast
    show ?thesis using web [OF l] l
      by (auto simp: data_one_from_db_def init_sqlite_def split: sum.split)
  next
    case False
    then show ?thesis by (auto simp: data_one_from_db_def init_sqlite_def split: option.split sum.split)
  qed
qed

text \<open>The run of the loop: steps, then a last look at the table.\<close>

lemma db_loop_run:
  assumes "crawl_inv w rs0 s"
  obtains n t where "run_steps (crawl_step w name) n s = Some t" and "crawl_step w name t = None"
    and "crawl_inv w rs0 t" and "db_loop w name s = map_option (map_sum id snd) (data_one_from_db w name t)"
  using db_crawl.run_keeps [OF assms, of name] db_crawl.runs_out [OF assms, of name] db_loop_steps db_loop_stops by metis

text \<open>
  C5: The crawl of a database comes to an end, whatever the servers answer, as long as each of
  them closes its connection after finitely many pieces: while also the SQL statements work and
  \<open>recv\<close> fills at most the buffer, \<open>data_from_db\<close> returns or runs into a fault. Neither the
  links that the pages hold, to ever new pages and hosts, nor what \<open>malloc\<close> returns or how the
  connections end can keep it going.
\<close>

theorem data_from_db_ends:
  assumes "answers_end w" and "sql_works w" and "recv_ok w" and "buf s = No_buffer" and "table_ok (rows s)"
  shows "\<exists>result. data_from_db w name s = Some result"
proof -
  have "crawl_inv w (rows s) (s\<lparr>use_db := True\<rparr>)"
    using crawl_inv_start [of w "s\<lparr>use_db := True\<rparr>"] assms by (simp add: idle_def)
  then obtain t where "crawl_inv w (rows s) t"
      "db_loop w name (s\<lparr>use_db := True\<rparr>) = map_option (map_sum id snd) (data_one_from_db w name t)"
    by (rule db_loop_run [where name = name])
  then show ?thesis
    using data_one_from_db_returns [OF assms(1), of t name] by (auto simp: data_from_db_def crawl_inv_def)
qed

text \<open>What holds at the end of every step holds at the end of the run.\<close>

lemma run_steps_invariant:
  assumes "run_steps work n s = Some t" and "P s" and "\<And>s t. P s \<Longrightarrow> work s = Some t \<Longrightarrow> P t"
  shows "P t"
  using assms(1,2) by (induction n arbitrary: s) (auto split: option.splits intro: assms(3))

text \<open>A page as the table names it.\<close>

definition page_key :: "string \<times> string option \<Rightarrow> string option \<times> string option" where
  "page_key v = (Some (fst v), snd v)"

text \<open>The links that lie closed in a piece the server sent for the n-th visit.\<close>

definition sent_link :: "world \<Rightarrow> nat \<Rightarrow> string \<times> string option \<Rightarrow> string \<Rightarrow> bool" where
  "sent_link w n v l \<longleftrightarrow>
     (\<exists>p cs c. snd v = Some p \<and> dial w n (fst v) = Connected \<and> answer w n (request (fst v) p) = Some cs
        \<and> c \<in> chunks cs \<and> NUL \<notin> set c \<and> closed_link c l \<and> stored l)"

definition crawl_trace :: "world \<Rightarrow> weblink_row list \<Rightarrow> crawler \<Rightarrow> bool" where
  "crawl_trace w rs0 s \<longleftrightarrow> crawl_inv w rs0 s \<and> key ` set rs0 \<subseteq> key ` set (rows s)
     \<and> distinct (map page_key (visited s))
     \<and> closed_of (rows s) = closed_of rs0 \<union> page_key ` set (visited s)
     \<and> closed_of rs0 \<inter> page_key ` set (visited s) = {}
     \<and> (\<forall>n<length (visited s). dial w n (fst (visited s ! n)) \<noteq> Refused \<and>
          (\<forall>l. sent_link w n (visited s ! n) l \<longrightarrow> target (fst (visited s ! n)) l \<in> key ` set (rows s)))"

lemma data_from_web_follows:
  assumes "memory_ok w" "sql_works w" "recv_ok w" and "use_db s" "use_domain s = Some d" "idle s"
    and "data_from_web w d p s = Some (Inr s')" and "sent_link w (length (visited s)) (d, p) l"
  shows "target d l \<in> key ` set (rows s')"
proof -
  obtain q cs c where c: "p = Some q" "dial w (length (visited s)) d = Connected"
      "answer w (length (visited s)) (request d q) = Some cs" "c \<in> chunks cs" "NUL \<notin> set c"
      "closed_link c l" "stored l"
    using assms(8) by (auto simp: sent_link_def)
  obtain code t where t: "init_http_get w d p s = Inr (code, t)"
    using assms(7) by (auto simp: data_from_web_def split: sum.splits)
  note same = init_http_get_leaves(1) [OF t assms(6)]
  have g: "grants w k m" for k m using assms(1) by (simp add: memory_ok_def)
  obtain b where b: "code = 0" "\<not> timeout t" "incoming t = cs" "buf t = Live b" "length b = bufsiz w + 1"
    using t c(1-3) by (auto simp: init_http_get_defs Let_def malloc_def build_get_query_result g split: if_splits)
  then have "web_loop w t = Some (Inr s')" using assms(7) t by (simp add: data_from_web_def)
  moreover have "\<forall>c\<in>chunks (incoming t). length c \<le> bufsiz w" using assms(3) c(3) b(3) by (auto simp: recv_ok_def)
  ultimately show ?thesis
    using web_loop_follows [OF assms(1,2) _ _ _ b(4,5), of d s' c l] same assms(4,5) b(3) c(4-7) by simp
qed

lemma crawl_step_trace:
  assumes mem: "memory_ok w" and tr: "crawl_trace w rs0 s" and step: "crawl_step w name s = Some t"
  shows "crawl_trace w rs0 t"
proof -
  have inv: "crawl_inv w rs0 s" and T: "key ` set rs0 \<subseteq> key ` set (rows s)" "distinct (map page_key (visited s))"
      "closed_of (rows s) = closed_of rs0 \<union> page_key ` set (visited s)"
      "closed_of rs0 \<inter> page_key ` set (visited s) = {}"
      "\<forall>n<length (visited s). dial w n (fst (visited s ! n)) \<noteq> Refused \<and>
        (\<forall>l. sent_link w n (visited s ! n) l \<longrightarrow> target (fst (visited s ! n)) l \<in> key ` set (rows s))"
    using tr unfolding crawl_trace_def by - (elim conjE, assumption)+
  note i = inv [unfolded crawl_inv_def]
  obtain r d p rs u where e: "first_open (rows s) = Some r" "row_domain r = Some d"
      "p = row_page r" "grows d (bufsiz w) (rows s) rs" "rows t = update_rows 2 (row_id r) rs"
      "visited t = visited s @ [(d, p)]" "dial w (length (visited s)) d \<noteq> Refused"
      "use_db u" "use_domain u = Some d" "idle u" "visited u = visited s"
      "\<exists>v. data_from_web w d p u = Some (Inr v) \<and> rows v = rs"
    by (rule crawl_step_effect [OF _ _ _ _ _ step]) (use i mem in auto)
  note r = first_open_Some [OF e(1)] and g = grows_table [OF e(4)]
  have rs: "table_ok rs" "r \<in> set rs" using g(2,3) i r(1) by auto
  have k: "page_key (d, p) = key r" using e(2,3) by (simp add: page_key_def key_def)
  have keys: "key ` set (rows s) \<subseteq> key ` set (rows t)" "key ` set rs = key ` set (rows t)"
    using g(1) visit_row(2) [OF rs] e(5) by auto
  have new: "key r \<notin> closed_of (rows s)"
    using open_apart i r by (auto simp: open_of_def)
  have closed: "closed_of (rows t) = insert (key r) (closed_of (rows s))"
    using visit_row(1) [OF rs] grows_closed [OF e(4)] e(5) by simp
  have links: "target d l \<in> key ` set (rows t)" if "sent_link w (length (visited s)) (d, p) l" for l
    using e(12) data_from_web_follows [OF mem _ _ e(8-10)] i that e(11) keys(2) by auto
  have "dial w n (fst (visited t ! n)) \<noteq> Refused \<and>
      (\<forall>l. sent_link w n (visited t ! n) l \<longrightarrow> target (fst (visited t ! n)) l \<in> key ` set (rows t))"
    if "n < length (visited t)" for n
  proof (cases "n < length (visited s)")
    case True
    then show ?thesis using T(5) keys(1) e(6) by (auto simp: nth_append)
  next
    case False
    then have "n = length (visited s)" using that e(6) by simp
    then show ?thesis using e(6,7) links by (simp add: nth_append)
  qed
  then have "\<forall>n<length (visited t). dial w n (fst (visited t ! n)) \<noteq> Refused \<and>
      (\<forall>l. sent_link w n (visited t ! n) l \<longrightarrow> target (fst (visited t ! n)) l \<in> key ` set (rows t))"
    by blast
  moreover have "key ` set rs0 \<subseteq> key ` set (rows t)" using T(1) keys(1) by (rule order_trans)
  moreover have "distinct (map page_key (visited t))" "closed_of rs0 \<inter> page_key ` set (visited t) = {}"
    using T(2-4) e(6) k new by auto
  moreover have "closed_of (rows t) = closed_of rs0 \<union> page_key ` set (visited t)"
    using closed T(3) e(6) k by simp
  moreover note crawl_step_moves(1) [OF inv step]
  ultimately show ?thesis
    unfolding crawl_trace_def by (intro conjI) assumption+
qed

lemma db_end:
  assumes "memory_ok w" "sql_works w" "recv_ok w" and "buf s = No_buffer" "table_ok (rows s)" "visited s = []"
    and "data_from_db w name s = Some (Inr s')"
  obtains t where "crawl_trace w (rows s) t" and "rows s' = rows t" and "visited s' = visited t"
    and "open_of (rows t) = {}"
proof -
  let ?s = "s\<lparr>use_db := True\<rparr>"
  have inv: "crawl_inv w (rows s) ?s"
    using crawl_inv_start [of w ?s] assms(2-5) by (simp add: idle_def)
  then have start: "crawl_trace w (rows s) ?s" by (simp add: crawl_trace_def assms(6))
  obtain n t where t: "run_steps (crawl_step w name) n ?s = Some t" "crawl_step w name t = None"
      "db_loop w name ?s = map_option (map_sum id snd) (data_one_from_db w name t)"
    using inv by (rule db_loop_run [where name = name])
  have trace: "crawl_trace w (rows s) t"
    by (rule run_steps_invariant [where P = "crawl_trace w (rows s)", OF t(1) start]) (rule crawl_step_trace [OF assms(1)])
  have rc: "sql_rc w st n = 0" for st n using assms(2) by (simp add: sql_works_def)
  obtain z where z: "data_one_from_db w name t = Some z" "map_sum id snd z = Inr s'"
    using t(3) assms(7) by (auto simp: data_from_db_def)
  then obtain code where last: "data_one_from_db w name t = Some (Inr (code, s'))"
    by (cases z) auto
  then have "code = 0" using t(2) by (auto simp: crawl_step_def split: if_splits)
  then have none: "get_a_record w t = Inr (None, s')"
    using last by (auto simp: data_one_from_db_def init_sqlite_def split: sum.splits option.splits if_splits)
  then have "first_open (rows t) = None" and "rows s' = rows t" "visited s' = visited t"
    by (auto simp: get_a_record_def sqlite_exec_def rc split: option.splits sum.splits)
  moreover from this(1) have "open_of (rows t) = {}" by (simp add: first_open_None open_of_def)
  ultimately show thesis using that trace by blast
qed

text \<open>
  C2: A crawl that returns has visited every page of the table that was not marked as
  visited before, each exactly once, and no others.
\<close>

theorem crawl_visits_each_page_once:
  assumes "memory_ok w" "sql_works w" "recv_ok w" and "buf s = No_buffer" "table_ok (rows s)" "visited s = []"
    and "data_from_db w name s = Some (Inr s')"
  shows "distinct (visited s')
    \<and> page_key ` set (visited s') = key ` set (rows s') - closed_of (rows s)
    \<and> (\<forall>r\<in>set (rows s'). row_status r \<noteq> 1) \<and> table_ok (rows s')"
proof -
  obtain t where t: "crawl_trace w (rows s) t" "rows s' = rows t" "visited s' = visited t" "open_of (rows t) = {}"
    using assms by (rule db_end)
  note T = t(1) [unfolded crawl_trace_def crawl_inv_def]
  have "key ` set (rows t) = closed_of (rows s) \<union> page_key ` set (visited t)"
    using T t(4) open_closed [of "rows t"] by simp
  moreover have "closed_of (rows s) \<inter> page_key ` set (visited t) = {}" using T by (elim conjE)
  ultimately have "page_key ` set (visited t) = key ` set (rows t) - closed_of (rows s)" by blast
  moreover have "distinct (visited t)" using T by (auto simp: distinct_map)
  moreover have "\<forall>r\<in>set (rows t). row_status r \<noteq> 1" using t(4) by (auto simp: open_of_def)
  ultimately show ?thesis using T t(2,3) by simp
qed

text \<open>
  C8: A crawl that returns has followed the links: a link that lies closed in a piece a
  server sent leads to a page that was visited or was marked as visited before.
\<close>

theorem crawl_follows_links:
  assumes "memory_ok w" "sql_works w" "recv_ok w" and "buf s = No_buffer" "table_ok (rows s)" "visited s = []"
    and "data_from_db w name s = Some (Inr s')"
    and "n < length (visited s')" and "sent_link w n (visited s' ! n) l"
  shows "target (fst (visited s' ! n)) l \<in> page_key ` set (visited s') \<union> closed_of (rows s)"
proof -
  obtain t where t: "crawl_trace w (rows s) t" "rows s' = rows t" "visited s' = visited t" "open_of (rows t) = {}"
    using assms(1-7) by (rule db_end)
  note T = t(1) [unfolded crawl_trace_def crawl_inv_def]
  have "target (fst (visited t ! n)) l \<in> key ` set (rows t)" using T assms(8,9) t(3) by auto
  moreover have "key ` set (rows t) = closed_of (rows s) \<union> page_key ` set (visited t)"
    using T t(4) open_closed [of "rows t"] by simp
  ultimately show ?thesis using t(3) by auto
qed

text \<open>
  A refused connection ends the crawl in a fault: the buffer is read without having
  been allocated, or after it was freed.
\<close>

theorem crawl_returns_unrefused:
  assumes "memory_ok w" "sql_works w" "recv_ok w" and "buf s = No_buffer" "table_ok (rows s)" "visited s = []"
    and "data_from_db w name s = Some (Inr s')" and "n < length (visited s')"
  shows "dial w n (fst (visited s' ! n)) \<noteq> Refused"
proof -
  obtain t where t: "crawl_trace w (rows s) t" "visited s' = visited t"
    using assms(1-7) by (rule db_end)
  then show ?thesis using assms(8) unfolding crawl_trace_def by auto
qed

text \<open>A small web: the first page has two links, the others none.\<close>

definition small_web :: world where
  "small_web = calm_world\<lparr>answer := \<lambda>n q.
     Some (delivered (if n = 0 then [''<a href=x><a href=http://e/y>''] else []))\<rparr>"

declare db_loop.simps [code] web_loop.simps [code]

lemma small_web_crawl:
  "case data_from_db small_web ''web.db'' crawling of
     Some (Inr s') \<Rightarrow> visited s' = [(''d'', Some ''/''), (''d'', Some ''x''), (''e'', Some ''/y'')]
   | _ \<Rightarrow> False"
  by code_simp

lemma small_web_run:
  obtains s' where "data_from_db small_web ''web.db'' crawling = Some (Inr s')"
    and "visited s' = [(''d'', Some ''/''), (''d'', Some ''x''), (''e'', Some ''/y'')]"
  using small_web_crawl by (auto split: option.splits sum.splits)

lemma small_web_ends: "answers_end small_web"
  by (simp add: small_web_def calm_world_def answers_end_def)

lemma small_web_ok:
  "memory_ok small_web" "sql_works small_web" "recv_ok small_web" "buf crawling = No_buffer" "visited crawling = []"
  by (simp_all add: small_web_def calm_world_def memory_ok_def sql_works_def recv_ok_def crawling_def crawler_init_def)

lemma small_web_link: "sent_link small_web 0 (''d'', Some ''/'') ''x''"
proof -
  let ?c = "''<a href=x><a href=http://e/y>''"
  have "closed_link ?c ''x''"
    unfolding closed_link_def
    by (rule exI [of _ "[]"], rule exI [of _ "[]"], rule exI [of _ "[]"], rule exI [of _ "[]"], rule exI [of _ "CHR ''>''"])
      (simp add: stops_def)
  moreover have "NUL \<notin> set ?c" by (simp add: NUL_def)
  ultimately show ?thesis
    by (auto simp: sent_link_def small_web_def calm_world_def stored_def mail_prefix_def)
qed

theorem data_from_db_ends_witness: "\<exists>result. data_from_db small_web ''web.db'' crawling = Some result"
  using data_from_db_ends [OF small_web_ends small_web_ok(2-4)] by simp

theorem crawl_visits_each_page_once_witness:
  "\<exists>s'. data_from_db small_web ''web.db'' crawling = Some (Inr s') \<and>
    {(Some ''d'', Some ''/''), (Some ''d'', Some ''x''), (Some ''e'', Some ''/y'')} \<subseteq> key ` set (rows s')"
proof -
  obtain s' where s': "data_from_db small_web ''web.db'' crawling = Some (Inr s')"
      "visited s' = [(''d'', Some ''/''), (''d'', Some ''x''), (''e'', Some ''/y'')]"
    by (rule small_web_run)
  show ?thesis
    using crawl_visits_each_page_once [OF small_web_ok(1-4) _ small_web_ok(5) s'(1)] s'
    by (auto simp: page_key_def)
qed

theorem crawl_follows_links_witness:
  "\<exists>s'. data_from_db small_web ''web.db'' crawling = Some (Inr s') \<and>
    target ''d'' ''x'' \<in> page_key ` set (visited s') \<union> closed_of (rows crawling)"
proof -
  obtain s' where s': "data_from_db small_web ''web.db'' crawling = Some (Inr s')"
      "visited s' = [(''d'', Some ''/''), (''d'', Some ''x''), (''e'', Some ''/y'')]"
    by (rule small_web_run)
  then show ?thesis
    using crawl_follows_links [OF small_web_ok(1-4) _ small_web_ok(5) s'(1), of 0 "''x''"] small_web_link by auto
qed

theorem crawl_returns_unrefused_witness:
  "\<exists>s'. data_from_db small_web ''web.db'' crawling = Some (Inr s') \<and> dial small_web 2 ''e'' \<noteq> Refused"
proof -
  obtain s' where s': "data_from_db small_web ''web.db'' crawling = Some (Inr s')"
      "visited s' = [(''d'', Some ''/''), (''d'', Some ''x''), (''e'', Some ''/y'')]"
    by (rule small_web_run)
  then show ?thesis
    using crawl_returns_unrefused [OF small_web_ok(1-4) _ small_web_ok(5) s'(1), of 2] by auto
qed

text \<open>A condition every page keeps, so that there is always another one.\<close>

lemma db_loop_stuck:
  assumes "db_loop w name s = Some y"
    and again: "\<And>s. Q s \<Longrightarrow> \<exists>t. data_one_from_db w name s = Some (Inr (1, t)) \<and> Q t"
  shows "\<not> Q s"
proof -
  have "w' = w \<and> name' = name \<longrightarrow> \<not> Q s" if "db_loop w' name' s = Some y" for w' name' s y
  proof (rule db_loop.raw_induct [where P = "\<lambda>w' name' s y. w' = w \<and> name' = name \<longrightarrow> \<not> Q s", OF _ that], intro impI notI)
    fix rec :: "world \<Rightarrow> string \<Rightarrow> crawler \<Rightarrow> (fault + crawler) option" and w' name' s y
    assume later: "\<And>w' name' s y. rec w' name' s = Some y \<Longrightarrow> w' = w \<and> name' = name \<longrightarrow> \<not> Q s"
      and body: "(case data_one_from_db w' name' s of None \<Rightarrow> None | Some (Inl f) \<Rightarrow> Some (Inl f)
        | Some (Inr (code, s)) \<Rightarrow> if code \<noteq> 0 then rec w' name' s else Some (Inr s)) = Some y"
      and here: "w' = w \<and> name' = name" "Q s"
    obtain t where t: "data_one_from_db w name s = Some (Inr (1, t))" "Q t" using again [OF here(2)] by blast
    then have "rec w name t = Some y" using body here(1) by simp
    then show False using later t(2) by blast
  qed
  then show ?thesis using assms(1) by blast
qed

text \<open>
  A table that cannot be written keeps the crawler on its first page for ever: when
  every update fails and the host of that page is not found, \<open>data_from_db\<close> does not
  return.
\<close>

theorem readonly_table_never_ends:
  assumes "memory_ok w" and "\<forall>n. sql_rc w Select_next n = 0" and "\<forall>n. sql_rc w Update_status n \<noteq> 0"
    and "db_opens w name" and "first_open (rows s) = Some r"
    and "row_domain r = Some d" and "row_page r = Some p" and "length d < 64"
    and "\<forall>n. dial w n d = Unknown_host"
  shows "data_from_db w name s = None"
proof -
  have g: "grants w k m" for k m using assms(1) by (simp add: memory_ok_def)
  have step: "\<exists>t. data_one_from_db w name s = Some (Inr (1, t)) \<and> rows t = rows s" if "rows s = rs" "first_open rs = Some r" for s rs
    using that assms(2-4,6-9)
    by (simp add: data_one_from_db_def init_sqlite_def get_a_record_def sqlite_exec_def record_callback_def
        malloc_def g Let_def data_from_web_def init_http_get_defs update_db_def)
  show ?thesis
  proof (rule ccontr)
    assume "data_from_db w name s \<noteq> None"
    then obtain y where "db_loop w name (s\<lparr>use_db := True\<rparr>) = Some y" by (auto simp: data_from_db_def)
    then have "\<not> (rows (s\<lparr>use_db := True\<rparr>) = rows s)"
      by (rule db_loop_stuck [where Q = "\<lambda>u. rows u = rows s"]) (metis step assms(5))
    then show False by simp
  qed
qed

theorem readonly_table_never_ends_witness:
  "data_from_db (calm_world\<lparr>sql_rc := \<lambda>st n. if st = Update_status then 8 else 0, dial := \<lambda>n h. Unknown_host\<rparr>)
     ''web.db'' crawling = None"
proof -
  obtain r where r: "first_open (rows crawling) = Some r" "row_domain r = Some ''d''" "row_page r = Some ''/''"
    by (simp add: crawling_def first_open_def)
  show ?thesis
    by (rule readonly_table_never_ends [OF _ _ _ _ r]) (simp_all add: memory_ok_def calm_world_def)
qed

end
