(* ===== verification/Wire.thy ===== *)
theory Wire
  imports Prelude
begin

text \<open>
  The I/O wrappers of the video control client (\<open>src/cgi/wrap.c\<close>): \<open>Read\<close>, \<open>Write\<close>, \<open>Readn\<close>,
  \<open>Writen\<close>, \<open>my_read\<close>, \<open>Readline\<close>, and \<open>Accept\<close>.

  \<^item> \<open>wire\<close> is the state: for every descriptor the events its next \<open>read\<close>s meet (a piece
    of data, an interruption by a signal, an error), what happens after them (end of file, or an
    error each time: \<open>broken\<close>), the answers its next \<open>write\<close>s get and the bytes it has taken,
    and the static variables of \<open>my_read\<close>.
  \<^item> \<open>sys_read\<close> and \<open>sys_write\<close> are the system calls as POSIX describes them: a \<open>read\<close> returns at
    most one piece, and leaves the rest of a piece that is longer than the buffer; a \<open>write\<close> may
    take fewer bytes than it was given.
  \<^item> A call that returns \<open>-1\<close> is \<open>Error\<close>, or \<open>Eintr\<close> when \<open>errno\<close> is \<open>EINTR\<close>. The signal that a
    \<open>write\<close> to a closed or unconnected socket raises is modelled in \<open>Oak\<close>, where the callers are.

  \<open>arriving\<close> is the string of bytes that a descriptor still delivers, whatever the pieces. The
  lemmas show that the wrappers depend on that string only: how it is cut, and which calls are
  interrupted, makes no difference.
\<close>

subsection \<open>Descriptors\<close>

text \<open>A piece of data is not empty: its first byte and the others.\<close>

datatype event = Piece char string | Interrupted | Failed

datatype answer = Takes nat | Signal | Refuses

datatype 'a reply = Done 'a | Eintr | Error

record wire =
  events :: "int \<Rightarrow> event list"
  broken :: "int \<Rightarrow> bool"
  answers :: "int \<Rightarrow> answer list"
  sent :: "int \<Rightarrow> string"
  read_cnt :: int
  read_ptr :: nat
  read_buf :: string

text \<open>\<open>read (fd, ptr, n)\<close>: the bytes stored at \<open>ptr\<close>, whose number the call returns.\<close>

definition rest_piece :: "string \<Rightarrow> event list \<Rightarrow> event list" where
  "rest_piece cs es = (case cs of [] \<Rightarrow> es | c # cs \<Rightarrow> Piece c cs # es)"

definition sys_read :: "int \<Rightarrow> nat \<Rightarrow> wire \<Rightarrow> string reply \<times> wire" where
  "sys_read fd n s =
     (if fd < 0 then (Error, s)
      else if n = 0 then (Done [], s)
      else case events s fd of
        [] \<Rightarrow> (if broken s fd then Error else Done [], s)
      | Piece c cs # es \<Rightarrow>
          (Done (take n (c # cs)), s\<lparr>events := (events s)(fd := rest_piece (drop n (c # cs)) es)\<rparr>)
      | Interrupted # es \<Rightarrow> (Eintr, s\<lparr>events := (events s)(fd := es)\<rparr>)
      | Failed # es \<Rightarrow> (Error, s\<lparr>events := (events s)(fd := es)\<rparr>))"

text \<open>\<open>write (fd, data, n)\<close>: the number of bytes taken.\<close>

definition sys_write :: "int \<Rightarrow> string \<Rightarrow> wire \<Rightarrow> nat reply \<times> wire" where
  "sys_write fd data s =
     (if fd < 0 then (Error, s)
      else case answers s fd of
        [] \<Rightarrow> if broken s fd then (Error, s)
              else (Done (length data), s\<lparr>sent := (sent s)(fd := sent s fd @ data)\<rparr>)
      | Takes k # as \<Rightarrow>
          (Done (min k (length data)),
           s\<lparr>answers := (answers s)(fd := as), sent := (sent s)(fd := sent s fd @ take k data)\<rparr>)
      | Signal # as \<Rightarrow> (Eintr, s\<lparr>answers := (answers s)(fd := as)\<rparr>)
      | Refuses # as \<Rightarrow> (Error, s\<lparr>answers := (answers s)(fd := as)\<rparr>))"

lemma length_rest_piece: "cs \<noteq> [] \<or> length (rest_piece cs es) = length es"
  by (cases cs) (simp_all add: rest_piece_def)

lemma sys_read_measure:
  assumes "sys_read fd n s = (r, t)"
  shows "r = Eintr \<Longrightarrow> length (events t fd) < length (events s fd)"
    and "r = Done d \<Longrightarrow> length (events t fd) \<le> length (events s fd) \<and> length d \<le> n"
  using assms
  by (auto simp: sys_read_def rest_piece_def split: if_splits list.splits event.splits)

lemma sys_write_measure:
  assumes "sys_write fd data s = (r, t)"
  shows "r = Eintr \<Longrightarrow> length (answers t fd) < length (answers s fd)"
    and "r = Done k \<Longrightarrow> length (answers t fd) \<le> length (answers s fd) \<and> k \<le> length data"
  using assms by (auto simp: sys_write_def split: if_splits list.splits answer.splits)

lemma sys_read_shorter:
  "(Eintr, t) = sys_read fd n s \<Longrightarrow> length (events t fd) < length (events s fd)"
  "\<lbrakk>(Done d, t) = sys_read fd n s; d \<noteq> []\<rbrakk> \<Longrightarrow> n - length d + length (events t fd) < n + length (events s fd)"
proof -
  show "(Eintr, t) = sys_read fd n s \<Longrightarrow> length (events t fd) < length (events s fd)"
    by (erule sys_read_measure(1) [OF sym]) simp
  assume "(Done d, t) = sys_read fd n s" "d \<noteq> []"
  then show "n - length d + length (events t fd) < n + length (events s fd)"
    using sys_read_measure(2) [of fd n s "Done d" t d] by (cases d) auto
qed

lemma sys_write_shorter:
  "(Eintr, t) = sys_write fd data s \<Longrightarrow> length (answers t fd) < length (answers s fd)"
  "\<lbrakk>(Done k, t) = sys_write fd data s; 0 < k\<rbrakk> \<Longrightarrow>
   length data - k + length (answers t fd) < length data + length (answers s fd)"
proof -
  show "(Eintr, t) = sys_write fd data s \<Longrightarrow> length (answers t fd) < length (answers s fd)"
    by (erule sys_write_measure(1) [OF sym]) simp
  assume "(Done k, t) = sys_write fd data s" "0 < k"
  then show "length data - k + length (answers t fd) < length data + length (answers s fd)"
    using sys_write_measure(2) [of fd data s "Done k" t k] by auto
qed

subsection \<open>The wrappers\<close>

text \<open>\<open>None\<close> is the return value \<open>-1\<close>.\<close>

function Read :: "int \<Rightarrow> nat \<Rightarrow> wire \<Rightarrow> string option \<times> wire" where
  "Read fd nbytes s =
     (case sys_read fd nbytes s of
        (Eintr, t) \<Rightarrow> Read fd nbytes t
      | (Error, t) \<Rightarrow> (None, t)
      | (Done d, t) \<Rightarrow> (Some d, t))"
  by pat_completeness auto
termination
  by (relation "measure (\<lambda>(fd, n, s). length (events s fd))") (auto dest: sys_read_shorter)

function Write :: "int \<Rightarrow> string \<Rightarrow> wire \<Rightarrow> nat option \<times> wire" where
  "Write fd data s =
     (case sys_write fd data s of
        (Eintr, t) \<Rightarrow> Write fd data t
      | (Error, t) \<Rightarrow> (None, t)
      | (Done k, t) \<Rightarrow> (Some k, t))"
  by pat_completeness auto
termination
  by (relation "measure (\<lambda>(fd, d, s). length (answers s fd))") (auto dest: sys_write_shorter)

text \<open>The loops return the value of the function and the bytes stored from \<open>vptr\<close> on.\<close>

function readn_loop :: "int \<Rightarrow> nat \<Rightarrow> nat \<Rightarrow> string \<Rightarrow> wire \<Rightarrow> int \<times> string \<times> wire" where
  "readn_loop fd n nleft stored s =
     (if nleft > 0 then
        case sys_read fd nleft s of
          (Error, t) \<Rightarrow> (- 1, stored, t)
        | (Eintr, t) \<Rightarrow> readn_loop fd n nleft stored t
        | (Done d, t) \<Rightarrow>
            if d = [] then (int (n - nleft), stored, t)
            else readn_loop fd n (nleft - length d) (stored @ d) t
      else (int (n - nleft), stored, s))"
  by pat_completeness auto
termination
  by (relation "measure (\<lambda>(fd, n, nleft, d, s). nleft + length (events s fd))") (auto dest: sys_read_shorter)

definition Readn :: "int \<Rightarrow> nat \<Rightarrow> wire \<Rightarrow> int \<times> string \<times> wire" where
  "Readn fd n s = readn_loop fd n n [] s"

function writen_loop :: "int \<Rightarrow> nat \<Rightarrow> string \<Rightarrow> wire \<Rightarrow> int \<times> wire" where
  "writen_loop fd n data s =
     (if data \<noteq> [] then
        case sys_write fd data s of
          (Error, t) \<Rightarrow> (- 1, t)
        | (Eintr, t) \<Rightarrow> writen_loop fd n data t
        | (Done k, t) \<Rightarrow> if k = 0 then (- 1, t) else writen_loop fd n (drop k data) t
      else (int n, s))"
  by pat_completeness auto
termination
  by (relation "measure (\<lambda>(fd, n, data, s). length data + length (answers s fd))") (auto dest: sys_write_shorter)

definition Writen :: "int \<Rightarrow> string \<Rightarrow> wire \<Rightarrow> int \<times> wire" where
  "Writen fd data s = writen_loop fd (length data) data s"

subsection \<open>Buffered reading\<close>

definition newline :: char where "newline = CHR 0x0A"

text \<open>\<open>read\<close> into the static buffer, repeated while it is interrupted.\<close>

function fill :: "int \<Rightarrow> wire \<Rightarrow> wire" where
  "fill fd s =
     (case sys_read fd 100 s of
        (Eintr, t) \<Rightarrow> fill fd (t\<lparr>read_cnt := - 1\<rparr>)
      | (Error, t) \<Rightarrow> t\<lparr>read_cnt := - 1\<rparr>
      | (Done d, t) \<Rightarrow> t\<lparr>read_cnt := int (length d), read_buf := d @ drop (length d) (read_buf t)\<rparr>)"
  by pat_completeness auto
termination
  by (relation "measure (\<lambda>(fd, s). length (events s fd))") (auto dest: sys_read_shorter)

text \<open>The result (\<open>-1\<close> as the caller converts it), the character at \<open>ptr\<close>, the state.\<close>

definition my_read :: "int \<Rightarrow> char \<Rightarrow> wire \<Rightarrow> int \<times> char \<times> wire" where
  "my_read fd c s =
     (let refill = read_cnt s \<le> 0;
          s = (if refill then fill fd s else s)
      in if refill \<and> read_cnt s < 0 then (- 1, c, s)
         else if refill \<and> read_cnt s = 0 then (0, c, s)
         else let s = (if refill then s\<lparr>read_ptr := 0\<rparr> else s);
                  s = s\<lparr>read_cnt := read_cnt s - 1\<rparr>
              in (1, read_buf s ! read_ptr s, s\<lparr>read_ptr := read_ptr s + 1\<rparr>))"

function readline_loop :: "int \<Rightarrow> nat \<Rightarrow> nat \<Rightarrow> char \<Rightarrow> string \<Rightarrow> wire \<Rightarrow> int \<times> string \<times> wire" where
  "readline_loop fd maxlen n c stored s =
     (if n < maxlen then
        case my_read fd c s of (rc, c, t) \<Rightarrow>
          if rc = 1 then
            if c = newline then (int n, stored @ [c, NUL], t)
            else readline_loop fd maxlen (n + 1) c (stored @ [c]) t
          else if rc = 0 then (int n - 1, stored @ [NUL], t)
          else (- 1, stored, t)
      else (int n, stored @ [NUL], s))"
  by pat_completeness auto
termination
  by (relation "measure (\<lambda>(fd, maxlen, n, c, d, s). maxlen - n)") auto

definition Readline :: "int \<Rightarrow> nat \<Rightarrow> char \<Rightarrow> wire \<Rightarrow> int \<times> string \<times> wire" where
  "Readline fd maxlen c s = readline_loop fd maxlen 1 c [] s"

declare Read.simps [simp del] Write.simps [simp del] readn_loop.simps [simp del]
  writen_loop.simps [simp del] fill.simps [simp del] readline_loop.simps [simp del]

subsection \<open>What a descriptor still delivers\<close>

fun arriving :: "event list \<Rightarrow> string" where
  "arriving [] = []"
| "arriving (Piece c cs # es) = c # cs @ arriving es"
| "arriving (Interrupted # es) = arriving es"
| "arriving (Failed # es) = []"

text \<open>Does an error come after these bytes, and not the end of the file?\<close>

fun failing :: "bool \<Rightarrow> event list \<Rightarrow> bool" where
  "failing b [] = b"
| "failing b (Piece c cs # es) = failing b es"
| "failing b (Interrupted # es) = failing b es"
| "failing b (Failed # es) = True"

abbreviation input :: "wire \<Rightarrow> int \<Rightarrow> string" where
  "input s fd \<equiv> arriving (events s fd)"

abbreviation input_fails :: "wire \<Rightarrow> int \<Rightarrow> bool" where
  "input_fails s fd \<equiv> failing (broken s fd) (events s fd)"

text \<open>Reading changes the events of its descriptor, and in \<open>my_read\<close> the static buffer.\<close>

definition reads_only :: "int \<Rightarrow> wire \<Rightarrow> wire \<Rightarrow> bool" where
  "reads_only fd s t \<longleftrightarrow> (\<forall>x. x \<noteq> fd \<longrightarrow> events t x = events s x) \<and> broken t = broken s
     \<and> answers t = answers s \<and> sent t = sent s"

definition same_buffer :: "wire \<Rightarrow> wire \<Rightarrow> bool" where
  "same_buffer s t \<longleftrightarrow> read_cnt t = read_cnt s \<and> read_ptr t = read_ptr s \<and> read_buf t = read_buf s"

lemma reads_only_refl [simp]: "reads_only fd s s"
  by (simp add: reads_only_def)

lemma reads_only_trans [trans]: "reads_only fd s t \<Longrightarrow> reads_only fd t u \<Longrightarrow> reads_only fd s u"
  by (simp add: reads_only_def)

lemma same_buffer_trans [trans]: "same_buffer s t \<Longrightarrow> same_buffer t u \<Longrightarrow> same_buffer s u"
  by (simp add: same_buffer_def)

lemma arriving_rest [simp]: "arriving (rest_piece cs es) = cs @ arriving es"
  by (cases cs) (simp_all add: rest_piece_def)

lemma failing_rest [simp]: "failing b (rest_piece cs es) = failing b es"
  by (cases cs) (simp_all add: rest_piece_def)

text \<open>One call of \<open>read\<close>.\<close>

lemma sys_read_frame: "sys_read fd n s = (r, t) \<Longrightarrow> reads_only fd s t \<and> same_buffer s t"
  by (auto simp: sys_read_def reads_only_def same_buffer_def split: if_splits list.splits event.splits)

lemma sys_read_interrupted:
  "sys_read fd n s = (Eintr, t) \<Longrightarrow> input t fd = input s fd \<and> input_fails t fd = input_fails s fd"
  by (auto simp: sys_read_def split: if_splits list.splits event.splits)

lemma sys_read_fails:
  "\<lbrakk>0 \<le> fd; sys_read fd n s = (Error, t)\<rbrakk> \<Longrightarrow> input s fd = [] \<and> input_fails s fd"
  by (auto simp: sys_read_def split: if_splits list.splits event.splits)

lemma sys_read_ends:
  "\<lbrakk>0 < n; sys_read fd n s = (Done [], t)\<rbrakk> \<Longrightarrow> input s fd = [] \<and> \<not> input_fails s fd \<and> t = s"
  by (auto simp: sys_read_def split: if_splits list.splits event.splits)

lemma sys_read_gets:
  assumes "sys_read fd n s = (Done d, t)"
  shows "input s fd = d @ input t fd \<and> input_fails t fd = input_fails s fd \<and> length d \<le> n"
  using assms
  by (auto simp: sys_read_def append_Cons [symmetric] simp del: append_Cons split: if_splits list.splits event.splits)

lemma Read_only: "Read fd n s = (r, t) \<Longrightarrow> reads_only fd s t"
proof (induction fd n s rule: Read.induct)
  case (1 fd n s)
  obtain x u where x: "sys_read fd n s = (x, u)" by fastforce
  show ?case
  proof (cases x)
    case Eintr
    then have "reads_only fd u t" using 1(1) [OF x [symmetric]] 1(2) x by (simp add: Read.simps [of fd n s])
    then show ?thesis using sys_read_frame [OF x] reads_only_trans by blast
  qed (use 1(2) x sys_read_frame [OF x] in \<open>simp_all add: Read.simps [of fd n s]\<close>)
qed

text \<open>\<open>Read\<close> never reports an interruption.\<close>

lemma Read_gets:
  assumes "0 \<le> fd" and "0 < n" and "Read fd n s = (r, t)"
  shows "reads_only fd s t \<and>
    (case r of
       None \<Rightarrow> input s fd = [] \<and> input_fails s fd
     | Some d \<Rightarrow> input s fd = d @ input t fd \<and> input_fails t fd = input_fails s fd \<and> length d \<le> n
         \<and> (d = [] \<longrightarrow> input s fd = [] \<and> \<not> input_fails s fd))"
  using assms
proof (induction fd n s rule: Read.induct)
  case (1 fd n s)
  obtain x u where x: "sys_read fd n s = (x, u)" by fastforce
  note frame = sys_read_frame [OF x]
  show ?case
  proof (cases x)
    case (Done d)
    then have "r = Some d" "t = u" using 1(4) x by (simp_all add: Read.simps [of fd n s])
    then show ?thesis using frame sys_read_gets x Done sys_read_ends 1(3) by fastforce
  next
    case Eintr
    then have "Read fd n u = (r, t)" using 1(4) x by (simp add: Read.simps [of fd n s])
    then have "reads_only fd u t" and
      "case r of None \<Rightarrow> input u fd = [] \<and> input_fails u fd
       | Some d \<Rightarrow> input u fd = d @ input t fd \<and> input_fails t fd = input_fails u fd \<and> length d \<le> n
         \<and> (d = [] \<longrightarrow> input u fd = [] \<and> \<not> input_fails u fd)"
      using 1(1) [OF x [symmetric] Eintr 1(2,3)] by blast+
    then show ?thesis
      using frame sys_read_interrupted [OF x [unfolded Eintr]] reads_only_trans [of fd s u t]
      by (cases r) auto
  next
    case Error
    then have "r = None" "t = u" using 1(4) x by (simp_all add: Read.simps [of fd n s])
    then show ?thesis using frame sys_read_fails x Error 1(2) by simp
  qed
qed

subsection \<open>Reading and writing all of it\<close>

text \<open>The value of \<open>Readn\<close>: the number of bytes, \<open>-1\<close> after an error.\<close>

definition count_or_error :: "nat \<Rightarrow> string \<Rightarrow> bool \<Rightarrow> int" where
  "count_or_error n content bad = (if length content < n \<and> bad then - 1 else int (min n (length content)))"

lemma readn_loop_gets:
  assumes "0 \<le> fd" and "nleft \<le> n" and "readn_loop fd n nleft stored s = (r, got, t)"
  shows "reads_only fd s t" and "got = stored @ take nleft (input s fd)"
    and "r = (if length (input s fd) < nleft \<and> input_fails s fd then - 1
              else int (n - nleft) + int (min nleft (length (input s fd))))"
    and "r \<noteq> - 1 \<Longrightarrow> input t fd = drop nleft (input s fd) \<and> input_fails t fd = input_fails s fd"
proof -
  let ?P = "\<lambda>s nleft stored. reads_only fd s t \<and> got = stored @ take nleft (input s fd)
    \<and> r = (if length (input s fd) < nleft \<and> input_fails s fd then - 1
           else int (n - nleft) + int (min nleft (length (input s fd))))
    \<and> (r \<noteq> - 1 \<longrightarrow> input t fd = drop nleft (input s fd) \<and> input_fails t fd = input_fails s fd)"
  have "?P s nleft stored"
    using assms
  proof (induction fd n nleft stored s rule: readn_loop.induct)
    case (1 fd n nleft stored s)
    show ?case
    proof (cases "nleft = 0")
      case True
      then have "t = s" "got = stored" "r = int n" using 1(5) by (simp_all add: readn_loop.simps [of fd n 0])
      then show ?thesis using True by simp
    next
      case False
      then have pos: "0 < nleft" by simp
      obtain x u where x: "sys_read fd nleft s = (x, u)" by fastforce
      note frame = sys_read_frame [OF x]
      show ?thesis
      proof (cases x)
        case (Done d)
        note gets = sys_read_gets [OF x [unfolded Done]]
        show ?thesis
        proof (cases "d = []")
          case True
          then have "t = s" "got = stored" "r = int (n - nleft)" "input s fd = []" "\<not> input_fails s fd"
            using 1(5) x Done pos sys_read_ends [OF pos] by (simp_all add: readn_loop.simps [of fd n nleft])
          then show ?thesis by simp
        next
          case False
          then have run: "readn_loop fd n (nleft - length d) (stored @ d) u = (r, got, t)"
            using 1(5) x Done pos by (simp add: readn_loop.simps [of fd n nleft])
          have "reads_only fd u t \<and> got = (stored @ d) @ take (nleft - length d) (input u fd)
            \<and> r = (if length (input u fd) < nleft - length d \<and> input_fails u fd then - 1
                   else int (n - (nleft - length d)) + int (min (nleft - length d) (length (input u fd))))
            \<and> (r \<noteq> - 1 \<longrightarrow> input t fd = drop (nleft - length d) (input u fd) \<and> input_fails t fd = input_fails u fd)"
            by (rule 1(1) [OF pos x [symmetric] Done False 1(3) _ run]) (use 1(4) in simp)
          then show ?thesis
            using frame gets 1(4) reads_only_trans [of fd s u t] by (auto simp: of_nat_diff)
        qed
      next
        case Eintr
        then have run: "readn_loop fd n nleft stored u = (r, got, t)"
          using 1(5) x pos by (simp add: readn_loop.simps [of fd n nleft])
        then show ?thesis
          using 1(2) [OF pos x [symmetric] Eintr 1(3,4) run] frame sys_read_interrupted [OF x [unfolded Eintr]]
            reads_only_trans [of fd s u t] by simp
      next
        case Error
        then have "r = - 1" "got = stored" "t = u" using 1(5) x pos by (simp_all add: readn_loop.simps [of fd n nleft])
        then show ?thesis using frame sys_read_fails [OF 1(3) x [unfolded Error]] pos by simp
      qed
    qed
  qed
  then show "reads_only fd s t" "got = stored @ take nleft (input s fd)"
    "r = (if length (input s fd) < nleft \<and> input_fails s fd then - 1
              else int (n - nleft) + int (min nleft (length (input s fd))))"
    "r \<noteq> - 1 \<Longrightarrow> input t fd = drop nleft (input s fd) \<and> input_fails t fd = input_fails s fd"
    by blast+
qed

text \<open>Writing: the answers under which everything goes through, and what is written at all.\<close>

definition willing :: "wire \<Rightarrow> int \<Rightarrow> bool" where
  "willing s fd \<longleftrightarrow> 0 \<le> fd \<and> \<not> broken s fd \<and> Refuses \<notin> set (answers s fd) \<and> Takes 0 \<notin> set (answers s fd)"

definition writes_only :: "int \<Rightarrow> wire \<Rightarrow> wire \<Rightarrow> bool" where
  "writes_only fd s t \<longleftrightarrow> (\<forall>x. x \<noteq> fd \<longrightarrow> answers t x = answers s x \<and> sent t x = sent s x)
     \<and> events t = events s \<and> broken t = broken s \<and> same_buffer s t"

lemma writes_only_trans [trans]: "writes_only fd s t \<Longrightarrow> writes_only fd t u \<Longrightarrow> writes_only fd s u"
  by (simp add: writes_only_def same_buffer_def)

lemma take_min: "take (min k (length xs)) xs = take k xs"
  by (simp add: min_def)

lemma sys_write_effect:
  assumes "sys_write fd data s = (r, t)"
  shows "writes_only fd s t" and "willing s fd \<Longrightarrow> willing t fd \<and> r \<noteq> Error"
    and "r = Done k \<Longrightarrow> sent t fd = sent s fd @ take k data \<and> k \<le> length data"
    and "(\<And>k. r \<noteq> Done k) \<Longrightarrow> sent t fd = sent s fd"
    and "\<lbrakk>willing s fd; data \<noteq> []; r = Done k\<rbrakk> \<Longrightarrow> 0 < k"
  using assms
  by (auto simp: sys_write_def writes_only_def same_buffer_def willing_def take_min
      split: if_splits list.splits answer.splits)

lemma Write_only:
  "Write fd data s = (r, t) \<Longrightarrow> writes_only fd s t"
proof (induction fd data s rule: Write.induct)
  case (1 fd data s)
  obtain x u where x: "sys_write fd data s = (x, u)" by fastforce
  show ?case
  proof (cases x)
    case Eintr
    then have "writes_only fd u t" using 1(1) [OF x [symmetric]] 1(2) x by (simp add: Write.simps [of fd data s])
    then show ?thesis using sys_write_effect(1) [OF x] writes_only_trans by blast
  qed (use 1(2) x sys_write_effect(1) [OF x] in \<open>simp_all add: Write.simps [of fd data s]\<close>)
qed

lemma writen_loop_puts:
  assumes "writen_loop fd n data s = (r, t)"
  shows "writes_only fd s t
    \<and> (\<exists>k\<le>length data. sent t fd = sent s fd @ take k data \<and> r = (if k = length data then int n else - 1))
    \<and> (willing s fd \<longrightarrow> r = int n)"
  using assms
proof (induction fd n data s rule: writen_loop.induct)
  case (1 fd n data s)
  show ?case
  proof (cases "data = []")
    case True
    then have "t = s" "r = int n" using 1(3) by (simp_all add: writen_loop.simps [of fd n "[]"])
    then show ?thesis using True by (simp add: writes_only_def same_buffer_def)
  next
    case False
    obtain x u where x: "sys_write fd data s = (x, u)" by fastforce
    note eff = sys_write_effect [OF x]
    have stop: ?thesis if "r = - 1" "t = u" "sent u fd = sent s fd" "\<not> willing s fd"
      using that eff(1) False by (auto intro: exI [of _ 0])
    show ?thesis
    proof (cases x)
      case (Done k)
      show ?thesis
      proof (cases "k = 0")
        case True
        then have "r = - 1" "t = u" using 1(3) x Done False by (simp_all add: writen_loop.simps [of fd n data])
        then show ?thesis by (intro stop) (use eff(3,5) Done True False in auto)
      next
        case pos: False
        have run: "writen_loop fd n (drop k data) u = (r, t)"
          using 1(3) x Done False pos by (simp add: writen_loop.simps [of fd n data])
        note IH = 1(1) [OF False x [symmetric] Done pos run]
        then obtain l where l: "l \<le> length data - k" "sent t fd = sent u fd @ take l (drop k data)"
            "r = (if l = length data - k then int n else - 1)" by auto
        have k: "sent u fd = sent s fd @ take k data" "k \<le> length data" using eff(3) Done by auto
        have "sent t fd = sent s fd @ take (k + l) data" using l(2) k(1) by (simp add: take_add)
        moreover have "k + l \<le> length data" "r = (if k + l = length data then int n else - 1)"
          using l(1,3) k(2) by auto
        ultimately show ?thesis using IH eff(1,2) writes_only_trans [of fd s u t] by blast
      qed
    next
      case Eintr
      have run: "writen_loop fd n data u = (r, t)"
        using 1(3) x Eintr False by (simp add: writen_loop.simps [of fd n data])
      show ?thesis
        using 1(2) [OF False x [symmetric] Eintr run] eff(1,2,4) Eintr writes_only_trans [of fd s u t] by simp
    next
      case Error
      then have "r = - 1" "t = u" using 1(3) x False by (simp_all add: writen_loop.simps [of fd n data])
      then show ?thesis by (intro stop) (use eff(2,4) Error in auto)
    qed
  qed
qed

subsection \<open>Reading lines\<close>

text \<open>What \<open>my_read\<close> still delivers for a descriptor: the rest of the static buffer, then the input.\<close>

definition pending :: "wire \<Rightarrow> int \<Rightarrow> string" where
  "pending s fd = (if 0 < read_cnt s then take (nat (read_cnt s)) (drop (read_ptr s) (read_buf s)) else []) @ input s fd"

definition buffer_ok :: "wire \<Rightarrow> bool" where
  "buffer_ok s \<longleftrightarrow> length (read_buf s) = 100 \<and> (0 < read_cnt s \<longrightarrow> int (read_ptr s) + read_cnt s \<le> 100)"

lemma fill_gets:
  assumes "0 \<le> fd" and "length (read_buf s) = 100"
  shows "reads_only fd s (fill fd s) \<and> length (read_buf (fill fd s)) = 100 \<and> read_cnt (fill fd s) \<le> 100
    \<and> (if read_cnt (fill fd s) \<le> 0
       then input s fd = [] \<and> input_fails s fd = (read_cnt (fill fd s) < 0)
         \<and> (read_cnt (fill fd s) = 0 \<longrightarrow> input (fill fd s) fd = [])
       else input s fd = take (nat (read_cnt (fill fd s))) (read_buf (fill fd s)) @ input (fill fd s) fd
            \<and> input_fails (fill fd s) fd = input_fails s fd)"
  using assms
proof (induction fd s rule: fill.induct)
  case (1 fd s)
  obtain x u where x: "sys_read fd 100 s = (x, u)" by fastforce
  have frame: "reads_only fd s u" "length (read_buf u) = 100"
    using sys_read_frame [OF x] 1(3) by (simp_all add: same_buffer_def)
  show ?case
  proof (cases x)
    case (Done d)
    have run: "fill fd s = u\<lparr>read_cnt := int (length d), read_buf := d @ drop (length d) (read_buf u)\<rparr>"
      using x Done by (simp add: fill.simps [of fd s])
    show ?thesis
    proof (cases "d = []")
      case True
      then have "input s fd = [] \<and> \<not> input_fails s fd \<and> u = s" using sys_read_ends [of 100 fd s u] x Done by simp
      then show ?thesis using run True 1(3) by (simp add: reads_only_def)
    next
      case False
      then show ?thesis
        using run frame sys_read_gets [OF x [unfolded Done]] by (simp add: reads_only_def)
    qed
  next
    case Eintr
    define v where "v = u\<lparr>read_cnt := - 1\<rparr>"
    have v: "reads_only fd s v" "input v fd = input s fd" "input_fails v fd = input_fails s fd"
        "length (read_buf v) = 100"
      using frame sys_read_interrupted [OF x [unfolded Eintr]] by (simp_all add: v_def reads_only_def)
    have run: "fill fd s = fill fd v" using x Eintr by (simp add: fill.simps [of fd s] v_def)
    have IH: "reads_only fd v (fill fd v) \<and> length (read_buf (fill fd v)) = 100 \<and> read_cnt (fill fd v) \<le> 100
      \<and> (if read_cnt (fill fd v) \<le> 0
         then input v fd = [] \<and> input_fails v fd = (read_cnt (fill fd v) < 0)
           \<and> (read_cnt (fill fd v) = 0 \<longrightarrow> input (fill fd v) fd = [])
         else input v fd = take (nat (read_cnt (fill fd v))) (read_buf (fill fd v)) @ input (fill fd v) fd
              \<and> input_fails (fill fd v) fd = input_fails v fd)"
      unfolding v_def by (rule 1(1) [OF x [symmetric] Eintr 1(2)]) (use frame in simp)
    have "reads_only fd s (fill fd v)" using IH v(1) reads_only_trans by blast
    then show ?thesis using IH unfolding run v(2,3) by blast
  next
    case Error
    then have "fill fd s = u\<lparr>read_cnt := - 1\<rparr>" using x by (simp add: fill.simps [of fd s])
    then show ?thesis
      using frame sys_read_fails [OF 1(2) x [unfolded Error]] by (simp add: reads_only_def)
  qed
qed

text \<open>One character.\<close>

lemma my_read_next:
  assumes "0 \<le> fd" and "buffer_ok s" and "my_read fd c s = (rc, c', t)"
  shows "reads_only fd s t" and "buffer_ok t"
    and "pending s fd = [] \<Longrightarrow> rc = (if input_fails s fd then - 1 else 0) \<and> (rc = 0 \<longrightarrow> pending t fd = [])"
    and "pending s fd = x # xs \<Longrightarrow> rc = 1 \<and> c' = x \<and> pending t fd = xs \<and> input_fails t fd = input_fails s fd"
proof -
  have split: "take (nat k) (drop p b) = b ! p # take (nat (k - 1)) (drop (p + 1) b)"
    if "0 < k" "int p + k \<le> 100" "length b = 100" for k p and b :: string
  proof -
    have "drop p b = b ! p # drop (p + 1) b" using that by (simp add: Cons_nth_drop_Suc)
    moreover have "nat k = Suc (nat (k - 1))" using that by simp
    ultimately show ?thesis by simp
  qed
  have "reads_only fd s t \<and> buffer_ok t \<and> (pending s fd = [] \<longrightarrow> rc = (if input_fails s fd then - 1 else 0) \<and> (rc = 0 \<longrightarrow> pending t fd = []))
    \<and> (\<forall>x xs. pending s fd = x # xs \<longrightarrow> rc = 1 \<and> c' = x \<and> pending t fd = xs \<and> input_fails t fd = input_fails s fd)"
  proof (cases "0 < read_cnt s")
    case True
    then have t: "rc = 1" "c' = read_buf s ! read_ptr s" "t = s\<lparr>read_cnt := read_cnt s - 1, read_ptr := read_ptr s + 1\<rparr>"
      using assms(3) by (simp_all add: my_read_def Let_def)
    have "pending s fd = c' # pending t fd"
      using split [of "read_cnt s" "read_ptr s" "read_buf s"] True assms(2) t
      by (simp add: pending_def buffer_ok_def)
    then show ?thesis using t assms(2) True by (auto simp: reads_only_def buffer_ok_def)
  next
    case False
    note fl = fill_gets [OF assms(1), of s]
    have p: "pending s fd = input s fd" using False by (simp add: pending_def)
    define u where "u = fill fd s"
    have u: "reads_only fd s u" "length (read_buf u) = 100" "read_cnt u \<le> 100"
      using fl assms(2) by (simp_all add: buffer_ok_def u_def)
    show ?thesis
    proof (cases "0 < read_cnt u")
      case pos: True
      then have t: "rc = 1" "c' = read_buf u ! 0" "t = u\<lparr>read_cnt := read_cnt u - 1, read_ptr := 1\<rparr>"
        using assms(3) False by (simp_all add: my_read_def Let_def u_def)
      have "input s fd = take (nat (read_cnt u)) (read_buf u) @ input u fd" "input_fails u fd = input_fails s fd"
        using fl assms(2) pos by (simp_all add: buffer_ok_def u_def)
      moreover have "take (nat (read_cnt u)) (read_buf u) = c' # take (nat (read_cnt u - 1)) (drop 1 (read_buf u))"
        using split [of "read_cnt u" 0 "read_buf u"] pos u t by simp
      ultimately have "pending s fd = c' # pending t fd" "input_fails t fd = input_fails s fd"
        using p t(3) by (simp_all add: pending_def)
      then show ?thesis using t u pos by (auto simp: reads_only_def buffer_ok_def)
    next
      case neg: False
      then have "rc = (if read_cnt u < 0 then - 1 else 0)" "t = u"
        using assms(3) False by (auto simp: my_read_def Let_def u_def split: if_splits)
      moreover have "input s fd = []" "input_fails s fd = (read_cnt u < 0)"
          "read_cnt u = 0 \<longrightarrow> input u fd = []"
        using fl assms(2) neg by (simp_all add: buffer_ok_def u_def)
      ultimately show ?thesis using u neg p by (auto simp: buffer_ok_def pending_def)
    qed
  qed
  then show "reads_only fd s t" "buffer_ok t"
    "pending s fd = [] \<Longrightarrow> rc = (if input_fails s fd then - 1 else 0) \<and> (rc = 0 \<longrightarrow> pending t fd = [])"
    "pending s fd = x # xs \<Longrightarrow> rc = 1 \<and> c' = x \<and> pending t fd = xs \<and> input_fails t fd = input_fails s fd"
    by blast+
qed

text \<open>The first line of a text, with its end of line when there is one.\<close>

fun first_line :: "string \<Rightarrow> string" where
  "first_line [] = []"
| "first_line (c # cs) = (if c = newline then [c] else c # first_line cs)"

lemma readline_loop_gets:
  assumes "0 \<le> fd" and "buffer_ok s" and "n \<le> maxlen" and "readline_loop fd maxlen n c stored s = (r, got, t)"
    and "l = take (maxlen - n) (first_line (pending s fd))"
  shows "reads_only fd s t \<and> buffer_ok t \<and>
    (if newline \<in> set l
     then r = int n + int (length l) - 1 \<and> got = stored @ l @ [NUL]
     else if length l = maxlen - n
     then r = int maxlen \<and> got = stored @ l @ [NUL]
     else if input_fails s fd then r = - 1 \<and> got = stored @ l
     else r = int n + int (length l) - 1 \<and> got = stored @ l @ [NUL])
    \<and> (r \<noteq> - 1 \<longrightarrow> pending s fd = l @ pending t fd)"
  using assms
proof (induction fd maxlen n c stored s arbitrary: l rule: readline_loop.induct)
  case (1 fd maxlen n c stored s)
  show ?case
  proof (cases "n < maxlen")
    case False
    then have "r = int n" "got = stored @ [NUL]" "t = s"
      using 1(5) by (simp_all add: readline_loop.simps [of fd maxlen n])
    then show ?thesis using False 1(3,4,6) by simp
  next
    case True
    obtain rc c' u where m: "my_read fd c s = (rc, c', u)" by (cases "my_read fd c s") auto
    note next_ = my_read_next [OF 1(2,3) m]
    show ?thesis
    proof (cases "pending s fd")
      case Nil
      then have rc: "rc = (if input_fails s fd then - 1 else 0)" using next_(3) by simp
      have "t = u" "r = (if input_fails s fd then - 1 else int n - 1)"
          "got = (if input_fails s fd then stored else stored @ [NUL])"
        using 1(5) m rc True by (auto simp: readline_loop.simps [of fd maxlen n] split: if_splits)
      moreover have "pending u fd = []" if "\<not> input_fails s fd" using that next_(3) [OF Nil] by simp
      ultimately show ?thesis using next_(1,2) Nil True 1(6) by simp
    next
      case (Cons x xs)
      note c = next_(4) [OF Cons]
      show ?thesis
      proof (cases "x = newline")
        case x: True
        then have "r = int n" "got = stored @ [newline, NUL]" "t = u"
          using 1(5) m True c by (simp_all add: readline_loop.simps [of fd maxlen n])
        moreover have "l = [newline]" using 1(6) Cons x True by (cases "maxlen - n") auto
        ultimately show ?thesis using next_(1,2) c Cons x by simp
      next
        case x: False
        have run: "readline_loop fd maxlen (n + 1) x (stored @ [x]) u = (r, got, t)"
          using 1(5) m True c x by (simp add: readline_loop.simps [of fd maxlen n])
        have l: "l = x # take (maxlen - (n + 1)) (first_line (pending u fd))"
          using 1(6) Cons x c take_Suc_Cons [of "maxlen - (n + 1)"] Suc_diff_Suc [OF True] by simp
        define k where "k = take (maxlen - (n + 1)) (first_line (pending u fd))"
        have lk: "l = x # k" "maxlen - n = Suc (maxlen - (n + 1))" using l True by (simp_all add: k_def)
        have m': "my_read fd c s = (1, x, u)" using m c by simp
        have IH: "reads_only fd u t \<and> buffer_ok t \<and>
          (if newline \<in> set k
           then r = int (n + 1) + int (length k) - 1 \<and> got = (stored @ [x]) @ k @ [NUL]
           else if length k = maxlen - (n + 1)
           then r = int maxlen \<and> got = (stored @ [x]) @ k @ [NUL]
           else if input_fails u fd then r = - 1 \<and> got = (stored @ [x]) @ k
           else r = int (n + 1) + int (length k) - 1 \<and> got = (stored @ [x]) @ k @ [NUL])
          \<and> (r \<noteq> - 1 \<longrightarrow> pending u fd = k @ pending t fd)"
          by (rule 1(1) [OF True m' [symmetric] refl refl x 1(2) next_(2) _ run k_def]) (use True in simp)
        have "reads_only fd s t" using IH next_(1) reads_only_trans by blast
        then show ?thesis using IH c x Cons unfolding lk by (auto split: if_splits)
      qed
    qed
  qed
qed

subsection \<open>Properties\<close>

text \<open>
  C21: \<open>Writen\<close> hands over its data in order, and all of it unless a write is refused or takes
  nothing; then it returns \<open>-1\<close> and a proper prefix was written. The other end, reading the
  same number of bytes with \<open>Readn\<close>, gets the data, however the bytes are cut into pieces and
  whichever calls are interrupted on either side, and leaves what comes after them.
\<close>

theorem Writen_Readn_round_trip:
  assumes "Writen fd data s = (r, s')" and "sent s fd = []" and "0 \<le> fd'"
    and "input u fd' = sent s' fd @ rest" and "Readn fd' (length data) u = (r', got, u')"
  shows "(\<exists>k\<le>length data. sent s' fd = take k data \<and> r = (if k = length data then int (length data) else - 1))
    \<and> (willing s fd \<longrightarrow> r = int (length data))
    \<and> (r = int (length data) \<longrightarrow> r' = int (length data) \<and> got = data \<and> input u' fd' = rest)"
proof -
  have w: "(\<exists>k\<le>length data. sent s' fd = take k data \<and> r = (if k = length data then int (length data) else - 1))
    \<and> (willing s fd \<longrightarrow> r = int (length data))"
    using writen_loop_puts [of fd "length data" data s r s'] assms(1,2) by (simp add: Writen_def)
  have "r' = int (length data) \<and> got = data \<and> input u' fd' = rest" if "r = int (length data)"
  proof -
    have "sent s' fd = data" using w that by (auto split: if_splits)
    then have "input u fd' = data @ rest" using assms(4) by simp
    then show ?thesis
      using readn_loop_gets [OF assms(3) order_refl, of "length data" "[]" u r' got u'] assms(5)
      by (simp add: Readn_def)
  qed
  then show ?thesis using w by blast
qed

definition plain_wire :: wire where
  "plain_wire = \<lparr>events = (\<lambda>_. []), broken = (\<lambda>_. False), answers = (\<lambda>_. []), sent = (\<lambda>_. []),
     read_cnt = 0, read_ptr = 0, read_buf = replicate 100 NUL\<rparr>"

lemma Writen_Readn_round_trip_witness:
  "let s = plain_wire\<lparr>answers := (\<lambda>_. [Takes 2, Signal, Takes 1])\<rparr>;
       u = plain_wire\<lparr>events := (\<lambda>_. [Piece CHR ''v'' ''i'', Interrupted, Piece CHR ''d'' ''eoX''])\<rparr>
   in Writen 3 ''video'' s = (5, snd (Writen 3 ''video'' s)) \<and> fst (snd (Readn 4 (length ''video'') u)) = ''video''"
proof -
  define s where "s = plain_wire\<lparr>answers := (\<lambda>_. [Takes 2, Signal, Takes 1])\<rparr>"
  define u where "u = plain_wire\<lparr>events := (\<lambda>_. [Piece CHR ''v'' ''i'', Interrupted, Piece CHR ''d'' ''eoX''])\<rparr>"
  obtain r s' where w: "Writen 3 ''video'' s = (r, s')" by fastforce
  obtain r' got u' where g: "Readn 4 (length ''video'') u = (r', got, u')" by (cases "Readn 4 (length ''video'') u") auto
  have sent: "sent s' 3 = ''video''"
    using w by (simp add: s_def plain_wire_def Writen_def writen_loop.simps sys_write_def) auto
  have "sent s 3 = []" "(0 :: int) \<le> 4" by (simp_all add: s_def plain_wire_def)
  moreover have "input u 4 = sent s' 3 @ ''X''" by (simp add: sent) (simp add: u_def plain_wire_def)
  moreover have "willing s 3" by (simp add: willing_def s_def plain_wire_def)
  ultimately have "r = 5" "got = ''video''"
    using Writen_Readn_round_trip [OF w _ _ _ g, of "''X''"] by auto
  then have "Writen 3 ''video'' s = (5, snd (Writen 3 ''video'' s)) \<and> fst (snd (Readn 4 (length ''video'') u)) = ''video''"
    using w g by simp
  then show ?thesis unfolding Let_def s_def u_def .
qed

text \<open>
  C18: \<open>Readline\<close> returns the next line of the stream that is still to come, buffered or not, cut
  at \<open>maxlen - 1\<close> bytes and followed by a terminator, and leaves the stream behind it, however it is
  cut into pieces. The value is the number of bytes when the line ends in a newline or the
  stream ends, but \<open>maxlen\<close>, one more than were read, when it was cut; \<open>-1\<close> is
  returned when an error comes first.
\<close>

theorem Readline_takes_a_line:
  assumes "0 \<le> fd" and "buffer_ok s" and "0 < maxlen" and "Readline fd maxlen c s = (r, got, t)"
  shows "let l = take (maxlen - 1) (first_line (pending s fd));
             complete = newline \<in> set l; cut = (\<not> complete \<and> length l = maxlen - 1)
         in (if complete \<or> cut \<or> \<not> input_fails s fd
             then got = l @ [NUL] \<and> r = int (length l) + (if cut then 1 else 0) \<and> pending s fd = l @ pending t fd
             else r = - 1 \<and> got = l)
            \<and> buffer_ok t \<and> sent t = sent s \<and> (\<forall>x. x \<noteq> fd \<longrightarrow> events t x = events s x)"
proof -
  have "1 \<le> maxlen" using assms(3) by simp
  note gets = readline_loop_gets [OF assms(1,2) this assms(4) [unfolded Readline_def] refl]
  then show ?thesis using assms(3) by (auto simp: Let_def reads_only_def split: if_splits)
qed

lemma Readline_takes_a_line_witness:
  "let s = plain_wire\<lparr>events := (\<lambda>_. [Piece CHR ''o'' [], Interrupted, Piece CHR ''k'' [newline, CHR ''x'']])\<rparr>
   in fst (Readline 3 80 NUL s) = 3 \<and> fst (snd (Readline 3 80 NUL s)) = ''ok'' @ [newline, NUL]
     \<and> pending (snd (snd (Readline 3 80 NUL s))) 3 = ''x''"
proof -
  define s where "s = plain_wire\<lparr>events := (\<lambda>_. [Piece CHR ''o'' [], Interrupted, Piece CHR ''k'' [newline, CHR ''x'']])\<rparr>"
  obtain r got t where g: "Readline 3 80 NUL s = (r, got, t)" by (cases "Readline 3 80 NUL s") auto
  have ok: "buffer_ok s" "pending s 3 = CHR ''o'' # CHR ''k'' # newline # ''x''"
    by (simp_all add: buffer_ok_def pending_def s_def plain_wire_def)
  have l: "take (80 - 1) (first_line (pending s 3)) = ''ok'' @ [newline]" by (simp add: ok(2)) (simp add: newline_def)
  have "r = 3" "got = ''ok'' @ [newline, NUL]" "pending t 3 = ''x''"
    using Readline_takes_a_line [OF _ ok(1) _ g] l ok(2) by (simp_all add: Let_def)
  then show ?thesis using g by (simp add: s_def)
qed

end
