(* ===== verification/Oak.thy ===== *)
theory Oak
  imports Wire
begin

text \<open>
  The video control client (\<open>src/cgi\<close>): the file transfer of \<open>cgi_op.c\<close>, the player commands of
  \<open>cli.c\<close>, and the pages \<open>m_contrl.c\<close>, \<open>delete.c\<close> and \<open>load.c\<close>.

  \<^item> \<open>client\<close> is the state: the descriptors (\<open>wire\<close>), the local files, which descriptor writes
    which file, the descriptors that are open, the connections made, and what was
    printed. A descriptor is numbered by the order in which they are opened; the code only asks
    whether it is negative.
  \<^item> \<open>site\<close> is the environment: which sockets are granted, which connections are accepted, which
    files open, which calls of \<open>close\<close> succeed, how many files may be open, and the
    contents of the arrays on the stack that the code does not initialise.
  \<^item> A run that ends in \<open>exit\<close>, reads through a null pointer, leaves an array or overruns
    it is a \<open>stop\<close>, and so is one that the signal SIGPIPE ends (\<open>Killed\<close>): a \<open>write\<close> to a socket that
    is not connected, or that the other side has closed (\<open>hung_up\<close>), raises it, and nothing under
    \<open>src/cgi\<close> ignores or catches it.
  \<^item> \<open>piece\<close>s stand for the parts of a page that depend on the run; fixed markup is left out.
\<close>

subsection \<open>State and environment\<close>

datatype stop = Exits int | Null_read | Left_array | Overrun | Killed

datatype piece =
    Note string
  | Icon string
  | Playing string
  | Pausing string
  | Choose_address
  | No_address
  | Address string bool
  | Button string
  | Deleted
  | Uploaded
  | Row string

record client =
  net :: wire
  files :: "string \<Rightarrow> string option"
  writes_to :: "int \<Rightarrow> string option"
  next_fd :: int
  open_fds :: "int list"
  hung_up :: "int \<Rightarrow> bool"
  peers :: "(int \<times> string \<times> int) list"
  html :: "piece list"

record site =
  sock_ok :: "int \<Rightarrow> bool"
  dial_ok :: "int \<Rightarrow> string \<Rightarrow> int \<Rightarrow> bool"
  open_ok :: "string \<Rightarrow> bool"
  close_ok :: "int \<Rightarrow> bool"
  max_files :: nat
  stack_buf :: string
  stack_ofd :: int
  stack_str :: string

definition say :: "piece \<Rightarrow> client \<Rightarrow> client" where
  "say p s = s\<lparr>html := html s @ [p]\<rparr>"

subsection \<open>Arrays and strings of C\<close>

text \<open>\<open>strncmp (a, b, n) == 0\<close> on arrays that hold the terminators.\<close>

fun strncmp_0 :: "string \<Rightarrow> string \<Rightarrow> nat \<Rightarrow> bool" where
  "strncmp_0 as bs 0 = True"
| "strncmp_0 (a # as) (b # bs) (Suc n) = (a = b \<and> (a = NUL \<or> strncmp_0 as bs n))"
| "strncmp_0 as bs (Suc n) = False"

definition literal :: "string \<Rightarrow> string" where
  "literal cs = cs @ [NUL]"

text \<open>The string that starts an array; \<open>None\<close> when the terminator is missing.\<close>

definition c_string :: "string \<Rightarrow> string option" where
  "c_string m = (if NUL \<in> set m then Some (takeWhile (\<lambda>c. c \<noteq> NUL) m) else None)"

definition overlay :: "string \<Rightarrow> string \<Rightarrow> string" where
  "overlay d m = d @ drop (length d) m"

fun atoi_loop :: "int \<Rightarrow> string \<Rightarrow> int" where
  "atoi_loop v [] = v"
| "atoi_loop v (c # cs) =
     (if 48 \<le> (of_char c :: int) \<and> of_char c \<le> (57 :: int) then atoi_loop (10 * v + (of_char c - 48)) cs else v)"

text \<open>The ports are constants of digits, so neither blanks nor a sign come first.\<close>

definition atoi :: "string \<Rightarrow> int" where
  "atoi cs = atoi_loop 0 cs"

subsection \<open>System calls\<close>

text \<open>A write to a descriptor of a file adds what it takes to the file.\<close>

definition store :: "int \<Rightarrow> wire \<Rightarrow> client \<Rightarrow> client" where
  "store fd t s =
     s\<lparr>net := t,
       files := (case writes_to s fd of
           None \<Rightarrow> files s
         | Some p \<Rightarrow> (files s)(p := Some (the (files s p) @ drop (length (sent (net s) fd)) (sent t fd))))\<rparr>"

text \<open>\<open>write\<close> and \<open>Write\<close>, whose results the callers ignore; the signal ends the process before they return.\<close>

definition put :: "int \<Rightarrow> string \<Rightarrow> client \<Rightarrow> stop + client" where
  "put fd data s =
     (if 0 \<le> fd \<and> hung_up s fd then Inl Killed else Inr (store fd (snd (sys_write fd data (net s))) s))"

definition Put :: "int \<Rightarrow> string \<Rightarrow> client \<Rightarrow> stop + client" where
  "Put fd data s =
     (if 0 \<le> fd \<and> hung_up s fd then Inl Killed else Inr (store fd (snd (Write fd data (net s))) s))"

text \<open>\<open>read\<close> and \<open>Read\<close> into an array whose old contents stay behind the bytes read.\<close>

definition recv :: "int \<Rightarrow> nat \<Rightarrow> string \<Rightarrow> client \<Rightarrow> string \<times> client" where
  "recv fd n m s =
     (case sys_read fd n (net s) of
        (Done d, t) \<Rightarrow> (overlay d m, s\<lparr>net := t\<rparr>)
      | (_, t) \<Rightarrow> (m, s\<lparr>net := t\<rparr>))"

definition Recv :: "int \<Rightarrow> nat \<Rightarrow> string \<Rightarrow> client \<Rightarrow> string \<times> client" where
  "Recv fd n m s =
     (case Read fd n (net s) of
        (Some d, t) \<Rightarrow> (overlay d m, s\<lparr>net := t\<rparr>)
      | (None, t) \<Rightarrow> (m, s\<lparr>net := t\<rparr>))"

definition new_socket :: "site \<Rightarrow> client \<Rightarrow> int \<times> client" where
  "new_socket e s =
     (let fd = next_fd s in
      if sock_ok e fd then (fd, s\<lparr>next_fd := fd + 1, open_fds := fd # open_fds s\<rparr>)
      else (- 1, s\<lparr>next_fd := fd + 1\<rparr>))"

text \<open>\<open>connect\<close>: a socket that is not connected fails on every \<open>read\<close>, and a \<open>write\<close> to it raises SIGPIPE.\<close>

definition dial_to :: "site \<Rightarrow> int \<Rightarrow> string \<Rightarrow> int \<Rightarrow> client \<Rightarrow> bool \<times> client" where
  "dial_to e fd ip port s =
     (if 0 \<le> fd \<and> dial_ok e fd ip port then (True, s\<lparr>peers := peers s @ [(fd, ip, port)]\<rparr>)
      else (False, s\<lparr>net := (net s)\<lparr>events := (events (net s))(fd := []), answers := (answers (net s))(fd := []),
                                     broken := (broken (net s))(fd := True)\<rparr>,
                      hung_up := (hung_up s)(fd := True)\<rparr>))"

text \<open>\<open>open\<close> for reading, and for writing with \<open>O_CREAT | O_TRUNC\<close>.\<close>

definition open_read :: "site \<Rightarrow> string \<Rightarrow> client \<Rightarrow> int \<times> client" where
  "open_read e path s =
     (let fd = next_fd s in
      if open_ok e path then (fd, s\<lparr>next_fd := fd + 1, open_fds := fd # open_fds s\<rparr>)
      else (- 1, s))"

definition open_write :: "site \<Rightarrow> string \<Rightarrow> client \<Rightarrow> int \<times> client" where
  "open_write e path s =
     (let fd = next_fd s in
      if open_ok e path
      then (fd, s\<lparr>next_fd := fd + 1, open_fds := fd # open_fds s, writes_to := (writes_to s)(fd := Some path),
                  files := (files s)(path := Some [])\<rparr>)
      else (- 1, s))"

definition close_fd :: "int \<Rightarrow> client \<Rightarrow> client" where
  "close_fd fd s = s\<lparr>open_fds := remove1 fd (open_fds s), writes_to := (writes_to s)(fd := None)\<rparr>"

subsection \<open>The file transfer of cgi\_op.c\<close>

text \<open>
  \<open>while ((n = read (src, buf, 1024))) write (dst, buf, n);\<close> where a failed \<open>read\<close> makes the count of
  the \<open>write\<close> the largest \<open>size_t\<close>, which the system refuses without writing.
\<close>

partial_function (option) copy_loop :: "int \<Rightarrow> int \<Rightarrow> client \<Rightarrow> (stop + client) option" where
  "copy_loop src dst s =
     (case sys_read src 1024 (net s) of
        (Done d, t) \<Rightarrow>
          if d = [] then Some (Inr (s\<lparr>net := t\<rparr>))
          else (case put dst d (s\<lparr>net := t\<rparr>) of
                  Inl err \<Rightarrow> Some (Inl err)
                | Inr s \<Rightarrow> copy_loop src dst s)
      | (_, t) \<Rightarrow> copy_loop src dst (s\<lparr>net := t\<rparr>))"

declare copy_loop.simps [code]

text \<open>\<open>inet_pton\<close> reads through \<open>serip\<close>, which is null when the form has no address.\<close>

definition up_file ::
    "site \<Rightarrow> string \<Rightarrow> string \<Rightarrow> string option \<Rightarrow> string \<Rightarrow> client \<Rightarrow> (stop + int \<times> client) option" where
  "up_file e clipath serpath serip port s =
     (let (sfd, s) = new_socket e s in
      case serip of
        None \<Rightarrow> Some (Inl Null_read)
      | Some ip \<Rightarrow>
          let (_, s) = dial_to e sfd ip (atoi port) s in
          case put sfd (literal ''tans'') s of
            Inl err \<Rightarrow> Some (Inl err)
          | Inr s \<Rightarrow>
          let (buf, s) = recv sfd 1024 (stack_buf e) s in
          if \<not> strncmp_0 buf (literal ''path'') 4 then Some (Inl (Exits 1))
          else
          case Put sfd serpath s of
            Inl err \<Rightarrow> Some (Inl err)
          | Inr s \<Rightarrow>
          let s = say (Note ''will begin get file'') s;
              (buf, s) = recv sfd 1024 buf s
          in if strncmp_0 (literal ''OK'') buf 2
             then (case c_string buf of
                     None \<Rightarrow> Some (Inl Overrun)
                   | Some reply \<Rightarrow>
                       let s = say (Note (''recive '' @ reply @ '' will trans file'')) s;
                           (ofd, s) = open_read e clipath s
                       in if ofd < 0 then Some (Inl (Exits 1))
                          else (case copy_loop ofd sfd s of
                                  None \<Rightarrow> None
                                | Some (Inl err) \<Rightarrow> Some (Inl err)
                                | Some (Inr s) \<Rightarrow>
                                    Some (Inr (1, close_fd sfd (close_fd ofd (say (Note ''tranfer end'') s))))))
             else Some (Inr (1, close_fd sfd (close_fd (stack_ofd e) (say (Note ''unknow cmd!'') s)))))"

definition get_file ::
    "site \<Rightarrow> string \<Rightarrow> string \<Rightarrow> string option \<Rightarrow> string \<Rightarrow> client \<Rightarrow> (stop + int \<times> client) option" where
  "get_file e clipath serpath serip port s =
     (let (sfd, s) = new_socket e s in
      case serip of
        None \<Rightarrow> Some (Inl Null_read)
      | Some ip \<Rightarrow>
          let (_, s) = dial_to e sfd ip (atoi port) s in
          case Put sfd (literal ''get'') s of
            Inl err \<Rightarrow> Some (Inl err)
          | Inr s \<Rightarrow>
          let (buf, s) = Recv sfd 1024 (stack_buf e) s in
          case put sfd serpath s of
            Inl err \<Rightarrow> Some (Inl err)
          | Inr s \<Rightarrow>
          let (ofd, s) = open_write e clipath s in
          if ofd < 0 then Some (Inl (Exits 1))
          else (case copy_loop sfd ofd s of
                  None \<Rightarrow> None
                | Some (Inl err) \<Rightarrow> Some (Inl err)
                | Some (Inr s) \<Rightarrow> Some (Inr (1, close_fd sfd (close_fd ofd s)))))"

definition rm_file :: "site \<Rightarrow> string \<Rightarrow> string option \<Rightarrow> string \<Rightarrow> client \<Rightarrow> stop + int \<times> client" where
  "rm_file e serpath serip port s =
     (let (sfd, s) = new_socket e s in
      case serip of
        None \<Rightarrow> Inl Null_read
      | Some ip \<Rightarrow>
          let (ok, s) = dial_to e sfd ip (atoi port) s in
          if \<not> ok then Inl (Exits 1)
          else
            case Put sfd (literal ''del'') s of
              Inl err \<Rightarrow> Inl err
            | Inr s \<Rightarrow>
            let (buf, s) = Recv sfd 1024 (stack_buf e) s in
            case (if strncmp_0 buf (literal ''path'') 4
                  then Put sfd serpath (say (Note (''server request del '' @ serpath)) s)
                  else Inr s) of
              Inl err \<Rightarrow> Inl err
            | Inr s \<Rightarrow> Inr (1, close_fd sfd s))"

subsection \<open>The lines of a play list\<close>

text \<open>
  One character of the file: it goes to \<open>str [i]\<close> in the wanted line, with a terminator behind it;
  a newline is counted. The array \<open>str\<close> has 258 elements.
\<close>

definition line_char :: "int \<Rightarrow> char \<Rightarrow> int \<times> nat \<times> string \<Rightarrow> stop + int \<times> nat \<times> string" where
  "line_char line c = (\<lambda>(count, i, str).
     if count = line \<and> c \<noteq> newline
     then if i + 1 < 258 then Inr (count, i + 1, str[i := c, i + 1 := NUL]) else Inl Overrun
     else Inr (if c = newline then count + 1 else count, i, str))"

text \<open>The end of the file is met by one more \<open>getc\<close>, whose \<open>EOF\<close> is the character \<open>0xFF\<close>.\<close>

fun line_scan :: "string \<Rightarrow> int \<Rightarrow> int \<times> nat \<times> string \<Rightarrow> stop + int \<times> nat \<times> string" where
  "line_scan [] line st = line_char line (CHR 0xFF) st"
| "line_scan (c # cs) line st =
     (case line_char line c st of
        Inl err \<Rightarrow> Inl err
      | Inr st \<Rightarrow> if fst st > line then Inr st else line_scan cs line st)"

fun slash_before :: "string \<Rightarrow> nat \<Rightarrow> nat option" where
  "slash_before str 0 = (if str ! 0 = CHR ''/'' then Some 0 else None)"
| "slash_before str (Suc i) = (if str ! Suc i = CHR ''/'' then Some (Suc i) else slash_before str i)"

text \<open>Copying to \<open>buf\<close>, which has 256 elements in the caller.\<close>

function copy_name :: "string \<Rightarrow> nat \<Rightarrow> nat \<Rightarrow> string \<Rightarrow> stop + string" where
  "copy_name str i k buf =
     (if i \<ge> length str then Inl Left_array
      else if str ! i = NUL then Inr buf
      else if k \<ge> length buf then Inl Overrun
      else copy_name str (i + 1) (k + 1) (buf[k := str ! i]))"
  by pat_completeness auto
termination
  by (relation "measure (\<lambda>(str, i, k, buf). length str - i)") auto

declare copy_name.simps [simp del]

text \<open>\<open>fopen\<close> fails when the file is missing or too many are open; it is never closed.\<close>

definition my_readline :: "site \<Rightarrow> string \<Rightarrow> string \<Rightarrow> int \<Rightarrow> client \<Rightarrow> stop + int \<times> string \<times> client" where
  "my_readline e playlist buf line s =
     (case files s playlist of
        None \<Rightarrow> Inl (Exits 0)
      | Some content \<Rightarrow>
          if length (open_fds s) \<ge> max_files e then Inl (Exits 0)
          else
            let s = s\<lparr>next_fd := next_fd s + 1, open_fds := next_fd s # open_fds s\<rparr> in
            case line_scan content line (1, 0, stack_str e) of
              Inl err \<Rightarrow> Inl err
            | Inr (count, i, str) \<Rightarrow>
                if line \<ge> count then Inr (- 1, buf, s)
                else (case slash_before str i of
                        None \<Rightarrow> Inl Left_array
                      | Some i \<Rightarrow>
                          (case copy_name str (i + 1) 0 buf of
                             Inl err \<Rightarrow> Inl err
                           | Inr buf \<Rightarrow> Inr (1, buf, s))))"

subsection \<open>The player commands of cli.c\<close>

text \<open>\<open>Write (sockfd, sendbuf, strlen (sendbuf))\<close> when \<open>sendbuf\<close> begins with a command.\<close>

definition echo_if :: "string \<Rightarrow> nat \<Rightarrow> int \<Rightarrow> string \<Rightarrow> client \<Rightarrow> stop + client" where
  "echo_if command n fd sendbuf s =
     (if strncmp_0 sendbuf (literal command) n
      then (case c_string sendbuf of None \<Rightarrow> Inl Overrun | Some cs \<Rightarrow> Put fd cs s)
      else Inr s)"

text \<open>\<open>sendbuf\<close> is the array of the caller: the answer to \<open>getstat\<close> overwrites it. The result, the
  array and the state are returned.\<close>

definition MAXLINE :: nat where "MAXLINE = 80"

definition SERV_PORT :: int where "SERV_PORT = 8088"

fun echo_all :: "(string \<times> nat) list \<Rightarrow> int \<Rightarrow> string \<Rightarrow> client \<Rightarrow> stop + client" where
  "echo_all [] fd sendbuf s = Inr s"
| "echo_all ((command, n) # cs) fd sendbuf s =
     (case echo_if command n fd sendbuf s of
        Inl err \<Rightarrow> Inl err
      | Inr s \<Rightarrow> echo_all cs fd sendbuf s)"

definition m_cntrl :: "site \<Rightarrow> string \<Rightarrow> string option \<Rightarrow> client \<Rightarrow> stop + int \<times> string \<times> client" where
  "m_cntrl e sendbuf serip s =
     (let (fd, s) = new_socket e s in
      case serip of
        None \<Rightarrow> Inl Null_read
      | Some ip \<Rightarrow>
          let (ok, s) = dial_to e fd ip SERV_PORT s in
          if \<not> ok then Inl (Exits 1)
          else
            let asked = strncmp_0 sendbuf (literal ''getstat'') 7 in
            case (if asked then echo_if ''getstat'' 7 fd sendbuf s else Inr s) of
              Inl err \<Rightarrow> Inl err
            | Inr s \<Rightarrow>
                let (sendbuf, s) = (if asked then Recv fd MAXLINE sendbuf s else (sendbuf, s)) in
                if asked \<and> strncmp_0 sendbuf (literal ''paused'') 6 then Inr (1, sendbuf, s)
                else if asked \<and> strncmp_0 sendbuf (literal ''playing'') 7 then Inr (1, sendbuf, s)
                else (case echo_all [(''pause'', 6), (''start'', 5), (''disable_tv'', 10), (''enable_tv'', 9)]
                             fd sendbuf s of
                        Inl err \<Rightarrow> Inl err
                      | Inr s \<Rightarrow>
                          if close_ok e fd then Inr (1, sendbuf, close_fd fd s) else Inl (Exits 1)))"

subsection \<open>The pages\<close>

text \<open>
  \<open>form\<close> is \<open>cgi_param\<close>: the value of a field of the request, \<open>None\<close> when it is absent. The
  results of the queries are arguments: \<open>None\<close> when the statement fails, else the
  rows.
\<close>

type_synonym form = "string \<Rightarrow> string option"

text \<open>\<open>if (1 != m_cntrl (...)) printf (...)\<close> in \<open>m_contrl.c\<close>: the command is a string constant.\<close>

definition button_action :: "site \<Rightarrow> form \<Rightarrow> string \<Rightarrow> string \<Rightarrow> client \<Rightarrow> stop + client" where
  "button_action e form field command s =
     (if form field = None then Inr s
      else case m_cntrl e (literal command) (form ''ip'') s of
             Inl err \<Rightarrow> Inl err
           | Inr (r, _, s) \<Rightarrow> Inr (if r \<noteq> 1 then say (Note (command @ '' failed'')) s else s))"

fun button_actions :: "site \<Rightarrow> form \<Rightarrow> (string \<times> string) list \<Rightarrow> client \<Rightarrow> stop + client" where
  "button_actions e form [] s = Inr s"
| "button_actions e form ((field, command) # bs) s =
     (case button_action e form field command s of
        Inl err \<Rightarrow> Inl err
      | Inr s \<Rightarrow> button_actions e form bs s)"

text \<open>The flags after the state of the player was asked for: (\<open>playing_flag\<close>, \<open>pause_flag\<close>).\<close>

definition status_flags :: "string \<Rightarrow> bool \<times> bool" where
  "status_flags sendbuf =
     (let (playing_flag, pause_flag) =
            (if strncmp_0 sendbuf (literal ''playing'') 7 then (False, True) else (True, False));
          (playing_flag, pause_flag) =
            (if strncmp_0 sendbuf (literal ''pause'') 5 then (True, False) else (False, True))
      in (playing_flag, pause_flag))"

text \<open>The selected address is the one that begins with the row.\<close>

definition address_option :: "form \<Rightarrow> string \<Rightarrow> piece" where
  "address_option form row =
     Address row (case form ''ip'' of
         None \<Rightarrow> False
       | Some ip \<Rightarrow> strncmp_0 (literal ip) (literal row) (length row))"

text \<open>The name in \<open>playing_file [100]\<close>, which is printed only when there is an address.\<close>

definition playing_name :: "form \<Rightarrow> string list option \<Rightarrow> stop + string" where
  "playing_name form file_rows =
     (if form ''ip'' = None then Inr []
      else case file_rows of
             None \<Rightarrow> Inl (Exits 1)
           | Some [] \<Rightarrow> Inl Left_array
           | Some (f # _) \<Rightarrow> if length f < 100 then Inr f else Inl Overrun)"

definition m_contrl_page :: "form \<Rightarrow> string \<Rightarrow> bool \<Rightarrow> bool \<Rightarrow> string list \<Rightarrow> piece list" where
  "m_contrl_page form playing_file playing_flag pause_flag rows =
     [if pause_flag then Icon ''playing.gif'' else if playing_flag then Icon ''pause.gif'' else Icon ''note.gif'',
      if pause_flag then Playing playing_file else if playing_flag then Pausing playing_file else Choose_address]
     @ (if form ''ip'' = None then [No_address] else [])
     @ map (address_option form) rows
     @ [Button ''search'']
     @ (if form ''ip'' = None then []
        else (if playing_flag then [Button ''start''] else []) @ (if pause_flag then [Button ''pause''] else [])
             @ [Button ''disabletv'', Button ''enabletv''])"

definition m_contrl ::
    "site \<Rightarrow> form \<Rightarrow> string list option \<Rightarrow> string list option \<Rightarrow> string \<Rightarrow> client \<Rightarrow> stop + client" where
  "m_contrl e form file_rows ip_rows sendbuf_rest s =
     (case playing_name form file_rows of
        Inl err \<Rightarrow> Inl err
      | Inr playing_file \<Rightarrow>
          (case ip_rows of
             None \<Rightarrow> Inl (Exits 1)
           | Some rows \<Rightarrow>
               (case button_actions e form
                       [(''start'', ''start''), (''pause'', ''pause''), (''disabletv'', ''disable_tv''),
                        (''enabletv'', ''enable_tv'')] s of
                  Inl err \<Rightarrow> Inl err
                | Inr s \<Rightarrow>
                    if form ''ip'' = None
                    then Inr (s\<lparr>html := html s @ m_contrl_page form playing_file False False rows\<rparr>)
                    else (case m_cntrl e (literal ''getstat'' @ [NUL] @ sendbuf_rest) (form ''ip'') s of
                            Inl err \<Rightarrow> Inl err
                          | Inr (r, sendbuf, s) \<Rightarrow>
                              let (playing_flag, pause_flag) = (if r \<noteq> 0 then status_flags sendbuf else (False, False))
                              in Inr (s\<lparr>html := html s
                                   @ m_contrl_page form playing_file playing_flag pause_flag rows\<rparr>)))))"

text \<open>\<open>delete.c\<close>: the rows of the play list, each after the other.\<close>

partial_function (option) list_rows :: "site \<Rightarrow> string \<Rightarrow> int \<Rightarrow> client \<Rightarrow> (stop + client) option" where
  "list_rows e buf i s =
     (case my_readline e ''playlist'' buf i s of
        Inl err \<Rightarrow> Some (Inl err)
      | Inr (n, buf, s) \<Rightarrow>
          if n = - 1 then Some (Inr s)
          else (case c_string buf of
                  None \<Rightarrow> Some (Inl Overrun)
                | Some name \<Rightarrow> list_rows e (buf[0 := NUL]) (i + 1) (say (Row name) s)))"

declare list_rows.simps [code]

text \<open>The table of \<open>sqlite3_get_table\<close> holds the names of the columns, then the rows.\<close>

definition table_column :: "nat \<Rightarrow> nat \<Rightarrow> string list \<Rightarrow> string list" where
  "table_column nRow nColumn datatable1 =
     map (\<lambda>i. datatable1 ! i) (filter (\<lambda>i. (i - 1) mod nColumn = 0) [1..<nRow * nColumn + 1])"

definition delete_page :: "site \<Rightarrow> form \<Rightarrow> (nat \<times> nat \<times> string list) option \<Rightarrow> client \<Rightarrow> (stop + client) option" where
  "delete_page e form ip_table s =
     (case ip_table of
        None \<Rightarrow> Some (Inl (Exits 1))
      | Some (nRow, nColumn, datatable1) \<Rightarrow>
          let s = s\<lparr>html := html s @ map (address_option form) (table_column nRow nColumn datatable1)\<rparr> in
          if form ''delete'' \<noteq> None
          then (case form ''xuanqu'' of
                  None \<Rightarrow> Some (Inl Null_read)
                | Some name \<Rightarrow>
                    if 19 + length name \<ge> 256 then Some (Inl Overrun)
                    else (case rm_file e (''/opt/OAK/resources/'' @ name) (form ''ip'') ''8080'' s of
                            Inl err \<Rightarrow> Some (Inl err)
                          | Inr (r, s) \<Rightarrow> Some (Inr (if r \<noteq> 0 then say Deleted s else s))))
          else if form ''ip'' = None then Some (Inr s)
          else (case get_file e ''playlist'' ''/opt/OAK/playlist'' (form ''ip'') ''8080'' s of
                  None \<Rightarrow> None
                | Some (Inl err) \<Rightarrow> Some (Inl err)
                | Some (Inr (_, s)) \<Rightarrow> list_rows e (replicate 256 NUL) 1 s))"

text \<open>\<open>load.c\<close>: sends a file of the web server to the player.\<close>

definition load_page :: "site \<Rightarrow> form \<Rightarrow> string list option \<Rightarrow> client \<Rightarrow> (stop + client) option" where
  "load_page e form rows s =
     (if form ''xuanqu'' = None then Some (Inl Null_read)
      else case rows of
        None \<Rightarrow> Some (Inl (Exits 1))
      | Some [] \<Rightarrow> Some (Inl Left_array)
      | Some (name # _) \<Rightarrow>
          if 19 + length name \<ge> 256 then Some (Inl Overrun)
          else (case up_file e (''/var/httpd/cgi-bin/'' @ name) (''/opt/OAK/resources/'' @ name)
                       (form ''ip'') ''8000'' s of
                  None \<Rightarrow> None
                | Some (Inl err) \<Rightarrow> Some (Inl err)
                | Some (Inr (r, s)) \<Rightarrow> Some (Inr (if r \<noteq> 0 then say Uploaded s else s))))"

end
