(* ===== verification/Control.thy ===== *)
theory Control
  imports Oak
begin

text \<open>
  What the operations of \<open>Oak\<close> do together.

  \<^item> \<open>received\<close> is the effect of bytes that a descriptor takes, \<open>obliging\<close> says that it takes all it
    is given. Under it the copy loop moves exactly the bytes that arrive, in whatever
    pieces; on a descriptor that only fails it never returns.
  \<^item> The transfers: what is sent, in which order, and what ends up in the file.
  \<^item> The pages: \<open>shown\<close> says which rows the list of \<open>delete.c\<close> prints; the page of
    \<open>m_contrl.c\<close> follows the answer of the player.
\<close>

subsection \<open>Descriptors that take all they are given\<close>

definition obliging :: "client \<Rightarrow> int \<Rightarrow> bool" where
  "obliging s fd \<longleftrightarrow> 0 \<le> fd \<and> answers (net s) fd = [] \<and> \<not> broken (net s) fd \<and> \<not> hung_up s fd"

definition received :: "int \<Rightarrow> string \<Rightarrow> client \<Rightarrow> client" where
  "received fd d s =
     s\<lparr>net := (net s)\<lparr>sent := (sent (net s))(fd := sent (net s) fd @ d)\<rparr>,
       files := (case writes_to s fd of
           None \<Rightarrow> files s
         | Some p \<Rightarrow> (files s)(p := Some (the (files s p) @ d)))\<rparr>"

definition drained :: "int \<Rightarrow> client \<Rightarrow> client" where
  "drained fd s = s\<lparr>net := (net s)\<lparr>events := (events (net s))(fd := [])\<rparr>\<rparr>"

text \<open>A descriptor that writes a file writes one that exists.\<close>

definition backed :: "client \<Rightarrow> int \<Rightarrow> bool" where
  "backed s fd \<longleftrightarrow> (\<forall>p. writes_to s fd = Some p \<longrightarrow> files s p \<noteq> None)"

lemma put_obliging: "obliging s fd \<Longrightarrow> put fd d s = Inr (received fd d s)"
  by (simp add: put_def store_def received_def obliging_def sys_write_def split: option.split)

lemma Put_obliging: "obliging s fd \<Longrightarrow> Put fd d s = Inr (received fd d s)"
  by (simp add: Put_def store_def received_def obliging_def sys_write_def Write.simps split: option.split)

lemma received_received [simp]: "received fd e (received fd d s) = received fd (d @ e) s"
  by (simp add: received_def split: option.split)

lemma received_nil: "backed s fd \<Longrightarrow> received fd [] s = s"
  by (auto simp: received_def backed_def fun_upd_idem split: option.split)

lemma received_fields [simp]:
  "events (net (received fd d s)) = events (net s)" "answers (net (received fd d s)) = answers (net s)"
  "broken (net (received fd d s)) = broken (net s)" "writes_to (received fd d s) = writes_to s"
  "next_fd (received fd d s) = next_fd s" "open_fds (received fd d s) = open_fds s"
  "peers (received fd d s) = peers s" "html (received fd d s) = html s" "hung_up (received fd d s) = hung_up s"
  "sent (net (received fd d s)) x = (if x = fd then sent (net s) fd @ d else sent (net s) x)"
  by (simp_all add: received_def)

lemma received_files: "writes_to s fd = None \<Longrightarrow> files (received fd d s) = files s"
  by (simp add: received_def)

lemma received_file:
  "\<lbrakk>writes_to s fd = Some p; files s p = Some c\<rbrakk> \<Longrightarrow> files (received fd d s) p = Some (c @ d)"
  by (simp add: received_def)

lemma obliging_received [simp]: "obliging (received fd d s) x = obliging s x"
  by (simp add: obliging_def)

lemma backed_received [simp]: "backed s fd \<Longrightarrow> backed (received fd d s) fd"
  by (auto simp: backed_def received_def split: option.split)

text \<open>What a \<open>read\<close> leaves behind in the client.\<close>

lemma reads_only_net:
  "\<lbrakk>reads_only fd (net s) t; same_buffer (net s) t\<rbrakk> \<Longrightarrow> t = (net s)\<lparr>events := (events (net s))(fd := events t fd)\<rparr>"
  by (auto simp: reads_only_def same_buffer_def fun_upd_def intro!: wire.equality)

subsection \<open>The copy loop\<close>

lemma copy_loop_copies:
  assumes "0 \<le> src" and "\<not> input_fails (net s) src" and "obliging s dst" and "backed s dst"
  shows "copy_loop src dst s = Some (Inr (drained src (received dst (input (net s) src) s)))"
  using assms
proof (induction "length (input (net s) src) + length (events (net s) src)" arbitrary: s rule: less_induct)
  case less
  obtain x t where x: "sys_read src 1024 (net s) = (x, t)" by fastforce
  have frame: "t = (net s)\<lparr>events := (events (net s))(src := events t src)\<rparr>"
    using reads_only_net sys_read_frame [OF x] by blast
  have bt: "broken t = broken (net s)" using sys_read_frame [OF x] by (simp add: reads_only_def)
  define u where "u = s\<lparr>net := t\<rparr>"
  have u: "u = s\<lparr>net := (net s)\<lparr>events := (events (net s))(src := events t src)\<rparr>\<rparr>"
    unfolding u_def by (subst frame) simp
  have same: "obliging u fd = obliging s fd" "backed u dst = backed s dst"
      "broken (net u) = broken (net s)" for fd
    by (simp_all add: u obliging_def backed_def)
  show ?case
  proof (cases x)
    case (Done d)
    note gets = sys_read_gets [OF x [unfolded Done]]
    show ?thesis
    proof (cases "d = []")
      case True
      then have e: "input (net s) src = []" "t = net s" using sys_read_ends [of 1024 src "net s" t] x Done by simp_all
      have "events (net s) src = []"
        using x True Done less(2) by (auto simp: sys_read_def split: if_splits list.splits event.splits)
      then have "drained src (received dst [] s) = s"
        using received_nil [OF less(5)] by (simp add: drained_def fun_upd_idem)
      then show ?thesis using x Done True e by (simp add: copy_loop.simps [of src dst s])
    next
      case False
      define v where "v = received dst d u"
      have v: "input (net v) src = input t src" "events (net v) src = events t src" "broken (net v) = broken (net s)"
        by (simp_all add: v_def u_def bt)
      have "copy_loop src dst s = copy_loop src dst v"
        using x Done False put_obliging [of u dst d] same less(4)
        by (simp add: copy_loop.simps [of src dst s] u_def [symmetric] v_def)
      also have "\<dots> = Some (Inr (drained src (received dst (input (net v) src) v)))"
      proof (rule less(1))
        show "length (input (net v) src) + length (events (net v) src) < length (input (net s) src) + length (events (net s) src)"
          using gets sys_read_measure(2) [OF x Done] False v by (cases d) auto
        show "\<not> input_fails (net v) src" using gets v less(3) bt by simp
      qed (use less(2) less(4,5) same in \<open>simp_all add: v_def\<close>)
      also have "received dst (input (net v) src) v = received dst (input (net s) src) u"
        using gets v by (simp add: v_def)
      also have "drained src (received dst (input (net s) src) u) = drained src (received dst (input (net s) src) s)"
        by (simp add: drained_def received_def u split: option.split)
      finally show ?thesis .
    qed
  next
    case Eintr
    note i = sys_read_interrupted [OF x [unfolded Eintr]]
    have "copy_loop src dst s = copy_loop src dst u"
      using x Eintr by (simp add: copy_loop.simps [of src dst s] u_def)
    also have "\<dots> = Some (Inr (drained src (received dst (input (net u) src) u)))"
    proof (rule less(1))
      show "length (input (net u) src) + length (events (net u) src) < length (input (net s) src) + length (events (net s) src)"
        using i sys_read_measure(1) [OF x Eintr] by (simp add: u_def)
      show "\<not> input_fails (net u) src" using i less(3) bt by (simp add: u_def)
    qed (use less(2) less(4,5) same in simp_all)
    also have "drained src (received dst (input (net u) src) u) = drained src (received dst (input (net s) src) s)"
      using i by (simp add: drained_def received_def u split: option.split)
    finally show ?thesis .
  next
    case Error
    then show ?thesis using sys_read_fails [OF less(2) x [unfolded Error]] less(3) by simp
  qed
qed

text \<open>On a descriptor that fails for ever the loop does not end.\<close>

lemma put_keeps:
  assumes "put fd d s = Inr t"
  shows "broken (net t) = broken (net s)" "next_fd t = next_fd s"
proof -
  obtain r u where w: "sys_write fd d (net s) = (r, u)" by fastforce
  have "broken u = broken (net s)" using sys_write_effect(1) [OF w] by (simp add: writes_only_def)
  then show "broken (net t) = broken (net s)" "next_fd t = next_fd s"
    using assms w by (auto simp: put_def store_def split: if_splits)
qed

lemma Put_keeps:
  assumes "Put fd d s = Inr t"
  shows "broken (net t) = broken (net s)" "next_fd t = next_fd s"
proof -
  obtain r u where w: "Write fd d (net s) = (r, u)" by fastforce
  show "broken (net t) = broken (net s)" "next_fd t = next_fd s"
    using assms w Write_only [OF w] by (auto simp: Put_def store_def writes_only_def split: if_splits)
qed

text \<open>Without a descriptor a write raises no signal.\<close>

lemma put_none:
  assumes "fd < 0"
  shows "\<exists>t. put fd d s = Inr t \<and> next_fd t = next_fd s" "\<exists>t. Put fd d s = Inr t \<and> next_fd t = next_fd s"
  using assms by (simp_all add: put_def Put_def store_def)

lemma Recv_keeps:
  assumes "Recv fd n m s = (m', t)"
  shows "broken (net t) = broken (net s)" "next_fd t = next_fd s"
proof -
  obtain r u where w: "Read fd n (net s) = (r, u)" by fastforce
  show "broken (net t) = broken (net s)" "next_fd t = next_fd s"
    using assms w Read_only [OF w] by (auto simp: Recv_def reads_only_def split: option.splits)
qed

lemma copy_loop_returns:
  assumes "copy_loop src dst s = Some t"
  shows "0 \<le> src \<and> (\<not> broken (net s) src \<or> events (net s) src \<noteq> [])"
proof (rule copy_loop.raw_induct [where P = "\<lambda>src dst s t. 0 \<le> src \<and> (\<not> broken (net s) src \<or> events (net s) src \<noteq> [])", OF _ assms])
  fix rec :: "int \<Rightarrow> int \<Rightarrow> client \<Rightarrow> (stop + client) option" and src dst s t
  assume later: "\<And>src dst s t. rec src dst s = Some t \<Longrightarrow> 0 \<le> src \<and> (\<not> broken (net s) src \<or> events (net s) src \<noteq> [])"
    and body: "(case sys_read src 1024 (net s) of
        (Done d, t) \<Rightarrow> if d = [] then Some (Inr (s\<lparr>net := t\<rparr>))
          else (case put dst d (s\<lparr>net := t\<rparr>) of Inl err \<Rightarrow> Some (Inl err) | Inr s \<Rightarrow> rec src dst s)
      | (_, t) \<Rightarrow> rec src dst (s\<lparr>net := t\<rparr>)) = Some t"
  obtain x u where x: "sys_read src 1024 (net s) = (x, u)" by fastforce
  show "0 \<le> src \<and> (\<not> broken (net s) src \<or> events (net s) src \<noteq> [])"
  proof (rule ccontr)
    assume "\<not> (0 \<le> src \<and> (\<not> broken (net s) src \<or> events (net s) src \<noteq> []))"
    then have dead: "src < 0 \<or> broken (net s) src \<and> events (net s) src = []" by auto
    then have "x = Error" "u = net s" using x by (auto simp: sys_read_def split: if_splits)
    then have "rec src dst s = Some t" using body x by simp
    then show False using later dead by force
  qed
qed

subsection \<open>The transfers\<close>

definition eaten :: "int \<Rightarrow> event list \<Rightarrow> client \<Rightarrow> client" where
  "eaten fd es s = s\<lparr>net := (net s)\<lparr>events := (events (net s))(fd := es)\<rparr>\<rparr>"

lemma recv_first:
  "\<lbrakk>0 \<le> fd; events (net s) fd = Piece c cs # es; length cs < n\<rbrakk> \<Longrightarrow>
   recv fd n m s = (overlay (c # cs) m, eaten fd es s)"
  by (cases n) (simp_all add: recv_def sys_read_def eaten_def rest_piece_def)

lemma Recv_first:
  "\<lbrakk>0 \<le> fd; events (net s) fd = Piece c cs # es; length cs < n\<rbrakk> \<Longrightarrow>
   Recv fd n m s = (overlay (c # cs) m, eaten fd es s)"
  by (cases n) (simp_all add: Recv_def Read.simps sys_read_def eaten_def rest_piece_def)

lemma eaten_fields [simp]:
  "events (net (eaten fd es s)) x = (if x = fd then es else events (net s) x)"
  "answers (net (eaten fd es s)) = answers (net s)" "broken (net (eaten fd es s)) = broken (net s)"
  "sent (net (eaten fd es s)) = sent (net s)" "files (eaten fd es s) = files s" "writes_to (eaten fd es s) = writes_to s"
  "next_fd (eaten fd es s) = next_fd s" "open_fds (eaten fd es s) = open_fds s" "peers (eaten fd es s) = peers s"
  "html (eaten fd es s) = html s" "hung_up (eaten fd es s) = hung_up s"
  by (simp_all add: eaten_def)

lemma obliging_eaten [simp]: "obliging (eaten fd es s) x = obliging s x"
  by (simp add: obliging_def)

lemma say_fields [simp]:
  "net (say p s) = net s" "files (say p s) = files s" "writes_to (say p s) = writes_to s"
  "next_fd (say p s) = next_fd s" "open_fds (say p s) = open_fds s" "peers (say p s) = peers s"
  "html (say p s) = html s @ [p]" "hung_up (say p s) = hung_up s"
  by (simp_all add: say_def)

lemma drained_eaten: "drained fd s = eaten fd [] s"
  by (simp add: drained_def eaten_def)

lemma strncmp_0_append: "strncmp_0 as cs n \<Longrightarrow> strncmp_0 (as @ bs) cs n"
  by (induction as cs n rule: strncmp_0.induct) auto

text \<open>The next socket is granted, connects and takes all that is written to it.\<close>

definition player_up :: "site \<Rightarrow> string \<Rightarrow> int \<Rightarrow> client \<Rightarrow> bool" where
  "player_up e ip port s \<longleftrightarrow> sock_ok e (next_fd s) \<and> dial_ok e (next_fd s) ip port \<and> obliging s (next_fd s)
     \<and> sent (net s) (next_fd s) = [] \<and> writes_to s (next_fd s) = None"

definition joined :: "string \<Rightarrow> int \<Rightarrow> client \<Rightarrow> client" where
  "joined ip port s = s\<lparr>next_fd := next_fd s + 1, open_fds := next_fd s # open_fds s,
     peers := peers s @ [(next_fd s, ip, port)]\<rparr>"

lemma player_up_joins:
  assumes "player_up e ip port s"
  shows "\<exists>u. new_socket e s = (next_fd s, u) \<and> dial_to e (next_fd s) ip port u = (True, joined ip port s)"
  using assms by (simp add: player_up_def new_socket_def dial_to_def obliging_def joined_def Let_def)

lemma joined_fields [simp]:
  "net (joined ip port s) = net s" "files (joined ip port s) = files s" "writes_to (joined ip port s) = writes_to s"
  "next_fd (joined ip port s) = next_fd s + 1" "open_fds (joined ip port s) = next_fd s # open_fds s"
  "peers (joined ip port s) = peers s @ [(next_fd s, ip, port)]" "html (joined ip port s) = html s"
  "hung_up (joined ip port s) = hung_up s" "obliging (joined ip port s) x = obliging s x"
  by (simp_all add: joined_def obliging_def)

lemma get_file_copies:
  assumes up: "player_up e ip (atoi port) s" and "open_ok e clipath" and "obliging s (next_fd s + 1)"
    and ev: "events (net s) (next_fd s) = Piece c cs # es" "length cs < 1024" "\<not> failing False es"
  shows "\<exists>t. get_file e clipath serpath (Some ip) port s = Some (Inr (1, t))
    \<and> files t = (files s)(clipath := Some (arriving es)) \<and> sent (net t) (next_fd s) = literal ''get'' @ serpath
    \<and> peers t = peers s @ [(next_fd s, ip, atoi port)] \<and> open_fds t = open_fds s \<and> html t = html s
    \<and> next_fd t = next_fd s + 2"
proof -
  define fd where "fd = next_fd s"
  obtain u where u: "new_socket e s = (fd, u)" "dial_to e fd ip (atoi port) u = (True, joined ip (atoi port) s)"
    using player_up_joins [OF up] by (auto simp: fd_def)
  have fd: "0 \<le> fd" "obliging s fd" "sent (net s) fd = []" "writes_to s fd = None"
    using up by (simp_all add: player_up_def fd_def obliging_def)
  define s1 where "s1 = received fd (literal ''get'') (joined ip (atoi port) s)"
  define s2 where "s2 = received fd serpath (eaten fd es s1)"
  have s1: "Put fd (literal ''get'') (joined ip (atoi port) s) = Inr s1" using fd by (simp add: s1_def Put_obliging)
  have r: "Recv fd 1024 (stack_buf e) s1 = (overlay (c # cs) (stack_buf e), eaten fd es s1)"
    by (rule Recv_first) (use fd ev in \<open>simp_all add: s1_def fd_def\<close>)
  have s2: "put fd serpath (eaten fd es s1) = Inr s2" using fd by (simp add: s2_def s1_def put_obliging)
  define s3 where "s3 = s2\<lparr>next_fd := fd + 2, open_fds := (fd + 1) # open_fds s2,
    writes_to := (writes_to s2)(fd + 1 := Some clipath), files := (files s2)(clipath := Some [])\<rparr>"
  have s3: "open_write e clipath s2 = (fd + 1, s3)"
    using assms(2) by (simp add: open_write_def s3_def s2_def s1_def Let_def fd_def)
  have c: "copy_loop fd (fd + 1) s3 = Some (Inr (drained fd (received (fd + 1) (input (net s3) fd) s3)))"
  proof (rule copy_loop_copies)
    show "\<not> input_fails (net s3) fd" using fd ev by (simp add: s3_def s2_def s1_def obliging_def)
    show "obliging s3 (fd + 1)" using assms(3) by (simp add: s3_def s2_def s1_def obliging_def fd_def)
    show "backed s3 (fd + 1)" by (simp add: s3_def backed_def)
  qed (use fd in simp)
  define t where "t = close_fd fd (close_fd (fd + 1) (drained fd (received (fd + 1) (input (net s3) fd) s3)))"
  have "get_file e clipath serpath (Some ip) port s = Some (Inr (1, t))"
    using fd c by (simp add: get_file_def u s1 r s2 s3 t_def)
  moreover have "input (net s3) fd = arriving es" by (simp add: s3_def s2_def)
  then have "files t = (files s)(clipath := Some (arriving es))"
    using fd by (simp add: t_def close_fd_def drained_eaten received_def s3_def s2_def s1_def)
  moreover have "sent (net t) fd = literal ''get'' @ serpath"
    using fd by (simp add: t_def close_fd_def drained_eaten s3_def s2_def s1_def)
  moreover have "peers t = peers s @ [(fd, ip, atoi port)]" "open_fds t = open_fds s" "html t = html s" "next_fd t = fd + 2"
    by (simp_all add: t_def close_fd_def drained_eaten s3_def s2_def s1_def fd_def)
  ultimately show ?thesis by (simp add: fd_def)
qed

subsection \<open>One line of the play list\<close>

definition written :: "string \<Rightarrow> nat \<Rightarrow> string \<Rightarrow> string" where
  "written l i str = (if l = [] then str else take i str @ l @ [NUL] @ drop (i + length l + 1) str)"

lemma written_step:
  assumes "length str = 258" and "i + length l + 1 < 258"
  shows "written l (i + 1) (str[i := c, i + 1 := NUL]) = written (c # l) i str"
proof -
  have eq: "str[i := c, i + 1 := NUL] = take i str @ c # NUL # drop (i + 2) str"
    using assms by (simp add: upd_conv_take_nth_drop take_Suc_conv_app_nth drop_update_swap nth_append list_update_append)
  moreover have "take (i + 1) (str[i := c, i + 1 := NUL]) = take i str @ [c]"
    unfolding eq using assms by simp
  moreover have "i + 2 \<le> length str" using assms by simp
  then have "drop (i + 1 + length l + 1) (take i str @ c # NUL # drop (i + 2) str) = drop (i + length l + 2) str" if "l \<noteq> []"
    using that by (cases l) (auto simp: min_def add.commute eval_nat_numeral)
  ultimately show ?thesis by (simp add: written_def)
qed

text \<open>Lines before the wanted one are counted.\<close>

lemma line_scan_skips:
  "\<lbrakk>newline \<notin> set l; count < line\<rbrakk> \<Longrightarrow>
   line_scan (l @ newline # r) line (count, i, str) = line_scan r line (count + 1, i, str)"
  by (induction l) (auto simp: line_char_def)

lemma line_scan_skips_all:
  "\<lbrakk>\<forall>l\<in>set ls. newline \<notin> set l; count + int (length ls) \<le> line\<rbrakk> \<Longrightarrow>
   line_scan (concat (map (\<lambda>l. l @ [newline]) ls) @ r) line (count, i, str)
   = line_scan r line (count + int (length ls), i, str)"
proof (induction ls arbitrary: count)
  case (Cons l ls)
  then have "line_scan (l @ newline # (concat (map (\<lambda>l. l @ [newline]) ls) @ r)) line (count, i, str)
      = line_scan (concat (map (\<lambda>l. l @ [newline]) ls) @ r) line (count + 1, i, str)"
    by (intro line_scan_skips) auto
  also have "\<dots> = line_scan r line (count + 1 + int (length ls), i, str)"
    by (rule Cons.IH) (use Cons.prems in auto)
  finally show ?case by (simp add: algebra_simps)
qed simp

lemma line_scan_reads:
  "\<lbrakk>newline \<notin> set l; length str = 258; i + length l < 258\<rbrakk> \<Longrightarrow>
   line_scan (l @ newline # r) line (line, i, str) = Inr (line + 1, i + length l, written l i str)"
proof (induction l arbitrary: i str)
  case (Cons c l)
  have "line_scan (l @ newline # r) line (line, i + 1, str[i := c, i + 1 := NUL])
      = Inr (line + 1, i + 1 + length l, written l (i + 1) (str[i := c, i + 1 := NUL]))"
    by (rule Cons.IH) (use Cons.prems in auto)
  moreover have "written l (i + 1) (str[i := c, i + 1 := NUL]) = written (c # l) i str"
    by (rule written_step) (use Cons.prems in auto)
  ultimately show ?case using Cons.prems by (auto simp: line_char_def)
qed (simp add: line_char_def written_def)

lemma line_scan_ends:
  "\<lbrakk>newline \<notin> set l; i + length l + 1 < 258\<rbrakk> \<Longrightarrow>
   \<exists>i' str'. line_scan l line (line, i, str) = Inr (line, i', str')"
proof (induction l arbitrary: i str)
  case Nil
  then show ?case by (simp add: line_char_def newline_def)
next
  case (Cons c l)
  then have "\<exists>i' str'. line_scan l line (line, i + 1, str[i := c, i + 1 := NUL]) = Inr (line, i', str')"
    by (intro Cons.IH) auto
  then show ?case using Cons.prems by (auto simp: line_char_def)
qed

text \<open>The name behind the last slash.\<close>

definition basename :: "string \<Rightarrow> string" where
  "basename l = rev (takeWhile (\<lambda>c. c \<noteq> CHR ''/'') (rev l))"

lemma basename_split:
  assumes "CHR ''/'' \<in> set l"
  obtains a where "l = a @ CHR ''/'' # basename l" "CHR ''/'' \<notin> set (basename l)"
proof -
  let ?t = "takeWhile (\<lambda>c. c \<noteq> CHR ''/'') (rev l)" and ?d = "dropWhile (\<lambda>c. c \<noteq> CHR ''/'') (rev l)"
  have "?d \<noteq> []" using assms by (simp add: dropWhile_eq_Nil_conv)
  then obtain x y where d: "?d = x # y" by (cases ?d) auto
  then have "x = CHR ''/''" using hd_dropWhile [OF \<open>?d \<noteq> []\<close>] by simp
  then have "rev l = ?t @ CHR ''/'' # y" using takeWhile_dropWhile_id [of "\<lambda>c. c \<noteq> CHR ''/''" "rev l"] d by simp
  then have "l = rev y @ CHR ''/'' # basename l" by (metis append.assoc append_Cons append_Nil basename_def rev.simps(2) rev_append rev_rev_ident)
  moreover have "CHR ''/'' \<notin> set (basename l)" by (auto simp: basename_def dest: set_takeWhileD)
  ultimately show thesis using that by blast
qed

lemma slash_before_finds:
  "\<lbrakk>k \<le> i; str ! k = CHR ''/''; \<forall>m. k < m \<and> m \<le> i \<longrightarrow> str ! m \<noteq> CHR ''/''\<rbrakk> \<Longrightarrow> slash_before str i = Some k"
proof (induction i)
  case (Suc i)
  show ?case
  proof (cases "k = Suc i")
    case True
    then show ?thesis using Suc.prems by simp
  next
    case False
    then have "slash_before str i = Some k" using Suc by simp
    moreover have "str ! Suc i \<noteq> CHR ''/''" using Suc.prems False by auto
    ultimately show ?thesis by simp
  qed
qed simp

lemma copy_name_copies:
  "\<lbrakk>NUL \<notin> set b; k + length b \<le> length buf\<rbrakk> \<Longrightarrow>
   copy_name (p @ b @ NUL # r) (length p) k buf = Inr (take k buf @ b @ drop (k + length b) buf)"
proof (induction b arbitrary: p k buf)
  case Nil
  then show ?case by (simp add: copy_name.simps [of "p @ NUL # r"])
next
  case (Cons c b)
  have "copy_name (p @ (c # b) @ NUL # r) (length p) k buf
      = copy_name ((p @ [c]) @ b @ NUL # r) (length (p @ [c])) (k + 1) (buf[k := c])"
    by (subst copy_name.simps) (use Cons.prems in \<open>auto simp: nth_append\<close>)
  also have "\<dots> = Inr (take (k + 1) (buf[k := c]) @ b @ drop (k + 1 + length b) (buf[k := c]))"
    by (rule Cons.IH) (use Cons.prems in auto)
  also have "take (k + 1) (buf[k := c]) = take k buf @ [c]"
    using Cons.prems by (simp add: take_Suc_conv_app_nth)
  finally show ?case using Cons.prems by simp
qed

text \<open>A complete line that fits, and has a slash.\<close>

definition line_ok :: "string \<Rightarrow> bool" where
  "line_ok l \<longleftrightarrow> newline \<notin> set l \<and> NUL \<notin> set l \<and> CHR ''/'' \<in> set l \<and> length l < 258 \<and> length (basename l) < 256"

definition play_list :: "string list \<Rightarrow> string \<Rightarrow> string" where
  "play_list ls tail = concat (map (\<lambda>l. l @ [newline]) ls) @ tail"

definition one_more_open :: "client \<Rightarrow> client" where
  "one_more_open s = s\<lparr>next_fd := next_fd s + 1, open_fds := next_fd s # open_fds s\<rparr>"

lemma my_readline_reads:
  assumes "files s f = Some (play_list ls tail)" and "\<forall>l\<in>set ls. line_ok l" and "n < length ls"
    and "length (stack_str e) = 258" and "length buf = 256" and "length (open_fds s) < max_files e"
  shows "my_readline e f buf (int n + 1) s = Inr (1, overlay (basename (ls ! n)) buf, one_more_open s)"
proof -
  define l where "l = ls ! n"
  have l: "line_ok l" using assms(2,3) by (simp add: l_def)
  define st where "st = stack_str e"
  have "ls = take n ls @ l # drop (Suc n) ls" using assms(3) by (simp add: l_def id_take_nth_drop)
  then have "play_list ls tail = concat (map (\<lambda>l. l @ [newline]) (take n ls @ l # drop (Suc n) ls)) @ tail"
    unfolding play_list_def by (rule subst) simp
  then have c: "play_list ls tail
      = concat (map (\<lambda>l. l @ [newline]) (take n ls)) @ (l @ newline # (concat (map (\<lambda>l. l @ [newline]) (drop (Suc n) ls)) @ tail))"
    by simp
  have "line_scan (play_list ls tail) (int n + 1) (1, 0, st)
      = line_scan (l @ newline # (concat (map (\<lambda>l. l @ [newline]) (drop (Suc n) ls)) @ tail)) (int n + 1)
          (1 + int (length (take n ls)), 0, st)"
    unfolding c by (rule line_scan_skips_all) (use assms(2,3) in \<open>auto simp: line_ok_def dest: in_set_takeD\<close>)
  also have "\<dots> = Inr (int n + 1 + 1, length l, written l 0 st)"
    using line_scan_reads [of l st 0 _ "int n + 1"] l assms(3,4) by (simp add: line_ok_def st_def add.commute)
  finally have scan: "line_scan (play_list ls tail) (int n + 1) (1, 0, st) = Inr (int n + 2, length l, written l 0 st)"
    by simp
  obtain a where a: "l = a @ CHR ''/'' # basename l" "CHR ''/'' \<notin> set (basename l)"
    using basename_split l by (auto simp: line_ok_def)
  define b where "b = basename l"
  define r where "r = drop (length l + 1) st"
  have w: "written l 0 st = (a @ [CHR ''/'']) @ b @ NUL # r"
    using a(1) by (cases "l = []") (simp_all add: written_def b_def r_def)
  have len: "length l = length a + 1 + length b" using arg_cong [OF a(1), of length] by (simp add: b_def)
  have "slash_before (written l 0 st) (length l) = Some (length a)"
  proof (rule slash_before_finds)
    show "\<forall>m. length a < m \<and> m \<le> length l \<longrightarrow> written l 0 st ! m \<noteq> CHR ''/''"
    proof (intro allI impI)
      fix m
      assume m: "length a < m \<and> m \<le> length l"
      then have "written l 0 st ! m = (b @ [NUL]) ! (m - length a - 1)"
        using len by (simp add: w nth_append)
      moreover have "(b @ [NUL]) ! (m - length a - 1) \<in> set (b @ [NUL])" using m len by (intro nth_mem) auto
      ultimately show "written l 0 st ! m \<noteq> CHR ''/''" using a(2) by (auto simp: b_def NUL_def)
    qed
  qed (use len in \<open>simp_all add: w nth_append\<close>)
  moreover have "copy_name (written l 0 st) (length a + 1) 0 buf = Inr (overlay b buf)"
  proof -
    have "NUL \<notin> set b" using l a(1) by (metis Un_iff b_def line_ok_def list.set_intros(2) set_append)
    then show ?thesis
      using copy_name_copies [of b 0 buf "a @ [CHR ''/'']" r] l assms(5) by (simp add: w overlay_def line_ok_def b_def)
  qed
  ultimately show ?thesis
    using assms(1,6) scan by (simp add: my_readline_def one_more_open_def st_def l_def b_def)
qed

lemma my_readline_ends:
  assumes "files s f = Some (play_list ls tail)" and "\<forall>l\<in>set ls. line_ok l"
    and "newline \<notin> set tail" and "length tail < 257" and "length (open_fds s) < max_files e"
  shows "my_readline e f buf (int (length ls) + 1) s = Inr (- 1, buf, one_more_open s)"
proof -
  have "line_scan (play_list ls tail) (int (length ls) + 1) (1, 0, stack_str e)
      = line_scan tail (int (length ls) + 1) (1 + int (length ls), 0, stack_str e)"
    unfolding play_list_def by (rule line_scan_skips_all) (use assms(2) in \<open>auto simp: line_ok_def\<close>)
  moreover obtain i str where
    "line_scan tail (int (length ls) + 1) (int (length ls) + 1, 0, stack_str e) = Inr (int (length ls) + 1, i, str)"
    using line_scan_ends [of tail 0] assms(3,4) by fastforce
  ultimately show ?thesis
    using assms(1,5) by (simp add: my_readline_def one_more_open_def add.commute)
qed

subsection \<open>The rows of the page\<close>

text \<open>
  The array \<open>buf\<close> keeps the text \<open>T\<close> of the row before, of which only the first character is reset: a
  shorter name is followed by the end of the longer one.
\<close>

definition row_memory :: "string \<Rightarrow> string" where
  "row_memory T = (if T = [] then replicate 256 NUL else NUL # tl T @ replicate (256 - length T) NUL)"

fun shown :: "string \<Rightarrow> string list \<Rightarrow> string list" where
  "shown T [] = []"
| "shown T (b # bs) =
     (let T = b @ drop (length b) T in (if b = [] then [] else T) # shown T bs)"

lemma shown_growing:
  "\<lbrakk>sorted (map length bs); [] \<notin> set bs; \<forall>b\<in>set bs. length T \<le> length b\<rbrakk> \<Longrightarrow> shown T bs = bs"
  by (induction bs arbitrary: T) (auto simp: Let_def)

lemma row_step:
  assumes "length T < 256" and "NUL \<notin> set T" and "length b < 256" and "NUL \<notin> set b"
    and "T' = b @ drop (length b) T"
  shows "length (row_memory T) = 256"
    and "c_string (overlay b (row_memory T)) = Some (if b = [] then [] else T')"
    and "(overlay b (row_memory T))[0 := NUL] = row_memory T'"
    and "length T' < 256" and "NUL \<notin> set T'"
proof -
  show len: "length (row_memory T) = 256" using assms(1) by (cases T) (simp_all add: row_memory_def)
  show T': "length T' < 256" "NUL \<notin> set T'" using assms by (auto dest: in_set_dropD)
  have "c_string (overlay b (row_memory T)) = Some (if b = [] then [] else T')
      \<and> (overlay b (row_memory T))[0 := NUL] = row_memory T'"
  proof (cases "b = []")
    case True
    have "replicate 256 NUL = NUL # replicate 255 NUL" by (simp flip: replicate_Suc)
    then have "row_memory T = NUL # tl (row_memory T)" by (cases T) (simp_all add: row_memory_def)
    then have "overlay b (row_memory T) = NUL # tl (row_memory T)" using True by (simp add: overlay_def)
    then show ?thesis using True assms(5) by (simp add: c_string_def) (simp add: \<open>row_memory T = _\<close> [symmetric])
  next
    case False
    then obtain c b' where b: "b = c # b'" by (cases b) auto
    have "drop (length b) (row_memory T) = drop (length b) T @ replicate (256 - length T') NUL"
      using assms(3,5) b by (cases T) (auto simp: row_memory_def drop_Cons' min_def)
    then have o: "overlay b (row_memory T) = T' @ replicate (256 - length T') NUL"
      using assms(5) by (simp add: overlay_def)
    have "takeWhile (\<lambda>x. x \<noteq> NUL) (T' @ replicate (256 - length T') NUL) = T'"
      using T'(2) by (subst takeWhile_append2) auto
    then have "c_string (overlay b (row_memory T)) = Some T'"
      using T'(1) by (simp add: c_string_def o)
    moreover have "(overlay b (row_memory T))[0 := NUL] = row_memory T'"
      unfolding o using b assms(5) by (simp add: row_memory_def)
    ultimately show ?thesis using False by simp
  qed
  then show "c_string (overlay b (row_memory T)) = Some (if b = [] then [] else T')"
    "(overlay b (row_memory T))[0 := NUL] = row_memory T'" by blast+
qed

lemma one_more_open_fields [simp]:
  "files (one_more_open s) = files s" "open_fds (one_more_open s) = next_fd s # open_fds s"
  "html (one_more_open s) = html s" "net (one_more_open s) = net s" "peers (one_more_open s) = peers s"
  by (simp_all add: one_more_open_def)

lemma list_rows_prints:
  assumes "files s ''playlist'' = Some (play_list ls tail)" and "\<forall>l\<in>set ls. line_ok l"
    and "newline \<notin> set tail" and "length tail < 257" and "length (stack_str e) = 258"
    and "n \<le> length ls" and "length T < 256" and "NUL \<notin> set T"
  shows "if length (open_fds s) + (length ls - n) < max_files e
    then \<exists>t. list_rows e (row_memory T) (int n + 1) s = Some (Inr t)
       \<and> html t = html s @ map Row (shown T (map basename (drop n ls))) \<and> net t = net s \<and> peers t = peers s
    else list_rows e (row_memory T) (int n + 1) s = Some (Inl (Exits 0))"
  using assms
proof (induction "length ls - n" arbitrary: n T s)
  case 0
  then have n: "n = length ls" by simp
  show ?case
  proof (cases "length (open_fds s) < max_files e")
    case True
    have "my_readline e ''playlist'' (row_memory T) (int n + 1) s = Inr (- 1, row_memory T, one_more_open s)"
      unfolding n by (rule my_readline_ends) (use 0 True in auto)
    then have "list_rows e (row_memory T) (int n + 1) s = Some (Inr (one_more_open s))"
      by (simp add: list_rows.simps [of e "row_memory T"])
    then show ?thesis using True n by simp
  next
    case False
    then show ?thesis using n 0(2) by (simp add: list_rows.simps [of e "row_memory T"] my_readline_def)
  qed
next
  case (Suc k)
  then have n: "n < length ls" by simp
  define b where "b = basename (ls ! n)"
  define T' where "T' = b @ drop (length b) T"
  have l: "line_ok (ls ! n)" using Suc.prems(2) n by simp
  have b: "length b < 256" "NUL \<notin> set b"
    using l by (auto simp: line_ok_def b_def basename_def dest: set_takeWhileD)
  note step = row_step [OF Suc.prems(7,8) b T'_def]
  have drop: "map basename (drop n ls) = b # map basename (drop (Suc n) ls)"
    using n by (simp add: b_def Cons_nth_drop_Suc [symmetric])
  show ?case
  proof (cases "length (open_fds s) < max_files e")
    case True
    have r: "my_readline e ''playlist'' (row_memory T) (int n + 1) s = Inr (1, overlay b (row_memory T), one_more_open s)"
      unfolding b_def by (rule my_readline_reads) (use Suc.prems n step(1) True in auto)
    define u where "u = say (Row (if b = [] then [] else T')) (one_more_open s)"
    have "list_rows e (row_memory T) (int n + 1) s = list_rows e (row_memory T') (int (Suc n) + 1) u"
      using r step(2,3) by (simp add: list_rows.simps [of e "row_memory T"] u_def algebra_simps)
    moreover have "if length (open_fds u) + (length ls - Suc n) < max_files e
      then \<exists>t. list_rows e (row_memory T') (int (Suc n) + 1) u = Some (Inr t)
         \<and> html t = html u @ map Row (shown T' (map basename (drop (Suc n) ls))) \<and> net t = net u \<and> peers t = peers u
      else list_rows e (row_memory T') (int (Suc n) + 1) u = Some (Inl (Exits 0))"
      by (rule Suc.hyps(1)) (use Suc.hyps(2) Suc.prems step n in \<open>auto simp: u_def\<close>)
    moreover have "length (open_fds u) + (length ls - Suc n) = length (open_fds s) + (length ls - n)"
      using n by (simp add: u_def)
    moreover have "html u @ map Row (shown T' (map basename (drop (Suc n) ls)))
        = html s @ map Row (shown T (map basename (drop n ls)))" "net u = net s" "peers u = peers s"
      by (simp_all add: u_def drop Let_def T'_def)
    ultimately show ?thesis by (simp only:)
  next
    case False
    then show ?thesis using Suc.prems(1) by (simp add: list_rows.simps [of e "row_memory T"] my_readline_def)
  qed
qed

subsection \<open>The pages\<close>


text \<open>
  C22: The page of \<open>load.c\<close> sends the name of the file only to a player that asks for a path, then
  the contents of the file, whatever pieces it is read in, to one that answers \<open>OK\<close>. To
  any other answer no contents are sent, and the page reports success all the same.
\<close>

theorem load_page_sends:
  assumes "form ''xuanqu'' \<noteq> None" and ip: "form ''ip'' = Some ip" and "19 + length name < 256"
    and up: "player_up e ip 8000 s"
    and ev: "events (net s) (next_fd s) = Piece p ps # Piece q qs # es" "length ps < 1024" "length qs < 1024"
    and ok: "strncmp_0 (p # ps) (literal ''path'') 4" "NUL \<in> set (q # qs)"
    and source: "open_ok e (''/var/httpd/cgi-bin/'' @ name)" "\<not> input_fails (net s) (next_fd s + 1)"
  shows "\<exists>t. load_page e form (Some (name # rest)) s = Some (Inr t)
    \<and> sent (net t) (next_fd s) = literal ''tans'' @ ''/opt/OAK/resources/'' @ name
        @ (if strncmp_0 (literal ''OK'') (q # qs) 2 then input (net s) (next_fd s + 1) else [])
    \<and> peers t = peers s @ [(next_fd s, ip, 8000)] \<and> last (html t) = Uploaded"
proof -
  define fd where "fd = next_fd s"
  define path where "path = ''/opt/OAK/resources/'' @ name"
  have port: "atoi ''8000'' = 8000" by (simp add: atoi_def)
  obtain u where u: "new_socket e s = (fd, u)" "dial_to e fd ip 8000 u = (True, joined ip 8000 s)"
    using player_up_joins [OF up] by (auto simp: fd_def)
  have fd: "0 \<le> fd" "obliging s fd" "sent (net s) fd = []" "writes_to s fd = None"
    using up by (simp_all add: player_up_def fd_def obliging_def)
  define s1 where "s1 = received fd (literal ''tans'') (joined ip 8000 s)"
  define s2 where "s2 = say (Note ''will begin get file'') (received fd path (eaten fd (Piece q qs # es) s1))"
  define s3 where "s3 = eaten fd es s2"
  have s1: "put fd (literal ''tans'') (joined ip 8000 s) = Inr s1" using fd by (simp add: s1_def put_obliging)
  have r1: "recv fd 1024 (stack_buf e) s1 = (overlay (p # ps) (stack_buf e), eaten fd (Piece q qs # es) s1)"
    by (rule recv_first) (use fd ev in \<open>simp_all add: s1_def fd_def\<close>)
  have s2: "Put fd path (eaten fd (Piece q qs # es) s1) = Inr (received fd path (eaten fd (Piece q qs # es) s1))"
    using fd by (simp add: s1_def Put_obliging)
  have r2: "recv fd 1024 m s2 = (overlay (q # qs) m, s3)" for m
    unfolding s3_def by (rule recv_first) (use fd ev in \<open>simp_all add: s2_def\<close>)
  have path_ok: "strncmp_0 (overlay (p # ps) m) (literal ''path'') 4" for m
    using strncmp_0_append [OF ok(1)] by (simp add: overlay_def)
  have two: "strncmp_0 (literal ''OK'') (overlay (q # qs) m) 2 = strncmp_0 (literal ''OK'') (q # qs) 2" for m
  proof (cases qs)
    case Nil
    then have "q = NUL" using ok(2) by simp
    then show ?thesis using Nil by (simp add: overlay_def literal_def NUL_def numeral_2_eq_2)
  next
    case (Cons q' qs')
    then show ?thesis by (simp add: overlay_def literal_def numeral_2_eq_2)
  qed
  have "NUL \<in> set (overlay (q # qs) m)" for m using ok(2) by (auto simp: overlay_def)
  then have str: "\<exists>reply. c_string (overlay (q # qs) m) = Some reply" for m by (simp add: c_string_def)
  show ?thesis
  proof (cases "strncmp_0 (literal ''OK'') (q # qs) 2")
    case True
    define m where "m = overlay (p # ps) (stack_buf e)"
    obtain reply where reply: "c_string (overlay (q # qs) m) = Some reply" using str by blast
    define s4 where "s4 = (say (Note (''recive '' @ reply @ '' will trans file'')) s3)
      \<lparr>next_fd := fd + 2, open_fds := (fd + 1) # open_fds s3\<rparr>"
    have s4: "open_read e (''/var/httpd/cgi-bin/'' @ name) (say (Note (''recive '' @ reply @ '' will trans file'')) s3) = (fd + 1, s4)"
      using source(1) by (simp add: open_read_def s4_def s3_def s2_def s1_def Let_def fd_def)
    have c: "copy_loop (fd + 1) fd s4 = Some (Inr (drained (fd + 1) (received fd (input (net s4) (fd + 1)) s4)))"
    proof (rule copy_loop_copies)
      show "\<not> input_fails (net s4) (fd + 1)" using source(2) by (simp add: s4_def s3_def s2_def s1_def fd_def)
      show "obliging s4 fd" using fd by (simp add: s4_def s3_def s2_def s1_def obliging_def)
      show "backed s4 fd" using fd by (simp add: s4_def s3_def s2_def s1_def backed_def)
    qed (use fd in simp)
    have i: "input (net s4) (fd + 1) = input (net s) (fd + 1)" by (simp add: s4_def s3_def s2_def s1_def)
    define t where "t = say Uploaded (close_fd fd (close_fd (fd + 1) (say (Note ''tranfer end'')
      (drained (fd + 1) (received fd (input (net s4) (fd + 1)) s4)))))"
    have "up_file e (''/var/httpd/cgi-bin/'' @ name) path (Some ip) ''8000'' s
        = Some (Inr (1, close_fd fd (close_fd (fd + 1) (say (Note ''tranfer end'')
            (drained (fd + 1) (received fd (input (net s4) (fd + 1)) s4))))))"
      using fd by (simp add: up_file_def u port s1 r1 path_ok s2 s2_def [symmetric] r2 two True reply [unfolded m_def] s4 [simplified] c)
    then have "load_page e form (Some (name # rest)) s = Some (Inr t)"
      using assms(1,3) ip by (simp add: load_page_def path_def t_def)
    moreover have "sent (net t) fd = literal ''tans'' @ path @ input (net s) (fd + 1)"
      using fd i by (simp add: t_def close_fd_def drained_eaten s4_def s3_def s2_def s1_def)
    moreover have "peers t = peers s @ [(fd, ip, 8000)]" "last (html t) = Uploaded"
      by (simp_all add: t_def close_fd_def drained_eaten s4_def s3_def s2_def s1_def fd_def)
    ultimately show ?thesis using True by (simp add: fd_def path_def)
  next
    case False
    define t where "t = say Uploaded (close_fd fd (close_fd (stack_ofd e) (say (Note ''unknow cmd!'') s3)))"
    have "up_file e (''/var/httpd/cgi-bin/'' @ name) path (Some ip) ''8000'' s
        = Some (Inr (1, close_fd fd (close_fd (stack_ofd e) (say (Note ''unknow cmd!'') s3))))"
      by (simp add: up_file_def u port s1 r1 path_ok s2 s2_def [symmetric] r2 two False)
    then have "load_page e form (Some (name # rest)) s = Some (Inr t)"
      using assms(1,3) ip by (simp add: load_page_def path_def t_def)
    moreover have "sent (net t) fd = literal ''tans'' @ path" "peers t = peers s @ [(fd, ip, 8000)]" "last (html t) = Uploaded"
      using fd by (simp_all add: t_def close_fd_def s3_def s2_def s1_def fd_def)
    ultimately show ?thesis using False by (simp add: fd_def path_def)
  qed
qed

text \<open>
  C40: The results of \<open>socket\<close> and \<open>connect\<close> are ignored by \<open>get_file\<close>. When the connection is refused its
  first \<open>Write\<close>, to a socket that is not connected, raises SIGPIPE, whose default action ends the process, before
  the local file is touched. When not even a socket is granted and the local file opens, the copy loop
  takes the failure of every \<open>read\<close> for data and the call never returns.
\<close>

theorem get_file_without_connection:
  assumes "0 \<le> next_fd s"
  shows "(sock_ok e (next_fd s) \<and> \<not> dial_ok e (next_fd s) ip (atoi port) \<longrightarrow>
      get_file e clipath serpath (Some ip) port s = Some (Inl Killed))
    \<and> (\<not> sock_ok e (next_fd s) \<and> open_ok e clipath \<longrightarrow> get_file e clipath serpath (Some ip) port s = None)"
proof (intro conjI impI)
  assume a: "sock_ok e (next_fd s) \<and> \<not> dial_ok e (next_fd s) ip (atoi port)"
  obtain u where u: "new_socket e s = (next_fd s, u)" using a by (simp add: new_socket_def Let_def)
  obtain v where v: "dial_to e (next_fd s) ip (atoi port) u = (False, v)" "hung_up v (next_fd s)"
    using a by (simp add: dial_to_def)
  show "get_file e clipath serpath (Some ip) port s = Some (Inl Killed)"
    using assms v(2) by (simp add: get_file_def u v(1) Put_def)
next
  assume a: "\<not> sock_ok e (next_fd s) \<and> open_ok e clipath"
  obtain u where u: "new_socket e s = (- 1, u)" "next_fd u = next_fd s + 1" using a by (simp add: new_socket_def Let_def)
  obtain v where v: "dial_to e (- 1) ip (atoi port) u = (False, v)" "next_fd v = next_fd s + 1"
    using u(2) by (simp add: dial_to_def)
  obtain p where p: "Put (- 1) (literal ''get'') v = Inr p" "next_fd p = next_fd v" using put_none(2) [of "- 1"] by auto
  obtain m w where w: "Recv (- 1) 1024 (stack_buf e) p = (m, w)" by fastforce
  obtain q where q: "put (- 1) serpath w = Inr q" "next_fd q = next_fd w" using put_none(1) [of "- 1"] by auto
  have "next_fd q = next_fd s + 1" using Recv_keeps(2) [OF w] v(2) p(2) q(2) by simp
  then obtain x where x: "open_write e clipath q = (next_fd s + 1, x)"
    using a by (simp add: open_write_def Let_def)
  have "copy_loop (- 1) (next_fd s + 1) x = None"
  proof (cases "copy_loop (- 1) (next_fd s + 1) x")
    case (Some r)
    then show ?thesis using copy_loop_returns [OF Some] by simp
  qed simp
  then show "get_file e clipath serpath (Some ip) port s = None"
    using assms by (simp add: get_file_def u(1) v(1) p(1) w q(1) x)
qed

subsection \<open>The page of the player\<close>

text \<open>Every socket from now on is granted, connects, takes what it is given and can be closed.\<close>

definition all_up :: "site \<Rightarrow> string \<Rightarrow> client \<Rightarrow> bool" where
  "all_up e ip s \<longleftrightarrow> (\<forall>fd\<ge>next_fd s. sock_ok e fd \<and> dial_ok e fd ip SERV_PORT \<and> close_ok e fd \<and> obliging s fd
     \<and> sent (net s) fd = [] \<and> writes_to s fd = None)"

lemma all_up_player: "all_up e ip s \<Longrightarrow> player_up e ip SERV_PORT s \<and> close_ok e (next_fd s)"
  by (simp add: all_up_def player_up_def)

definition commanded :: "string \<Rightarrow> string \<Rightarrow> client \<Rightarrow> client" where
  "commanded ip command s =
     close_fd (next_fd s) (received (next_fd s) command (joined ip SERV_PORT s))"

definition player_commands :: "string set" where
  "player_commands = {''start'', ''pause'', ''disable_tv'', ''enable_tv''}"

text \<open>Which of its tests \<open>m_cntrl\<close> passes with which command.\<close>

lemma command_tests:
  "strncmp_0 (literal ''start'') (literal ''pause'') 6 = False"
  "strncmp_0 (literal ''start'') (literal ''start'') 5 = True"
  "strncmp_0 (literal ''start'') (literal ''disable_tv'') 10 = False"
  "strncmp_0 (literal ''start'') (literal ''enable_tv'') 9 = False"
  "strncmp_0 (literal ''start'') (literal ''getstat'') 7 = False"
  "strncmp_0 (literal ''pause'') (literal ''pause'') 6 = True"
  "strncmp_0 (literal ''pause'') (literal ''start'') 5 = False"
  "strncmp_0 (literal ''pause'') (literal ''disable_tv'') 10 = False"
  "strncmp_0 (literal ''pause'') (literal ''enable_tv'') 9 = False"
  "strncmp_0 (literal ''pause'') (literal ''getstat'') 7 = False"
  "strncmp_0 (literal ''disable_tv'') (literal ''pause'') 6 = False"
  "strncmp_0 (literal ''disable_tv'') (literal ''start'') 5 = False"
  "strncmp_0 (literal ''disable_tv'') (literal ''disable_tv'') 10 = True"
  "strncmp_0 (literal ''disable_tv'') (literal ''enable_tv'') 9 = False"
  "strncmp_0 (literal ''disable_tv'') (literal ''getstat'') 7 = False"
  "strncmp_0 (literal ''enable_tv'') (literal ''pause'') 6 = False"
  "strncmp_0 (literal ''enable_tv'') (literal ''start'') 5 = False"
  "strncmp_0 (literal ''enable_tv'') (literal ''disable_tv'') 10 = False"
  "strncmp_0 (literal ''enable_tv'') (literal ''enable_tv'') 9 = True"
  "strncmp_0 (literal ''enable_tv'') (literal ''getstat'') 7 = False"
  by code_simp+

lemma m_cntrl_commands:
  assumes "command \<in> player_commands" and "all_up e ip s"
  shows "m_cntrl e (literal command) (Some ip) s = Inr (1, literal command, commanded ip command s)"
proof -
  note up = all_up_player [OF assms(2)]
  define fd where "fd = next_fd s"
  obtain u where u: "new_socket e s = (fd, u)" "dial_to e fd ip SERV_PORT u = (True, joined ip SERV_PORT s)"
    using player_up_joins [OF up [THEN conjunct1]] by (auto simp: fd_def)
  have fd: "obliging s fd" "close_ok e fd" using up by (simp_all add: player_up_def fd_def)
  have str: "c_string (literal command) = Some command" if "NUL \<notin> set command"
    using that by (auto simp: c_string_def literal_def takeWhile_append)
  have ne: "NUL \<notin> set command" using assms(1) by (auto simp: player_commands_def NUL_def)
  have "echo_all [(''pause'', 6), (''start'', 5), (''disable_tv'', 10), (''enable_tv'', 9)] fd (literal command)
      (joined ip SERV_PORT s) = Inr (received fd command (joined ip SERV_PORT s))"
    using assms(1) fd str [OF ne]
    by (auto simp: player_commands_def echo_if_def command_tests Put_obliging)
  moreover have "\<not> strncmp_0 (literal command) (literal ''getstat'') 7"
    using assms(1) by (auto simp: player_commands_def command_tests)
  ultimately show ?thesis
    using fd(2) by (simp add: m_cntrl_def u Let_def commanded_def fd_def [symmetric])
qed

lemma commanded_fields [simp]:
  "events (net (commanded ip c s)) = events (net s)" "next_fd (commanded ip c s) = next_fd s + 1"
  "open_fds (commanded ip c s) = open_fds s" "html (commanded ip c s) = html s"
  "peers (commanded ip c s) = peers s @ [(next_fd s, ip, SERV_PORT)]" "broken (net (commanded ip c s)) = broken (net s)"
  "sent (net (commanded ip c s)) x = (if x = next_fd s then sent (net s) (next_fd s) @ c else sent (net s) x)"
  by (simp_all add: commanded_def close_fd_def)

lemma all_up_commanded: "all_up e ip s \<Longrightarrow> all_up e ip (commanded ip c s)"
  by (auto simp: all_up_def commanded_def close_fd_def obliging_def)

text \<open>What each of the connections made from now on is sent.\<close>

fun told :: "string \<Rightarrow> string list \<Rightarrow> client \<Rightarrow> client" where
  "told ip [] s = s"
| "told ip (c # cs) s = told ip cs (commanded ip c s)"

lemma told_facts:
  "all_up e ip s \<Longrightarrow> all_up e ip (told ip cs s) \<and> next_fd (told ip cs s) = next_fd s + int (length cs)
    \<and> events (net (told ip cs s)) = events (net s) \<and> open_fds (told ip cs s) = open_fds s \<and> html (told ip cs s) = html s
    \<and> peers (told ip cs s) = peers s @ map (\<lambda>k. (next_fd s + int k, ip, SERV_PORT)) [0..<length cs]
    \<and> (\<forall>x<next_fd s. sent (net (told ip cs s)) x = sent (net s) x)
    \<and> (\<forall>k<length cs. sent (net (told ip cs s)) (next_fd s + int k) = cs ! k)"
proof (induction cs arbitrary: s)
  case (Cons c cs)
  define u where "u = commanded ip c s"
  have u: "all_up e ip u" "next_fd u = next_fd s + 1" "sent (net s) (next_fd s) = []"
    using Cons.prems by (simp_all add: u_def all_up_commanded) (simp add: all_up_def)
  note IH = Cons.IH [OF u(1)]
  have "map (\<lambda>k. (next_fd s + int k, ip, SERV_PORT)) [0..<length (c # cs)]
      = (next_fd s, ip, SERV_PORT) # map (\<lambda>k. (next_fd u + int k, ip, SERV_PORT)) [0..<length cs]"
    by (simp add: u(2) upt_rec [of 0] map_Suc_upt [symmetric] comp_def add.assoc del: upt_Suc)
  moreover have "sent (net (told ip cs u)) (next_fd s + int k) = (c # cs) ! k" if "k < length (c # cs)" for k
  proof (cases k)
    case 0
    then show ?thesis using IH u by (simp add: u_def)
  next
    case (Suc j)
    then show ?thesis using IH u(2) that by (auto simp: add.assoc dest!: spec [of _ j])
  qed
  moreover have "\<forall>x<next_fd s. sent (net (told ip cs u)) x = sent (net s) x"
    using IH u(2) by (simp add: u_def)
  ultimately show ?case using IH u(2) by (simp add: u_def [symmetric]) (simp add: u_def)
qed simp

lemma button_actions_tell:
  assumes "all_up e ip s" and "form ''ip'' = Some ip" and "snd ` set bs \<subseteq> player_commands"
  shows "button_actions e form bs s = Inr (told ip (map snd (filter (\<lambda>b. form (fst b) \<noteq> None) bs)) s)"
  using assms(1,3)
proof (induction bs arbitrary: s)
  case (Cons b bs)
  obtain field command where b: "b = (field, command)" by fastforce
  show ?case
  proof (cases "form field = None")
    case True
    then show ?thesis using Cons b by (simp add: button_action_def)
  next
    case False
    then obtain v where v: "form field = Some v" by blast
    have "m_cntrl e (literal command) (Some ip) s = Inr (1, literal command, commanded ip command s)"
      by (rule m_cntrl_commands) (use Cons.prems b in auto)
    then have "button_action e form field command s = Inr (commanded ip command s)"
      using v assms(2) by (simp add: button_action_def)
    then show ?thesis using Cons.IH [OF all_up_commanded [OF Cons.prems(1)]] Cons.prems b False by simp
  qed
qed simp

lemma m_cntrl_status:
  assumes "all_up e ip s" and "events (net s) (next_fd s) = Piece c cs # es" "length cs < 80"
    and reply: "strncmp_0 (c # cs) (literal ''paused'') 6 \<or> strncmp_0 (c # cs) (literal ''playing'') 7"
  shows "m_cntrl e (literal ''getstat'' @ rest) (Some ip) s
    = Inr (1, overlay (c # cs) (literal ''getstat'' @ rest),
           eaten (next_fd s) es (received (next_fd s) ''getstat'' (joined ip SERV_PORT s)))"
proof -
  note up = all_up_player [OF assms(1)]
  define fd where "fd = next_fd s"
  obtain u where u: "new_socket e s = (fd, u)" "dial_to e fd ip SERV_PORT u = (True, joined ip SERV_PORT s)"
    using player_up_joins [OF up [THEN conjunct1]] by (auto simp: fd_def)
  have fd: "obliging s fd" "0 \<le> fd" using up by (simp_all add: player_up_def fd_def obliging_def)
  have asked: "strncmp_0 (literal ''getstat'' @ rest) (literal ''getstat'') 7"
    by (rule strncmp_0_append) (simp add: literal_def NUL_def eval_nat_numeral)
  have "c_string (literal ''getstat'' @ rest) = Some ''getstat''" by (simp add: c_string_def literal_def NUL_def)
  then have e: "echo_if ''getstat'' 7 fd (literal ''getstat'' @ rest) (joined ip SERV_PORT s)
      = Inr (received fd ''getstat'' (joined ip SERV_PORT s))"
    using asked fd(1) by (simp add: echo_if_def Put_obliging)
  have r: "Recv fd MAXLINE m (received fd ''getstat'' (joined ip SERV_PORT s))
      = (overlay (c # cs) m, eaten fd es (received fd ''getstat'' (joined ip SERV_PORT s)))" for m
    by (rule Recv_first) (use fd assms(2,3) in \<open>simp_all add: MAXLINE_def fd_def\<close>)
  have "strncmp_0 (overlay (c # cs) m) (literal ''paused'') 6 \<or> strncmp_0 (overlay (c # cs) m) (literal ''playing'') 7" for m
    using reply strncmp_0_append unfolding overlay_def by blast
  then show ?thesis by (auto simp: m_cntrl_def u Let_def asked e r fd_def [symmetric])
qed

text \<open>The first of the two tests of the answer is without effect.\<close>

lemma status_flags_pause:
  "status_flags m = (strncmp_0 m (literal ''pause'') 5, \<not> strncmp_0 m (literal ''pause'') 5)"
  by (simp add: status_flags_def)

lemma answer_prefix:
  assumes "strncmp_0 a (literal ''paused'') 6 \<or> strncmp_0 a (literal ''playing'') 7"
  shows "strncmp_0 (overlay a m) (literal ''pause'') 5 = strncmp_0 a (literal ''paused'') 6"
  using assms
proof
  assume p: "strncmp_0 a (literal ''paused'') 6"
  then have "strncmp_0 a (literal ''pause'') 5"
    by (cases a; simp add: literal_def NUL_def eval_nat_numeral)
       (auto simp: NUL_def elim!: strncmp_0.elims)
  then show ?thesis using p strncmp_0_append unfolding overlay_def by blast
next
  assume "strncmp_0 a (literal ''playing'') 7"
  then obtain b where "a = CHR ''p'' # CHR ''l'' # b"
    by (auto simp: literal_def NUL_def eval_nat_numeral elim!: strncmp_0.elims)
  then show ?thesis by (simp add: overlay_def literal_def eval_nat_numeral)
qed

text \<open>
  C19: The page of \<open>m_contrl.c\<close> sends each command whose button was pressed to the chosen player, in the
  order start, pause, black screen, normal screen, each on a connection of its own, then asks
  for the state; it offers to start exactly when the answer is \<open>paused\<close> and to pause when it is
  \<open>playing\<close>, with the name of the file, and leaves the last connection open.
\<close>

theorem m_contrl_page_follows_player:
  assumes "form ''ip'' = Some ip" and "length f < 100" and "all_up e ip s"
    and "commands = map snd (filter (\<lambda>b. form (fst b) \<noteq> None)
      [(''start'', ''start''), (''pause'', ''pause''), (''disabletv'', ''disable_tv''), (''enabletv'', ''enable_tv'')])"
    and "fd = next_fd s + int (length commands)"
    and ev: "events (net s) fd = Piece c cs # es" "length cs < 80"
    and reply: "strncmp_0 (c # cs) (literal ''paused'') 6 \<or> strncmp_0 (c # cs) (literal ''playing'') 7"
  shows "\<exists>t. m_contrl e form (Some (f # fs)) (Some rows) rest s = Inr t
    \<and> (let paused = strncmp_0 (c # cs) (literal ''paused'') 6;
           page = m_contrl_page form f paused (\<not> paused) rows
       in html t = html s @ page \<and> Button ''start'' \<in> set page = paused \<and> Button ''pause'' \<in> set page = (\<not> paused)
          \<and> (if paused then Pausing f else Playing f) \<in> set page)
    \<and> (\<forall>k<length commands. sent (net t) (next_fd s + int k) = commands ! k) \<and> sent (net t) fd = ''getstat''
    \<and> peers t = peers s @ map (\<lambda>k. (next_fd s + int k, ip, SERV_PORT)) [0..<length commands + 1]
    \<and> open_fds t = fd # open_fds s"
proof -
  define u where "u = told ip commands s"
  note facts = told_facts [OF assms(3), of commands, folded u_def]
  have fd: "next_fd u = fd" "sent (net u) fd = []" using facts assms(5) by (auto simp: all_up_def)
  have acts: "button_actions e form [(''start'', ''start''), (''pause'', ''pause''), (''disabletv'', ''disable_tv''),
      (''enabletv'', ''enable_tv'')] s = Inr u"
    unfolding u_def assms(4) by (rule button_actions_tell [where form = form, OF assms(3,1)]) (simp add: player_commands_def)
  define t where "t = eaten fd es (received fd ''getstat'' (joined ip SERV_PORT u))"
  define m where "m = literal ''getstat'' @ [NUL] @ rest"
  have st: "m_cntrl e m (Some ip) u = Inr (1, overlay (c # cs) m, t)"
    unfolding m_def t_def fd(1) [symmetric]
    by (rule m_cntrl_status) (use facts ev reply fd(1) in simp_all)
  define paused where "paused = strncmp_0 (c # cs) (literal ''paused'') 6"
  have flags: "status_flags (overlay (c # cs) m) = (paused, \<not> paused)"
    using answer_prefix [OF reply] by (simp add: status_flags_pause paused_def)
  define t' where "t' = t\<lparr>html := html t @ m_contrl_page form f paused (\<not> paused) rows\<rparr>"
  have "m_contrl e form (Some (f # fs)) (Some rows) rest s = Inr t'"
    using assms(1,2) acts st flags by (simp add: m_contrl_def playing_name_def m_def t'_def)
  moreover have "html t' = html s @ m_contrl_page form f paused (\<not> paused) rows"
    "open_fds t' = fd # open_fds s" "sent (net t') fd = ''getstat''"
    "peers t' = peers s @ map (\<lambda>k. (next_fd s + int k, ip, SERV_PORT)) [0..<length commands + 1]"
    using facts fd assms(5) by (simp_all add: t'_def t_def)
  moreover have "\<forall>k<length commands. sent (net t') (next_fd s + int k) = commands ! k"
    using facts assms(5) by (simp add: t'_def t_def)
  moreover have "Button ''start'' \<in> set (m_contrl_page form f paused (\<not> paused) rows) = paused"
    "Button ''pause'' \<in> set (m_contrl_page form f paused (\<not> paused) rows) = (\<not> paused)"
    "(if paused then Pausing f else Playing f) \<in> set (m_contrl_page form f paused (\<not> paused) rows)"
    using assms(1) by (auto simp: m_contrl_page_def address_option_def)
  ultimately show ?thesis unfolding Let_def paused_def [symmetric] by blast
qed

subsection \<open>Concrete runs\<close>

definition demo_site :: site where
  "demo_site = \<lparr>sock_ok = \<lambda>_. True, dial_ok = \<lambda>_ ip _. ip \<noteq> '''', open_ok = \<lambda>_. True, close_ok = \<lambda>_. True,
     max_files = 100, stack_buf = replicate 1024 NUL, stack_ofd = 9, stack_str = replicate 258 NUL\<rparr>"

definition demo_client :: "(int \<Rightarrow> event list) \<Rightarrow> client" where
  "demo_client evs = \<lparr>net = plain_wire\<lparr>events := evs\<rparr>, files = \<lambda>_. None, writes_to = \<lambda>_. None, next_fd = 3,
     open_fds = [2, 1, 0], hung_up = \<lambda>_. False, peers = [], html = []\<rparr>"

definition demo_form :: "string list \<Rightarrow> form" where
  "demo_form names f = (if f = ''ip'' then Some ''10.0.0.1'' else if f \<in> set names then Some ''7'' else None)"

lemma demo_obliging: "0 \<le> fd \<Longrightarrow> obliging (demo_client evs) fd"
  by (simp add: obliging_def demo_client_def plain_wire_def)

lemma demo_up: "player_up demo_site ''10.0.0.1'' port (demo_client evs)"
  by (simp add: player_up_def obliging_def demo_site_def demo_client_def plain_wire_def)


lemma load_page_sends_witness:
  "\<exists>t. load_page demo_site (demo_form [''xuanqu'']) (Some [''a.ts''])
      (demo_client (\<lambda>fd. if fd = 3 then [Piece CHR ''p'' ''ath'', Piece CHR ''O'' [CHR ''K'', NUL]]
         else [Piece CHR ''x'' ''y'', Piece CHR ''z'' []])) = Some (Inr t)
    \<and> sent (net t) 3 = literal ''tans'' @ ''/opt/OAK/resources/a.tsxyz''"
proof -
  define evs where "evs = (\<lambda>fd :: int. if fd = 3 then [Piece CHR ''p'' ''ath'', Piece CHR ''O'' [CHR ''K'', NUL]]
         else [Piece CHR ''x'' ''y'', Piece CHR ''z'' []])"
  let ?s = "demo_client evs"
  have nx: "next_fd ?s = 3" by (simp add: demo_client_def)
  have e: "events (net ?s) (next_fd ?s) = Piece CHR ''p'' ''ath'' # Piece CHR ''O'' [CHR ''K'', NUL] # []"
    by (simp add: nx) (simp add: demo_client_def evs_def)
  have i: "input (net ?s) (next_fd ?s + 1) = ''xyz''" "\<not> input_fails (net ?s) (next_fd ?s + 1)"
    by (simp_all add: nx) (simp_all add: demo_client_def evs_def plain_wire_def)
  have p: "strncmp_0 ''path'' (literal ''path'') 4" "strncmp_0 (literal ''OK'') [CHR ''O'', CHR ''K'', NUL] 2" by code_simp+
  have "open_ok demo_site f" for f by (simp add: demo_site_def)
  then obtain t where t: "load_page demo_site (demo_form [''xuanqu'']) (Some [''a.ts'']) ?s = Some (Inr t)"
    "sent (net t) (next_fd ?s) = literal ''tans'' @ ''/opt/OAK/resources/'' @ ''a.ts'' @
       (if strncmp_0 (literal ''OK'') [CHR ''O'', CHR ''K'', NUL] 2 then input (net ?s) (next_fd ?s + 1) else [])"
    using load_page_sends [OF _ _ _ demo_up e _ _ p(1) _ _ i(2), of "demo_form [''xuanqu'']" "''a.ts''" "[]"]
    by (auto simp: demo_form_def)
  have "sent (net t) (next_fd ?s) = literal ''tans'' @ ''/opt/OAK/resources/'' @ ''a.ts'' @ ''xyz''"
    using t(2) unfolding i(1) if_P [OF p(2)] .
  then have "sent (net t) 3 = literal ''tans'' @ ''/opt/OAK/resources/a.tsxyz''" by (simp add: nx)
  then show ?thesis using t(1) unfolding evs_def by blast
qed

lemma get_file_without_connection_witness:
  "get_file demo_site ''playlist'' ''/opt/OAK/playlist'' (Some '''') ''8080'' (demo_client (\<lambda>_. [])) = Some (Inl Killed)
   \<and> get_file (demo_site\<lparr>sock_ok := \<lambda>_. False\<rparr>) ''playlist'' ''/opt/OAK/playlist'' (Some ''10.0.0.1'') ''8080''
       (demo_client (\<lambda>_. [])) = None"
  using get_file_without_connection [of "demo_client (\<lambda>_. [])" demo_site "''''" "''8080''" "''playlist''" "''/opt/OAK/playlist''"]
    get_file_without_connection [of "demo_client (\<lambda>_. [])" "demo_site\<lparr>sock_ok := \<lambda>_. False\<rparr>" "''10.0.0.1''" "''8080''"
      "''playlist''" "''/opt/OAK/playlist''"]
  by (simp add: demo_site_def demo_client_def)

lemma m_contrl_page_follows_player_witness:
  "\<exists>t. m_contrl demo_site (demo_form [''start'']) (Some [''a.ts'']) (Some [''10.0.0.1'']) []
      (demo_client (\<lambda>_. [Piece CHR ''p'' ''laying''])) = Inr t
    \<and> Playing ''a.ts'' \<in> set (html t) \<and> sent (net t) 3 = ''start'' \<and> sent (net t) 4 = ''getstat''"
proof -
  let ?s = "demo_client (\<lambda>_. [Piece CHR ''p'' ''laying''])"
  have nx: "next_fd ?s = 3" "html ?s = []" by (simp_all add: demo_client_def)
  have up: "all_up demo_site ''10.0.0.1'' ?s"
    by (simp add: all_up_def nx demo_obliging) (simp add: demo_site_def demo_client_def plain_wire_def)
  have p: "strncmp_0 ''playing'' (literal ''playing'') 7" "\<not> strncmp_0 ''playing'' (literal ''paused'') 6" by code_simp+
  have c: "[''start''] = map snd (filter (\<lambda>b. demo_form [''start''] (fst b) \<noteq> None)
      [(''start'', ''start''), (''pause'', ''pause''), (''disabletv'', ''disable_tv''), (''enabletv'', ''enable_tv'')])"
    by (simp add: demo_form_def)
  have e: "events (net ?s) 4 = [Piece CHR ''p'' ''laying'']" by (simp add: demo_client_def)
  have f: "demo_form [''start''] ''ip'' = Some ''10.0.0.1''" by (simp add: demo_form_def)
  obtain t where "m_contrl demo_site (demo_form [''start'']) (Some [''a.ts'']) (Some [''10.0.0.1'']) [] ?s = Inr t"
    "Playing ''a.ts'' \<in> set (html t)" "sent (net t) (3 + int 0) = ''start''" "sent (net t) 4 = ''getstat''"
    using m_contrl_page_follows_player [OF _ _ up c _ e, of "''a.ts''" "[]" "[''10.0.0.1'']" "[]"] p
    f by (auto simp: Let_def nx)
  then show ?thesis by auto
qed

end
