(* ===== verification/Conf.thy ===== *)
theory Conf
  imports Control
begin

text \<open>
  The rest of \<open>src/cgi/wrap.c\<close>: reading the port from a configuration file (\<open>mstrcpy\<close>, \<open>interpret\<close>,
  \<open>getconf\<close>), splitting the arguments of a copy (\<open>get_filename\<close>, \<open>getmode\<close>, \<open>prase\<close>) and \<open>Accept\<close>.
  The pages do not call them.

  The file is read through a mapping, whose last page is filled with zeros behind the end of the
  file (\<open>mapped\<close>); reading behind it is \<open>Left_array\<close>.
\<close>

subsection \<open>The configuration file\<close>

definition mapped :: "nat \<Rightarrow> string \<Rightarrow> string" where
  "mapped page_bytes content =
     content @ replicate ((page_bytes - length content mod page_bytes) mod page_bytes) NUL"

text \<open>\<open>mstrcpy\<close> copies up to the end of the line; the second result is the index of that end.\<close>

fun mstrcpy :: "string \<Rightarrow> stop + string" where
  "mstrcpy [] = Inl Left_array"
| "mstrcpy (c # cs) =
     (if c = newline then Inr []
      else case mstrcpy cs of Inl err \<Rightarrow> Inl err | Inr v \<Rightarrow> Inr (c # v))"

text \<open>
  The loop of \<open>interpret\<close>: \<open>i\<close> counts its rounds, \<open>p\<close> is the position in the mapping, \<open>b\<close> the one in
  \<open>buf [512]\<close>, which is compared before it is written. \<open>EOF\<close> is the character \<open>0xFF\<close>.
\<close>

function interpret_loop ::
    "string \<Rightarrow> nat \<Rightarrow> nat \<Rightarrow> nat \<Rightarrow> nat \<Rightarrow> string \<Rightarrow> string \<Rightarrow> stop + string" where
  "interpret_loop m confst_size i p b buf port =
     (if i \<ge> confst_size then Inr port
      else if p \<ge> length m then Inl Left_array
      else if b \<ge> length buf then Inl Overrun
      else if m ! p = CHR ''='' \<and> takeWhile (\<lambda>c. c \<noteq> NUL) (buf[b := NUL]) = ''Port''
      then (case mstrcpy (drop (p + 1) m) of
              Inl err \<Rightarrow> Inl err
            | Inr v \<Rightarrow> interpret_loop m confst_size (i + 1) (p + 1 + length v + 1) 0 (buf[b := NUL]) v)
      else let buf = buf[b := m ! p] in
           if b + 1 \<ge> length buf then Inl Left_array
           else if buf ! (b + 1) = CHR 0xFF then Inr port
           else interpret_loop m confst_size (i + 1) (p + 1) (b + 1) buf port)"
  by pat_completeness auto
termination
  by (relation "measure (\<lambda>(m, size, i, p, b, buf, port). size - i)") auto

declare interpret_loop.simps [simp del]

definition interpret_conf :: "string \<Rightarrow> string \<Rightarrow> nat \<Rightarrow> string \<Rightarrow> stop + string" where
  "interpret_conf confp port confst_size stack = interpret_loop confp confst_size 0 0 0 stack port"

text \<open>\<open>getconf\<close>; \<open>mmap\<close> fails on an empty file.\<close>

definition getconf :: "nat \<Rightarrow> string option \<Rightarrow> string \<Rightarrow> string \<Rightarrow> stop + string" where
  "getconf page_bytes content port stack =
     (case content of
        None \<Rightarrow> Inl (Exits 1)
      | Some cs \<Rightarrow> if cs = [] then Inl (Exits 1) else interpret_conf (mapped page_bytes cs) port (length cs) stack)"

subsection \<open>The arguments of a copy\<close>

definition get_filename :: "string \<Rightarrow> stop + string" where
  "get_filename path =
     (case slash_before (literal path) (length path) of
        None \<Rightarrow> Inl Left_array
      | Some i \<Rightarrow> Inr (drop (i + 1) path))"

definition BUFLEN :: nat where "BUFLEN = 512"

text \<open>\<open>getmode\<close> with the part before the colon already in \<open>buf\<close>; the result, \<open>serpath\<close> and \<open>serip\<close>.\<close>

fun getmode_loop :: "string \<Rightarrow> string \<Rightarrow> string \<times> string \<Rightarrow> stop + int \<times> string \<times> string" where
  "getmode_loop buf [] (serpath, serip) = Inr (0, serpath, serip)"
| "getmode_loop buf (c # cs) (serpath, serip) =
     (if length buf \<ge> BUFLEN then Inl Overrun
      else if c = CHR '':'' then Inr (- 1, cs, buf)
      else getmode_loop (buf @ [c]) cs (serpath, serip))"

definition getmode :: "string \<Rightarrow> string \<Rightarrow> string \<Rightarrow> stop + int \<times> string \<times> string" where
  "getmode argv serpath serip = getmode_loop [] argv (serpath, serip)"

text \<open>
  \<open>prase\<close>: \<open>mode\<close> is \<open>None\<close> when the pointer is null, \<open>is_dir\<close> the result of \<open>stat\<close> (\<open>None\<close> when it
  fails). The results are \<open>mode\<close>, \<open>serpath\<close>, \<open>clipath\<close>, \<open>serip\<close>.
\<close>

definition prase_sides ::
    "string \<Rightarrow> string option \<Rightarrow> int option \<Rightarrow> string \<Rightarrow> string \<Rightarrow> string
     \<Rightarrow> stop + int option \<times> string \<times> string \<times> string" where
  "prase_sides argv1 argv2 mode serpath clipath serip =
     (case getmode argv1 serpath serip of
        Inl err \<Rightarrow> Inl err
      | Inr (r, serpath, serip) \<Rightarrow>
          if r < 0 then
            (if mode = None then Inr (mode, serpath, clipath, serip)
             else case argv2 of
               None \<Rightarrow> Inl Null_read
             | Some a \<Rightarrow> Inr (Some (- 1), serpath, a, serip))
          else (case argv2 of
                  None \<Rightarrow> Inr (mode, serpath, clipath, serip)
                | Some a \<Rightarrow>
                    if mode = None then Inr (mode, serpath, clipath, serip)
                    else (case getmode a serpath serip of
                            Inl err \<Rightarrow> Inl err
                          | Inr (_, serpath, serip) \<Rightarrow> Inr (Some 1, serpath, argv1, serip))))"

definition prase ::
    "(string \<Rightarrow> bool option) \<Rightarrow> string \<Rightarrow> string option \<Rightarrow> int option \<Rightarrow> string \<Rightarrow> string \<Rightarrow> string
     \<Rightarrow> stop + int option \<times> string \<times> string \<times> string" where
  "prase is_dir argv1 argv2 mode serpath clipath serip =
     (case prase_sides argv1 argv2 mode serpath clipath serip of
        Inl err \<Rightarrow> Inl err
      | Inr (mode, serpath, clipath, serip) \<Rightarrow>
          if argv2 \<noteq> None \<and> mode \<noteq> None then
            (case is_dir clipath of
               None \<Rightarrow> Inl (Exits 1)
             | Some False \<Rightarrow> Inr (mode, serpath, clipath, serip)
             | Some True \<Rightarrow>
                 if clipath = [] then Inl Left_array
                 else let clipath = (if last clipath \<noteq> CHR ''/'' then clipath @ ''/'' else clipath) in
                      case get_filename serpath of
                        Inl err \<Rightarrow> Inl err
                      | Inr name \<Rightarrow>
                          if length name \<ge> BUFLEN then Inl Overrun
                          else Inr (mode, serpath, clipath @ name, serip))
          else Inr (mode, serpath, clipath, serip))"

subsection \<open>Waiting for a connection\<close>

text \<open>The answers \<open>accept\<close> will get; \<open>None\<close> is waiting for ever, \<open>Exits 1\<close> the end in \<open>perr_exit\<close>.\<close>

datatype accepted = Caller int | Aborted | Woken | Unusable

fun Accept :: "accepted list \<Rightarrow> (stop + int \<times> accepted list) option" where
  "Accept [] = None"
| "Accept (Caller fd # as) = Some (Inr (fd, as))"
| "Accept (Aborted # as) = Accept as"
| "Accept (Woken # as) = Accept as"
| "Accept (Unusable # as) = Some (Inl (Exits 1))"

subsection \<open>What they compute\<close>

lemma get_filename_basename:
  "get_filename path = (if CHR ''/'' \<in> set path then Inr (basename path) else Inl Left_array)"
proof (cases "CHR ''/'' \<in> set path")
  case True
  then obtain a where a: "path = a @ CHR ''/'' # basename path" "CHR ''/'' \<notin> set (basename path)"
    by (rule basename_split)
  define b where "b = basename path"
  have p: "literal path = (a @ [CHR ''/'']) @ b @ [NUL]" using a(1) by (simp add: literal_def b_def)
  have len: "length path = length a + 1 + length b" using arg_cong [OF a(1), of length] by (simp add: b_def)
  have "slash_before (literal path) (length path) = Some (length a)"
  proof (rule slash_before_finds)
    show "\<forall>m. length a < m \<and> m \<le> length path \<longrightarrow> literal path ! m \<noteq> CHR ''/''"
    proof (intro allI impI)
      fix m
      assume m: "length a < m \<and> m \<le> length path"
      then have "literal path ! m = (b @ [NUL]) ! (m - length a - 1)" using len by (simp add: p nth_append)
      moreover have "(b @ [NUL]) ! (m - length a - 1) \<in> set (b @ [NUL])" using m len by (intro nth_mem) auto
      ultimately show "literal path ! m \<noteq> CHR ''/''" using a(2) by (auto simp: b_def NUL_def)
    qed
  qed (use len in \<open>simp_all add: p nth_append\<close>)
  moreover have "drop (length a + 1) path = b" using arg_cong [OF a(1), of "drop (length a + 1)"] by (simp add: b_def)
  ultimately show ?thesis using True by (simp add: get_filename_def b_def)
next
  case False
  have "slash_before (literal path) i = None" if "i \<le> length path" for i
    using that
  proof (induction i)
    case 0
    then show ?case using False by (cases path) (auto simp: literal_def NUL_def)
  next
    case (Suc i)
    have "literal path ! Suc i \<in> set (literal path)" using Suc.prems by (intro nth_mem) (simp add: literal_def)
    then have "literal path ! Suc i \<noteq> CHR ''/''" using False by (auto simp: literal_def NUL_def)
    then show ?case using Suc by simp
  qed
  then show ?thesis using False by (simp add: get_filename_def)
qed

lemma getmode_loop_splits:
  "length buf + length (takeWhile (\<lambda>c. c \<noteq> CHR '':'') argv) < BUFLEN \<Longrightarrow>
   getmode_loop buf argv (serpath, serip) =
     Inr (if CHR '':'' \<in> set argv
          then (- 1, tl (dropWhile (\<lambda>c. c \<noteq> CHR '':'') argv), buf @ takeWhile (\<lambda>c. c \<noteq> CHR '':'') argv)
          else (0, serpath, serip))"
  by (induction argv arbitrary: buf) auto

lemma getmode_splits:
  "length (takeWhile (\<lambda>c. c \<noteq> CHR '':'') argv) < BUFLEN \<Longrightarrow>
   getmode argv serpath serip =
     Inr (if CHR '':'' \<in> set argv
          then (- 1, tl (dropWhile (\<lambda>c. c \<noteq> CHR '':'') argv), takeWhile (\<lambda>c. c \<noteq> CHR '':'') argv)
          else (0, serpath, serip))"
  using getmode_loop_splits [of "[]" argv serpath serip] by (simp add: getmode_def)

text \<open>Fetching \<open>ip:path\<close> into a directory appends the name of the file to it.\<close>

lemma prase_fetches_into_directory:
  assumes "CHR '':'' \<notin> set ip" and "length ip < BUFLEN" and "is_dir dir = Some True" and "dir \<noteq> []"
    and "CHR ''/'' \<in> set path" and "length (basename path) < BUFLEN"
  shows "prase is_dir (ip @ CHR '':'' # path) (Some dir) (Some m) serpath clipath serip =
    Inr (Some (- 1), path, (if last dir = CHR ''/'' then dir else dir @ ''/'') @ basename path, ip)"
proof -
  have "takeWhile (\<lambda>c. c \<noteq> CHR '':'') (ip @ CHR '':'' # path) = ip"
    "dropWhile (\<lambda>c. c \<noteq> CHR '':'') (ip @ CHR '':'' # path) = CHR '':'' # path"
    using assms(1) by (auto simp add: takeWhile_append dropWhile_append)
  then have "getmode (ip @ CHR '':'' # path) serpath serip = Inr (- 1, path, ip)"
    using getmode_splits [of "ip @ CHR '':'' # path" serpath serip] assms(2) by simp
  then show ?thesis using assms by (simp add: prase_def prase_sides_def get_filename_basename Let_def)
qed

text \<open>
  The port is found when it stands in the first line; the buffer is not reset at the end of a line,
  so it is not found behind another setting. Since \<open>i\<close> does not count the value, the loop
  reads on behind the end of the file.
\<close>

lemma interpret_finds_first_line:
  "getconf 64 (Some (''Port=8080'' @ [newline])) [] (replicate 512 NUL) = Inr ''8080''"
  by code_simp

lemma interpret_misses_second_line:
  "getconf 64 (Some (''Dir=x'' @ [newline] @ ''Port=8080'' @ [newline])) [] (replicate 512 NUL) = Inr []"
  by code_simp

lemma interpret_leaves_mapping:
  "getconf 10 (Some (''Port=8080'' @ [newline])) [] (replicate 512 NUL) = Inl Left_array"
  by code_simp

lemma Accept_takes_first:
  "set us \<subseteq> {Aborted, Woken} \<Longrightarrow> Accept (us @ Caller fd # as) = Some (Inr (fd, as))"
  by (induction us) auto

end
